(* ===== verification/Sdpa_Prelude.thy ===== *)
theory Sdpa_Prelude
  imports Main "HOL-Library.Word" "HOL-Library.Monad_Syntax" "HOL-Library.Multiset"
begin

text \<open>
  Types, collections of rewrite rules and generic lemmas shared by every
  component.

  \<^item> The machine integers of the switch are words.  The build that is checked in
    (\<^verbatim>\<open>sdpa-ovs/config.log\<close>) is for i686 Linux: \<open>size_t\<close>, \<open>unsigned int\<close> and
    pointers have 32 bits, the byte order is little endian, and a
    \<^verbatim>\<open>uint64_t\<close> inside a struct is aligned to 4 bytes.
  \<^item> \<open>None\<close> as the result of an operation means that the C execution has no
    defined result there: an access outside an object, a dereferenced null
    pointer, a read of an uninitialised object, or a failed \<^verbatim>\<open>ovs_assert\<close>,
    which aborts the process.
\<close>

unbundle bit_operations_syntax

type_synonym u8 = "8 word"
type_synonym u16 = "16 word"
type_synonym u32 = "32 word"
type_synonym u64 = "64 word"

text \<open>\<open>size_t\<close> of the i686 build.\<close>

type_synonym size_t = "32 word"

text \<open>An address of an object in memory.\<close>

type_synonym addr = nat

named_theorems byte_simps "reading and writing integers in byte buffers"
named_theorems word_inj "injectivity of the mixing steps of hash functions"


section \<open>Lists\<close>

lemma in_set_tlD: "x \<in> set (tl xs) \<Longrightarrow> x \<in> set xs"
  by (cases xs) auto

lemma last_notin_butlast: "distinct xs \<Longrightarrow> xs \<noteq> [] \<Longrightarrow> last xs \<notin> set (butlast xs)"
  by (cases xs rule: rev_cases) auto

lemma hd_notin_tl: "distinct xs \<Longrightarrow> xs \<noteq> [] \<Longrightarrow> hd xs \<notin> set (tl xs)"
  by (cases xs) auto

lemma hd_append_singleton_in: "hd (ys @ [l]) \<in> insert l (set ys)"
  by (cases ys) auto

lemma Cons_eq_snoc: "x # xs = butlast (x # xs) @ [last (x # xs)]"
  by (simp del: butlast.simps last.simps)

lemma snoc_eq_Cons: "ys @ [l] = hd (ys @ [l]) # tl (ys @ [l])"
  by simp


section \<open>Integers in byte buffers\<close>

text \<open>
  \<open>be_word\<close> is the integer whose big-endian representation is the given byte
  string, what \<^verbatim>\<open>ntohl\<close> and \<^verbatim>\<open>ntohll\<close> return; \<open>le_word\<close> reads the bytes in the
  order of the host.
\<close>

definition be_word :: "u8 list \<Rightarrow> 'a::len word" where
  "be_word bs = foldl (\<lambda>acc b. push_bit 8 acc OR ucast b) 0 bs"

definition le_word :: "u8 list \<Rightarrow> 'a::len word" where
  "le_word bs = be_word (rev bs)"

text \<open>\<open>rd_bytes bs i n\<close> reads \<open>n\<close> bytes at offset \<open>i\<close> of the buffer \<open>bs\<close>.\<close>

definition rd_bytes :: "u8 list \<Rightarrow> nat \<Rightarrow> nat \<Rightarrow> u8 list option" where
  "rd_bytes bs i n = (if i + n \<le> length bs then Some (take n (drop i bs)) else None)"

definition rd_be32 :: "u8 list \<Rightarrow> nat \<Rightarrow> u32 option" where
  "rd_be32 bs i = map_option be_word (rd_bytes bs i 4)"

definition rd_be64 :: "u8 list \<Rightarrow> nat \<Rightarrow> u64 option" where
  "rd_be64 bs i = map_option be_word (rd_bytes bs i 8)"

definition rd_host32 :: "u8 list \<Rightarrow> nat \<Rightarrow> u32 option" where
  "rd_host32 bs i = map_option le_word (rd_bytes bs i 4)"

text \<open>The big-endian representation of a word in \<open>n\<close> bytes.\<close>

definition be_bytes :: "nat \<Rightarrow> 'a::len word \<Rightarrow> u8 list" where
  "be_bytes n w = map (\<lambda>i. ucast (drop_bit (8 * (n - 1 - i)) w)) [0..<n]"

abbreviation be32 :: "u32 \<Rightarrow> u8 list" where "be32 \<equiv> be_bytes 4"
abbreviation be64 :: "u64 \<Rightarrow> u8 list" where "be64 \<equiv> be_bytes 8"

lemma length_be_bytes [simp]: "length (be_bytes n w) = n"
  by (simp add: be_bytes_def)

lemma be_word_snoc: "be_word (bs @ [b]) = push_bit 8 (be_word bs) OR ucast b"
  by (simp add: be_word_def)

lemma bit_be_word:
  "bit (be_word bs :: 'a::len word) n \<longleftrightarrow>
     n < LENGTH('a) \<and> n div 8 < length bs \<and> bit (rev bs ! (n div 8)) (n mod 8)"
proof (induction bs arbitrary: n rule: rev_induct)
  case Nil
  then show ?case by (simp add: be_word_def)
next
  case (snoc b bs)
  show ?case
  proof (cases "n < 8")
    case True
    then show ?thesis
      by (simp add: be_word_snoc bit_or_iff bit_push_bit_iff bit_ucast_iff)
  next
    case False
    then have "n div 8 = Suc ((n - 8) div 8)" and "n mod 8 = (n - 8) mod 8"
      by (simp_all add: le_div_geq le_mod_geq)
    moreover have "\<not> bit b n"
      using False bit_imp_le_length [of b n] by auto
    ultimately show ?thesis
      using False snoc.IH [of "n - 8"]
      by (auto simp: be_word_snoc bit_or_iff bit_push_bit_iff bit_ucast_iff)
  qed
qed

lemma rev_be_bytes_nth:
  "k < n \<Longrightarrow> rev (be_bytes n w) ! k = ucast (drop_bit (8 * k) w)"
  by (simp add: be_bytes_def rev_nth)

lemma be_word_be_bytes:
  fixes w :: "'a::len word"
  assumes "LENGTH('a) \<le> 8 * n"
  shows "be_word (be_bytes n w) = w"
proof (rule bit_eqI)
  fix k
  assume "possible_bit TYPE('a word) k"
  then have "k < LENGTH('a)" by simp
  then have "k div 8 < n" using assms by (simp add: less_mult_imp_div_less mult.commute)
  with \<open>k < LENGTH('a)\<close> show "bit (be_word (be_bytes n w) :: 'a word) k = bit w k"
    by (simp add: bit_be_word rev_be_bytes_nth bit_ucast_iff bit_drop_bit_eq)
qed

text \<open>A word has room for the bytes it is read from: distinct byte strings are distinct words.\<close>

lemma be_word_inj:
  assumes len: "length xs = length ys" "8 * length xs \<le> LENGTH('a)"
    and eq: "(be_word xs :: 'a::len word) = be_word ys"
  shows "xs = ys"
proof -
  have "rev xs = rev ys"
  proof (rule nth_equalityI)
    fix k
    assume k: "k < length (rev xs)"
    show "rev xs ! k = rev ys ! k"
    proof (rule bit_eqI)
      fix n
      assume "possible_bit TYPE(u8) n"
      then have n: "n < 8" by simp
      have "8 * k + n < LENGTH('a)" using k n len by simp
      moreover have "(8 * k + n) div 8 = k" "(8 * k + n) mod 8 = n" using n by simp_all
      ultimately show "bit (rev xs ! k) n = bit (rev ys ! k) n"
        using bit_be_word [of xs "8 * k + n", where 'a = 'a] bit_be_word [of ys "8 * k + n", where 'a = 'a]
          eq k len by simp
    qed
  qed (simp add: len)
  then show ?thesis by simp
qed

lemma le_word_inj:
  "length xs = length ys \<Longrightarrow> 8 * length xs \<le> LENGTH('a) \<Longrightarrow>
   (le_word xs :: 'a::len word) = le_word ys \<Longrightarrow> xs = ys"
  using be_word_inj [of "rev xs" "rev ys", where 'a = 'a] by (simp add: le_word_def)

lemma be_word_be32 [byte_simps]: "be_word (be32 w) = w"
  by (rule be_word_be_bytes) simp

lemma be_word_be64 [byte_simps]: "be_word (be64 w) = w"
  by (rule be_word_be_bytes) simp

text \<open>Reading in a buffer of the form \<open>prefix @ field @ rest\<close>.\<close>

lemma rd_bytes_at:
  "i = length pre \<Longrightarrow> n = length x \<Longrightarrow> rd_bytes (pre @ x @ post) i n = Some x"
  by (simp add: rd_bytes_def)

lemma rd_be32_at: "i = length pre \<Longrightarrow> rd_be32 (pre @ be32 w @ post) i = Some w"
  by (simp add: rd_be32_def rd_bytes_at byte_simps)

lemma rd_be64_at: "i = length pre \<Longrightarrow> rd_be64 (pre @ be64 w @ post) i = Some w"
  by (simp add: rd_be64_def rd_bytes_at byte_simps)

section \<open>Words as numbers\<close>

lemma unat_2p: "unat (2 ^ k :: u32) = 2 ^ k" if "k < 32"
proof -
  have "(2::nat) ^ k < 2 ^ 32" using that by (intro power_strict_increasing) auto
  moreover have "unat (of_nat (2 ^ k) :: u32) = 2 ^ k mod 2 ^ 32" by (simp add: unat_of_nat del: of_nat_power)
  ultimately show ?thesis by simp
qed

lemma unat_and_2p: "unat (x AND (2 ^ k - 1)) = unat x mod 2 ^ k" for x :: u32
proof -
  have "x AND (2 ^ k - 1) = take_bit k x" by (simp add: take_bit_eq_mask mask_eq_exp_minus_1)
  moreover have "unat (take_bit k x) = take_bit k (unat x)" by (simp only: unsigned_take_bit_eq)
  ultimately show ?thesis by (simp only: take_bit_eq_mod)
qed

lemma sint_unat: "sint x = int (unat x)" if "unat x < 2 ^ 31" for x :: u32
proof -
  have "int (unat x) < 2 ^ 31" using that by (metis of_nat_less_iff of_nat_numeral of_nat_power)
  then show ?thesis using int_word_sint [of "int (unat x)", where 'a = 32] by simp
qed

lemma unat_add_mod: "unat (x + y) mod 2 ^ k = (unat x + unat y) mod 2 ^ k" if "k \<le> 32" for x y :: u32
proof -
  have "unat (x + y) = (unat x + unat y) mod 2 ^ 32" by (simp add: unat_word_ariths)
  moreover have "(2::nat) ^ k dvd 2 ^ 32" using that by (rule le_imp_power_dvd)
  ultimately show ?thesis by (simp only: mod_mod_cancel)
qed

lemma unat_sub_le: "y \<le> x \<Longrightarrow> unat (x - y) = unat x - unat y" for x y :: u32
  by (simp add: unat_sub_if' word_le_nat_alt)

lemma unat_add_small: "unat x + unat y < 2 ^ 32 \<Longrightarrow> unat (x + y) = unat x + unat y" for x y :: u32
  by (simp add: unat_word_ariths)

end
