(* ===== verification/Ovs_Hmap.thy ===== *)
theory Ovs_Hmap
  imports Sdpa_Prelude
begin

text \<open>
  The hash map of \<^verbatim>\<open>lib/hmap.c\<close> and \<^verbatim>\<open>lib/hmap.h\<close>.

  A bucket is the chain of nodes that starts in it.  A node carries its address,
  its hash and the object it is embedded in; a pointer to a node, from which the
  code goes on to \<^verbatim>\<open>node->next\<close>, is the rest of the chain that starts with the
  node, and the empty rest is the null pointer.  The inline bucket \<^verbatim>\<open>one\<close> that a
  map with \<open>mask = 0\<close> uses is the single element of \<open>buckets\<close>.
\<close>

record 'a hmap_node =
  hn_addr :: addr
  hn_hash :: size_t
  hn_data :: 'a

type_synonym 'a chain = "'a hmap_node list"

record 'a hmap =
  hm_buckets :: "'a chain list"
  hm_mask :: size_t
  hm_n :: size_t

section \<open>Operations\<close>

definition hmap_init :: "'a hmap" where
  "hmap_init = \<lparr>hm_buckets = [[]], hm_mask = 0, hm_n = 0\<rparr>"

definition hmap_clear :: "'a hmap \<Rightarrow> 'a hmap" where
  "hmap_clear h =
     (if hm_n h > 0 then h\<lparr>hm_n := 0, hm_buckets := replicate (unat (hm_mask h) + 1) []\<rparr> else h)"

definition hmap_swap :: "'a hmap \<Rightarrow> 'a hmap \<Rightarrow> 'a hmap \<times> 'a hmap" where
  "hmap_swap a b = (b, a)"

definition hmap_count :: "'a hmap \<Rightarrow> size_t" where
  "hmap_count h = hm_n h"

definition hmap_capacity :: "'a hmap \<Rightarrow> size_t" where
  "hmap_capacity h = hm_mask h * 2 + 1"

definition hmap_is_empty :: "'a hmap \<Rightarrow> bool" where
  "hmap_is_empty h \<longleftrightarrow> hm_n h = 0"

abbreviation bucket_of :: "'a hmap \<Rightarrow> size_t \<Rightarrow> nat" where
  "bucket_of h hash \<equiv> unat (hash AND hm_mask h)"

definition hmap_insert_fast :: "'a hmap \<Rightarrow> 'a hmap_node \<Rightarrow> size_t \<Rightarrow> 'a hmap" where
  "hmap_insert_fast h node hash =
     (let i = bucket_of h hash;
          node = node\<lparr>hn_hash := hash\<rparr>
      in h\<lparr>hm_buckets := (hm_buckets h)[i := node # hm_buckets h ! i], hm_n := hm_n h + 1\<rparr>)"

definition is_pow2 :: "u64 \<Rightarrow> bool" where
  "is_pow2 x \<longleftrightarrow> x \<noteq> 0 \<and> x AND (x - 1) = 0"

text \<open>
  The size of an array of \<open>new_mask + 1\<close> pointers of 4 bytes is computed in \<^verbatim>\<open>size_t\<close>.  When it wraps, the array that
  \<^verbatim>\<open>xmalloc\<close> returns is too small for the loop that clears the buckets.
\<close>

definition buckets_fit :: "size_t \<Rightarrow> bool" where
  "buckets_fit new_mask \<longleftrightarrow> unat (4 * (new_mask + 1)) = 4 * (unat new_mask + 1)"

text \<open>
  \<^verbatim>\<open>resize\<close>: the nodes move one by one, bucket after bucket, to a table of the
  new size; \<open>None\<close> is the failed assertion.  The debug log is left out.  A map that expands or shrinks gets at most
  one bucket per node, or four, and a node takes 8 bytes of the address space: the size of the array wraps for
  \<^verbatim>\<open>hmap_reserve_at\<close> only, where the check stands.
\<close>

definition resize :: "'a hmap \<Rightarrow> size_t \<Rightarrow> 'a hmap option" where
  "resize h new_mask =
     (if is_pow2 (ucast (new_mask + 1))
      then
        let tmp = hmap_init;
            tmp = (if new_mask \<noteq> 0
                   then tmp\<lparr>hm_buckets := replicate (unat new_mask + 1) [], hm_mask := new_mask\<rparr>
                   else tmp);
            tmp = fold (\<lambda>bucket tmp.
                     fold (\<lambda>node tmp. hmap_insert_fast tmp node (hn_hash node)) bucket tmp)
                   (take (unat (hm_mask h) + 1) (hm_buckets h)) tmp
        in Some (fst (hmap_swap h tmp))
      else None)"

definition calc_mask :: "size_t \<Rightarrow> size_t" where
  "calc_mask capacity =
     (let mask = capacity div 2;
          mask = mask OR drop_bit 1 mask;
          mask = mask OR drop_bit 2 mask;
          mask = mask OR drop_bit 4 mask;
          mask = mask OR drop_bit 8 mask;
          mask = mask OR drop_bit 16 mask;
          mask = mask OR push_bit 1 (mask AND 1)
      in mask)"

definition hmap_expand_at :: "'a hmap \<Rightarrow> 'a hmap option" where
  "hmap_expand_at h =
     (let new_mask = calc_mask (hm_n h)
      in if new_mask > hm_mask h then resize h new_mask else Some h)"

definition hmap_shrink_at :: "'a hmap \<Rightarrow> 'a hmap option" where
  "hmap_shrink_at h =
     (let new_mask = calc_mask (hm_n h)
      in if new_mask < hm_mask h then resize h new_mask else Some h)"

definition hmap_reserve_at :: "'a hmap \<Rightarrow> size_t \<Rightarrow> 'a hmap option" where
  "hmap_reserve_at h capacity =
     (let new_mask = calc_mask capacity
      in if new_mask > hm_mask h then if buckets_fit new_mask then resize h new_mask else None
         else Some h)"

definition hmap_insert_at :: "'a hmap \<Rightarrow> 'a hmap_node \<Rightarrow> size_t \<Rightarrow> 'a hmap option" where
  "hmap_insert_at h node hash =
     (let h = hmap_insert_fast h node hash
      in if hm_n h div 2 > hm_mask h then hmap_expand_at h else Some h)"

text \<open>
  The walk of \<open>hmap_remove\<close>, \<open>hmap_replace\<close> and \<open>hmap_node_moved\<close> from the
  bucket to the link that points to the node; it dereferences a null pointer
  when the node is not in the chain.
\<close>

fun chain_relink :: "('a chain \<Rightarrow> 'a chain) \<Rightarrow> addr \<Rightarrow> 'a chain \<Rightarrow> 'a chain option" where
  "chain_relink f a [] = None"
| "chain_relink f a (x # xs) =
     (if hn_addr x = a then Some (f (x # xs)) else map_option (\<lambda>c. x # c) (chain_relink f a xs))"

definition hmap_remove :: "'a hmap \<Rightarrow> 'a hmap_node \<Rightarrow> 'a hmap option" where
  "hmap_remove h node =
     (let i = bucket_of h (hn_hash node)
      in map_option (\<lambda>c. h\<lparr>hm_buckets := (hm_buckets h)[i := c], hm_n := hm_n h - 1\<rparr>)
           (chain_relink tl (hn_addr node) (hm_buckets h ! i)))"

definition hmap_replace :: "'a hmap \<Rightarrow> 'a hmap_node \<Rightarrow> 'a hmap_node \<Rightarrow> 'a hmap option" where
  "hmap_replace h old_node new_node =
     (let i = bucket_of h (hn_hash old_node);
          new_node = new_node\<lparr>hn_hash := hn_hash old_node\<rparr>
      in map_option (\<lambda>c. h\<lparr>hm_buckets := (hm_buckets h)[i := c]\<rparr>)
           (chain_relink (\<lambda>c. new_node # tl c) (hn_addr old_node) (hm_buckets h ! i)))"

text \<open>\<open>old_node\<close> has moved to another address; its members are unchanged.\<close>

definition hmap_node_moved :: "'a hmap \<Rightarrow> addr \<Rightarrow> 'a hmap_node \<Rightarrow> 'a hmap option" where
  "hmap_node_moved h old_addr node =
     (let i = bucket_of h (hn_hash node)
      in map_option (\<lambda>c. h\<lparr>hm_buckets := (hm_buckets h)[i := c]\<rparr>)
           (chain_relink (\<lambda>c. node # tl c) old_addr (hm_buckets h ! i)))"

subsection \<open>Search\<close>

text \<open>\<^verbatim>\<open>hmap_next_with_hash__\<close>.\<close>

fun hmap_next_with_hash0 :: "'a chain \<Rightarrow> size_t \<Rightarrow> 'a chain" where
  "hmap_next_with_hash0 [] hash = []"
| "hmap_next_with_hash0 (node # rest) hash =
     (if hn_hash node \<noteq> hash then hmap_next_with_hash0 rest hash else node # rest)"

definition hmap_first_with_hash :: "'a hmap \<Rightarrow> size_t \<Rightarrow> 'a chain" where
  "hmap_first_with_hash h hash = hmap_next_with_hash0 (hm_buckets h ! bucket_of h hash) hash"

definition hmap_first_in_bucket :: "'a hmap \<Rightarrow> size_t \<Rightarrow> 'a chain" where
  "hmap_first_in_bucket h hash = hm_buckets h ! bucket_of h hash"

definition hmap_next_in_bucket :: "'a chain \<Rightarrow> 'a chain" where
  "hmap_next_in_bucket node = tl node"

definition hmap_next_with_hash :: "'a chain \<Rightarrow> 'a chain" where
  "hmap_next_with_hash node = hmap_next_with_hash0 (tl node) (hn_hash (hd node))"

text \<open>
  \<^verbatim>\<open>HMAP_FOR_EACH_WITH_HASH\<close> with a body that breaks at the first node that
  satisfies \<open>P\<close>; \<open>None\<close> when the loop ends at the null pointer.
\<close>

lemma length_hmap_next_with_hash0: "length (hmap_next_with_hash0 c hash) \<le> length c"
  by (induction c) auto

function hmap_for_each_with_hash_loop :: "('a hmap_node \<Rightarrow> bool) \<Rightarrow> 'a chain \<Rightarrow> 'a hmap_node option" where
  "hmap_for_each_with_hash_loop P [] = None"
| "hmap_for_each_with_hash_loop P (node # rest) =
     (if P node then Some node
      else hmap_for_each_with_hash_loop P (hmap_next_with_hash (node # rest)))"
  by pat_completeness auto
termination
  by (relation "measure (\<lambda>(P, c). length c)")
    (auto simp: hmap_next_with_hash_def less_Suc_eq_le length_hmap_next_with_hash0)

definition hmap_for_each_with_hash ::
    "('a hmap_node \<Rightarrow> bool) \<Rightarrow> size_t \<Rightarrow> 'a hmap \<Rightarrow> 'a hmap_node option" where
  "hmap_for_each_with_hash P hash h = hmap_for_each_with_hash_loop P (hmap_first_with_hash h hash)"

fun hmap_contains_loop :: "addr \<Rightarrow> 'a chain \<Rightarrow> bool" where
  "hmap_contains_loop a [] \<longleftrightarrow> False"
| "hmap_contains_loop a (p # rest) \<longleftrightarrow> hn_addr p = a \<or> hmap_contains_loop a rest"

definition hmap_contains :: "'a hmap \<Rightarrow> 'a hmap_node \<Rightarrow> bool" where
  "hmap_contains h node \<longleftrightarrow> hmap_contains_loop (hn_addr node) (hmap_first_in_bucket h (hn_hash node))"

subsection \<open>Iteration\<close>

text \<open>\<^verbatim>\<open>hmap_next__\<close>: the first node of the buckets from \<open>start\<close> on.\<close>

definition hmap_next0 :: "'a hmap \<Rightarrow> nat \<Rightarrow> 'a chain" where
  "hmap_next0 h start =
     (case dropWhile (\<lambda>c. c = []) (drop start (take (unat (hm_mask h) + 1) (hm_buckets h))) of
        [] \<Rightarrow> [] | c # _ \<Rightarrow> c)"

definition hmap_first :: "'a hmap \<Rightarrow> 'a chain" where
  "hmap_first h = hmap_next0 h 0"

definition hmap_next :: "'a hmap \<Rightarrow> 'a chain \<Rightarrow> 'a chain" where
  "hmap_next h node =
     (if tl node \<noteq> [] then tl node else hmap_next0 h (unat ((hn_hash (hd node) AND hm_mask h) + 1)))"

text \<open>The nodes \<^verbatim>\<open>HMAP_FOR_EACH\<close> visits, in order.\<close>

partial_function (option) hmap_for_each_loop :: "'a hmap \<Rightarrow> 'a chain \<Rightarrow> 'a hmap_node list \<Rightarrow> 'a hmap_node list option" where
  "hmap_for_each_loop h node acc =
     (if node \<noteq> [] then hmap_for_each_loop h (hmap_next h node) (acc @ [hd node]) else Some acc)"

definition hmap_for_each :: "'a hmap \<Rightarrow> 'a hmap_node list option" where
  "hmap_for_each h = hmap_for_each_loop h (hmap_first h) []"

section \<open>The size of the table\<close>

text \<open>\<open>smear r w x\<close>: \<open>x\<close> has the bits of \<open>w\<close> and of its right shifts by less than \<open>r\<close>.\<close>

definition smear :: "nat \<Rightarrow> u32 \<Rightarrow> u32 \<Rightarrow> bool" where
  "smear r w x \<longleftrightarrow> (\<forall>i. bit x i \<longleftrightarrow> (\<exists>d<r. bit w (i + d)))"

lemma smear_start: "smear 1 w w"
  by (simp add: smear_def)

lemma smear_double:
  assumes "smear r w x"
  shows "smear (2 * r) w (x OR drop_bit r x)"
  unfolding smear_def
proof (intro allI)
  fix i
  have "bit (x OR drop_bit r x) i \<longleftrightarrow> (\<exists>d<r. bit w (i + d)) \<or> (\<exists>d<r. bit w (i + r + d))"
    using assms by (simp add: smear_def bit_or_iff bit_drop_bit_eq ac_simps)
  also have "\<dots> \<longleftrightarrow> (\<exists>d<2 * r. bit w (i + d))"
  proof
    assume "\<exists>d<2 * r. bit w (i + d)"
    then obtain d where d: "d < 2 * r" "bit w (i + d)" by blast
    show "(\<exists>d<r. bit w (i + d)) \<or> (\<exists>d<r. bit w (i + r + d))"
    proof (cases "d < r")
      case False
      then have "d - r < r" "bit w (i + r + (d - r))" using d by simp_all
      then show ?thesis by blast
    qed (use d in blast)
  next
    assume "(\<exists>d<r. bit w (i + d)) \<or> (\<exists>d<r. bit w (i + r + d))"
    then show "\<exists>d<2 * r. bit w (i + d)"
    proof
      assume "\<exists>d<r. bit w (i + r + d)"
      then obtain d where "d < r" "bit w (i + (r + d))" by (auto simp: ac_simps)
      then show ?thesis by (intro exI [of _ "r + d"]) auto
    next
      assume "\<exists>d<r. bit w (i + d)"
      then obtain d where "d < r" "bit w (i + d)" by blast
      then show ?thesis by (intro exI [of _ d]) auto
    qed
  qed
  finally show "bit (x OR drop_bit r x) i \<longleftrightarrow> (\<exists>d<2 * r. bit w (i + d))" .
qed

lemma nat_bits_below:
  fixes m :: nat
  shows "(\<forall>i\<ge>k. \<not> bit m i) \<longleftrightarrow> m < 2 ^ k"
proof -
  have "(\<forall>i\<ge>k. \<not> bit m i) \<longleftrightarrow> take_bit k m = m"
  proof
    assume "\<forall>i\<ge>k. \<not> bit m i"
    then show "take_bit k m = m"
      by (intro bit_eqI) (metis bit_take_bit_iff linorder_not_less)
  next
    assume "take_bit k m = m"
    then show "\<forall>i\<ge>k. \<not> bit m i" by (metis bit_take_bit_iff linorder_not_less)
  qed
  then show ?thesis by (simp add: take_bit_nat_eq_self_iff)
qed

text \<open>The number of significant bits of a word.\<close>

lemma significant_bits:
  fixes w :: u32
  obtains k where "k \<le> 32" "\<And>i. i < k \<longleftrightarrow> (\<exists>j\<ge>i. bit w j)"
    "unat w < 2 ^ k" "k > 0 \<Longrightarrow> 2 ^ (k - 1) \<le> unat w"
proof -
  let ?P = "\<lambda>k. \<forall>i\<ge>k. \<not> bit w i"
  define k where "k = (LEAST k. ?P k)"
  have P32: "?P 32" using bit_imp_le_length [of w] by fastforce
  then have Pk: "?P k" and k32: "k \<le> 32" unfolding k_def by (rule LeastI, rule Least_le)
  have iff: "i < k \<longleftrightarrow> (\<exists>j\<ge>i. bit w j)" for i
  proof
    assume "i < k"
    then show "\<exists>j\<ge>i. bit w j" unfolding k_def using not_less_Least by blast
  next
    assume "\<exists>j\<ge>i. bit w j"
    with Pk show "i < k" by (meson linorder_not_less order_trans)
  qed
  have lt: "unat w < 2 ^ i \<longleftrightarrow> k \<le> i" for i
    using nat_bits_below [of i "unat w"] iff [of i] by (auto simp: bit_unsigned_iff not_less)
  have "k > 0 \<Longrightarrow> 2 ^ (k - 1) \<le> unat w" using lt [of "k - 1"] by (simp add: not_less [symmetric])
  with lt [of k] show thesis using that k32 iff by blast
qed

lemma smear_all:
  assumes "smear 32 w x" "\<And>i. i < k \<longleftrightarrow> (\<exists>j\<ge>i. bit w j)"
  shows "bit x i \<longleftrightarrow> i < k"
proof
  assume "bit x i"
  then obtain d where "bit w (i + d)" using assms(1) by (auto simp: smear_def)
  then show "i < k" using assms(2) le_add1 by blast
next
  assume "i < k"
  then obtain j where j: "i \<le> j" "bit w j" using assms by blast
  then have "j - i < 32" using bit_imp_le_length [of w j] by simp
  then show "bit x i" using assms(1) j unfolding smear_def by (metis le_add_diff_inverse)
qed

lemma calc_mask_bits:
  obtains k where "k \<le> 31" "unat capacity div 2 < 2 ^ k" "k > 0 \<Longrightarrow> 2 ^ (k - 1) \<le> unat capacity div 2"
    "\<And>i. bit (calc_mask capacity) i \<longleftrightarrow> i < k \<or> k = 1 \<and> i = 1"
proof -
  define w where "w = capacity div 2"
  define x where "x = (let m = w OR drop_bit 1 w; m = m OR drop_bit 2 m; m = m OR drop_bit 4 m;
      m = m OR drop_bit 8 m in m OR drop_bit 16 m)"
  have "smear 32 w x"
    unfolding x_def Let_def
    using smear_double [OF smear_double [OF smear_double [OF smear_double [OF smear_double
            [OF smear_start [of w]]]]]] by simp
  moreover have w: "unat w = unat capacity div 2" by (simp add: w_def unat_div)
  obtain k where k: "\<And>i. i < k \<longleftrightarrow> (\<exists>j\<ge>i. bit w j)"
    "unat w < 2 ^ k" "k > 0 \<Longrightarrow> 2 ^ (k - 1) \<le> unat w" using significant_bits [of w] by metis
  ultimately have x: "bit x i \<longleftrightarrow> i < k" for i by (intro smear_all) auto
  have "unat capacity < 2 ^ 32" using unsigned_less [of capacity, where ?'a = nat] by simp
  then have "unat w < 2 ^ 31" using w by simp
  have k31: "k \<le> 31"
  proof (rule ccontr)
    assume "\<not> k \<le> 31"
    then have "(2::nat) ^ 31 \<le> 2 ^ (k - 1)" by (intro power_increasing) auto
    also have "\<dots> \<le> unat w" using k(3) \<open>\<not> k \<le> 31\<close> by simp
    finally show False using \<open>unat w < 2 ^ 31\<close> by simp
  qed
  have eq: "calc_mask capacity = x OR push_bit 1 (x AND 1)"
    unfolding calc_mask_def x_def w_def Let_def ..
  have last: "bit (push_bit 1 (x AND 1)) i \<longleftrightarrow> i = 1 \<and> 0 < k" for i
    unfolding bit_push_bit_iff bit_and_iff bit_1_iff x by auto
  have "bit (calc_mask capacity) i \<longleftrightarrow> i < k \<or> k = 1 \<and> i = 1" for i
    unfolding eq bit_or_iff x last by auto
  then show thesis using that k31 k(2,3) w by simp
qed

text \<open>
  The mask is all ones, so the size of the table is a power of two; the table
  has at least one bucket for every two nodes, and fewer than twice as many
  unless it has the minimal size of 4.
\<close>

lemma calc_mask_unat:
  obtains k where "k \<le> 31" "unat (calc_mask capacity) = 2 ^ k - 1"
    "unat capacity div 2 \<le> unat (calc_mask capacity)"
    "unat (calc_mask capacity) \<le> max 3 (2 * (unat capacity div 2))"
proof -
  obtain k where k: "k \<le> 31" "unat capacity div 2 < 2 ^ k" "k > 0 \<Longrightarrow> 2 ^ (k - 1) \<le> unat capacity div 2"
    "\<And>i. bit (calc_mask capacity) i \<longleftrightarrow> i < k \<or> k = 1 \<and> i = 1" by (rule calc_mask_bits [of capacity]) blast
  let ?l = "if k = 1 then 2 else k"
  have "unat (calc_mask capacity) = Bit_Operations.mask ?l"
    using k(1) by (intro bit_eqI) (auto simp: bit_mask_iff bit_unsigned_iff k(4))
  then have u: "unat (calc_mask capacity) = 2 ^ ?l - 1"
    by (simp add: mask_eq_exp_minus_1)
  have "unat (calc_mask capacity) \<le> max 3 (2 * (unat capacity div 2))"
  proof (cases "k \<le> 1")
    case False
    then have "(2::nat) ^ k = 2 * 2 ^ (k - 1)" by (cases k) auto
    with False k(3) show ?thesis using u by auto
  qed (use u in \<open>auto simp: le_Suc_eq\<close>)
  moreover have "unat capacity div 2 \<le> unat (calc_mask capacity)"
    using u k(2) by (auto split: if_splits)
  moreover have "?l \<le> 31" using k(1) by simp
  ultimately show thesis using that u by blast
qed

lemma is_pow2_calc_mask: "is_pow2 (ucast (calc_mask capacity + 1))"
proof -
  obtain k where k: "k \<le> 31" "unat (calc_mask capacity) = 2 ^ k - 1" by (rule calc_mask_unat [of capacity])
  then have "unat (calc_mask capacity + 1) = 2 ^ k"
    using power_strict_increasing [of k 32 "2::nat"] by (subst unat_add_lem [THEN iffD1]) auto
  then have "unat (ucast (calc_mask capacity + 1) :: u64) = 2 ^ k"
    using k(1) power_strict_increasing [of k 64 "2::nat"]
    by (simp add: unsigned_ucast_eq take_bit_nat_eq_self_iff)
  moreover have "unat (2 ^ k :: u64) = 2 ^ k"
    using k(1) by (intro bit_eqI) (auto simp: bit_unsigned_iff bit_exp_iff)
  ultimately have eq: "ucast (calc_mask capacity + 1) = (2 ^ k :: u64)"
    by (simp add: word_unat_eq_iff)
  have "(2 ^ k :: u64) AND Bit_Operations.mask k = 0"
    by (rule bit_eqI) (auto simp: bit_and_iff bit_exp_iff bit_mask_iff)
  then show ?thesis using k(1) by (simp add: is_pow2_def eq mask_eq_exp_minus_1)
qed

text \<open>The size of the buckets wraps from a capacity of \<open>2 ^ 30\<close> on.\<close>

lemma buckets_fit_iff: "buckets_fit m \<longleftrightarrow> unat m + 1 < 2 ^ 30"
proof -
  have "4 * (m + 1) = of_nat (4 * (unat m + 1))" by simp
  then have "unat (4 * (m + 1)) = 4 * (unat m + 1) mod 2 ^ 32" by (simp only: unat_of_nat) simp
  moreover have "4 * k mod 2 ^ 32 = 4 * k \<longleftrightarrow> k < 2 ^ 30" for k :: nat
    using mod_less [of "4 * k" "2 ^ 32"] mod_less_divisor [of "2 ^ 32" "4 * k"] by auto
  ultimately show ?thesis by (simp only: buckets_fit_def)
qed

lemma calc_mask_fits: "buckets_fit (calc_mask c) \<longleftrightarrow> unat c < 2 ^ 30"
proof -
  obtain k where k: "unat (calc_mask c) = 2 ^ k - 1" "unat c div 2 \<le> unat (calc_mask c)"
    "unat (calc_mask c) \<le> max 3 (2 * (unat c div 2))" by (rule calc_mask_unat [of c])
  show ?thesis
  proof (cases "unat c < 2 ^ 30")
    case True
    then have "unat c div 2 < 2 ^ 29" by (simp add: less_mult_imp_div_less)
    then show ?thesis using True k(3) by (simp add: buckets_fit_iff)
  next
    case False
    then have "2 ^ 29 < (2 :: nat) ^ k" using k(1,2) by simp
    then have "30 \<le> k" using power_less_imp_less_exp [of "2 :: nat" 29 k] by simp
    then have "(2 :: nat) ^ 30 \<le> 2 ^ k" by (rule power_increasing) simp
    then show ?thesis using False k(1) by (simp add: buckets_fit_iff)
  qed
qed

section \<open>Well-formed maps\<close>

definition hmap_nodes :: "'a hmap \<Rightarrow> 'a hmap_node list" where
  "hmap_nodes h = concat (hm_buckets h)"

text \<open>Every node is in the bucket its hash selects; there is a bucket for every hash.\<close>

definition hmap_placed :: "'a hmap \<Rightarrow> bool" where
  "hmap_placed h \<longleftrightarrow>
     length (hm_buckets h) = unat (hm_mask h) + 1
     \<and> (\<forall>i < length (hm_buckets h). \<forall>nd \<in> set (hm_buckets h ! i). bucket_of h (hn_hash nd) = i)"

definition hmap_wf :: "'a hmap \<Rightarrow> bool" where
  "hmap_wf h \<longleftrightarrow>
     is_pow2 (ucast (hm_mask h + 1)) \<and> hmap_placed h \<and> hm_n h = of_nat (length (hmap_nodes h)) \<and> distinct (map hn_addr (hmap_nodes h))"

lemma bucket_of_less: "hmap_placed h \<Longrightarrow> bucket_of h hash < length (hm_buckets h)"
  using word_and_le1 [of hash "hm_mask h"] by (simp add: hmap_placed_def word_le_nat_alt less_Suc_eq_le)

lemma concat_update_mset:
  "i < length bs \<Longrightarrow> mset (concat (bs[i := c])) + mset (bs ! i) = mset (concat bs) + mset c"
proof (induction bs arbitrary: i)
  case (Cons b bs)
  then show ?case by (cases i) (auto simp: ac_simps)
qed simp

text \<open>Facts that depend only on the collection of nodes.\<close>

lemma same_nodes_distinct:
  "mset xs = mset ys \<Longrightarrow> distinct (map f xs) \<longleftrightarrow> distinct (map f ys)"
  by (metis mset_eq_imp_distinct_iff mset_map)

lemma hmap_init_wf [simp]: "hmap_wf hmap_init" "hmap_nodes hmap_init = []"
  by (simp_all add: hmap_init_def hmap_wf_def hmap_placed_def hmap_nodes_def is_pow2_def)

lemma in_bucket: 
  assumes "hmap_placed h" "nd \<in> set (hmap_nodes h)"
  shows "nd \<in> set (hm_buckets h ! bucket_of h (hn_hash nd))"
proof -
  obtain c where "c \<in> set (hm_buckets h)" "nd \<in> set c" using assms(2) by (auto simp: hmap_nodes_def)
  then obtain i where "i < length (hm_buckets h)" "nd \<in> set (hm_buckets h ! i)"
    by (auto simp: in_set_conv_nth)
  with assms(1) show ?thesis by (auto simp: hmap_placed_def)
qed

lemma bucket_subset: "i < length (hm_buckets h) \<Longrightarrow> nd \<in> set (hm_buckets h ! i) \<Longrightarrow> nd \<in> set (hmap_nodes h)"
  by (auto simp: hmap_nodes_def)

subsection \<open>Insertion and resizing\<close>

lemma hmap_insert_fast_sel [simp]:
  "hm_mask (hmap_insert_fast h nd hash) = hm_mask h"
  "hm_n (hmap_insert_fast h nd hash) = hm_n h + 1"
  "length (hm_buckets (hmap_insert_fast h nd hash)) = length (hm_buckets h)"
  by (simp_all add: hmap_insert_fast_def Let_def)

lemma hmap_insert_fast_placed: "hmap_placed h \<Longrightarrow> hmap_placed (hmap_insert_fast h nd hash)"
  using bucket_of_less [of h hash]
  by (auto simp: hmap_placed_def hmap_insert_fast_def Let_def nth_list_update)

lemma hmap_insert_fast_nodes:
  assumes "hmap_placed h"
  shows "mset (hmap_nodes (hmap_insert_fast h nd hash))
       = add_mset (nd\<lparr>hn_hash := hash\<rparr>) (mset (hmap_nodes h))"
  using concat_update_mset [OF bucket_of_less [OF assms, of hash],
      of "nd\<lparr>hn_hash := hash\<rparr> # hm_buckets h ! bucket_of h hash"]
  by (simp add: hmap_nodes_def hmap_insert_fast_def Let_def)

abbreviation move_node :: "'a hmap_node \<Rightarrow> 'a hmap \<Rightarrow> 'a hmap" where
  "move_node nd tmp \<equiv> hmap_insert_fast tmp nd (hn_hash nd)"

lemma fold_move_concat: "fold (\<lambda>c. fold move_node c) cs tmp = fold move_node (concat cs) tmp"
  by (induction cs arbitrary: tmp) simp_all

lemma fold_move:
  "hmap_placed tmp \<Longrightarrow>
     hmap_placed (fold move_node nds tmp)
     \<and> hm_mask (fold move_node nds tmp) = hm_mask tmp
     \<and> hm_n (fold move_node nds tmp) = hm_n tmp + of_nat (length nds)
     \<and> mset (hmap_nodes (fold move_node nds tmp)) = mset (hmap_nodes tmp) + mset nds"
proof (induction nds arbitrary: tmp)
  case (Cons nd nds)
  then show ?case
    using Cons.IH [OF hmap_insert_fast_placed [OF Cons.prems]]
    by (simp add: hmap_insert_fast_nodes ac_simps)
qed simp

lemma hmap_resize:
  assumes wf: "hmap_wf h" and pow2: "is_pow2 (ucast (new_mask + 1))"
  obtains h' where "resize h new_mask = Some h'" "hmap_wf h'" "hm_mask h' = new_mask"
    "mset (hmap_nodes h') = mset (hmap_nodes h)"
proof -
  define tmp :: "'a hmap" where
    "tmp = (if new_mask \<noteq> 0 then hmap_init\<lparr>hm_buckets := replicate (unat new_mask + 1) [], hm_mask := new_mask\<rparr>
            else hmap_init)"
  have tmp: "hmap_placed tmp" "hm_mask tmp = new_mask" "hm_n tmp = 0" "hmap_nodes tmp = []"
    by (auto simp: tmp_def hmap_init_def hmap_placed_def hmap_nodes_def simp del: replicate_Suc)
  let ?h = "fold move_node (hmap_nodes h) tmp"
  have "take (unat (hm_mask h) + 1) (hm_buckets h) = hm_buckets h"
    using wf by (simp add: hmap_wf_def hmap_placed_def)
  then have "resize h new_mask = Some ?h"
    using pow2 by (simp add: resize_def hmap_swap_def Let_def tmp_def hmap_nodes_def fold_move_concat)
  moreover have f: "hmap_placed ?h" "hm_mask ?h = new_mask" "hm_n ?h = of_nat (length (hmap_nodes h))"
      "mset (hmap_nodes ?h) = mset (hmap_nodes h)"
    using fold_move [OF tmp(1), of "hmap_nodes h"] tmp by auto
  moreover have "hmap_wf ?h"
    using wf f pow2 same_nodes_distinct [OF f(4), of hn_addr] mset_eq_length [OF f(4)] by (simp add: hmap_wf_def)
  ultimately show thesis using that by blast
qed

lemma hmap_expand:
  assumes "hmap_wf h"
  obtains h' where "hmap_expand_at h = Some h'" "hmap_wf h'" "mset (hmap_nodes h') = mset (hmap_nodes h)"
    "hm_n h' = hm_n h" "hm_mask h' = max (hm_mask h) (calc_mask (hm_n h))"
proof (cases "calc_mask (hm_n h) > hm_mask h")
  case True
  obtain h' where h': "resize h (calc_mask (hm_n h)) = Some h'" "hmap_wf h'" "hm_mask h' = calc_mask (hm_n h)"
    "mset (hmap_nodes h') = mset (hmap_nodes h)"
    using hmap_resize [OF assms is_pow2_calc_mask] by metis
  moreover have "hm_n h' = hm_n h"
    using h' assms mset_eq_length [OF h'(4)] by (simp add: hmap_wf_def)
  ultimately show thesis using True by (intro that [of h']) (auto simp: hmap_expand_at_def)
next
  case False
  then show thesis using assms by (intro that [of h]) (auto simp: hmap_expand_at_def)
qed

lemma hmap_insert_fast_wf:
  assumes "hmap_wf h" "hn_addr nd \<notin> hn_addr ` set (hmap_nodes h)"
  shows "hmap_wf (hmap_insert_fast h nd hash)"
proof -
  have p: "hmap_placed h" using assms(1) by (simp add: hmap_wf_def)
  have m: "mset (hmap_nodes (hmap_insert_fast h nd hash)) = mset (nd\<lparr>hn_hash := hash\<rparr> # hmap_nodes h)"
    using hmap_insert_fast_nodes [OF p] by simp
  show ?thesis
    using assms same_nodes_distinct [OF m, of hn_addr] mset_eq_length [OF m]
    by (simp add: hmap_wf_def hmap_insert_fast_placed)
qed

lemma calc_mask_ge: "c div 2 \<le> calc_mask c"
proof -
  obtain k where "unat c div 2 \<le> unat (calc_mask c)" by (rule calc_mask_unat [of c])
  then show ?thesis by (simp add: word_le_nat_alt unat_div)
qed

text \<open>
  Insertion never fails its assertion; it adds the node and keeps at least one
  bucket for every two nodes.
\<close>

lemma hmap_insert:
  assumes "hmap_wf h" "hn_addr nd \<notin> hn_addr ` set (hmap_nodes h)"
  obtains h' where "hmap_insert_at h nd hash = Some h'" "hmap_wf h'"
    "mset (hmap_nodes h') = add_mset (nd\<lparr>hn_hash := hash\<rparr>) (mset (hmap_nodes h))"
    "hm_n h' = hm_n h + 1" "hm_n h' div 2 \<le> hm_mask h'"
proof -
  let ?h = "hmap_insert_fast h nd hash"
  have wf: "hmap_wf ?h" by (rule hmap_insert_fast_wf [OF assms])
  have m: "mset (hmap_nodes ?h) = add_mset (nd\<lparr>hn_hash := hash\<rparr>) (mset (hmap_nodes h))"
    using assms(1) by (intro hmap_insert_fast_nodes) (simp add: hmap_wf_def)
  obtain h' where h': "hmap_expand_at ?h = Some h'" "hmap_wf h'"
    "mset (hmap_nodes h') = mset (hmap_nodes ?h)" "hm_n h' = hm_n ?h"
    "hm_mask h' = max (hm_mask ?h) (calc_mask (hm_n ?h))"
    using hmap_expand [OF wf] by metis
  show thesis
  proof (cases "hm_n ?h div 2 > hm_mask ?h")
    case True
    then show thesis
      using that [of h'] h' m calc_mask_ge [of "hm_n h'"]
      by (simp add: hmap_insert_at_def Let_def le_max_iff_disj)
  next
    case False
    then have "hmap_insert_at h nd hash = Some ?h" by (simp add: hmap_insert_at_def Let_def)
    with False show thesis using that [of ?h] wf m by (simp add: not_less)
  qed
qed

subsection \<open>Search\<close>

lemma hmap_next_with_hash0_eq:
  "hmap_next_with_hash0 c hash = dropWhile (\<lambda>nd. hn_hash nd \<noteq> hash) c"
  by (induction c) auto

lemma hmap_for_each_with_hash_loop_eq:
  "(\<forall>nd. c \<noteq> [] \<longrightarrow> hn_hash (hd c) = hash) \<Longrightarrow>
   hmap_for_each_with_hash_loop P c = find P (filter (\<lambda>nd. hn_hash nd = hash) c)"
proof (induction P c rule: hmap_for_each_with_hash_loop.induct)
  case (2 P nd rest)
  have "dropWhile (\<lambda>nd. hn_hash nd \<noteq> hash) rest = [] \<or>
        hn_hash (hd (dropWhile (\<lambda>nd. hn_hash nd \<noteq> hash) rest)) = hash"
    by (metis (mono_tags, lifting) hd_dropWhile)
  moreover have "filter (\<lambda>nd. hn_hash nd = hash) (dropWhile (\<lambda>nd. hn_hash nd \<noteq> hash) rest)
      = filter (\<lambda>nd. hn_hash nd = hash) rest"
    by (induction rest) auto
  ultimately show ?case
    using 2 by (auto simp: hmap_next_with_hash_def hmap_next_with_hash0_eq)
qed simp

text \<open>The nodes with a given hash, in the order of their chain.\<close>

definition nodes_with_hash :: "'a hmap \<Rightarrow> size_t \<Rightarrow> 'a hmap_node list" where
  "nodes_with_hash h hash = filter (\<lambda>nd. hn_hash nd = hash) (hm_buckets h ! bucket_of h hash)"

lemma filter_concat_one:
  assumes "i < length bs" "\<forall>j < length bs. j \<noteq> i \<longrightarrow> filter P (bs ! j) = []"
  shows "filter P (concat bs) = filter P (bs ! i)"
  using assms
proof (induction bs arbitrary: i)
  case (Cons b bs)
  show ?case
  proof (cases i)
    case 0
    have "filter P c = []" if "c \<in> set bs" for c
      using that Cons.prems(2) 0 by (auto simp: in_set_conv_nth)
    then have "filter P (concat bs) = []" by (induction bs) auto
    with 0 show ?thesis by simp
  next
    case (Suc j)
    have "filter P b = []" using Cons.prems(2) Suc by (metis length_greater_0_conv list.discI nat.distinct(1) nth_Cons_0)
    moreover have "filter P (concat bs) = filter P (bs ! j)"
    proof (rule Cons.IH)
      show "j < length bs" using Cons.prems(1) Suc by simp
      show "\<forall>ja<length bs. ja \<noteq> j \<longrightarrow> filter P (bs ! ja) = []"
        using Cons.prems(2) Suc by (metis Suc_inject Suc_mono length_Cons nth_Cons_Suc)
    qed
    ultimately show ?thesis using Suc by simp
  qed
qed simp

lemma nodes_with_hash_eq:
  assumes "hmap_placed h"
  shows "nodes_with_hash h hash = filter (\<lambda>nd. hn_hash nd = hash) (hmap_nodes h)"
proof -
  have "filter (\<lambda>nd. hn_hash nd = hash) (hm_buckets h ! j) = []"
    if "j < length (hm_buckets h)" "j \<noteq> bucket_of h hash" for j
    using assms that by (auto simp: hmap_placed_def filter_empty_conv)
  then show ?thesis
    unfolding nodes_with_hash_def hmap_nodes_def
    using filter_concat_one [OF bucket_of_less [OF assms, of hash]] by metis
qed

lemma hmap_for_each_with_hash_eq:
  "hmap_for_each_with_hash P hash h = find P (nodes_with_hash h hash)"
proof -
  let ?c = "dropWhile (\<lambda>nd. hn_hash nd \<noteq> hash) (hm_buckets h ! bucket_of h hash)"
  have "?c \<noteq> [] \<longrightarrow> hn_hash (hd ?c) = hash" by (metis (mono_tags, lifting) hd_dropWhile)
  moreover have "filter (\<lambda>nd. hn_hash nd = hash) (dropWhile (\<lambda>nd. hn_hash nd \<noteq> hash) c)
      = filter (\<lambda>nd. hn_hash nd = hash) c" for c :: "'a chain"
    by (induction c) auto
  ultimately show ?thesis
    using hmap_for_each_with_hash_loop_eq [of ?c hash P]
    by (simp add: hmap_for_each_with_hash_def hmap_first_with_hash_def hmap_next_with_hash0_eq nodes_with_hash_def)
qed

lemma hmap_first_with_hash_eq:
  "hmap_first_with_hash h hash = [] \<longleftrightarrow> nodes_with_hash h hash = []"
  "hmap_first_with_hash h hash \<noteq> [] \<Longrightarrow> hd (hmap_first_with_hash h hash) = hd (nodes_with_hash h hash)"
proof -
  have "dropWhile (\<lambda>nd. hn_hash nd \<noteq> hash) c = [] \<longleftrightarrow> filter (\<lambda>nd. hn_hash nd = hash) c = []"
    and "dropWhile (\<lambda>nd. hn_hash nd \<noteq> hash) c \<noteq> []
      \<Longrightarrow> hd (dropWhile (\<lambda>nd. hn_hash nd \<noteq> hash) c) = hd (filter (\<lambda>nd. hn_hash nd = hash) c)"
    for c :: "'a chain"
    by (induction c) auto
  then show "hmap_first_with_hash h hash = [] \<longleftrightarrow> nodes_with_hash h hash = []"
    and "hmap_first_with_hash h hash \<noteq> [] \<Longrightarrow> hd (hmap_first_with_hash h hash) = hd (nodes_with_hash h hash)"
    unfolding hmap_first_with_hash_def hmap_next_with_hash0_eq nodes_with_hash_def by blast+
qed

subsection \<open>Removal and replacement\<close>

lemma chain_relink_split:
  assumes "nd \<in> set c" "hn_addr nd = a" "distinct (map hn_addr c)"
  obtains pre post where "c = pre @ nd # post" "chain_relink f a c = Some (pre @ f (nd # post))"
proof -
  obtain pre post where c: "c = pre @ nd # post" using assms(1) by (meson split_list)
  have "a \<notin> hn_addr ` set pre" using assms c by auto
  then have "chain_relink f a (pre @ nd # post) = Some (pre @ f (nd # post))"
    using assms(2) by (induction pre) auto
  with c that show thesis by blast
qed

lemma distinct_concat_map_in: "distinct (map f (concat xss)) \<Longrightarrow> xs \<in> set xss \<Longrightarrow> distinct (map f xs)"
  by (induction xss) auto

lemma hmap_wf_bucket_distinct:
  "hmap_wf h \<Longrightarrow> i < length (hm_buckets h) \<Longrightarrow> distinct (map hn_addr (hm_buckets h ! i))"
  by (rule distinct_concat_map_in [of _ "hm_buckets h"]) (simp_all add: hmap_wf_def hmap_nodes_def)

text \<open>
  One lemma for the three operations that relink a node of the map: its chain
  gets \<open>f\<close> of the node in its place.
\<close>

lemma hmap_relink:
  assumes wf: "hmap_wf h" and nd: "nd \<in> set (hmap_nodes h)" and "hn_addr nd = a"
    and f: "\<And>c. f (nd # c) = r @ c" "\<forall>x\<in>set r. hn_hash x = hn_hash nd"
  shows "\<exists>c. chain_relink f a (hm_buckets h ! bucket_of h (hn_hash nd)) = Some c
    \<and> hmap_placed (h\<lparr>hm_buckets := (hm_buckets h)[bucket_of h (hn_hash nd) := c]\<rparr>)
    \<and> mset (concat ((hm_buckets h)[bucket_of h (hn_hash nd) := c])) + {#nd#} = mset (hmap_nodes h) + mset r"
proof -
  let ?i = "bucket_of h (hn_hash nd)"
  have p: "hmap_placed h" using wf by (simp add: hmap_wf_def)
  have i: "?i < length (hm_buckets h)" by (rule bucket_of_less [OF p])
  obtain pre post where c: "hm_buckets h ! ?i = pre @ nd # post"
    "chain_relink f a (hm_buckets h ! ?i) = Some (pre @ r @ post)"
    using chain_relink_split [OF in_bucket [OF p nd] \<open>hn_addr nd = a\<close> hmap_wf_bucket_distinct [OF wf i], of f] f(1)
    by metis
  let ?h = "h\<lparr>hm_buckets := (hm_buckets h)[?i := pre @ r @ post]\<rparr>"
  have "\<forall>x\<in>set (pre @ nd # post). bucket_of h (hn_hash x) = ?i"
    using p i unfolding hmap_placed_def c(1) [symmetric] by blast
  then have "\<forall>x\<in>set (pre @ r @ post). bucket_of h (hn_hash x) = ?i"
    using f(2) by auto
  then have "hmap_placed ?h" using p i by (auto simp: hmap_placed_def nth_list_update)
  moreover have "mset (hmap_nodes ?h) + {#nd#} = mset (hmap_nodes h) + mset r"
    using concat_update_mset [OF i, of "pre @ r @ post"] c(1) by (simp add: hmap_nodes_def)
  ultimately show ?thesis using c(2) by (auto simp: hmap_nodes_def)
qed

lemma hmap_placed_n [simp]: "hmap_placed (h\<lparr>hm_buckets := bs, hm_n := k\<rparr>) \<longleftrightarrow> hmap_placed (h\<lparr>hm_buckets := bs\<rparr>)"
  by (simp add: hmap_placed_def)

lemma tl_relink: "tl (nd # c) = [] @ c" "\<forall>x\<in>set []. hn_hash x = hn_hash nd"
  by simp_all

lemma cons_relink:
  "new_node\<lparr>hn_hash := hn_hash nd\<rparr> # tl (nd # c) = [new_node\<lparr>hn_hash := hn_hash nd\<rparr>] @ c"
  "\<forall>x\<in>set [new_node\<lparr>hn_hash := hn_hash nd\<rparr>]. hn_hash x = hn_hash nd"
  by simp_all

lemma hmap_remove:
  assumes wf: "hmap_wf h" and nd: "nd \<in> set (hmap_nodes h)"
  obtains h' where "hmap_remove h nd = Some h'" "hmap_wf h'"
    "mset (hmap_nodes h) = add_mset nd (mset (hmap_nodes h'))" "hm_mask h' = hm_mask h"
proof -
  let ?i = "bucket_of h (hn_hash nd)"
  obtain c where c: "chain_relink tl (hn_addr nd) (hm_buckets h ! ?i) = Some c"
    "hmap_placed (h\<lparr>hm_buckets := (hm_buckets h)[?i := c]\<rparr>)"
    "mset (concat ((hm_buckets h)[?i := c])) + {#nd#} = mset (hmap_nodes h) + mset []"
    using hmap_relink [OF wf nd refl tl_relink(1,2)] by blast
  define h' where "h' = h\<lparr>hm_buckets := (hm_buckets h)[?i := c], hm_n := hm_n h - 1\<rparr>"
  have h': "hmap_placed h'" "mset (hmap_nodes h) = add_mset nd (mset (hmap_nodes h'))"
    "hm_mask h' = hm_mask h" "hm_n h' = hm_n h - 1"
    using c(2,3) by (simp_all add: h'_def hmap_nodes_def)
  have "hmap_remove h nd = Some h'" using c(1) by (simp add: hmap_remove_def Let_def h'_def)
  moreover have "hmap_wf h'"
    using wf h' same_nodes_distinct [of "hmap_nodes h" "nd # hmap_nodes h'" hn_addr]
      mset_eq_length [of "hmap_nodes h" "nd # hmap_nodes h'"]
    by (simp add: hmap_wf_def)
  ultimately show thesis using that h' by blast
qed

lemma hmap_replace:
  assumes wf: "hmap_wf h" and nd: "nd \<in> set (hmap_nodes h)"
    and fresh: "hn_addr new_node \<notin> hn_addr ` (set (hmap_nodes h) - {nd})"
  obtains h' where "hmap_replace h nd new_node = Some h'" "hmap_wf h'"
    "add_mset nd (mset (hmap_nodes h')) = add_mset (new_node\<lparr>hn_hash := hn_hash nd\<rparr>) (mset (hmap_nodes h))"
proof -
  let ?i = "bucket_of h (hn_hash nd)"
  let ?n = "new_node\<lparr>hn_hash := hn_hash nd\<rparr>"
  obtain c where c: "chain_relink (\<lambda>c. ?n # tl c) (hn_addr nd) (hm_buckets h ! ?i) = Some c"
    "hmap_placed (h\<lparr>hm_buckets := (hm_buckets h)[?i := c]\<rparr>)"
    "mset (concat ((hm_buckets h)[?i := c])) + {#nd#} = mset (hmap_nodes h) + mset [?n]"
    using hmap_relink [OF wf nd refl cons_relink(1,2)] by blast
  define h' where "h' = h\<lparr>hm_buckets := (hm_buckets h)[?i := c]\<rparr>"
  have h': "hmap_placed h'" "add_mset nd (mset (hmap_nodes h')) = add_mset ?n (mset (hmap_nodes h))"
    "hm_mask h' = hm_mask h" "hm_n h' = hm_n h"
    using c(2,3) by (simp_all add: h'_def hmap_nodes_def)
  obtain rest where rest: "mset (hmap_nodes h) = add_mset nd (mset rest)"
    by (metis ex_mset insert_DiffM nd set_mset_mset)
  have d: "distinct (map hn_addr (nd # rest))" "hn_addr ?n \<notin> hn_addr ` set rest"
    using wf same_nodes_distinct [of "hmap_nodes h" "nd # rest" hn_addr] rest fresh
    by (auto simp: hmap_wf_def dest!: mset_eq_setD)
      (metis Diff_iff empty_iff imageI insert_iff mset_eq_setD rest set_mset_add_mset_insert set_mset_mset)
  have "mset (hmap_nodes h') = mset (?n # rest)" using h'(2) rest by simp
  then have "hmap_wf h'"
    using wf h' d same_nodes_distinct [of "hmap_nodes h'" "?n # rest" hn_addr]
      mset_eq_length [of "hmap_nodes h" "nd # rest"] mset_eq_length [of "hmap_nodes h'" "?n # rest"] rest
    by (simp add: hmap_wf_def)
  moreover have "hmap_replace h nd new_node = Some h'" using c(1) by (simp add: hmap_replace_def Let_def h'_def)
  ultimately show thesis using that h' by blast
qed

lemma hmap_shrink:
  assumes "hmap_wf h"
  obtains h' where "hmap_shrink_at h = Some h'" "hmap_wf h'" "mset (hmap_nodes h') = mset (hmap_nodes h)"
    "hm_mask h' = min (hm_mask h) (calc_mask (hm_n h))"
proof (cases "calc_mask (hm_n h) < hm_mask h")
  case True
  obtain h' where "resize h (calc_mask (hm_n h)) = Some h'" "hmap_wf h'" "hm_mask h' = calc_mask (hm_n h)"
    "mset (hmap_nodes h') = mset (hmap_nodes h)"
    using hmap_resize [OF assms is_pow2_calc_mask] by metis
  then show thesis using True by (intro that [of h']) (auto simp: hmap_shrink_at_def)
next
  case False
  then show thesis using assms by (intro that [of h]) (auto simp: hmap_shrink_at_def)
qed

lemma hmap_reserve:
  assumes "hmap_wf h" "unat c < 2 ^ 30"
  obtains h' where "hmap_reserve_at h c = Some h'" "hmap_wf h'" "mset (hmap_nodes h') = mset (hmap_nodes h)"
    "hm_mask h' = max (hm_mask h) (calc_mask c)"
proof (cases "calc_mask c > hm_mask h")
  case True
  obtain h' where "resize h (calc_mask c) = Some h'" "hmap_wf h'" "hm_mask h' = calc_mask c"
    "mset (hmap_nodes h') = mset (hmap_nodes h)"
    using hmap_resize [OF assms(1) is_pow2_calc_mask] by metis
  then show thesis using True assms(2) by (intro that [of h']) (auto simp: hmap_reserve_at_def calc_mask_fits)
next
  case False
  then show thesis using assms by (intro that [of h]) (auto simp: hmap_reserve_at_def)
qed

lemma hmap_clear_wf:
  assumes "hmap_wf h" "length (hmap_nodes h) < 2 ^ 32"
  shows "hmap_wf (hmap_clear h)" "hmap_nodes (hmap_clear h) = []" "hm_mask (hmap_clear h) = hm_mask h"
proof -
  have "hm_n h = 0 \<Longrightarrow> hmap_nodes h = []"
    using assms by (simp add: hmap_wf_def word_unat_eq_iff unat_of_nat)
  then show "hmap_nodes (hmap_clear h) = []" "hm_mask (hmap_clear h) = hm_mask h"
    by (auto simp: hmap_clear_def hmap_nodes_def word_gt_0)
  then show "hmap_wf (hmap_clear h)"
    using assms(1) by (auto simp: hmap_clear_def hmap_wf_def hmap_placed_def word_gt_0 simp del: replicate_Suc)
qed

lemma hmap_contains_iff:
  assumes "hmap_wf h"
  shows "hmap_contains h nd \<longleftrightarrow>
    (\<exists>p \<in> set (hmap_nodes h). hn_addr p = hn_addr nd \<and> bucket_of h (hn_hash p) = bucket_of h (hn_hash nd))"
proof -
  have loop: "hmap_contains_loop a c \<longleftrightarrow> a \<in> hn_addr ` set c" for a and c :: "'a chain"
    by (induction c) auto
  have p: "hmap_placed h" using assms by (simp add: hmap_wf_def)
  show ?thesis (is "?l \<longleftrightarrow> ?r")
  proof
    assume ?l
    then obtain q where "q \<in> set (hm_buckets h ! bucket_of h (hn_hash nd))" "hn_addr q = hn_addr nd"
      by (auto simp: hmap_contains_def loop hmap_first_in_bucket_def)
    moreover from this have "bucket_of h (hn_hash q) = bucket_of h (hn_hash nd)"
      using p bucket_of_less [OF p, of "hn_hash nd"] by (simp add: hmap_placed_def)
    ultimately show ?r using bucket_subset [OF bucket_of_less [OF p]] by blast
  next
    assume ?r
    then show ?l using in_bucket [OF p] unfolding hmap_contains_def loop hmap_first_in_bucket_def
      by (metis image_eqI)
  qed
qed

subsection \<open>Iteration\<close>

lemma first_chain_none:
  "(case dropWhile (\<lambda>c. c = []) bs of [] \<Rightarrow> [] | c # cs \<Rightarrow> c) = [] \<Longrightarrow> concat bs = []"
proof (cases "dropWhile (\<lambda>c. c = []) bs")
  case Nil
  then show ?thesis unfolding dropWhile_eq_Nil_conv concat_eq_Nil_conv .
next
  case (Cons c cs)
  then have "c \<noteq> []" by (metis (full_types) hd_dropWhile list.discI list.sel(1))
  moreover assume "(case dropWhile (\<lambda>c. c = []) bs of [] \<Rightarrow> [] | c # cs \<Rightarrow> c) = []"
  ultimately show ?thesis using Cons by simp
qed

lemma first_chain_some:
  "(case dropWhile (\<lambda>c. c = []) bs of [] \<Rightarrow> [] | c # cs \<Rightarrow> c) = x # xs \<Longrightarrow>
     \<exists>i < length bs. bs ! i = x # xs \<and> concat bs = bs ! i @ concat (drop (Suc i) bs)"
proof (induction bs)
  case (Cons b bs)
  show ?case
  proof (cases "b = []")
    case True
    with Cons obtain i where "i < length bs" "bs ! i = x # xs" "concat bs = bs ! i @ concat (drop (Suc i) bs)"
      by auto
    with True show ?thesis by (intro exI [of _ "Suc i"]) simp
  next
    case False
    with Cons.prems show ?thesis by (intro exI [of _ 0]) simp
  qed
qed simp

lemma hmap_next0_drop:
  assumes "hmap_placed h"
  shows "hmap_next0 h start = (case dropWhile (\<lambda>c. c = []) (drop start (hm_buckets h)) of [] \<Rightarrow> [] | c # cs \<Rightarrow> c)"
  using assms by (simp add: hmap_next0_def hmap_placed_def)

lemma hmap_next0_none:
  "hmap_placed h \<Longrightarrow> hmap_next0 h start = [] \<Longrightarrow> concat (drop start (hm_buckets h)) = []"
  using first_chain_none [of "drop start (hm_buckets h)"] hmap_next0_drop [of h start] by metis

lemma hmap_next0_some:
  assumes "hmap_placed h" "hmap_next0 h start = x # xs"
  obtains i where "i < length (hm_buckets h)" "hm_buckets h ! i = x # xs"
    "concat (drop start (hm_buckets h)) = (x # xs) @ concat (drop (Suc i) (hm_buckets h))"
proof -
  obtain i where "i < length (drop start (hm_buckets h))" "drop start (hm_buckets h) ! i = x # xs"
    "concat (drop start (hm_buckets h)) = (x # xs) @ concat (drop (Suc i) (drop start (hm_buckets h)))"
    using first_chain_some [of "drop start (hm_buckets h)" x xs] hmap_next0_drop [OF assms(1), of start] assms(2)
    by metis
  then show thesis by (intro that [of "start + i"]) (simp_all add: ac_simps)
qed

text \<open>The nodes still to visit: the rest of the chain and the later buckets.\<close>

definition hmap_rest :: "'a hmap \<Rightarrow> 'a chain \<Rightarrow> 'a hmap_node list" where
  "hmap_rest h c = c @ concat (drop (Suc (bucket_of h (hn_hash (hd c)))) (hm_buckets h))"

lemma hmap_next0_rest:
  assumes "hmap_placed h" "hmap_next0 h start \<noteq> []"
  shows "concat (drop start (hm_buckets h)) = hmap_rest h (hmap_next0 h start)"
    "\<forall>x \<in> set (hmap_next0 h start). bucket_of h (hn_hash x) = bucket_of h (hn_hash (hd (hmap_next0 h start)))"
proof -
  obtain x xs where c: "hmap_next0 h start = x # xs" using assms(2) by (cases "hmap_next0 h start") auto
  obtain i where i: "i < length (hm_buckets h)" "hm_buckets h ! i = x # xs"
    "concat (drop start (hm_buckets h)) = (x # xs) @ concat (drop (Suc i) (hm_buckets h))"
    using hmap_next0_some [OF assms(1) c] by metis
  have b: "\<forall>y \<in> set (x # xs). bucket_of h (hn_hash y) = i"
    using assms(1) i(1) unfolding hmap_placed_def i(2) [symmetric] by blast
  then show "concat (drop start (hm_buckets h)) = hmap_rest h (hmap_next0 h start)"
    "\<forall>x \<in> set (hmap_next0 h start). bucket_of h (hn_hash x) = bucket_of h (hn_hash (hd (hmap_next0 h start)))"
    using i(3) c by (simp_all add: hmap_rest_def)
qed

lemma bucket_of_Suc:
  assumes "hmap_wf h"
  shows "unat ((hash AND hm_mask h) + 1) = Suc (bucket_of h hash)"
proof -
  have "hm_mask h + 1 \<noteq> 0" using assms by (auto simp: hmap_wf_def is_pow2_def)
  then have "hash AND hm_mask h \<noteq> - 1"
    using word_and_le1 [of hash "hm_mask h"] by (metis add.right_inverse add.commute word_order.extremum_unique)
  then show ?thesis by (metis add.commute add_eq_0_iff unatSuc)
qed

lemma hmap_for_each_loop_eq:
  assumes wf: "hmap_wf h"
  shows "c \<noteq> [] \<Longrightarrow> \<forall>x \<in> set c. bucket_of h (hn_hash x) = bucket_of h (hn_hash (hd c)) \<Longrightarrow>
     hmap_for_each_loop h c acc = Some (acc @ hmap_rest h c)"
proof (induction "length (hmap_rest h c)" arbitrary: c acc rule: less_induct)
  case less
  have p: "hmap_placed h" using wf by (simp add: hmap_wf_def)
  let ?start = "Suc (bucket_of h (hn_hash (hd c)))"
  obtain x c' where c: "c = x # c'" using less.prems(1) by (cases c) auto
  have step: "hmap_for_each_loop h c acc = hmap_for_each_loop h (hmap_next h c) (acc @ [x])"
    using c by (simp add: hmap_for_each_loop.simps)
  consider "c' \<noteq> []" | "c' = []" "hmap_next0 h ?start \<noteq> []" | "c' = []" "hmap_next0 h ?start = []" by blast
  then show ?case
  proof cases
    case 1
    then have hd: "bucket_of h (hn_hash (hd c')) = bucket_of h (hn_hash x)" 
      using c less.prems(2) by (metis hd_in_set list.sel(1) list.set_intros(2))
    then have r: "hmap_rest h c = x # hmap_rest h c'" using c by (simp add: hmap_rest_def)
    have "\<forall>y \<in> set c'. bucket_of h (hn_hash y) = bucket_of h (hn_hash (hd c'))"
      using hd less.prems(2) c by (metis list.sel(1) list.set_intros(2))
    from less.hyps [OF _ 1 this, of "acc @ [x]"] show ?thesis
      using 1 c step r by (simp add: hmap_next_def)
  next
    case 2
    have r: "hmap_rest h c = x # hmap_rest h (hmap_next0 h ?start)"
      using c 2 hmap_next0_rest(1) [OF p 2(2)] by (simp add: hmap_rest_def)
    from less.hyps [OF _ 2(2) hmap_next0_rest(2) [OF p 2(2)], of "acc @ [x]"] show ?thesis
      using c 2(1) step r by (simp add: hmap_next_def bucket_of_Suc [OF wf])
  next
    case 3
    then have "hmap_next h c = []" by (simp add: hmap_next_def c bucket_of_Suc [OF wf])
    moreover have "hmap_rest h c = [x]"
      using c 3 hmap_next0_none [OF p 3(2)] unfolding hmap_rest_def by (metis append.right_neutral)
    ultimately show ?thesis using step by (simp add: hmap_for_each_loop.simps)
  qed
qed

lemma hmap_for_each_eq:
  assumes wf: "hmap_wf h"
  shows "hmap_for_each h = Some (hmap_nodes h)"
proof -
  have p: "hmap_placed h" using wf by (simp add: hmap_wf_def)
  show ?thesis
  proof (cases "hmap_next0 h 0 = []")
    case True
    then show ?thesis using hmap_next0_none [OF p True]
      by (simp add: hmap_for_each_def hmap_first_def hmap_for_each_loop.simps hmap_nodes_def)
  next
    case False
    then show ?thesis
      using hmap_for_each_loop_eq [OF wf False hmap_next0_rest(2) [OF p False], of "[]"]
        hmap_next0_rest(1) [OF p False]
      by (simp add: hmap_for_each_def hmap_first_def hmap_nodes_def)
  qed
qed

section \<open>The contract of a hash table\<close>

text \<open>
  A client that keeps at most one entry per hash value sees a partial function:
  \<open>hash_unique\<close> is the client's invariant, the locale the promises of the table.
  \<open>put\<close> is an assignment through a pointer to an entry, which leaves the
  \<^verbatim>\<open>struct hmap_node\<close> inside it alone.
\<close>

definition hash_unique :: "('n \<Rightarrow> 'h) \<Rightarrow> 'n multiset \<Rightarrow> bool" where
  "hash_unique hash_of M \<longleftrightarrow> (\<forall>h. size (filter_mset (\<lambda>x. hash_of x = h) M) \<le> 1)"

lemma hash_unique_eq:
  assumes "hash_unique hash_of M" "x \<in># M" "y \<in># M" "hash_of x = hash_of y"
  shows "x = y"
proof (rule ccontr)
  assume "x \<noteq> y"
  with assms(2,3) have "{#x, y#} \<subseteq># M"
    by (metis insert_DiffM insert_noteq_member mset_subset_eq_add_mset_cancel mset_subset_eq_single)
  then have "filter_mset (\<lambda>z. hash_of z = hash_of x) {#x, y#} \<subseteq># filter_mset (\<lambda>z. hash_of z = hash_of x) M"
    by (rule multiset_filter_mono)
  then have "2 \<le> size (filter_mset (\<lambda>z. hash_of z = hash_of x) M)"
    using assms(4) by (metis (mono_tags, lifting) filter_mset_add_mset filter_empty_mset numeral_2_eq_2 size_add_mset size_empty size_mset_mono)
  moreover have "size (filter_mset (\<lambda>z. hash_of z = hash_of x) M) \<le> 1"
    using assms(1) by (simp add: hash_unique_def)
  ultimately show False by simp
qed

lemma hash_unique_add:
  assumes "hash_unique hash_of M" "\<forall>y \<in># M. hash_of y \<noteq> hash_of x"
  shows "hash_unique hash_of (add_mset x M)"
proof -
  have "filter_mset (\<lambda>y. hash_of y = hash_of x) M = {#}" using assms(2) by simp
  then show ?thesis using assms(1) by (auto simp: hash_unique_def)
qed

lemma hash_unique_remove: "hash_unique hash_of (add_mset x M) \<Longrightarrow> hash_unique hash_of M"
  unfolding hash_unique_def
  by (metis add_mset_add_single filter_union_mset le_add1 order_trans size_union)

locale hash_table =
  fixes invar :: "'m \<Rightarrow> bool"
    and nodes :: "'m \<Rightarrow> 'n multiset"
    and hash_of :: "'n \<Rightarrow> 'h"
    and addr_of :: "'n \<Rightarrow> addr"
    and set_hash :: "'n \<Rightarrow> 'h \<Rightarrow> 'n"
    and insert :: "'m \<Rightarrow> 'n \<Rightarrow> 'h \<Rightarrow> 'm option"
    and remove :: "'m \<Rightarrow> 'n \<Rightarrow> 'm option"
    and put :: "addr \<Rightarrow> ('n \<Rightarrow> 'n) \<Rightarrow> 'm \<Rightarrow> 'm"
    and first :: "'m \<Rightarrow> 'h \<Rightarrow> 'n option"
  assumes insert_law: "invar m \<Longrightarrow> addr_of x \<notin> addr_of ` set_mset (nodes m) \<Longrightarrow>
      \<exists>m'. insert m x h = Some m' \<and> invar m' \<and> nodes m' = add_mset (set_hash x h) (nodes m)"
    and set_hash: "hash_of (set_hash x h) = h" "addr_of (set_hash x h) = addr_of x"
    and remove_law: "invar m \<Longrightarrow> x \<in># nodes m \<Longrightarrow>
      \<exists>m'. remove m x = Some m' \<and> invar m' \<and> nodes m = add_mset x (nodes m')"
    and put_law: "invar m \<Longrightarrow> (\<And>x. hash_of (f x) = hash_of x \<and> addr_of (f x) = addr_of x) \<Longrightarrow>
      invar (put a f m) \<and> nodes (put a f m) = image_mset (\<lambda>x. if addr_of x = a then f x else x) (nodes m)"
    and addr_inj: "invar m \<Longrightarrow> x \<in># nodes m \<Longrightarrow> y \<in># nodes m \<Longrightarrow> addr_of x = addr_of y \<Longrightarrow> x = y"
    and first_some: "invar m \<Longrightarrow> first m h = Some x \<Longrightarrow> x \<in># nodes m \<and> hash_of x = h"
    and first_none: "invar m \<Longrightarrow> first m h = None \<longleftrightarrow> (\<forall>x \<in># nodes m. hash_of x \<noteq> h)"
begin

lemma first_eq:
  assumes "invar m" "hash_unique hash_of (nodes m)"
  shows "first m h = Some x \<longleftrightarrow> x \<in># nodes m \<and> hash_of x = h"
proof
  assume x: "x \<in># nodes m \<and> hash_of x = h"
  then obtain y where y: "first m h = Some y" using assms(1) first_none by fastforce
  then show "first m h = Some x"
    using x first_some [OF assms(1) y] hash_unique_eq [OF assms(2)] by metis
qed (rule first_some [OF assms(1)])

lemma insert_first:
  assumes "invar m" "hash_unique hash_of (nodes m)" "addr_of x \<notin> addr_of ` set_mset (nodes m)" "first m h = None"
  shows "\<exists>m'. insert m x h = Some m' \<and> invar m' \<and> hash_unique hash_of (nodes m')
    \<and> nodes m' = add_mset (set_hash x h) (nodes m) \<and> first m' = (first m)(h \<mapsto> set_hash x h)"
proof -
  obtain m' where m': "insert m x h = Some m'" "invar m'" "nodes m' = add_mset (set_hash x h) (nodes m)"
    using insert_law [OF assms(1,3)] by blast
  have "\<forall>y \<in># nodes m. hash_of y \<noteq> h" using first_none [OF assms(1)] assms(4) by simp
  then have u: "hash_unique hash_of (nodes m')" using assms(2) m'(3) set_hash(1) by (simp add: hash_unique_add)
  have "first m' k = ((first m)(h \<mapsto> set_hash x h)) k" for k
  proof (cases "first m' k")
    case None
    then have "k \<noteq> h" "first m k = None"
      using first_none [OF m'(2)] first_none [OF assms(1), of k] m'(3) set_hash(1) by auto
    with None show ?thesis by simp
  next
    case (Some y)
    then have "y \<in># add_mset (set_hash x h) (nodes m)" "hash_of y = k" using first_eq [OF m'(2) u] m'(3) by auto
    moreover have "first m k = Some y \<longleftrightarrow> y \<in># nodes m \<and> hash_of y = k" by (rule first_eq [OF assms(1,2)])
    ultimately show ?thesis
      using Some set_hash(1) \<open>\<forall>y \<in># nodes m. hash_of y \<noteq> h\<close> by auto
  qed
  then show ?thesis using m' u by blast
qed

lemma remove_first:
  assumes "invar m" "hash_unique hash_of (nodes m)" "first m h = Some x"
  shows "\<exists>m'. remove m x = Some m' \<and> invar m' \<and> hash_unique hash_of (nodes m')
    \<and> nodes m = add_mset x (nodes m') \<and> first m' = (first m)(h := None)"
proof -
  have x: "x \<in># nodes m" "hash_of x = h" using first_some [OF assms(1,3)] by auto
  obtain m' where m': "remove m x = Some m'" "invar m'" "nodes m = add_mset x (nodes m')"
    using remove_law [OF assms(1) x(1)] by blast
  have u: "hash_unique hash_of (nodes m')" using assms(2) m'(3) hash_unique_remove by metis
  have gone: "x \<notin># nodes m'"
  proof
    assume "x \<in># nodes m'"
    then have "{#x, x#} \<subseteq># nodes m" using m'(3) by (simp add: mset_subset_eq_single)
    then have "2 \<le> size (filter_mset (\<lambda>z. hash_of z = hash_of x) (nodes m))"
      using size_mset_mono [OF multiset_filter_mono [of "{#x, x#}" "nodes m" "\<lambda>z. hash_of z = hash_of x"]] by simp
    then show False using assms(2) unfolding hash_unique_def by (metis Suc_1 not_less_eq_eq)
  qed
  have "first m' k = ((first m)(h := None)) k" for k
  proof (cases "first m' k")
    case None
    have "first m k = None" if "k \<noteq> h" using None that x(2) m' first_none [OF m'(2)] first_none [OF assms(1)] by auto
    then show ?thesis using None by simp
  next
    case (Some y)
    then have y: "y \<in># nodes m'" "hash_of y = k" using first_eq [OF m'(2) u] by auto
    moreover have "k \<noteq> h"
    proof
      assume "k = h"
      then have "y = x" using hash_unique_eq [OF assms(2), of y x] y x m'(3) by auto
      with y(1) gone show False by simp
    qed
    moreover have "first m k = Some y \<longleftrightarrow> y \<in># nodes m \<and> hash_of y = k" by (rule first_eq [OF assms(1,2)])
    ultimately show ?thesis using Some m'(3) by auto
  qed
  then show ?thesis using m' u by blast
qed

lemma put_first:
  assumes "invar m" "hash_unique hash_of (nodes m)" "first m h = Some x"
    and f: "\<And>x. hash_of (f x) = hash_of x \<and> addr_of (f x) = addr_of x"
  shows "invar (put (addr_of x) f m)" "hash_unique hash_of (nodes (put (addr_of x) f m))"
    "addr_of ` set_mset (nodes (put (addr_of x) f m)) = addr_of ` set_mset (nodes m)"
    "first (put (addr_of x) f m) = (first m)(h \<mapsto> f x)"
proof -
  let ?g = "\<lambda>y. if addr_of y = addr_of x then f y else y"
  let ?m = "put (addr_of x) f m"
  have m': "invar ?m" "nodes ?m = image_mset ?g (nodes m)"
    using put_law [OF assms(1) f, of "addr_of x"] by auto
  show "invar ?m" by (rule m'(1))
  have g: "hash_of (?g y) = hash_of y" "addr_of (?g y) = addr_of y" for y using f by auto
  have fg: "filter_mset (\<lambda>z. hash_of z = k) (image_mset ?g M) = image_mset ?g (filter_mset (\<lambda>z. hash_of z = k) M)"
    for k M using g by (induction M) auto
  show u: "hash_unique hash_of (nodes ?m)"
    using assms(2) unfolding hash_unique_def m'(2) fg size_image_mset .
  show "addr_of ` set_mset (nodes ?m) = addr_of ` set_mset (nodes m)"
    unfolding m'(2) set_image_mset image_image g(2) ..
  have x: "x \<in># nodes m" "hash_of x = h" using first_some [OF assms(1,3)] by auto
  have "first ?m k = ((first m)(h \<mapsto> f x)) k" for k
  proof (cases "first m k")
    case None
    then have "\<forall>y \<in># nodes m. hash_of y \<noteq> k" using first_none [OF assms(1), of k] by simp
    then have "\<forall>y \<in> ?g ` set_mset (nodes m). hash_of y \<noteq> k" unfolding ball_simps g(1) .
    then have "first ?m k = None" using first_none [OF m'(1), of k] unfolding m'(2) set_image_mset by blast
    moreover have "k \<noteq> h" using None assms(3) by auto
    ultimately show ?thesis using None by simp
  next
    case (Some y)
    then have y: "y \<in># nodes m" "hash_of y = k" using first_some [OF assms(1)] by auto
    then have "first ?m k = Some (?g y)"
      using first_eq [OF m'(1) u, of k "?g y"] g(1) [of y] unfolding m'(2) set_image_mset by blast
    moreover have "addr_of y = addr_of x \<longleftrightarrow> y = x" using addr_inj [OF assms(1) y(1) x(1)] by blast
    moreover have "y = x \<longleftrightarrow> k = h"
    proof
      assume "k = h"
      with Some assms(3) have "Some y = Some x" by (simp only:)
      then show "y = x" by simp
    qed (use x(2) y(2) in blast)
    ultimately show ?thesis using Some by (cases "k = h") simp_all
  qed
  then show "first ?m = (first m)(h \<mapsto> f x)" by blast
qed

end

subsection \<open>The map keeps the contract\<close>

text \<open>The node a pointer to it points to, and an assignment through such a pointer.\<close>

definition hmap_first_node :: "'a hmap \<Rightarrow> size_t \<Rightarrow> 'a hmap_node option" where
  "hmap_first_node h hash = (case hmap_first_with_hash h hash of [] \<Rightarrow> None | nd # _ \<Rightarrow> Some nd)"

definition hmap_put :: "addr \<Rightarrow> ('a hmap_node \<Rightarrow> 'a hmap_node) \<Rightarrow> 'a hmap \<Rightarrow> 'a hmap" where
  "hmap_put a f h = h\<lparr>hm_buckets := map (map (\<lambda>nd. if hn_addr nd = a then f nd else nd)) (hm_buckets h)\<rparr>"

lemma hmap_first_node_eq:
  "hmap_first_node h hash = (case nodes_with_hash h hash of [] \<Rightarrow> None | nd # _ \<Rightarrow> Some nd)"
  using hmap_first_with_hash_eq [of h hash]
  by (auto simp: hmap_first_node_def split: list.splits)

lemma hmap_first_node_search: "hmap_first_node h hash = hmap_for_each_with_hash (\<lambda>_. True) hash h"
  by (simp add: hmap_first_node_eq hmap_for_each_with_hash_eq split: list.splits)

lemma hmap_put_nodes: "hmap_nodes (hmap_put a f h) = map (\<lambda>nd. if hn_addr nd = a then f nd else nd) (hmap_nodes h)"
  by (simp add: hmap_nodes_def hmap_put_def map_concat)

lemma hmap_put_wf:
  assumes "hmap_wf h" "\<And>x. hn_hash (f x) = hn_hash x \<and> hn_addr (f x) = hn_addr x"
  shows "hmap_wf (hmap_put a f h)"
proof -
  let ?g = "\<lambda>nd. if hn_addr nd = a then f nd else nd"
  have "map hn_addr (map ?g xs) = map hn_addr xs" for xs using assms(2) by (induction xs) auto
  then have "distinct (map hn_addr (hmap_nodes (hmap_put a f h)))"
    using assms(1) unfolding hmap_put_nodes hmap_wf_def by metis
  moreover have "hmap_placed (hmap_put a f h)"
    using assms by (auto simp: hmap_wf_def hmap_placed_def hmap_put_def)
  ultimately show ?thesis using assms(1) by (simp add: hmap_wf_def hmap_put_nodes) (simp add: hmap_put_def)
qed

interpretation ovs_hmap: hash_table hmap_wf "\<lambda>h. mset (hmap_nodes h)" hn_hash hn_addr
  "\<lambda>nd hash. nd\<lparr>hn_hash := hash\<rparr>" hmap_insert_at hmap_remove hmap_put hmap_first_node
proof (unfold_locales, goal_cases)
  case (1 m x h)
  then show ?case using hmap_insert [of m x h] by (metis set_mset_mset)
next
  case (4 m x)
  then show ?case using hmap_remove [of m x] by (metis set_mset_mset)
next
  case (5 m f a)
  then show ?case using hmap_put_wf [of m f a] by (simp add: hmap_put_nodes)
next
  case (6 m x y)
  then show ?case by (simp add: hmap_wf_def distinct_map inj_on_def)
next
  case (7 m h x)
  then have "x \<in> set (nodes_with_hash m h)"
    by (auto simp: hmap_first_node_eq split: list.splits)
  then show ?case using 7 nodes_with_hash_eq [of m h] by (simp add: hmap_wf_def)
next
  case (8 m h)
  then show ?case
    using nodes_with_hash_eq [of m h]
    by (auto simp: hmap_wf_def hmap_first_node_eq filter_empty_conv split: list.splits)
      (metis (mono_tags, lifting) filter_empty_conv list.discI)
qed simp_all

end
