(* ===== verification/Ovs_Hash.thy ===== *)
theory Ovs_Hash
  imports Sdpa_Prelude
begin

text \<open>
  The hash functions of \<^verbatim>\<open>lib/hash.h\<close> and \<^verbatim>\<open>lib/hash.c\<close> (MurmurHash3).

  The lemmas show that every mixing step is a permutation of the 32-bit words,
  so that a change confined to one 4-byte block of a key always changes the
  hash; only keys that differ in more than one block can collide.
\<close>

section \<open>Mixing steps\<close>

text \<open>\<^verbatim>\<open>hash_rot\<close> is called with \<open>k\<close> between 1 and 31 only; \<^verbatim>\<open>x >> 32\<close> is undefined.\<close>

definition hash_rot :: "u32 \<Rightarrow> nat \<Rightarrow> u32" where
  "hash_rot x k = push_bit k x OR drop_bit (32 - k) x"

text \<open>\<^verbatim>\<open>mhash_add__\<close> in the source.\<close>

definition mhash_add0 :: "u32 \<Rightarrow> u32 \<Rightarrow> u32" where
  "mhash_add0 hash data =
     (let data = data * 0xcc9e2d51;
          data = hash_rot data 15;
          data = data * 0x1b873593
      in hash XOR data)"

definition mhash_add :: "u32 \<Rightarrow> u32 \<Rightarrow> u32" where
  "mhash_add hash data =
     (let hash = mhash_add0 hash data;
          hash = hash_rot hash 13
      in hash * 5 + 0xe6546b64)"

definition mhash_finish :: "u32 \<Rightarrow> size_t \<Rightarrow> u32" where
  "mhash_finish hash n_bytes =
     (let hash = hash XOR n_bytes;
          hash = hash XOR drop_bit 16 hash;
          hash = hash * 0x85ebca6b;
          hash = hash XOR drop_bit 13 hash;
          hash = hash * 0xc2b2ae35;
          hash = hash XOR drop_bit 16 hash
      in hash)"


section \<open>Hash functions\<close>

definition hash_3words :: "u32 \<Rightarrow> u32 \<Rightarrow> u32 \<Rightarrow> u32" where
  "hash_3words a b c = mhash_finish (mhash_add (mhash_add (mhash_add a 0) b) c) 12"

definition hash_2words :: "u32 \<Rightarrow> u32 \<Rightarrow> u32" where
  "hash_2words x y = mhash_finish (mhash_add (mhash_add x 0) y) 4"

definition hash_int :: "u32 \<Rightarrow> u32 \<Rightarrow> u32" where
  "hash_int x basis = hash_2words x basis"

definition hash_boolean :: "bool \<Rightarrow> u32 \<Rightarrow> u32" where
  "hash_boolean x basis =
     (let P0 = 0xc2b73583; P1 = 0xe90f1258
      in (if x then P0 else P1) XOR hash_rot basis 1)"

text \<open>A pointer of the i686 build is its 32-bit address.\<close>

definition hash_pointer :: "u32 \<Rightarrow> u32 \<Rightarrow> u32" where
  "hash_pointer p basis = hash_int p basis"

text \<open>
  \<open>hash_bytes\<close> takes the \<open>n\<close> bytes at \<^verbatim>\<open>p\<close> as a list: the loop consumes four
  at a time, the last one to three are copied into a zeroed word.
\<close>

fun hash_bytes_loop :: "u8 list \<Rightarrow> u32 \<Rightarrow> u32 \<times> u8 list" where
  "hash_bytes_loop p hash =
     (if 4 \<le> length p
      then hash_bytes_loop (drop 4 p) (mhash_add hash (le_word (take 4 p)))
      else (hash, p))"

declare hash_bytes_loop.simps [simp del]

definition hash_bytes :: "u8 list \<Rightarrow> u32 \<Rightarrow> u32" where
  "hash_bytes p basis =
     (let (hash, rest) = hash_bytes_loop p basis;
          hash = (if rest \<noteq> [] then mhash_add0 hash (le_word rest) else hash)
      in mhash_finish hash (of_nat (length p)))"

definition hash_words :: "u32 list \<Rightarrow> u32 \<Rightarrow> u32" where
  "hash_words p basis = mhash_finish (foldl mhash_add basis p) (of_nat (length p) * 4)"

text \<open>
  The bytes of the C string at the start of \<open>buf\<close>, those before the first NUL;
  \<open>strlen\<close> of a buffer without a NUL reads past its end.
\<close>

definition c_string :: "u8 list \<Rightarrow> u8 list option" where
  "c_string buf = (if 0 \<in> set buf then Some (takeWhile (\<lambda>b. b \<noteq> 0) buf) else None)"

definition hash_string :: "u8 list \<Rightarrow> u32 \<Rightarrow> u32 option" where
  "hash_string buf basis = map_option (\<lambda>s. hash_bytes s basis) (c_string buf)"


section \<open>The mixing steps are permutations\<close>

lemma mult_inj:
  fixes c :: "'a::len word"
  assumes "c * c' = 1"
  shows "x * c = y * c \<longleftrightarrow> x = y"
proof
  assume "x * c = y * c"
  then have "x * (c * c') = y * (c * c')" by (metis mult.assoc)
  with assms show "x = y" by simp
qed simp

lemma mult_consts_inj [word_inj]:
  fixes x y :: u32
  shows "x * 0xcc9e2d51 = y * 0xcc9e2d51 \<longleftrightarrow> x = y"
    and "x * 0x1b873593 = y * 0x1b873593 \<longleftrightarrow> x = y"
    and "x * 5 = y * 5 \<longleftrightarrow> x = y"
    and "x * 0x85ebca6b = y * 0x85ebca6b \<longleftrightarrow> x = y"
    and "x * 0xc2b2ae35 = y * 0xc2b2ae35 \<longleftrightarrow> x = y"
  by (rule mult_inj [where c' = "0xdee13bb1"], simp)
    (rule mult_inj [where c' = "0x56ed309b"], simp,
     rule mult_inj [where c' = "0xcccccccd"], simp,
     rule mult_inj [where c' = "0xa5cb9243"], simp,
     rule mult_inj [where c' = "0x7ed1b41d"], simp)

lemma bit_hash_rot:
  assumes "0 < k" "k < 32" "n < 32"
  shows "bit (hash_rot x k) n \<longleftrightarrow> bit x (if n < k then n + (32 - k) else n - k)"
  using assms bit_imp_le_length [of x "n + (32 - k)"]
  by (auto simp: hash_rot_def bit_or_iff bit_push_bit_iff bit_drop_bit_eq ac_simps)

lemma hash_rot_inj [word_inj]:
  assumes k: "0 < k" "k < 32"
  shows "hash_rot x k = hash_rot y k \<longleftrightarrow> x = y"
proof
  assume eq: "hash_rot x k = hash_rot y k"
  show "x = y"
  proof (rule bit_eqI)
    fix n
    assume "possible_bit TYPE(u32) n"
    then have n: "n < 32" by simp
    show "bit x n = bit y n"
    proof (cases "n + k < 32")
      case True
      then show ?thesis
        using bit_hash_rot [OF k, of "n + k" x] bit_hash_rot [OF k, of "n + k" y] eq by simp
    next
      case False
      then have "n + k - 32 < k" "n + k - 32 + (32 - k) = n" using n k by auto
      then show ?thesis
        using bit_hash_rot [OF k, of "n + k - 32" x] bit_hash_rot [OF k, of "n + k - 32" y] eq k
        by simp
    qed
  qed
qed simp

text \<open>\<^verbatim>\<open>x ^= x >> k\<close>: the high bits are unchanged and determine the lower ones.\<close>

lemma xorshift_inj [word_inj]:
  fixes x y :: "'a::len word"
  assumes k: "0 < k"
  shows "x XOR drop_bit k x = y XOR drop_bit k y \<longleftrightarrow> x = y"
proof
  assume eq: "x XOR drop_bit k x = y XOR drop_bit k y"
  have step: "bit x n \<noteq> bit x (n + k) \<longleftrightarrow> bit y n \<noteq> bit y (n + k)" for n
    using arg_cong [OF eq, of "\<lambda>w. bit w n"] by (simp add: bit_xor_iff bit_drop_bit_eq ac_simps)
  show "x = y"
  proof (rule bit_eqI)
    fix n
    assume "possible_bit TYPE('a word) n"
    show "bit x n = bit y n"
    proof (induction "LENGTH('a) - n" arbitrary: n rule: less_induct)
      case less
      show ?case
      proof (cases "n < LENGTH('a)")
        case True
        then have "bit x (n + k) = bit y (n + k)" using less [of "n + k"] k by auto
        with step [of n] show ?thesis by blast
      next
        case False
        then show ?thesis using bit_imp_le_length by blast
      qed
    qed
  qed
qed simp

lemma xor_cancel [word_inj]:
  fixes a b c :: "'a::len word"
  shows "a XOR c = b XOR c \<longleftrightarrow> a = b" "c XOR a = c XOR b \<longleftrightarrow> a = b"
  by (metis xor.assoc xor.commute xor_self_eq xor.right_neutral)+

lemma mhash_add0_inj_data [word_inj]: "mhash_add0 h d = mhash_add0 h d' \<longleftrightarrow> d = d'"
  by (simp add: mhash_add0_def Let_def word_inj)

lemma mhash_add0_inj_hash [word_inj]: "mhash_add0 h d = mhash_add0 h' d \<longleftrightarrow> h = h'"
  by (simp add: mhash_add0_def Let_def word_inj)

lemma mhash_add_inj_data [word_inj]: "mhash_add h d = mhash_add h d' \<longleftrightarrow> d = d'"
  by (simp add: mhash_add_def Let_def word_inj)

lemma mhash_add_inj_hash [word_inj]: "mhash_add h d = mhash_add h' d \<longleftrightarrow> h = h'"
  by (simp add: mhash_add_def Let_def word_inj)

lemma mhash_finish_inj [word_inj]: "mhash_finish h n = mhash_finish h' n \<longleftrightarrow> h = h'"
  by (simp only: mhash_finish_def Let_def word_inj zero_less_numeral)

lemma foldl_mhash_add_inj [word_inj]:
  "foldl mhash_add h ws = foldl mhash_add h' ws \<longleftrightarrow> h = h'"
  by (induction ws arbitrary: h h') (simp_all add: word_inj)

section \<open>Keys that differ in one block\<close>

lemma hash_bytes_loop_short [simp]: "length p < 4 \<Longrightarrow> hash_bytes_loop p h = (h, p)"
  by (simp add: hash_bytes_loop.simps)

lemma hash_bytes_loop_block:
  "length x = 4 \<Longrightarrow> hash_bytes_loop (x @ p) h = hash_bytes_loop p (mhash_add h (le_word x))"
  by (subst hash_bytes_loop.simps) simp

lemma hash_bytes_loop_append:
  "length as mod 4 = 0 \<Longrightarrow> hash_bytes_loop (as @ p) h = hash_bytes_loop p (fst (hash_bytes_loop as h))"
proof (induction as h rule: hash_bytes_loop.induct)
  case (1 as h)
  show ?case
  proof (cases "4 \<le> length as")
    case True
    then have "length (drop 4 as) mod 4 = 0" using "1.prems" by (simp add: le_mod_geq)
    with 1 True have "hash_bytes_loop (drop 4 as @ p) (mhash_add h (le_word (take 4 as)))
        = hash_bytes_loop p (fst (hash_bytes_loop as h))"
      by (simp add: hash_bytes_loop.simps [of as h])
    with True show ?thesis by (simp add: hash_bytes_loop.simps [of "as @ p" h])
  next
    case False
    then have "as = []" using "1.prems" by (cases "length as") (auto simp: mod_if split: if_splits)
    then show ?thesis by simp
  qed
qed

lemma hash_bytes_loop_rest: "snd (hash_bytes_loop p h) = snd (hash_bytes_loop p h')"
proof (induction p h arbitrary: h' rule: hash_bytes_loop.induct)
  case (1 p h)
  then show ?case
    by (cases "4 \<le> length p") (simp_all add: hash_bytes_loop.simps [of p])
qed

lemma hash_bytes_loop_inj [word_inj]:
  "fst (hash_bytes_loop p h) = fst (hash_bytes_loop p h') \<longleftrightarrow> h = h'"
proof (induction p h arbitrary: h' rule: hash_bytes_loop.induct)
  case (1 p h)
  then show ?case
    by (cases "4 \<le> length p") (simp_all add: hash_bytes_loop.simps [of p] word_inj)
qed

lemma hash_bytes_start_inj:
  "length p = length p' \<Longrightarrow> hash_bytes_loop p b = hash_bytes_loop q h
   \<Longrightarrow> hash_bytes_loop p' b = hash_bytes_loop q h'
   \<Longrightarrow> hash_bytes p b = hash_bytes p' b \<longleftrightarrow> h = h'"
  using hash_bytes_loop_rest [of q h h']
  by (simp add: hash_bytes_def Let_def case_prod_unfold word_inj)

lemma hash_bytes_block_inj:
  assumes as: "length as mod 4 = 0" and len: "length xs = length ys"
    and blk: "length xs = 4 \<or> length xs < 4 \<and> bs = []"
  shows "hash_bytes (as @ xs @ bs) basis = hash_bytes (as @ ys @ bs) basis \<longleftrightarrow> xs = ys"
proof -
  let ?h = "fst (hash_bytes_loop as basis)"
  have inj: "(le_word xs :: u32) = le_word ys \<longleftrightarrow> xs = ys"
    using le_word_inj [of xs ys, where 'a = 32] len blk by auto
  from blk show ?thesis
  proof
    assume "length xs = 4"
    then show ?thesis
      using hash_bytes_start_inj [of "as @ xs @ bs" "as @ ys @ bs" basis bs
          "mhash_add ?h (le_word xs)" "mhash_add ?h (le_word ys)"] len inj
      by (simp add: hash_bytes_loop_append [OF as] hash_bytes_loop_block word_inj)
  next
    assume "length xs < 4 \<and> bs = []"
    then show ?thesis
      using len inj
      by (auto simp: hash_bytes_def hash_bytes_loop_append [OF as] Let_def word_inj)
  qed
qed

text \<open>The comments in \<^verbatim>\<open>hash_boolean\<close> name two values of \<^verbatim>\<open>hash_int\<close>; they are not its constants.\<close>

lemma hash_boolean_constants: "hash_int 1 0 \<noteq> hash_boolean True 0" "hash_int 2 0 \<noteq> hash_boolean False 0"
  by code_simp+

end
