(* ===== verification/Sfa.thy ===== *)
theory Sfa
  imports Ovs_Hmap Ovs_Hash
begin

text \<open>
  The state tables of \<^verbatim>\<open>ofproto/sfa.h\<close> and the messages of \<^verbatim>\<open>ofproto/sfa.c\<close>
  that create and modify them.

  A message is the list of its bytes, starting with the OpenFlow header; the
  cursor of the code is an offset into it, and a read outside the message is
  \<open>None\<close>.  So are a failed assertion of the hash map and a write outside an
  allocated buffer.  \<open>None\<close> therefore means undefined behaviour or an abort, and a
  result \<open>Some\<close> states that there is none.  The intrusive lists of the tables
  are the sequences of their elements: \<open>list_insert\<close> before the head
  appends, and \<^verbatim>\<open>LIST_FOR_EACH\<close> visits them in order, which \<open>is_list_push_back\<close> and
  \<open>is_list_for_each\<close> of the list component show.  A hash table is the map of
  the hmap component, with the addresses of its nodes from \<^verbatim>\<open>xmalloc\<close>.
\<close>

section \<open>Tables\<close>

text \<open>The enumerations come from the wire through \<open>ntohl\<close>, so any value occurs.\<close>

abbreviation (input) SFAPARAM_CONST :: u32 where "SFAPARAM_CONST \<equiv> 15"

record STT_MATCH_ENTRY =
  param_left_type :: u32
  param_left :: u64
  oprator :: u32
  param_right_type :: u32
  param_right :: u64
  stt_last_status :: u32
  stt_cur_status :: u32

record SFA_ACTION =
  actype :: u32
  acparam :: u32

record AT_MATCH_ENTRY =
  at_data :: "u8 list"
  at_last_status :: u32
  act :: SFA_ACTION

record ACTION_TABLE =
  at_bitmap :: u64
  at_entrys :: "AT_MATCH_ENTRY hmap"

record ST_MATCH_ENTRY =
  st_data :: "u8 list"
  st_last_status :: u32

record STATUS_TABLE =
  match_bitmap :: u64
  st_entrys :: "ST_MATCH_ENTRY hmap"

record CONTROLLAPP =
  appid :: u32
  pst :: STATUS_TABLE
  pstt :: "STT_MATCH_ENTRY list"
  pat :: ACTION_TABLE

text \<open>The global \<^verbatim>\<open>g_apps\<close>, and the next address \<^verbatim>\<open>xmalloc\<close> hands out.\<close>

record APPS =
  islistinit :: bool
  appslist :: "CONTROLLAPP list"
  brk :: addr

datatype sfaerr = SFA_MSG_PROCESS_OK | SFA_MSG_PROCESS_ERROR

section \<open>Layout of the message structures\<close>

text \<open>
  Offsets of the members of a structure, and its size, from the size and the
  alignment of each.  \<open>al\<close> is the alignment of \<^verbatim>\<open>uint64_t\<close>: 4 on i686, the
  machine \<^verbatim>\<open>config.log\<close> records for this build, and 8 on x86-64.
\<close>

definition align_up :: "nat \<Rightarrow> nat \<Rightarrow> nat" where
  "align_up a x = (x + a - 1) div a * a"

fun offsets_from :: "nat \<Rightarrow> (nat \<times> nat) list \<Rightarrow> nat list" where
  "offsets_from x [] = [x]"
| "offsets_from x ((s, a) # fs) = align_up a x # offsets_from (align_up a x + s) fs"

definition offset_of :: "(nat \<times> nat) list \<Rightarrow> nat \<Rightarrow> nat" where
  "offset_of fs i = offsets_from 0 fs ! i"

definition size_of :: "(nat \<times> nat) list \<Rightarrow> nat" where
  "size_of fs = align_up (foldr (\<lambda>(s, a). max a) fs 1) (last (offsets_from 0 fs))"

definition sfa_msg_init_st :: "nat \<Rightarrow> (nat \<times> nat) list" where
  "sfa_msg_init_st al = [(4, 4), (8, al), (4, 4)]"

definition sfa_msg_init_stt :: "nat \<Rightarrow> (nat \<times> nat) list" where
  "sfa_msg_init_stt al = [(4, 4), (8, al), (4, 4), (8, al), (4, 4), (4, 4), (4, 4)]"

definition sfa_msg_init_at :: "nat \<Rightarrow> (nat \<times> nat) list" where
  "sfa_msg_init_at al = [(8, al), (4, 4)]"

text \<open>\<^verbatim>\<open>sizeof(struct ofp_header)\<close>.\<close>

abbreviation (input) sizeof_ofp_header :: nat where "sizeof_ofp_header \<equiv> 8"

section \<open>Messages\<close>

text \<open>\<^verbatim>\<open>(int) x > 0\<close> trips of a loop whose bound is a signed integer.\<close>

definition int_count :: "u32 \<Rightarrow> nat" where
  "int_count x = nat (sint x)"

subsection \<open>Table creation\<close>

text \<open>
  Lines 76 to 90: the entries of the state table.  The message and the copy of the string are both in memory, so \<open>len + 2\<close>
  does not wrap, here and for the other strings.
\<close>

fun init_st_entries ::
    "u8 list \<Rightarrow> nat \<Rightarrow> nat \<Rightarrow> ST_MATCH_ENTRY hmap \<Rightarrow> addr \<Rightarrow> (nat \<times> ST_MATCH_ENTRY hmap \<times> addr) option" where
  "init_st_entries msg 0 cursor h a = Some (cursor, h, a)"
| "init_st_entries msg (Suc k) cursor h a = do {
     status \<leftarrow> rd_be32 msg cursor;
     len \<leftarrow> rd_be32 msg (cursor + 4);
     str \<leftarrow> rd_bytes msg (cursor + 8) (unat len);
     let data = str @ [0, 0];
     hash \<leftarrow> hash_string data 0;
     h \<leftarrow> hmap_insert_at h \<lparr>hn_addr = a, hn_hash = 0, hn_data = \<lparr>st_data = data, st_last_status = status\<rparr>\<rparr> hash;
     init_st_entries msg k (cursor + 8 + unat len) h (a + 1)
   }"

text \<open>Lines 99 to 113: the transitions.\<close>

fun init_stt_entries :: "nat \<Rightarrow> u8 list \<Rightarrow> nat \<Rightarrow> nat \<Rightarrow> STT_MATCH_ENTRY list \<Rightarrow> (nat \<times> STT_MATCH_ENTRY list) option" where
  "init_stt_entries al msg 0 cursor stt = Some (cursor, stt)"
| "init_stt_entries al msg (Suc k) cursor stt = do {
     let off = offset_of (sfa_msg_init_stt al);
     cur \<leftarrow> rd_be32 msg (cursor + off 6);
     op \<leftarrow> rd_be32 msg (cursor + off 4);
     left \<leftarrow> rd_be64 msg (cursor + off 1);
     left_type \<leftarrow> rd_be32 msg (cursor + off 0);
     right \<leftarrow> rd_be64 msg (cursor + off 3);
     right_type \<leftarrow> rd_be32 msg (cursor + off 2);
     last_status \<leftarrow> rd_be32 msg (cursor + off 5);
     let sttme = \<lparr>param_left_type = left_type, param_left = left, oprator = op,
       param_right_type = right_type, param_right = right,
       stt_last_status = last_status, stt_cur_status = cur\<rparr>;
     init_stt_entries al msg k (cursor + size_of (sfa_msg_init_stt al)) (stt @ [sttme])
   }"

text \<open>
  Lines 124 to 140: the entries of the action table.  The byte at \<open>len - 1\<close> is
  cleared before the copy, which is outside the buffer when \<open>len = 0\<close>.  Of the
  \<open>len + 2\<close> bytes the last one stays uninitialised.
\<close>

fun init_at_entries ::
    "u8 list \<Rightarrow> nat \<Rightarrow> nat \<Rightarrow> AT_MATCH_ENTRY hmap \<Rightarrow> addr \<Rightarrow> (nat \<times> AT_MATCH_ENTRY hmap \<times> addr) option" where
  "init_at_entries msg 0 cursor h a = Some (cursor, h, a)"
| "init_at_entries msg (Suc k) cursor h a = do {
     ty \<leftarrow> rd_be32 msg cursor;
     param \<leftarrow> rd_be32 msg (cursor + 4);
     status \<leftarrow> rd_be32 msg (cursor + 8);
     len \<leftarrow> rd_be32 msg (cursor + 12);
     _ \<leftarrow> (if len = 0 then None else Some ());
     str \<leftarrow> rd_bytes msg (cursor + 16) (unat len);
     let data = str @ [0];
     hash \<leftarrow> hash_string data 0;
     h \<leftarrow> hmap_insert_at h \<lparr>hn_addr = a, hn_hash = 0,
       hn_data = \<lparr>at_data = data, at_last_status = status, act = \<lparr>actype = ty, acparam = param\<rparr>\<rparr>\<rparr> hash;
     init_at_entries msg k (cursor + 16 + unat len) h (a + 1)
   }"

definition sfa_msg_init :: "nat \<Rightarrow> u8 list \<Rightarrow> APPS \<Rightarrow> (sfaerr \<times> APPS) option" where
  "sfa_msg_init al msg s = do {
     let s = (if \<not> islistinit s then s\<lparr>appslist := [], islistinit := True\<rparr> else s);
     let off = offset_of (sfa_msg_init_st al);
     aid \<leftarrow> rd_be32 msg (sizeof_ofp_header + off 0);
     if \<exists>app \<in> set (appslist s). appid app = aid then Some (SFA_MSG_PROCESS_OK, s)
     else do {
       counts \<leftarrow> rd_be32 msg (sizeof_ofp_header + off 2);
       mmp \<leftarrow> rd_be64 msg (sizeof_ofp_header + off 1);
       let cursor = sizeof_ofp_header + size_of (sfa_msg_init_st al);
       (cursor, st, a) \<leftarrow> init_st_entries msg (int_count counts) cursor hmap_init (brk s);
       stt_count \<leftarrow> rd_be32 msg cursor;
       (cursor, stt) \<leftarrow> init_stt_entries al msg (unat stt_count) (cursor + 4) [];
       at_counts \<leftarrow> rd_be32 msg (cursor + offset_of (sfa_msg_init_at al) 1);
       bitmap \<leftarrow> rd_be64 msg (cursor + offset_of (sfa_msg_init_at al) 0);
       let cursor = cursor + size_of (sfa_msg_init_at al);
       (cursor, at, a) \<leftarrow> init_at_entries msg (int_count at_counts) cursor hmap_init a;
       let app = \<lparr>appid = aid, pst = \<lparr>match_bitmap = mmp, st_entrys = st\<rparr>, pstt = stt,
         pat = \<lparr>at_bitmap = bitmap, at_entrys = at\<rparr>\<rparr>;
       Some (SFA_MSG_PROCESS_OK, s\<lparr>appslist := appslist s @ [app], brk := a\<rparr>)
     }
   }"

subsection \<open>Changes to the state table\<close>

text \<open>The application \<^verbatim>\<open>LIST_FOR_EACH\<close> stops at, and an assignment through the pointer to it.\<close>

definition find_app :: "u32 \<Rightarrow> APPS \<Rightarrow> CONTROLLAPP option" where
  "find_app aid s = find (\<lambda>app. appid app = aid) (appslist s)"

fun update_first :: "('a \<Rightarrow> bool) \<Rightarrow> ('a \<Rightarrow> 'a) \<Rightarrow> 'a list \<Rightarrow> 'a list" where
  "update_first P f [] = []"
| "update_first P f (x # xs) = (if P x then f x # xs else x # update_first P f xs)"

definition put_app :: "u32 \<Rightarrow> (CONTROLLAPP \<Rightarrow> CONTROLLAPP) \<Rightarrow> APPS \<Rightarrow> APPS" where
  "put_app aid f s = s\<lparr>appslist := update_first (\<lambda>app. appid app = aid) f (appslist s)\<rparr>"

abbreviation (input) ENTRY_ADD :: u32 where "ENTRY_ADD \<equiv> 0"
abbreviation (input) ENTRY_UPDATE :: u32 where "ENTRY_UPDATE \<equiv> 1"
abbreviation (input) ENTRY_DEL :: u32 where "ENTRY_DEL \<equiv> 2"

text \<open>
  One trip of the loop of \<^verbatim>\<open>sfa_msg_st_mod\<close>: the new cursor, table and heap, or
  \<open>Inl\<close> when the entry has an unknown type and the function returns.
\<close>

type_synonym 'e mod_step = "(unit + nat \<times> 'e hmap \<times> addr) option"

definition st_mod_entry :: "u8 list \<Rightarrow> nat \<Rightarrow> ST_MATCH_ENTRY hmap \<Rightarrow> addr \<Rightarrow> ST_MATCH_ENTRY mod_step" where
  "st_mod_entry msg cursor h a = do {
     tmt \<leftarrow> rd_be32 msg cursor;
     if tmt = ENTRY_ADD then do {
       status \<leftarrow> rd_be32 msg (cursor + 4);
       len \<leftarrow> rd_be32 msg (cursor + 8);
       str \<leftarrow> rd_bytes msg (cursor + 12) (unat len);
       let data = str @ [0, 0];
       hash \<leftarrow> hash_string data 0;
       if hmap_first_with_hash h hash \<noteq> [] then Some (Inr (cursor + 12 + unat len, h, a))
       else do {
         h \<leftarrow> hmap_insert_at h
           \<lparr>hn_addr = a, hn_hash = 0, hn_data = \<lparr>st_data = data, st_last_status = status\<rparr>\<rparr> hash;
         Some (Inr (cursor + 12 + unat len, h, a + 1))
       }
     } else if tmt = ENTRY_UPDATE then do {
       status \<leftarrow> rd_be32 msg (cursor + 4);
       len \<leftarrow> rd_be32 msg (cursor + 8);
       str \<leftarrow> rd_bytes msg (cursor + 12) (unat len);
       hash \<leftarrow> hash_string (str @ [0, 0]) 0;
       (case hmap_first_node h hash of
          None \<Rightarrow> Some (Inr (cursor + 12 + unat len, h, a))
        | Some nd \<Rightarrow> Some (Inr (cursor + 12 + unat len,
            hmap_put (hn_addr nd) (hn_data_update (st_last_status_update (\<lambda>_. status))) h, a)))
     } else if tmt = ENTRY_DEL then do {
       len \<leftarrow> rd_be32 msg (cursor + 8);
       str \<leftarrow> rd_bytes msg (cursor + 12) (unat len);
       hash \<leftarrow> hash_string (str @ [0, 0]) 0;
       (case hmap_first_node h hash of
          None \<Rightarrow> Some (Inr (cursor + 12 + unat len, h, a))
        | Some nd \<Rightarrow> do {
            h \<leftarrow> hmap_remove h nd;
            Some (Inr (cursor + 12 + unat len, h, a))
          })
     } else Some (Inl ())
   }"

text \<open>The loop itself, also that of \<^verbatim>\<open>sfa_msg_at_mod\<close>.\<close>

fun mod_entries :: "(nat \<Rightarrow> 'e hmap \<Rightarrow> addr \<Rightarrow> 'e mod_step) \<Rightarrow> nat \<Rightarrow> nat \<Rightarrow> 'e hmap \<Rightarrow> addr
    \<Rightarrow> (sfaerr \<times> 'e hmap \<times> addr) option" where
  "mod_entries step 0 cursor h a = Some (SFA_MSG_PROCESS_OK, h, a)"
| "mod_entries step (Suc k) cursor h a = do {
     r \<leftarrow> step cursor h a;
     (case r of
        Inl _ \<Rightarrow> Some (SFA_MSG_PROCESS_ERROR, h, a)
      | Inr (cursor, h, a) \<Rightarrow> mod_entries step k cursor h a)
   }"

definition sfa_msg_st_mod :: "u8 list \<Rightarrow> APPS \<Rightarrow> (sfaerr \<times> APPS) option" where
  "sfa_msg_st_mod msg s = do {
     aid \<leftarrow> rd_be32 msg sizeof_ofp_header;
     if \<not> islistinit s then Some (SFA_MSG_PROCESS_ERROR, s)
     else (case find_app aid s of
         None \<Rightarrow> Some (SFA_MSG_PROCESS_ERROR, s)
       | Some app \<Rightarrow> do {
           count \<leftarrow> rd_be32 msg (sizeof_ofp_header + 4);
           (err, h, a) \<leftarrow> mod_entries (st_mod_entry msg) (int_count count) (sizeof_ofp_header + 8)
             (st_entrys (pst app)) (brk s);
           Some (err, (put_app aid (pst_update (st_entrys_update (\<lambda>_. h))) s)\<lparr>brk := a\<rparr>)
         })
   }"

subsection \<open>Changes to the action table\<close>

text \<open>
  The type of the change is read in host byte order.  An entry that is found and
  deleted leaves the cursor where it is.
\<close>

definition at_mod_entry :: "u8 list \<Rightarrow> nat \<Rightarrow> AT_MATCH_ENTRY hmap \<Rightarrow> addr \<Rightarrow> AT_MATCH_ENTRY mod_step" where
  "at_mod_entry msg cursor h a = do {
     tmt \<leftarrow> rd_host32 msg cursor;
     if tmt = ENTRY_ADD then do {
       status \<leftarrow> rd_be32 msg (cursor + 12);
       len \<leftarrow> rd_be32 msg (cursor + 16);
       str \<leftarrow> rd_bytes msg (cursor + 20) (unat len);
       let data = str @ [0, 0];
       ty \<leftarrow> rd_be32 msg (cursor + 4);
       param \<leftarrow> rd_be32 msg (cursor + 8);
       hash \<leftarrow> hash_string data 0;
       h \<leftarrow> hmap_insert_at h \<lparr>hn_addr = a, hn_hash = 0,
         hn_data = \<lparr>at_data = data, at_last_status = status, act = \<lparr>actype = ty, acparam = param\<rparr>\<rparr>\<rparr> hash;
       Some (Inr (cursor + 20 + unat len, h, a + 1))
     } else if tmt = ENTRY_UPDATE then do {
       status \<leftarrow> rd_be32 msg (cursor + 12);
       len \<leftarrow> rd_be32 msg (cursor + 16);
       str \<leftarrow> rd_bytes msg (cursor + 20) (unat len);
       hash \<leftarrow> hash_string (str @ [0, 0]) 0;
       (case hmap_first_node h hash of
          None \<Rightarrow> Some (Inr (cursor + 20 + unat len, h, a))
        | Some nd \<Rightarrow> do {
            ty \<leftarrow> rd_be32 msg (cursor + 4);
            param \<leftarrow> rd_be32 msg (cursor + 8);
            Some (Inr (cursor + 20 + unat len,
              hmap_put (hn_addr nd) (hn_data_update
                (\<lambda>e. e\<lparr>at_last_status := status, act := \<lparr>actype = ty, acparam = param\<rparr>\<rparr>)) h, a))
          })
     } else if tmt = ENTRY_DEL then do {
       len \<leftarrow> rd_be32 msg (cursor + 16);
       str \<leftarrow> rd_bytes msg (cursor + 20) (unat len);
       hash \<leftarrow> hash_string (str @ [0, 0]) 0;
       (case hmap_first_node h hash of
          None \<Rightarrow> Some (Inr (cursor + 20 + unat len, h, a))
        | Some nd \<Rightarrow> do {
            h \<leftarrow> hmap_remove h nd;
            Some (Inr (cursor, h, a))
          })
     } else Some (Inl ())
   }"

definition sfa_msg_at_mod :: "u8 list \<Rightarrow> APPS \<Rightarrow> (sfaerr \<times> APPS) option" where
  "sfa_msg_at_mod msg s = do {
     aid \<leftarrow> rd_be32 msg sizeof_ofp_header;
     if \<not> islistinit s then Some (SFA_MSG_PROCESS_ERROR, s)
     else (case find_app aid s of
         None \<Rightarrow> Some (SFA_MSG_PROCESS_ERROR, s)
       | Some app \<Rightarrow> do {
           count \<leftarrow> rd_be32 msg (sizeof_ofp_header + 4);
           (err, h, a) \<leftarrow> mod_entries (at_mod_entry msg) (unat count) (sizeof_ofp_header + 8)
             (at_entrys (pat app)) (brk s);
           Some (err, (put_app aid (pat_update (at_entrys_update (\<lambda>_. h))) s)\<lparr>brk := a\<rparr>)
         })
   }"

subsection \<open>Dispatch\<close>

text \<open>The type is the second byte of the header; \<open>-1\<close> hands the message on.\<close>

definition sfa_handle_pkt :: "nat \<Rightarrow> u8 list \<Rightarrow> APPS \<Rightarrow> (int \<times> APPS) option" where
  "sfa_handle_pkt al msg s = do {
     ty \<leftarrow> (if length msg < 2 then None else Some (msg ! 1));
     let result = map_option (\<lambda>(err, s). (if err = SFA_MSG_PROCESS_OK then 0 else - 1, s));
     if ty = 90 then result (sfa_msg_init al msg s)
     else if ty = 91 then result (sfa_msg_st_mod msg s)
     else if ty = 92 then result (sfa_msg_at_mod msg s)
     else Some (- 1, s)
   }"

section \<open>Well-formed tables\<close>

text \<open>
  Every node of a table is stored under the hash of its string, at an address
  that has been allocated.
\<close>

definition table_wf :: "('e \<Rightarrow> u8 list) \<Rightarrow> addr \<Rightarrow> 'e hmap \<Rightarrow> bool" where
  "table_wf data a h \<longleftrightarrow> hmap_wf h \<and>
     (\<forall>nd \<in> set (hmap_nodes h). hn_addr nd < a \<and> hash_string (data (hn_data nd)) 0 = Some (hn_hash nd))"

definition app_wf :: "addr \<Rightarrow> CONTROLLAPP \<Rightarrow> bool" where
  "app_wf a app \<longleftrightarrow> table_wf st_data a (st_entrys (pst app)) \<and> table_wf at_data a (at_entrys (pat app))"

definition sfa_wf :: "APPS \<Rightarrow> bool" where
  "sfa_wf s \<longleftrightarrow> (\<forall>app \<in> set (appslist s). app_wf (brk s) app) \<and> distinct (map appid (appslist s))"

lemma table_wf_mono: "table_wf data a h \<Longrightarrow> a \<le> a' \<Longrightarrow> table_wf data a' h"
  by (fastforce simp: table_wf_def)

lemma app_wf_mono: "app_wf a app \<Longrightarrow> a \<le> a' \<Longrightarrow> app_wf a' app"
  by (auto simp: app_wf_def intro: table_wf_mono)

lemma table_wf_init: "table_wf data a hmap_init"
  by (simp add: table_wf_def)

lemma table_insert:
  assumes "table_wf data a h" "hn_addr nd = a" "hash_string (data (hn_data nd)) 0 = Some hash"
  obtains h' where "hmap_insert_at h nd hash = Some h'" "table_wf data (a + 1) h'"
    "mset (hmap_nodes h') = add_mset (nd\<lparr>hn_hash := hash\<rparr>) (mset (hmap_nodes h))"
proof -
  have "hn_addr nd \<notin> hn_addr ` set (hmap_nodes h)" using assms(1,2) by (auto simp: table_wf_def)
  then obtain h' where h': "hmap_insert_at h nd hash = Some h'" "hmap_wf h'"
    "mset (hmap_nodes h') = add_mset (nd\<lparr>hn_hash := hash\<rparr>) (mset (hmap_nodes h))"
    using hmap_insert [of h nd hash] assms(1) unfolding table_wf_def by metis
  have "set (hmap_nodes h') = insert (nd\<lparr>hn_hash := hash\<rparr>) (set (hmap_nodes h))"
    using h'(3) by (metis set_mset_add_mset_insert set_mset_mset)
  then have "table_wf data (a + 1) h'" using assms h'(2) by (fastforce simp: table_wf_def)
  with h' that show thesis by blast
qed

lemma table_remove:
  assumes "table_wf data a h" "hmap_first_node h hash = Some nd"
  obtains h' where "hmap_remove h nd = Some h'" "table_wf data a h'"
    "mset (hmap_nodes h) = add_mset nd (mset (hmap_nodes h'))"
proof -
  have wf: "hmap_wf h" using assms(1) by (simp add: table_wf_def)
  then obtain h' where h': "hmap_remove h nd = Some h'" "hmap_wf h'"
    "mset (hmap_nodes h) = add_mset nd (mset (hmap_nodes h'))"
    using ovs_hmap.remove_law ovs_hmap.first_some [OF wf assms(2)] by blast
  have "set (hmap_nodes h') \<subseteq> set (hmap_nodes h)"
    using h'(3) by (metis set_mset_add_mset_insert set_mset_mset subset_insertI)
  then have "table_wf data a h'" using assms(1) h'(2) by (auto simp: table_wf_def)
  with h' that show thesis by blast
qed

lemma table_insert_wf:
  "hmap_insert_at h nd hash = Some h' \<Longrightarrow> table_wf data a h \<Longrightarrow> hn_addr nd = a
    \<Longrightarrow> hash_string (data (hn_data nd)) 0 = Some hash \<Longrightarrow> table_wf data (Suc a) h'"
  by (erule (2) table_insert) simp

lemma table_remove_wf:
  "hmap_remove h nd = Some h' \<Longrightarrow> table_wf data a h \<Longrightarrow> hmap_first_node h hash = Some nd \<Longrightarrow> table_wf data a h'"
  by (erule (1) table_remove) simp

lemma table_put:
  assumes "table_wf data a h" "\<And>e. data (f e) = data e"
  shows "table_wf data a (hmap_put p (hn_data_update f) h)"
  using assms hmap_put_wf [of h "hn_data_update f" p]
  by (auto simp: table_wf_def hmap_put_nodes)

lemma hash_string_data: "0 \<in> set z \<Longrightarrow> \<exists>k. hash_string (d @ z) 0 = Some k"
  by (simp add: hash_string_def c_string_def)

section \<open>Every message keeps the tables well formed\<close>

lemma init_st_entries_wf:
  "init_st_entries msg k c h a = Some (c', h', a') \<Longrightarrow> table_wf st_data a h \<Longrightarrow> a \<le> a' \<and> table_wf st_data a' h'"
proof (induction k arbitrary: c h a)
  case (Suc k)
  from Suc.prems(1) obtain status str hash h1 and len :: u32 where
    hash: "hash_string (str @ [0, 0]) 0 = Some hash"
    and ins: "hmap_insert_at h \<lparr>hn_addr = a, hn_hash = 0, hn_data = \<lparr>st_data = str @ [0, 0], st_last_status = status\<rparr>\<rparr> hash = Some h1"
    and rec: "init_st_entries msg k (c + 8 + unat len) h1 (a + 1) = Some (c', h', a')"
    by (auto simp: Let_def bind_eq_Some_conv)
  have "table_wf st_data (a + 1) h1" using table_insert_wf [OF ins Suc.prems(2)] hash by simp
  with Suc.IH [OF rec] show ?case by simp
qed auto

lemma init_at_entries_wf:
  "init_at_entries msg k c h a = Some (c', h', a') \<Longrightarrow> table_wf at_data a h \<Longrightarrow> a \<le> a' \<and> table_wf at_data a' h'"
proof (induction k arbitrary: c h a)
  case (Suc k)
  from Suc.prems(1) obtain ty param status str hash h1 and len :: u32 where
    hash: "hash_string (str @ [0]) 0 = Some hash"
    and ins: "hmap_insert_at h \<lparr>hn_addr = a, hn_hash = 0, hn_data = \<lparr>at_data = str @ [0], at_last_status = status, act = \<lparr>actype = ty, acparam = param\<rparr>\<rparr>\<rparr> hash = Some h1"
    and rec: "init_at_entries msg k (c + 16 + unat len) h1 (a + 1) = Some (c', h', a')"
    by (auto simp: Let_def bind_eq_Some_conv split: if_splits)
  have "table_wf at_data (a + 1) h1" using table_insert_wf [OF ins Suc.prems(2)] hash by simp
  with Suc.IH [OF rec] show ?case by simp
qed auto

lemma st_mod_entry_wf:
  assumes "st_mod_entry msg c h a = Some (Inr (c', h', a'))" "table_wf st_data a h"
  shows "a \<le> a' \<and> table_wf st_data a' h'"
  using assms
  by (auto simp: st_mod_entry_def Let_def bind_eq_Some_conv split: if_splits option.splits
      intro!: table_put dest!: table_insert_wf [OF _ assms(2)] table_remove_wf [OF _ assms(2)])

lemma at_mod_entry_wf:
  assumes "at_mod_entry msg c h a = Some (Inr (c', h', a'))" "table_wf at_data a h"
  shows "a \<le> a' \<and> table_wf at_data a' h'"
  using assms
  by (auto simp: at_mod_entry_def Let_def bind_eq_Some_conv split: if_splits option.splits
      intro!: table_put dest!: table_insert_wf [OF _ assms(2)] table_remove_wf [OF _ assms(2)])

lemma mod_entries_wf:
  assumes step: "\<And>c h a c' h' a'. step c h a = Some (Inr (c', h', a')) \<Longrightarrow> table_wf data a h \<Longrightarrow> a \<le> a' \<and> table_wf data a' h'"
  shows "mod_entries step k c h a = Some (err, h', a') \<Longrightarrow> table_wf data a h \<Longrightarrow> a \<le> a' \<and> table_wf data a' h'"
proof (induction k arbitrary: c h a)
  case (Suc k)
  from Suc.prems(1) obtain r where r: "step c h a = Some r" by (auto simp: bind_eq_Some_conv)
  show ?case
  proof (cases r)
    case (Inr t)
    obtain c1 h1 a1 where t: "t = (c1, h1, a1)" by (cases t)
    have "a \<le> a1" "table_wf data a1 h1" using step [of c h a c1 h1 a1] r Inr t Suc.prems(2) by auto
    moreover have "mod_entries step k c1 h1 a1 = Some (err, h', a')" using Suc.prems(1) r Inr t by simp
    ultimately show ?thesis using Suc.IH by (metis order_trans)
  qed (use Suc.prems r in simp)
qed auto

lemma update_first_mem: "x \<in> set (update_first P f xs) \<Longrightarrow> x \<in> set xs \<or> (\<exists>y \<in> set xs. find P xs = Some y \<and> x = f y)"
  by (induction xs) (auto split: if_splits)

lemma map_update_first: "(\<And>x. g (f x) = g x) \<Longrightarrow> map g (update_first P f xs) = map g xs"
  by (induction xs) auto

lemma put_app_wf:
  assumes "sfa_wf s" "find_app aid s = Some app" "brk s \<le> a" "app_wf a (f app)" "\<And>app. appid (f app) = appid app"
  shows "sfa_wf ((put_app aid f s)\<lparr>brk := a\<rparr>)"
  using assms update_first_mem [of _ "\<lambda>app. appid app = aid" f "appslist s"] map_update_first [of appid f]
  by (auto simp: sfa_wf_def put_app_def find_app_def dest!: update_first_mem intro: app_wf_mono)

lemma find_app_mem: "find_app aid s = Some app \<Longrightarrow> app \<in> set (appslist s) \<and> appid app = aid"
  by (auto simp: find_app_def find_Some_iff)

lemma sfa_msg_init_wf:
  assumes "sfa_msg_init al msg s = Some (err, s')" "sfa_wf s"
  shows "sfa_wf s'"
proof -
  define s0 where "s0 = (if \<not> islistinit s then s\<lparr>appslist := [], islistinit := True\<rparr> else s)"
  have wf: "sfa_wf s0" using assms(2) by (simp add: sfa_wf_def s0_def)
  note run = assms(1) [unfolded sfa_msg_init_def Let_def s0_def [symmetric]]
  obtain aid where aid: "rd_be32 msg (8 + offset_of (sfa_msg_init_st al) 0) = Some aid"
    using run by (auto simp: bind_eq_Some_conv)
  show ?thesis
  proof (cases "\<exists>app \<in> set (appslist s0). appid app = aid")
    case True
    then show ?thesis using run aid wf by auto
  next
    case False
    then obtain c st a c1 c2 c3 stt at a' mmp bitmap k k' where
      st: "init_st_entries msg k c hmap_init (brk s0) = Some (c1, st, a)"
      and at: "init_at_entries msg k' c2 hmap_init a = Some (c3, at, a')"
      and s': "s' = s0\<lparr>appslist := appslist s0 @ [\<lparr>appid = aid, pst = \<lparr>match_bitmap = mmp, st_entrys = st\<rparr>,
         pstt = stt, pat = \<lparr>at_bitmap = bitmap, at_entrys = at\<rparr>\<rparr>], brk := a'\<rparr>"
      using run aid by (auto simp: bind_eq_Some_conv split: prod.splits)
    have "brk s0 \<le> a" "table_wf st_data a st" using init_st_entries_wf [OF st] table_wf_init by auto
    moreover have "a \<le> a'" "table_wf at_data a' at" using init_at_entries_wf [OF at] table_wf_init by auto
    ultimately have "\<forall>app \<in> set (appslist s'). app_wf (brk s') app"
      using wf s' by (auto simp: sfa_wf_def app_wf_def intro: table_wf_mono)
    then show ?thesis using wf s' False by (auto simp: sfa_wf_def)
  qed
qed

lemma sfa_msg_st_mod_wf:
  assumes "sfa_msg_st_mod msg s = Some (err, s')" "sfa_wf s"
  shows "sfa_wf s'"
proof -
  obtain aid where aid: "rd_be32 msg 8 = Some aid"
    using assms(1) by (auto simp: sfa_msg_st_mod_def bind_eq_Some_conv)
  show ?thesis
  proof (cases "islistinit s \<and> find_app aid s \<noteq> None")
    case False
    then show ?thesis using assms aid by (auto simp: sfa_msg_st_mod_def split: if_splits)
  next
    case True
    then obtain app where app: "find_app aid s = Some app" by auto
    obtain k c h a where
      loop: "mod_entries (st_mod_entry msg) k c (st_entrys (pst app)) (brk s) = Some (err, h, a)"
      and s': "s' = (put_app aid (pst_update (st_entrys_update (\<lambda>_. h))) s)\<lparr>brk := a\<rparr>"
      using assms(1) aid True app by (auto simp: sfa_msg_st_mod_def bind_eq_Some_conv split: prod.splits)
    have wf: "app_wf (brk s) app" using assms(2) find_app_mem [OF app] by (simp add: sfa_wf_def)
    have a: "brk s \<le> a" "table_wf st_data a h"
      using mod_entries_wf [OF st_mod_entry_wf loop] wf by (auto simp: app_wf_def)
    show ?thesis
      unfolding s' by (rule put_app_wf [OF assms(2) app a(1)])
        (use a wf in \<open>auto simp: app_wf_def intro: table_wf_mono\<close>)
  qed
qed

lemma sfa_msg_at_mod_wf:
  assumes "sfa_msg_at_mod msg s = Some (err, s')" "sfa_wf s"
  shows "sfa_wf s'"
proof -
  obtain aid where aid: "rd_be32 msg 8 = Some aid"
    using assms(1) by (auto simp: sfa_msg_at_mod_def bind_eq_Some_conv)
  show ?thesis
  proof (cases "islistinit s \<and> find_app aid s \<noteq> None")
    case False
    then show ?thesis using assms aid by (auto simp: sfa_msg_at_mod_def split: if_splits)
  next
    case True
    then obtain app where app: "find_app aid s = Some app" by auto
    obtain k c h a where
      loop: "mod_entries (at_mod_entry msg) k c (at_entrys (pat app)) (brk s) = Some (err, h, a)"
      and s': "s' = (put_app aid (pat_update (at_entrys_update (\<lambda>_. h))) s)\<lparr>brk := a\<rparr>"
      using assms(1) aid True app by (auto simp: sfa_msg_at_mod_def bind_eq_Some_conv split: prod.splits)
    have wf: "app_wf (brk s) app" using assms(2) find_app_mem [OF app] by (simp add: sfa_wf_def)
    have a: "brk s \<le> a" "table_wf at_data a h"
      using mod_entries_wf [OF at_mod_entry_wf loop] wf by (auto simp: app_wf_def)
    show ?thesis
      unfolding s' by (rule put_app_wf [OF assms(2) app a(1)])
        (use a wf in \<open>auto simp: app_wf_def intro: table_wf_mono\<close>)
  qed
qed

lemma sfa_handle_pkt_wf:
  "sfa_handle_pkt al msg s = Some (r, s') \<Longrightarrow> sfa_wf s \<Longrightarrow> sfa_wf s'"
  by (auto simp: sfa_handle_pkt_def Let_def bind_eq_Some_conv split: if_splits
      dest: sfa_msg_init_wf sfa_msg_st_mod_wf sfa_msg_at_mod_wf)

text \<open>The state of a switch that has handled any sequence of messages.\<close>

inductive sfa_reachable :: "nat \<Rightarrow> APPS \<Rightarrow> bool" for al where
  start: "sfa_reachable al \<lparr>islistinit = False, appslist = [], brk = 0\<rparr>"
| handle: "sfa_reachable al s \<Longrightarrow> sfa_handle_pkt al msg s = Some (r, s') \<Longrightarrow> sfa_reachable al s'"

lemma sfa_reachable_wf: "sfa_reachable al s \<Longrightarrow> sfa_wf s"
  by (induction rule: sfa_reachable.induct) (simp add: sfa_wf_def, rule sfa_handle_pkt_wf)

end
