(* ===== verification/Sfa_Wire.thy ===== *)
theory Sfa_Wire
  imports Sfa
begin

text \<open>
  The state-table messages as the controller writes them, in the classes of
  \<^verbatim>\<open>sdpa-floodlight/src/main/java/org/sfa/protocol\<close>, and what the handlers of \<^verbatim>\<open>ofproto/sfa.c\<close> make of them.

  A \<^verbatim>\<open>ByteBuffer\<close> writes integers in network byte order and pads nothing.  The comment in
  \<^verbatim>\<open>ofproto/sfa.h\<close> on \<^verbatim>\<open>struct sfa_msg_init_st\<close> describes another layout for the entries of the state table, without the word
  for the state and aligned to 8 bytes: neither the controller nor the handler follows it.  The handlers read structures
  with the alignment of the compiler, and agree with the controller for the alignment 4 of i686, not for that of x86-64.
\<close>

section \<open>Reading at a cursor\<close>

named_theorems wire

lemma rd_bytes_append: "length xs \<le> i \<Longrightarrow> rd_bytes (xs @ ys) i n = rd_bytes ys (i - length xs) n"
  by (auto simp: rd_bytes_def)

lemma rd_bytes_drop: "c \<le> length msg \<Longrightarrow> rd_bytes msg (c + k) n = rd_bytes (drop c msg) k n"
  by (simp add: rd_bytes_def ac_simps le_diff_conv2)

lemma rd_append:
  "length xs \<le> i \<Longrightarrow> rd_be32 (xs @ ys) i = rd_be32 ys (i - length xs)"
  "length xs \<le> i \<Longrightarrow> rd_be64 (xs @ ys) i = rd_be64 ys (i - length xs)"
  "length xs \<le> i \<Longrightarrow> rd_host32 (xs @ ys) i = rd_host32 ys (i - length xs)"
  by (simp_all add: rd_be32_def rd_be64_def rd_host32_def rd_bytes_append)

lemma rd_drop:
  assumes "c \<le> length msg"
  shows "rd_be32 msg (c + k) = rd_be32 (drop c msg) k" "rd_be64 msg (c + k) = rd_be64 (drop c msg) k"
    "rd_host32 msg (c + k) = rd_host32 (drop c msg) k" "rd_be32 msg c = rd_be32 (drop c msg) 0"
    "rd_host32 msg c = rd_host32 (drop c msg) 0"
  using rd_bytes_drop [OF assms, of 0] by (simp_all add: rd_be32_def rd_be64_def rd_host32_def rd_bytes_drop [OF assms])

lemma rd_here [wire]:
  "rd_be32 (be32 w @ ys) 0 = Some w" "rd_be64 (be64 v @ ys) 0 = Some v"
  "rd_bytes (d @ ys) 0 (length d) = Some d"
  using rd_be32_at [of 0 "[]" w ys] rd_be64_at [of 0 "[]" v ys] by (simp_all add: rd_bytes_def)

lemma rd_skip [wire]:
  "4 \<le> i \<Longrightarrow> rd_be32 (be32 w @ ys) i = rd_be32 ys (i - 4)"
  "4 \<le> i \<Longrightarrow> rd_be64 (be32 w @ ys) i = rd_be64 ys (i - 4)"
  "4 \<le> i \<Longrightarrow> rd_bytes (be32 w @ ys) i n = rd_bytes ys (i - 4) n"
  "8 \<le> i \<Longrightarrow> rd_be32 (be64 v @ ys) i = rd_be32 ys (i - 8)"
  "8 \<le> i \<Longrightarrow> rd_be64 (be64 v @ ys) i = rd_be64 ys (i - 8)"
  "8 \<le> i \<Longrightarrow> rd_bytes (be64 v @ ys) i n = rd_bytes ys (i - 8) n"
  by (simp_all add: rd_append rd_bytes_append)

text \<open>The rest of the message after a block that starts at the cursor.\<close>

lemma drop_block:
  assumes "c \<le> length msg" "drop c msg = xs @ rest"
  shows "c + length xs \<le> length msg" "drop (c + length xs) msg = rest"
proof -
  have "length msg - c = length xs + length rest" using assms(2) by (metis length_append length_drop)
  then show "c + length xs \<le> length msg" using assms(1) by simp
  show "drop (c + length xs) msg = rest"
    using assms(2) by (metis add.commute append_eq_conv_conj drop_drop)
qed

section \<open>Encoding\<close>

abbreviation len32 :: "'a list \<Rightarrow> u32" where "len32 xs \<equiv> of_nat (length xs)"

type_synonym st_entry = "u32 \<times> u8 list"
type_synonym at_entry = "SFA_ACTION \<times> u32 \<times> u8 list"

text \<open>The methods that write the elements: those of \<^verbatim>\<open>STDATA\<close>, \<^verbatim>\<open>STTDATA\<close>, \<^verbatim>\<open>SFAAction\<close> and \<^verbatim>\<open>ATDATA\<close>.\<close>

fun enc_st :: "st_entry \<Rightarrow> u8 list" where
  "enc_st (status, d) = be32 status @ be32 (len32 d) @ d"

definition enc_stt :: "STT_MATCH_ENTRY \<Rightarrow> u8 list" where
  "enc_stt e = be32 (param_left_type e) @ be64 (param_left e) @ be32 (param_right_type e) @ be64 (param_right e)
     @ be32 (oprator e) @ be32 (stt_last_status e) @ be32 (stt_cur_status e)"

definition enc_action :: "SFA_ACTION \<Rightarrow> u8 list" where
  "enc_action ac = be32 (actype ac) @ be32 (acparam ac)"

fun enc_at :: "at_entry \<Rightarrow> u8 list" where
  "enc_at (ac, status, d) = enc_action ac @ be32 status @ be32 (len32 d) @ d"

text \<open>
  The three tables, \<^verbatim>\<open>SFASt\<close>, \<^verbatim>\<open>SFAStt\<close> and \<^verbatim>\<open>SFAAt\<close>, and the message \<^verbatim>\<open>SFACreate\<close> after its OpenFlow header.  The count that a class
  keeps is the length of its list of elements.
\<close>

definition enc_st_table :: "u32 \<Rightarrow> u64 \<Rightarrow> st_entry list \<Rightarrow> u8 list" where
  "enc_st_table aid mmp sts = be32 aid @ be64 mmp @ be32 (len32 sts) @ concat (map enc_st sts)"

definition enc_stt_table :: "STT_MATCH_ENTRY list \<Rightarrow> u8 list" where
  "enc_stt_table stts = be32 (len32 stts) @ concat (map enc_stt stts)"

definition enc_at_table :: "u64 \<Rightarrow> at_entry list \<Rightarrow> u8 list" where
  "enc_at_table bitmap ats = be64 bitmap @ be32 (len32 ats) @ concat (map enc_at ats)"

definition enc_init :: "u32 \<Rightarrow> u64 \<Rightarrow> st_entry list \<Rightarrow> STT_MATCH_ENTRY list \<Rightarrow> u64 \<Rightarrow> at_entry list \<Rightarrow> u8 list" where
  "enc_init aid mmp sts stts bitmap ats = enc_st_table aid mmp sts @ enc_stt_table stts @ enc_at_table bitmap ats"

lemmas enc_init_defs = enc_init_def enc_st_table_def enc_stt_table_def enc_at_table_def

text \<open>What a table holds: the entries and the hashes they are stored under.\<close>

definition content :: "'e hmap \<Rightarrow> (size_t \<times> 'e) multiset" where
  "content h = image_mset (\<lambda>nd. (hn_hash nd, hn_data nd)) (mset (hmap_nodes h))"

text \<open>The key of a string: the hash of the bytes before its first NUL.\<close>

definition str_hash :: "u8 list \<Rightarrow> u32" where
  "str_hash d = hash_bytes (takeWhile (\<lambda>b. b \<noteq> 0) d) 0"

fun st_entry_of :: "st_entry \<Rightarrow> size_t \<times> ST_MATCH_ENTRY" where
  "st_entry_of (status, d) = (str_hash d, \<lparr>st_data = d @ [0, 0], st_last_status = status\<rparr>)"

fun at_entry_of :: "at_entry \<Rightarrow> size_t \<times> AT_MATCH_ENTRY" where
  "at_entry_of (ac, status, d) = (str_hash d, \<lparr>at_data = d @ [0], at_last_status = status, act = ac\<rparr>)"

lemma hash_string_str_hash: "hash_string (d @ 0 # z) 0 = Some (str_hash d)"
proof -
  have "takeWhile (\<lambda>b. b \<noteq> 0) (d @ 0 # z) = takeWhile (\<lambda>b. b \<noteq> 0) d" by (induction d) auto
  then show ?thesis by (simp add: hash_string_def c_string_def str_hash_def)
qed

lemma content_init [simp]: "content hmap_init = {#}"
  by (simp add: content_def)

lemma table_insert_content:
  assumes "table_wf data a h" "hash_string (data e) 0 = Some hash"
  obtains h' where "hmap_insert_at h \<lparr>hn_addr = a, hn_hash = 0, hn_data = e\<rparr> hash = Some h'"
    "table_wf data (Suc a) h'" "content h' = add_mset (hash, e) (content h)"
proof (rule table_insert [OF assms(1), of "\<lparr>hn_addr = a, hn_hash = 0, hn_data = e\<rparr>" hash])
  fix h'
  assume "hmap_insert_at h \<lparr>hn_addr = a, hn_hash = 0, hn_data = e\<rparr> hash = Some h'" "table_wf data (a + 1) h'"
    "mset (hmap_nodes h') = add_mset (\<lparr>hn_addr = a, hn_hash = 0, hn_data = e\<rparr>\<lparr>hn_hash := hash\<rparr>) (mset (hmap_nodes h))"
  then show thesis by (intro that [of h']) (simp_all add: content_def)
qed (simp_all add: assms(2))

section \<open>Decoding a message\<close>

lemma unat_len32: "length d < 2 ^ 32 \<Longrightarrow> unat (len32 d) = length d"
  by (simp add: unat_of_nat)

lemma int_count_len32: "length xs < 2 ^ 31 \<Longrightarrow> int_count (len32 xs) = length xs"
  using int_word_sint [of "int (length xs)", where 'a = 32] by (simp add: int_count_def)

lemma init_st_entries_enc:
  assumes "drop c msg = concat (map enc_st sts) @ rest" "c \<le> length msg" "table_wf st_data a h"
    "\<forall>(status, d) \<in> set sts. length d < 2 ^ 32"
  shows "\<exists>c' h'. init_st_entries msg (length sts) c h a = Some (c', h', a + length sts)
    \<and> drop c' msg = rest \<and> c' \<le> length msg \<and> table_wf st_data (a + length sts) h'
    \<and> content h' = content h + mset (map st_entry_of sts)"
  using assms
proof (induction sts arbitrary: c h a)
  case (Cons e sts)
  obtain status d where e: "e = (status, d)" by (cases e)
  have d: "unat (len32 d) = length d" using Cons.prems(4) e by (simp add: unat_len32)
  have m: "drop c msg = be32 status @ be32 (len32 d) @ d @ concat (map enc_st sts) @ rest"
    using Cons.prems(1) e by simp
  obtain h1 where h1: "hmap_insert_at h \<lparr>hn_addr = a, hn_hash = 0,
      hn_data = \<lparr>st_data = d @ [0, 0], st_last_status = status\<rparr>\<rparr> (str_hash d) = Some h1"
    "table_wf st_data (Suc a) h1" "content h1 = add_mset (st_entry_of e) (content h)"
    using table_insert_content [OF Cons.prems(3), of "\<lparr>st_data = d @ [0, 0], st_last_status = status\<rparr>" "str_hash d"]
      e hash_string_str_hash [of d "[0]"] by auto
  have c1: "c + 8 + length d \<le> length msg" "drop (c + 8 + length d) msg = concat (map enc_st sts) @ rest"
    using drop_block [OF Cons.prems(2), of "be32 status @ be32 (len32 d) @ d"] m by (simp_all add: ac_simps)
  from Cons.IH [OF c1(2,1) h1(2)] Cons.prems(4) obtain c' h' where
    "init_st_entries msg (length sts) (c + 8 + length d) h1 (Suc a) = Some (c', h', Suc a + length sts)"
    "drop c' msg = rest" "c' \<le> length msg" "table_wf st_data (Suc a + length sts) h'"
    "content h' = content h1 + mset (map st_entry_of sts)" by auto
  then show ?case
    using h1 d e hash_string_str_hash [of d "[0]"]
    by (auto simp: rd_drop [OF Cons.prems(2)] rd_bytes_drop [OF Cons.prems(2)] m wire)
qed auto

lemma stt_layout:
  "offset_of (sfa_msg_init_stt 4) 0 = 0" "offset_of (sfa_msg_init_stt 4) (Suc 0) = 4"
  "offset_of (sfa_msg_init_stt 4) 2 = 12" "offset_of (sfa_msg_init_stt 4) 3 = 16"
  "offset_of (sfa_msg_init_stt 4) 4 = 24" "offset_of (sfa_msg_init_stt 4) 5 = 28"
  "offset_of (sfa_msg_init_stt 4) 6 = 32" "size_of (sfa_msg_init_stt 4) = 36"
  by (simp_all add: offset_of_def size_of_def sfa_msg_init_stt_def align_up_def)

lemma init_layout:
  "offset_of (sfa_msg_init_st 4) 0 = 0" "offset_of (sfa_msg_init_st 4) (Suc 0) = 4"
  "offset_of (sfa_msg_init_st 4) 2 = 12" "size_of (sfa_msg_init_st 4) = 16"
  "offset_of (sfa_msg_init_at 4) 0 = 0" "offset_of (sfa_msg_init_at 4) (Suc 0) = 8"
  "size_of (sfa_msg_init_at 4) = 12"
  by (simp_all add: offset_of_def size_of_def sfa_msg_init_st_def sfa_msg_init_at_def align_up_def)

lemma stt_eta:
  "\<lparr>param_left_type = param_left_type e, param_left = param_left e, oprator = oprator e,
    param_right_type = param_right_type e, param_right = param_right e,
    stt_last_status = stt_last_status e, stt_cur_status = stt_cur_status e\<rparr> = e"
  by simp

lemma act_eta: "\<lparr>actype = actype ac, acparam = acparam ac\<rparr> = ac"
  by simp

lemma init_stt_entries_enc:
  assumes "drop c msg = concat (map enc_stt stts) @ rest" "c \<le> length msg"
  shows "\<exists>c'. init_stt_entries 4 msg (length stts) c acc = Some (c', acc @ stts)
    \<and> drop c' msg = rest \<and> c' \<le> length msg"
  using assms
proof (induction stts arbitrary: c acc)
  case (Cons e stts)
  have m: "drop c msg = be32 (param_left_type e) @ be64 (param_left e) @ be32 (param_right_type e) @ be64 (param_right e)
     @ be32 (oprator e) @ be32 (stt_last_status e) @ be32 (stt_cur_status e) @ concat (map enc_stt stts) @ rest"
    using Cons.prems(1) by (simp add: enc_stt_def [of e])
  have c1: "c + 36 \<le> length msg" "drop (c + 36) msg = concat (map enc_stt stts) @ rest"
    using drop_block [OF Cons.prems(2), of "enc_stt e"] Cons.prems(1) by (simp_all add: enc_stt_def [of e])
  from Cons.IH [OF c1(2,1), of "acc @ [e]"] show ?case
    by (auto simp: rd_drop [OF Cons.prems(2)] m wire stt_layout stt_eta)
qed auto

lemma init_at_entries_enc:
  assumes "drop c msg = concat (map enc_at ats) @ rest" "c \<le> length msg" "table_wf at_data a h"
    "\<forall>(ac, status, d) \<in> set ats. d \<noteq> [] \<and> length d < 2 ^ 32"
  shows "\<exists>c' h'. init_at_entries msg (length ats) c h a = Some (c', h', a + length ats)
    \<and> table_wf at_data (a + length ats) h' \<and> content h' = content h + mset (map at_entry_of ats)"
  using assms
proof (induction ats arbitrary: c h a)
  case (Cons e ats)
  obtain ac status d where e: "e = (ac, status, d)" by (cases e)
  have d: "unat (len32 d) = length d" "len32 d \<noteq> 0"
    using Cons.prems(4) e by (auto simp: unat_len32 word_unat_eq_iff simp del: of_nat_eq_0_iff)
  have m: "drop c msg = be32 (actype ac) @ be32 (acparam ac) @ be32 status @ be32 (len32 d) @ d @ concat (map enc_at ats) @ rest"
    using Cons.prems(1) e by (simp add: enc_action_def)
  obtain h1 where h1: "hmap_insert_at h \<lparr>hn_addr = a, hn_hash = 0,
      hn_data = \<lparr>at_data = d @ [0], at_last_status = status, act = ac\<rparr>\<rparr> (str_hash d) = Some h1"
    "table_wf at_data (Suc a) h1" "content h1 = add_mset (at_entry_of e) (content h)"
    using table_insert_content [OF Cons.prems(3), of "\<lparr>at_data = d @ [0], at_last_status = status, act = ac\<rparr>" "str_hash d"]
      e hash_string_str_hash [of d "[]"] by auto
  have c1: "c + 16 + length d \<le> length msg" "drop (c + 16 + length d) msg = concat (map enc_at ats) @ rest"
    using drop_block [OF Cons.prems(2), of "be32 (actype ac) @ be32 (acparam ac) @ be32 status @ be32 (len32 d) @ d"] m
    by (simp_all add: ac_simps)
  from Cons.IH [OF c1(2,1) h1(2)] Cons.prems(4) obtain c' h' where
    "init_at_entries msg (length ats) (c + 16 + length d) h1 (Suc a) = Some (c', h', Suc a + length ats)"
    "table_wf at_data (Suc a + length ats) h'" "content h' = content h1 + mset (map at_entry_of ats)" by auto
  then show ?case
    using h1 d e hash_string_str_hash [of d "[]"]
    by (auto simp: rd_drop [OF Cons.prems(2)] rd_bytes_drop [OF Cons.prems(2)] m wire act_eta)
qed auto

text \<open>A table-creation message of the controller creates exactly the tables it describes.\<close>

lemma sfa_msg_init_enc:
  assumes hdr: "length hdr = 8" and wf: "sfa_wf s" and new: "islistinit s \<longrightarrow> aid \<notin> appid ` set (appslist s)"
    and st: "length sts < 2 ^ 31" "\<forall>(status, d) \<in> set sts. length d < 2 ^ 32"
    and stt: "length stts < 2 ^ 32"
    and at: "length ats < 2 ^ 31" "\<forall>(ac, status, d) \<in> set ats. d \<noteq> [] \<and> length d < 2 ^ 32"
  obtains app s' where "sfa_msg_init 4 (hdr @ enc_init aid mmp sts stts bitmap ats) s = Some (SFA_MSG_PROCESS_OK, s')"
    "appslist s' = (if islistinit s then appslist s else []) @ [app]" "islistinit s'"
    "appid app = aid" "match_bitmap (pst app) = mmp" "content (st_entrys (pst app)) = mset (map st_entry_of sts)"
    "pstt app = stts" "at_bitmap (pat app) = bitmap" "content (at_entrys (pat app)) = mset (map at_entry_of ats)"
proof -
  define msg where "msg = hdr @ enc_init aid mmp sts stts bitmap ats"
  let ?tail = "be64 bitmap @ be32 (len32 ats) @ concat (map enc_at ats)"
  define s0 where "s0 = (if \<not> islistinit s then s\<lparr>appslist := [], islistinit := True\<rparr> else s)"
  have c8: "8 \<le> length msg" and m8: "drop 8 msg = enc_init aid mmp sts stts bitmap ats" using hdr by (auto simp: msg_def)
  have c24: "24 \<le> length msg" and m24: "drop 24 msg = concat (map enc_st sts) @ be32 (len32 stts)
      @ concat (map enc_stt stts) @ ?tail"
    using drop_block [OF c8, of "be32 aid @ be64 mmp @ be32 (len32 sts)"] m8 by (auto simp: enc_init_defs)
  obtain c1 st a1 where st1: "init_st_entries msg (length sts) 24 hmap_init (brk s0) = Some (c1, st, a1)"
    "drop c1 msg = be32 (len32 stts) @ concat (map enc_stt stts) @ ?tail" "c1 \<le> length msg"
    "content st = mset (map st_entry_of sts)"
    using init_st_entries_enc [OF m24 c24 table_wf_init [of st_data "brk s0"] st(2)] by auto
  have c2: "c1 + 4 \<le> length msg" "drop (c1 + 4) msg = concat (map enc_stt stts) @ ?tail"
    using drop_block [OF st1(3,2)] by auto
  obtain c3 where c3: "init_stt_entries 4 msg (length stts) (c1 + 4) [] = Some (c3, stts)"
    "drop c3 msg = ?tail" "c3 \<le> length msg"
    using init_stt_entries_enc [OF c2(2,1), of "[]"] by auto
  have c4: "c3 + 12 \<le> length msg" "drop (c3 + 12) msg = concat (map enc_at ats) @ []"
    using drop_block [OF c3(3), of "be64 bitmap @ be32 (len32 ats)"] c3(2) by auto
  obtain c5 at a5 where at5: "init_at_entries msg (length ats) (c3 + 12) hmap_init a1 = Some (c5, at, a5)"
    "content at = mset (map at_entry_of ats)"
    using init_at_entries_enc [OF c4(2,1) table_wf_init [of at_data a1] at(2)] by auto
  have fresh: "\<not> (\<exists>app \<in> set (appslist s0). appid app = aid)" using new by (auto simp: s0_def)
  have hd: "rd_be32 msg 8 = Some aid" "rd_be64 msg 12 = Some mmp" "rd_be32 msg 20 = Some (len32 sts)"
    using rd_drop(2) [OF c8, of 4] rd_drop(1) [OF c8, of 12] rd_drop(4) [OF c8] m8 by (simp_all add: enc_init_defs wire)
  have stt_cnt: "rd_be32 msg c1 = Some (len32 stts)"
    using rd_drop(4) [OF st1(3)] st1(2) by (simp add: wire)
  have at_hd: "rd_be64 msg c3 = Some bitmap" "rd_be32 msg (c3 + 8) = Some (len32 ats)"
    using rd_drop(2) [OF c3(3), of 0] rd_drop(1) [OF c3(3), of 8] c3(2) by (simp_all add: wire)
  define app where "app = \<lparr>appid = aid, pst = \<lparr>match_bitmap = mmp, st_entrys = st\<rparr>, pstt = stts,
    pat = \<lparr>at_bitmap = bitmap, at_entrys = at\<rparr>\<rparr>"
  have "sfa_msg_init 4 msg s = Some (SFA_MSG_PROCESS_OK, s0\<lparr>appslist := appslist s0 @ [app], brk := a5\<rparr>)"
    unfolding sfa_msg_init_def Let_def s0_def [symmetric]
    using fresh hd st1 stt_cnt c3 at_hd at5 by (simp add: app_def init_layout int_count_len32 [OF st(1)] int_count_len32 [OF at(1)] unat_len32 [OF stt])
  then show thesis unfolding msg_def by (rule that [of _ app]) (simp_all add: s0_def app_def st1(4) at5(2))
qed

section \<open>Changes to the state table\<close>

text \<open>
  The state table as the switch uses it: the state stored under a key.  The key is
  the hash of the string, since no lookup compares the string itself.
\<close>

definition state_of :: "ST_MATCH_ENTRY hmap \<Rightarrow> size_t \<Rightarrow> u32 option" where
  "state_of h k = map_option (\<lambda>nd. st_last_status (hn_data nd)) (hmap_first_node h k)"

definition one_per_key :: "'e hmap \<Rightarrow> bool" where
  "one_per_key h \<longleftrightarrow> hash_unique hn_hash (mset (hmap_nodes h))"

datatype st_op = St_add u32 "u8 list" | St_update u32 "u8 list" | St_del u32 "u8 list"

fun st_op_str :: "st_op \<Rightarrow> u8 list" where
  "st_op_str (St_add s d) = d"
| "st_op_str (St_update s d) = d"
| "st_op_str (St_del s d) = d"

text \<open>The message \<^verbatim>\<open>SFAStMod\<close>: the type of each change, then its element.\<close>

fun enc_st_op :: "st_op \<Rightarrow> u8 list" where
  "enc_st_op (St_add s d) = be32 0 @ enc_st (s, d)"
| "enc_st_op (St_update s d) = be32 1 @ enc_st (s, d)"
| "enc_st_op (St_del s d) = be32 2 @ enc_st (s, d)"

definition enc_st_mod :: "u32 \<Rightarrow> st_op list \<Rightarrow> u8 list" where
  "enc_st_mod aid ops = be32 aid @ be32 (len32 ops) @ concat (map enc_st_op ops)"

text \<open>The meaning of a change for the partial function.\<close>

fun st_op_abs :: "st_op \<Rightarrow> (u32 \<rightharpoonup> u32) \<Rightarrow> u32 \<rightharpoonup> u32" where
  "st_op_abs (St_add s d) m = (if m (str_hash d) = None then m(str_hash d \<mapsto> s) else m)"
| "st_op_abs (St_update s d) m = (if m (str_hash d) = None then m else m(str_hash d \<mapsto> s))"
| "st_op_abs (St_del s d) m = m(str_hash d := None)"

lemma length_enc_st_op: "length (enc_st_op p) = 12 + length (st_op_str p)"
  by (cases p) simp_all

lemma first_node_None: "hmap_first_with_hash h k = [] \<longleftrightarrow> hmap_first_node h k = None"
  by (simp add: hmap_first_node_def split: list.splits)

lemma state_of_upd:
  "hmap_first_node h' = (hmap_first_node h)(k \<mapsto> nd) \<Longrightarrow> state_of h' = (state_of h)(k \<mapsto> st_last_status (hn_data nd))"
  "hmap_first_node h' = (hmap_first_node h)(k := None) \<Longrightarrow> state_of h' = (state_of h)(k := None)"
  by (auto simp: state_of_def fun_eq_iff)

lemma state_of_None: "state_of h k = None \<longleftrightarrow> hmap_first_node h k = None"
  by (simp add: state_of_def)

lemma st_add_step:
  assumes "table_wf st_data a h" "one_per_key h" "state_of h (str_hash d) = None"
  shows "\<exists>h'. hmap_insert_at h \<lparr>hn_addr = a, hn_hash = 0,
      hn_data = \<lparr>st_data = d @ [0, 0], st_last_status = s\<rparr>\<rparr> (str_hash d) = Some h'
    \<and> one_per_key h' \<and> state_of h' = (state_of h)(str_hash d \<mapsto> s)"
proof -
  let ?nd = "\<lparr>hn_addr = a, hn_hash = 0, hn_data = \<lparr>st_data = d @ [0, 0], st_last_status = s\<rparr>\<rparr>"
  have "hn_addr ?nd \<notin> hn_addr ` set_mset (mset (hmap_nodes h))" using assms(1) by (auto simp: table_wf_def)
  then obtain h' where "hmap_insert_at h ?nd (str_hash d) = Some h'" "hash_unique hn_hash (mset (hmap_nodes h'))"
    "hmap_first_node h' = (hmap_first_node h)(str_hash d \<mapsto> ?nd\<lparr>hn_hash := str_hash d\<rparr>)"
    using ovs_hmap.insert_first [of h ?nd "str_hash d"] assms
    by (auto simp: one_per_key_def table_wf_def state_of_None)
  then show ?thesis using state_of_upd(1) by (fastforce simp: one_per_key_def)
qed

lemma st_update_step:
  assumes "table_wf st_data a h" "one_per_key h" "hmap_first_node h k = Some nd"
  shows "one_per_key (hmap_put (hn_addr nd) (hn_data_update (st_last_status_update (\<lambda>_. s))) h)
    \<and> state_of (hmap_put (hn_addr nd) (hn_data_update (st_last_status_update (\<lambda>_. s))) h) = (state_of h)(k \<mapsto> s)"
proof -
  let ?f = "hn_data_update (st_last_status_update (\<lambda>_. s)) :: ST_MATCH_ENTRY hmap_node \<Rightarrow> _"
  note put = ovs_hmap.put_first [of h k nd ?f]
  have "hmap_wf h" "hash_unique hn_hash (mset (hmap_nodes h))"
    using assms by (simp_all add: table_wf_def one_per_key_def)
  then show ?thesis
    using put(2,4) [OF _ _ assms(3)] state_of_upd(1) by (fastforce simp: one_per_key_def)
qed

lemma st_del_step:
  assumes "table_wf st_data a h" "one_per_key h" "hmap_first_node h k = Some nd"
  shows "\<exists>h'. hmap_remove h nd = Some h' \<and> one_per_key h' \<and> state_of h' = (state_of h)(k := None)"
  using ovs_hmap.remove_first [of h k nd] assms state_of_upd(2)
  by (fastforce simp: table_wf_def one_per_key_def)

lemma st_mod_entry_enc:
  assumes m: "drop c msg = enc_st_op p @ rest" "c \<le> length msg" "length (st_op_str p) < 2 ^ 32"
    and wf: "table_wf st_data a h" "one_per_key h"
  shows "\<exists>h' a'. st_mod_entry msg c h a = Some (Inr (c + length (enc_st_op p), h', a'))
    \<and> one_per_key h' \<and> state_of h' = st_op_abs p (state_of h)"
proof -
  let ?d = "st_op_str p"
  have d: "unat (len32 ?d) = length ?d" using m(3) by (simp add: unat_len32)
  note rd = rd_drop [OF m(2)] rd_bytes_drop [OF m(2)] m(1) wire d [simplified] hash_string_str_hash
  show ?thesis
  proof (cases p)
    case (St_add s d)
    then show ?thesis
      using st_add_step [OF wf, of d s] d wf(2)
      by (auto simp: st_mod_entry_def rd first_node_None state_of_None Let_def) 
  next
    case (St_update s d)
    show ?thesis
    proof (cases "hmap_first_node h (str_hash d)")
      case None
      then show ?thesis
        using St_update wf d by (auto simp: st_mod_entry_def rd Let_def state_of_def)
    next
      case (Some nd)
      then show ?thesis
        using St_update st_update_step [OF wf Some, of s] d
        by (auto simp: st_mod_entry_def rd Let_def state_of_None)
    qed
  next
    case (St_del s d)
    show ?thesis
    proof (cases "hmap_first_node h (str_hash d)")
      case None
      then show ?thesis
        using St_del wf d by (auto simp: st_mod_entry_def rd Let_def state_of_def fun_eq_iff)
    next
      case (Some nd)
      then show ?thesis
        using St_del st_del_step [OF wf Some] d
        by (auto simp: st_mod_entry_def rd Let_def state_of_None)
    qed
  qed
qed

lemma st_mod_entries_enc:
  assumes "drop c msg = concat (map enc_st_op ops) @ rest" "c \<le> length msg"
    "\<forall>p \<in> set ops. length (st_op_str p) < 2 ^ 32" "table_wf st_data a h" "one_per_key h"
  shows "\<exists>h' a'. mod_entries (st_mod_entry msg) (length ops) c h a = Some (SFA_MSG_PROCESS_OK, h', a')
    \<and> one_per_key h' \<and> state_of h' = fold st_op_abs ops (state_of h)"
  using assms
proof (induction ops arbitrary: c h a)
  case (Cons p ops)
  have m: "drop c msg = enc_st_op p @ concat (map enc_st_op ops) @ rest" using Cons.prems(1) by simp
  obtain h1 a1 where h1: "st_mod_entry msg c h a = Some (Inr (c + length (enc_st_op p), h1, a1))"
    "one_per_key h1" "state_of h1 = st_op_abs p (state_of h)"
    using st_mod_entry_enc [OF m Cons.prems(2) _ Cons.prems(4,5)] Cons.prems(3) by auto
  have "table_wf st_data a1 h1" using st_mod_entry_wf [OF h1(1) Cons.prems(4)] by simp
  from Cons.IH [OF drop_block(2) [OF Cons.prems(2) m] drop_block(1) [OF Cons.prems(2) m] _ this h1(2)]
  show ?case using Cons.prems(3) h1 by simp
qed auto

lemma find_put_app:
  assumes "\<And>app. appid (f app) = appid app"
  shows "find_app i (put_app aid f s) = (if i = aid then map_option f (find_app i s) else find_app i s)"
proof -
  have "find (\<lambda>app. appid app = i) (update_first (\<lambda>app. appid app = aid) f xs) =
    (if i = aid then map_option f (find (\<lambda>app. appid app = i) xs) else find (\<lambda>app. appid app = i) xs)" for xs
    by (induction xs) (auto simp: assms)
  then show ?thesis by (simp add: find_app_def put_app_def)
qed

lemma find_app_brk [simp]: "find_app i (s\<lparr>brk := a\<rparr>) = find_app i s"
  by (simp add: find_app_def)

text \<open>A change message has the effect of its changes, one after the other, and touches nothing else.\<close>

lemma sfa_msg_st_mod_enc:
  assumes hdr: "length hdr = 8" and wf: "sfa_wf s" and app: "islistinit s" "find_app aid s = Some app"
    and one: "one_per_key (st_entrys (pst app))"
    and ops: "length ops < 2 ^ 31" "\<forall>p \<in> set ops. length (st_op_str p) < 2 ^ 32"
  obtains s' st' where "sfa_msg_st_mod (hdr @ enc_st_mod aid ops) s = Some (SFA_MSG_PROCESS_OK, s')"
    "find_app aid s' = Some (app\<lparr>pst := (pst app)\<lparr>st_entrys := st'\<rparr>\<rparr>)"
    "state_of st' = fold st_op_abs ops (state_of (st_entrys (pst app)))" "one_per_key st'"
    "\<And>i. i \<noteq> aid \<Longrightarrow> find_app i s' = find_app i s"
proof -
  define msg where "msg = hdr @ enc_st_mod aid ops"
  have c8: "8 \<le> length msg" and m8: "drop 8 msg = enc_st_mod aid ops" using hdr by (auto simp: msg_def)
  have c16: "16 \<le> length msg" and m16: "drop 16 msg = concat (map enc_st_op ops) @ []"
    using drop_block [OF c8, of "be32 aid @ be32 (len32 ops)"] m8 by (auto simp: enc_st_mod_def)
  have rd: "rd_be32 msg 8 = Some aid" "rd_be32 msg 12 = Some (len32 ops)"
    using rd_drop(1) [OF c8, of 4] rd_drop(4) [OF c8] m8 by (simp_all add: enc_st_mod_def wire)
  have twf: "table_wf st_data (brk s) (st_entrys (pst app))"
    using wf find_app_mem [OF app(2)] by (simp add: sfa_wf_def app_wf_def)
  obtain h a where h: "mod_entries (st_mod_entry msg) (length ops) 16 (st_entrys (pst app)) (brk s)
      = Some (SFA_MSG_PROCESS_OK, h, a)" "one_per_key h"
    "state_of h = fold st_op_abs ops (state_of (st_entrys (pst app)))"
    using st_mod_entries_enc [OF m16 c16 ops(2) twf one] by auto
  have "sfa_msg_st_mod msg s = Some (SFA_MSG_PROCESS_OK, (put_app aid (pst_update (st_entrys_update (\<lambda>_. h))) s)\<lparr>brk := a\<rparr>)"
    using app rd h(1) by (simp add: sfa_msg_st_mod_def int_count_len32 [OF ops(1)])
  then show thesis
    unfolding msg_def by (rule that [of _ h]) (use app(2) h in \<open>simp_all add: find_put_app\<close>)
qed

end
