(* ===== verification/Sfa_Xlate.thy ===== *)
theory Sfa_Xlate
  imports Sfa_Wire
begin

text \<open>
  The state machine the \<^verbatim>\<open>GOTO_FP\<close> instruction runs on a packet:
  \<^verbatim>\<open>parse_match\<close>, \<^verbatim>\<open>get_event_param\<close>, \<^verbatim>\<open>get_event\<close>, \<^verbatim>\<open>execute_fp_actions\<close> and
  \<^verbatim>\<open>xlate_fp\<close> of \<^verbatim>\<open>ofproto/ofproto-dpif-xlate.c\<close>.

  The members of the flow that the wire has in network byte order are the host
  integers the code reads from their memory.  \<open>None\<close> is undefined behaviour, as in
  the message handlers.  The value of a \<^verbatim>\<open>return;\<close> and of the variable
  \<^verbatim>\<open>should_drop\<close> when it was never assigned is indeterminate, which is the inner
  \<open>None\<close> of the result.
\<close>

section \<open>Packets\<close>

text \<open>The members of \<^verbatim>\<open>struct flow\<close> the state machine reads or writes.\<close>

record flow =
  fl_metadata :: u64
  fl_in_port :: u16
  fl_dl_type :: u16
  fl_vlan_tci :: u16
  fl_mpls_lse :: u32
  fl_ipv6_label :: u32
  fl_nw_src :: u32
  fl_nw_dst :: u32
  fl_nw_frag :: u8
  fl_nw_tos :: u8
  fl_nw_ttl :: u8
  fl_nw_proto :: u8
  fl_tcp_flags :: u16
  fl_tp_src :: u16
  fl_tp_dst :: u16

record xlate_in =
  xin_flow :: flow
  xin_tcp_flags :: u16

section \<open>The key of a packet\<close>

text \<open>Decimal output of \<^verbatim>\<open>sprintf\<close>, and \<^verbatim>\<open>inet_ntoa\<close> on the four bytes in memory order.\<close>

fun dec :: "nat \<Rightarrow> u8 list" where
  "dec n = (if n < 10 then [of_nat (48 + n)] else dec (n div 10) @ [of_nat (48 + n mod 10)])"

declare dec.simps [simp del]

definition inet_ntoa :: "u32 \<Rightarrow> u8 list" where
  "inet_ntoa x = (let b = (\<lambda>i. dec (unat (drop_bit (8 * i) x AND 255)))
                  in b 0 @ [46] @ b 1 @ [46] @ b 2 @ [46] @ b 3)"

text \<open>
  The \<^verbatim>\<open>switch\<close> of \<^verbatim>\<open>parse_match\<close>.  Fields 6, 7, 21 and 22 format with the string
  \<^verbatim>\<open>"%PRIu8"\<close> and through an uninitialised pointer; the fields of the
  default case leave the buffer uninitialised.
\<close>

definition match_field :: "flow \<Rightarrow> nat \<Rightarrow> u8 list option" where
  "match_field f i =
     (if i = 1 then Some (dec (unat (fl_metadata f)))
      else if i = 5 then Some (dec (unat (fl_in_port f)))
      else if i = 8 then Some (dec (unat (fl_dl_type f)))
      else if i = 9 then Some (dec (unat (fl_vlan_tci f)))
      else if i = 10 then Some (dec (unat (fl_mpls_lse f)))
      else if i = 14 then Some (dec (unat (fl_ipv6_label f)))
      else if i = 15 then Some (inet_ntoa (fl_nw_src f))
      else if i = 16 then Some (inet_ntoa (fl_nw_dst f))
      else if i = 17 then Some (dec (unat (fl_nw_frag f)))
      else if i = 18 then Some (dec (unat (fl_nw_tos f)))
      else if i = 19 then Some (dec (unat (fl_nw_ttl f)))
      else if i = 20 then Some (dec (unat (fl_nw_proto f)))
      else if i = 23 then Some (dec (unat (fl_tcp_flags f)))
      else if i = 25 then Some (dec (unat (fl_tp_src f)))
      else if i = 26 then Some (dec (unat (fl_tp_dst f)))
      else None)"

text \<open>
  The loop over the bits from \<open>i\<close> on; the null pointer is \<open>None\<close>.  The first
  field's buffer of 1024 bytes takes the others by \<^verbatim>\<open>strcat\<close>.
\<close>

fun parse_match_loop :: "flow \<Rightarrow> u64 \<Rightarrow> nat list \<Rightarrow> u8 list option \<Rightarrow> u8 list option option" where
  "parse_match_loop f bitmap [] m = Some m"
| "parse_match_loop f bitmap (i # is) m =
     (if bitmap AND push_bit i 1 \<noteq> 0 then do {
        temp \<leftarrow> match_field f i;
        (case m of
           None \<Rightarrow> parse_match_loop f bitmap is (Some temp)
         | Some s \<Rightarrow> if length s + length temp + 1 \<le> 1024 then parse_match_loop f bitmap is (Some (s @ temp)) else None)
      } else parse_match_loop f bitmap is m)"

definition parse_match :: "flow \<Rightarrow> u64 \<Rightarrow> u8 list option option" where
  "parse_match f bitmap = parse_match_loop f bitmap [0..<26] None"

section \<open>Events\<close>

definition get_event_param :: "xlate_in \<Rightarrow> u32 \<Rightarrow> u64" where
  "get_event_param xin param = (let f = xin_flow xin in
     if param = 1 then ucast (fl_in_port f)
     else if param = 2 then ucast (fl_vlan_tci f)
     else if param = 3 then - 1
     else if param = 4 then ucast (fl_dl_type f)
     else if param = 5 then ucast (fl_nw_tos f)
     else if param = 6 then ucast (fl_nw_proto f)
     else if param = 7 then ucast (fl_tp_src f)
     else if param = 8 then ucast (fl_tp_dst f)
     else if param = 9 then ucast (xin_tcp_flags xin)
     else if param = 10 then - 1
     else if param = 11 then - 1
     else if param = 12 then ucast (fl_nw_src f)
     else if param = 13 then ucast (fl_nw_dst f)
     else if param = 14 then fl_metadata f
     else - 1)"

definition get_event :: "u64 \<Rightarrow> u64 \<Rightarrow> u32 \<Rightarrow> bool" where
  "get_event param1 param2 op =
     (if op = 0 then True
      else if op = 2 then param1 + param2 \<noteq> 0
      else if op = 4 then param1 AND param2 \<noteq> 0
      else if op = 5 then param1 OR param2 \<noteq> 0
      else if op = 1 then param1 = param2
      else if op = 7 then param1 > param2
      else if op = 8 then param1 < param2
      else if op = 9 then param1 \<ge> param2
      else if op = 10 then param1 \<le> param2
      else False)"

text \<open>Lines 2411 to 2424: the event of a transition.\<close>

definition stt_event :: "xlate_in \<Rightarrow> STT_MATCH_ENTRY \<Rightarrow> bool" where
  "stt_event xin e =
     (let left = (if param_left_type e = SFAPARAM_CONST then param_left e else get_event_param xin (param_left_type e));
          right = (if param_right_type e = SFAPARAM_CONST then param_right e else get_event_param xin (param_right_type e))
      in get_event left right (oprator e))"

text \<open>Lines 2409 to 2437: the state of the first transition found, and whether an event occurred.\<close>

fun stt_scan :: "xlate_in \<Rightarrow> u32 \<Rightarrow> bool \<Rightarrow> STT_MATCH_ENTRY list \<Rightarrow> u32 option \<times> bool" where
  "stt_scan xin current event_exist [] = (None, event_exist)"
| "stt_scan xin current event_exist (e # es) =
     (if stt_event xin e then
        if current = stt_last_status e then (Some (stt_cur_status e), True)
        else stt_scan xin current True es
      else stt_scan xin current event_exist es)"

section \<open>Actions\<close>

definition xlate_setsrcfield_action :: "u32 \<Rightarrow> xlate_in \<Rightarrow> xlate_in" where
  "xlate_setsrcfield_action ip xin = xin\<lparr>xin_flow := (xin_flow xin)\<lparr>fl_nw_src := ip\<rparr>\<rparr>"

definition xlate_setdstfield_action :: "u32 \<Rightarrow> xlate_in \<Rightarrow> xlate_in" where
  "xlate_setdstfield_action ip xin = xin\<lparr>xin_flow := (xin_flow xin)\<lparr>fl_nw_dst := ip\<rparr>\<rparr>"

definition execute_fp_actions :: "AT_MATCH_ENTRY \<Rightarrow> xlate_in \<Rightarrow> int \<times> xlate_in" where
  "execute_fp_actions at_entry xin =
     (if actype (act at_entry) = 2 then (1, xin)
      else if actype (act at_entry) = 4 then (0, xlate_setsrcfield_action (acparam (act at_entry)) xin)
      else if actype (act at_entry) = 5 then (0, xlate_setdstfield_action (acparam (act at_entry)) xin)
      else (0, xin))"

section \<open>The pipeline\<close>

text \<open>The result: the returned value, the packet and the tables.\<close>

definition xlate_fp :: "xlate_in \<Rightarrow> u8 \<Rightarrow> APPS \<Rightarrow> (int option \<times> xlate_in \<times> APPS) option" where
  "xlate_fp xin bitmap s = do {
     _ \<leftarrow> (if islistinit s then Some () else None);
     (case find_app (ucast bitmap) s of
        None \<Rightarrow> Some (None, xin, s)
      | Some app \<Rightarrow> do {
          st_match_string \<leftarrow> parse_match (xin_flow xin) (match_bitmap (pst app));
          (case st_match_string of
             None \<Rightarrow> Some (None, xin, s)
           | Some str \<Rightarrow> do {
               hash \<leftarrow> hash_string (str @ [0]) 0;
               (case hmap_for_each_with_hash (\<lambda>_. True) hash (st_entrys (pst app)) of
                  None \<Rightarrow> Some (None, xin, s)
                | Some st_entry \<Rightarrow> do {
                    let current_state = st_last_status (hn_data st_entry);
                    let (found, event_exist) = stt_scan xin current_state False (pstt app);
                    let next_state = (case found of
                        Some n \<Rightarrow> n
                      | None \<Rightarrow> if event_exist then 0 else current_state);
                    at_match_string \<leftarrow> parse_match (xin_flow xin) (at_bitmap (pat app));
                    at_str \<leftarrow> at_match_string;
                    at_hash \<leftarrow> hash_string (at_str @ [0]) 0;
                    let (should_drop, xin) =
                      (case hmap_for_each_with_hash (\<lambda>nd. at_last_status (hn_data nd) = next_state) at_hash
                              (at_entrys (pat app)) of
                         None \<Rightarrow> (None, xin)
                       | Some at_entry \<Rightarrow> apfst Some (execute_fp_actions (hn_data at_entry) xin));
                    let s = (if next_state \<noteq> 0
                      then put_app (ucast bitmap) (pst_update (st_entrys_update
                             (hmap_put (hn_addr st_entry) (hn_data_update (st_last_status_update (\<lambda>_. next_state)))))) s
                      else s);
                    Some (map_option (\<lambda>d. if d = 1 then 1 else 0) should_drop, xin, s)
                  })
             })
        })
   }"

text \<open>The case \<^verbatim>\<open>OFPACT_GOTO_FP\<close> of \<^verbatim>\<open>do_xlate_actions\<close>: the new value of \<^verbatim>\<open>ctx->exit\<close>, if it is determined.\<close>

definition goto_fp :: "u8 \<Rightarrow> bool \<Rightarrow> xlate_in \<Rightarrow> APPS \<Rightarrow> (bool option \<times> xlate_in \<times> APPS) option" where
  "goto_fp bitmap exit xin s = do {
     (should_stop, xin, s) \<leftarrow> xlate_fp xin bitmap s;
     Some (map_option (\<lambda>r. if r = 1 then True else exit) should_stop, xin, s)
   }"

section \<open>Keys\<close>

lemma dec_length: "n < 10 ^ Suc k \<Longrightarrow> length (dec n) \<le> Suc k"
proof (induction k arbitrary: n)
  case 0
  then show ?case by (simp add: dec.simps)
next
  case (Suc k)
  then have "n div 10 < 10 ^ Suc k" by (simp add: less_mult_imp_div_less)
  from Suc.IH [OF this] show ?case by (subst dec.simps) simp
qed

lemma dec_word_length:
  fixes w :: "'a::len word"
  assumes "(2::nat) ^ LENGTH('a) \<le> 10 ^ Suc k"
  shows "length (dec (unat w)) \<le> Suc k"
proof (rule dec_length)
  have "unat w < 2 ^ LENGTH('a)" by (rule unsigned_less)
  then show "unat w < 10 ^ Suc k" using assms by (rule less_le_trans)
qed

lemma inet_ntoa_length: "length (inet_ntoa x) \<le> 15"
proof -
  have b: "length (dec (unat (y AND 255))) \<le> 3" for y :: u32
    using dec_length [of "unat (y AND 255)" 2] word_and_le1 [of y 255] by (simp add: word_le_nat_alt)
  from b [of x] b [of "drop_bit 8 x"] b [of "drop_bit 16 x"] b [of "drop_bit 24 x"]
  show ?thesis by (simp add: inet_ntoa_def Let_def)
qed

text \<open>The fields \<^verbatim>\<open>parse_match\<close> handles; field 26 is beyond its loop.\<close>

definition key_fields :: "nat list" where
  "key_fields = [1, 5, 8, 9, 10, 14, 15, 16, 17, 18, 19, 20, 23, 25]"

definition field_str :: "flow \<Rightarrow> nat \<Rightarrow> u8 list" where
  "field_str f i = the (match_field f i)"

lemma match_field_some: "i \<in> set key_fields \<Longrightarrow> match_field f i = Some (field_str f i) \<and> length (field_str f i) \<le> 20"
  using dec_word_length [of 19 "fl_metadata f"] dec_word_length [of 4 "fl_in_port f"]
    dec_word_length [of 4 "fl_dl_type f"] dec_word_length [of 4 "fl_vlan_tci f"]
    dec_word_length [of 9 "fl_mpls_lse f"] dec_word_length [of 9 "fl_ipv6_label f"]
    inet_ntoa_length [of "fl_nw_src f"] inet_ntoa_length [of "fl_nw_dst f"]
    dec_word_length [of 2 "fl_nw_frag f"] dec_word_length [of 2 "fl_nw_tos f"]
    dec_word_length [of 2 "fl_nw_ttl f"] dec_word_length [of 2 "fl_nw_proto f"]
    dec_word_length [of 4 "fl_tcp_flags f"] dec_word_length [of 4 "fl_tp_src f"]
  by (auto simp: key_fields_def match_field_def field_str_def)

lemma match_field_none: "i < 26 \<Longrightarrow> i \<notin> set key_fields \<Longrightarrow> match_field f i = None"
  by (auto simp: key_fields_def match_field_def)

lemma bit_test: "bitmap AND 2 ^ i = 0 \<longleftrightarrow> \<not> bit bitmap i" for bitmap :: u64
  using bit_iff_and_push_bit_not_eq_0 [of bitmap i] by simp

lemma parse_match_loop_eq:
  assumes "\<forall>i \<in> set is. bit bitmap i \<longrightarrow> i \<in> set key_fields"
    "length (case m of None \<Rightarrow> [] | Some s \<Rightarrow> s) + 20 * length is < 1024"
  shows "parse_match_loop f bitmap is m =
    Some (if m = None \<and> filter (bit bitmap) is = [] then None
          else Some ((case m of None \<Rightarrow> [] | Some s \<Rightarrow> s) @ concat (map (field_str f) (filter (bit bitmap) is))))"
  using assms
proof (induction "is" arbitrary: m)
  case (Cons i "is")
  show ?case
  proof (cases "bit bitmap i")
    case True
    then have i: "match_field f i = Some (field_str f i)" "length (field_str f i) \<le> 20"
      using match_field_some Cons.prems(1) by auto
    show ?thesis
    proof (cases m)
      case None
      have "length (case Some (field_str f i) of None \<Rightarrow> [] | Some s \<Rightarrow> s) + 20 * length is < 1024"
        using Cons.prems(2) i(2) by simp
      from Cons.IH [OF _ this] show ?thesis using True None i Cons.prems(1) by (simp add: bit_test)
    next
      case (Some s)
      have "length (case Some (s @ field_str f i) of None \<Rightarrow> [] | Some s \<Rightarrow> s) + 20 * length is < 1024"
        using Cons.prems(2) i(2) Some by simp
      from Cons.IH [OF _ this] show ?thesis using True Some i Cons.prems by (simp add: bit_test)
    qed
  next
    case False
    have "length (case m of None \<Rightarrow> [] | Some s \<Rightarrow> s) + 20 * length is < 1024" using Cons.prems(2) by simp
    from Cons.IH [OF _ this] show ?thesis using False Cons.prems(1) by (simp add: bit_test)
  qed
qed (auto split: option.splits)

text \<open>The fields of a bitmap, in the order of their numbers.\<close>

definition key_bits :: "u64 \<Rightarrow> nat list" where
  "key_bits bitmap = filter (bit bitmap) [0..<26]"

definition key_str :: "flow \<Rightarrow> u64 \<Rightarrow> u8 list" where
  "key_str f bitmap = concat (map (field_str f) (key_bits bitmap))"

text \<open>A bitmap that names at least one field, and only fields that are handled.\<close>

definition key_ok :: "u64 \<Rightarrow> bool" where
  "key_ok bitmap \<longleftrightarrow> key_bits bitmap \<noteq> [] \<and> set (key_bits bitmap) \<subseteq> set key_fields"

lemma parse_match_some:
  assumes "key_ok bitmap"
  shows "parse_match f bitmap = Some (Some (key_str f bitmap))"
proof -
  have "\<forall>i \<in> set [0..<26]. bit bitmap i \<longrightarrow> i \<in> set key_fields"
    using assms by (auto simp: key_ok_def key_bits_def)
  from parse_match_loop_eq [OF this, of None f] show ?thesis
    using assms by (simp add: parse_match_def key_ok_def key_bits_def key_str_def)
qed

lemma key_str_length:
  assumes "key_ok bitmap"
  shows "length (key_str f bitmap) \<le> 20 * length (key_bits bitmap)"
proof -
  have "(\<forall>i \<in> set is. i \<in> set key_fields) \<Longrightarrow> length (concat (map (field_str f) is)) \<le> 20 * length is" for "is"
  proof (induction "is")
    case (Cons i "is")
    then show ?case using match_field_some [of i f] by simp
  qed simp
  then show ?thesis using assms by (auto simp: key_ok_def key_str_def)
qed

lemma hash_key_str: "hash_string (str @ [0]) 0 = Some (str_hash str)"
  using hash_string_str_hash [of str "[]"] by simp

section \<open>The state machine\<close>

text \<open>
  The state a packet moves its entry to: that of the first transition from the
  current state whose event occurs.  State 0 stands for an event without
  a transition, and leaves the entry alone.
\<close>

definition fsm_next :: "STT_MATCH_ENTRY list \<Rightarrow> xlate_in \<Rightarrow> u32 \<Rightarrow> u32" where
  "fsm_next stts xin cur =
     (case find (\<lambda>e. stt_event xin e \<and> stt_last_status e = cur) stts of
        Some e \<Rightarrow> stt_cur_status e
      | None \<Rightarrow> if \<exists>e \<in> set stts. stt_event xin e then 0 else cur)"

definition fsm_step :: "STT_MATCH_ENTRY list \<Rightarrow> xlate_in \<Rightarrow> u32 \<Rightarrow> u32" where
  "fsm_step stts xin cur = (if fsm_next stts xin cur = 0 then cur else fsm_next stts xin cur)"

lemma stt_scan_eq:
  "(case stt_scan xin cur ev stts of (found, exist) \<Rightarrow>
      case found of Some n \<Rightarrow> n | None \<Rightarrow> if exist then 0 else cur) =
   (case find (\<lambda>e. stt_event xin e \<and> stt_last_status e = cur) stts of
      Some e \<Rightarrow> stt_cur_status e
    | None \<Rightarrow> if ev \<or> (\<exists>e \<in> set stts. stt_event xin e) then 0 else cur)"
  by (induction stts arbitrary: ev) auto

lemma stt_scan_fsm_next:
  "(case stt_scan xin cur False stts of (found, exist) \<Rightarrow>
      case found of Some n \<Rightarrow> n | None \<Rightarrow> if exist then 0 else cur) = fsm_next stts xin cur"
  unfolding stt_scan_eq fsm_next_def by (simp only: simp_thms)

text \<open>The action entry chosen for a key and a state, and its effect on the packet.\<close>

definition at_choice :: "AT_MATCH_ENTRY hmap \<Rightarrow> u32 \<Rightarrow> u32 \<Rightarrow> AT_MATCH_ENTRY option" where
  "at_choice h k state =
     map_option hn_data (find (\<lambda>nd. at_last_status (hn_data nd) = state) (nodes_with_hash h k))"

definition at_effect :: "AT_MATCH_ENTRY option \<Rightarrow> xlate_in \<Rightarrow> int option \<times> xlate_in" where
  "at_effect e xin = (case e of
       None \<Rightarrow> (None, xin)
     | Some e \<Rightarrow> if actype (act e) = 2 then (Some 1, xin) else apfst (\<lambda>_. Some 0) (execute_fp_actions e xin))"

text \<open>\<^verbatim>\<open>xlate_fp\<close> when the entry of the packet exists.\<close>

lemma xlate_fp_found:
  assumes init: "islistinit s" and app: "find_app (ucast bitmap) s = Some app"
    and keys: "key_ok (match_bitmap (pst app))" "key_ok (at_bitmap (pat app))"
    and nd: "hmap_first_node (st_entrys (pst app)) (str_hash (key_str (xin_flow xin) (match_bitmap (pst app)))) = Some nd"
  shows "xlate_fp xin bitmap s =
    (let next = fsm_next (pstt app) xin (st_last_status (hn_data nd));
         (ret, xin') = at_effect (at_choice (at_entrys (pat app))
           (str_hash (key_str (xin_flow xin) (at_bitmap (pat app)))) next) xin
     in Some (ret, xin', if next \<noteq> 0
          then put_app (ucast bitmap) (pst_update (st_entrys_update
             (hmap_put (hn_addr nd) (hn_data_update (st_last_status_update (\<lambda>_. next)))))) s
          else s))"
proof -
  obtain found exist where scan: "stt_scan xin (st_last_status (hn_data nd)) False (pstt app) = (found, exist)"
    by (cases "stt_scan xin (st_last_status (hn_data nd)) False (pstt app)")
  then have nxt: "(case found of Some n \<Rightarrow> n | None \<Rightarrow> if exist then 0 else st_last_status (hn_data nd))
      = fsm_next (pstt app) xin (st_last_status (hn_data nd))"
    using stt_scan_fsm_next [of "st_last_status (hn_data nd)" xin "pstt app"] by simp
  have st: "hmap_for_each_with_hash (\<lambda>_. True) (str_hash (key_str (xin_flow xin) (match_bitmap (pst app))))
      (st_entrys (pst app)) = Some nd"
    using nd by (simp add: hmap_first_node_search)
  show ?thesis
    using init app st scan nxt
    by (simp add: xlate_fp_def parse_match_some [OF keys(1)] parse_match_some [OF keys(2)] hash_key_str Let_def
        hmap_for_each_with_hash_eq at_choice_def at_effect_def execute_fp_actions_def split: option.splits prod.splits)
qed

section \<open>Sequences of packets\<close>

text \<open>The state table of an application under one packet.\<close>

definition fsm_packet :: "u64 \<Rightarrow> STT_MATCH_ENTRY list \<Rightarrow> xlate_in \<Rightarrow> (u32 \<rightharpoonup> u32) \<Rightarrow> u32 \<rightharpoonup> u32" where
  "fsm_packet bm stts xin m =
     (let k = str_hash (key_str (xin_flow xin) bm)
      in case m k of None \<Rightarrow> m | Some cur \<Rightarrow> m(k \<mapsto> fsm_step stts xin cur))"

text \<open>What \<^verbatim>\<open>xlate_fp\<close> needs of the application it runs.\<close>

definition fp_ready :: "u32 \<Rightarrow> CONTROLLAPP \<Rightarrow> APPS \<Rightarrow> bool" where
  "fp_ready aid app s \<longleftrightarrow> islistinit s \<and> sfa_wf s \<and> find_app aid s = Some app
     \<and> key_ok (match_bitmap (pst app)) \<and> key_ok (at_bitmap (pat app)) \<and> one_per_key (st_entrys (pst app))"

lemma put_app_id: "find_app aid s = Some app \<Longrightarrow> f app = app \<Longrightarrow> put_app aid f s = s"
proof -
  have "find P xs = Some x \<Longrightarrow> f x = x \<Longrightarrow> update_first P f xs = xs" for P and xs :: "CONTROLLAPP list" and x
    by (induction xs) (auto split: if_splits)
  then show "find_app aid s = Some app \<Longrightarrow> f app = app \<Longrightarrow> put_app aid f s = s"
    by (simp add: find_app_def put_app_def)
qed

lemma put_app_islistinit [simp]: "islistinit (put_app aid f s) = islistinit s"
  by (simp add: put_app_def)

lemma xlate_fp_missing:
  assumes "fp_ready (ucast bitmap) app s"
    "state_of (st_entrys (pst app)) (str_hash (key_str (xin_flow xin) (match_bitmap (pst app)))) = None"
  shows "xlate_fp xin bitmap s = Some (None, xin, s)"
  using assms parse_match_some
  by (auto simp: fp_ready_def xlate_fp_def hash_key_str state_of_None hmap_first_node_search)

lemma xlate_fp_refines:
  assumes ready: "fp_ready (ucast bitmap) app s"
  shows "\<exists>ret xin' s' st'. xlate_fp xin bitmap s = Some (ret, xin', s')
    \<and> fp_ready (ucast bitmap) (app\<lparr>pst := (pst app)\<lparr>st_entrys := st'\<rparr>\<rparr>) s'
    \<and> state_of st' = fsm_packet (match_bitmap (pst app)) (pstt app) xin (state_of (st_entrys (pst app)))
    \<and> (\<forall>i. i \<noteq> ucast bitmap \<longrightarrow> find_app i s' = find_app i s)"
proof -
  let ?st = "st_entrys (pst app)" and ?aid = "ucast bitmap :: u32"
  let ?k = "str_hash (key_str (xin_flow xin) (match_bitmap (pst app)))"
  have app: "islistinit s" "find_app ?aid s = Some app" and wf: "sfa_wf s"
    and keys: "key_ok (match_bitmap (pst app))" "key_ok (at_bitmap (pat app))" and one: "one_per_key ?st"
    using ready by (auto simp: fp_ready_def)
  have awf: "app_wf (brk s) app" using wf find_app_mem [OF app(2)] by (simp add: sfa_wf_def)
  show ?thesis
  proof (cases "hmap_first_node ?st ?k")
    case None
    then have "state_of ?st ?k = None" by (simp add: state_of_None)
    then show ?thesis
      using xlate_fp_missing [OF ready, of xin] ready
      by (intro exI [of _ None] exI [of _ xin] exI [of _ s] exI [of _ ?st]) (simp add: fsm_packet_def)
  next
    case (Some nd)
    let ?next = "fsm_next (pstt app) xin (st_last_status (hn_data nd))"
    let ?f = "hmap_put (hn_addr nd) (hn_data_update (st_last_status_update (\<lambda>_. ?next)))"
    have cur: "state_of ?st ?k = Some (st_last_status (hn_data nd))" using Some by (simp add: state_of_def)
    obtain ret xin' where run: "xlate_fp xin bitmap s = Some (ret, xin',
        if ?next \<noteq> 0 then put_app ?aid (pst_update (st_entrys_update ?f)) s else s)"
      using xlate_fp_found [OF app keys Some] by (simp add: Let_def split: prod.splits)
    show ?thesis
    proof (cases "?next = 0")
      case True
      then show ?thesis
        using run ready cur
        by (intro exI [of _ ret] exI [of _ xin'] exI [of _ s] exI [of _ ?st]) (auto simp: fsm_packet_def fsm_step_def)
    next
      case False
      have twf: "table_wf st_data (brk s) ?st" using awf by (simp add: app_wf_def)
      have step: "one_per_key (?f ?st)" "state_of (?f ?st) = (state_of ?st)(?k \<mapsto> ?next)"
        using st_update_step [OF twf one Some] by auto
      have "sfa_wf ((put_app ?aid (pst_update (st_entrys_update ?f)) s)\<lparr>brk := brk s\<rparr>)"
        using awf table_put [OF twf] by (intro put_app_wf [OF wf app(2)]) (auto simp: app_wf_def)
      then have wf': "sfa_wf (put_app ?aid (pst_update (st_entrys_update ?f)) s)"
        by (simp add: put_app_def)
      show ?thesis
        using run step app keys wf' cur False
        by (intro exI [of _ ret] exI [of _ xin'] exI [of _ "put_app ?aid (pst_update (st_entrys_update ?f)) s"]
            exI [of _ "?f ?st"]) (auto simp: fp_ready_def find_put_app fsm_packet_def fsm_step_def)
    qed
  qed
qed

lemma first_node_of:
  assumes "hmap_wf h" "one_per_key h" "nd \<in> set (hmap_nodes h)"
  shows "hmap_first_node h (hn_hash nd) = Some nd"
  using assms ovs_hmap.first_eq [OF assms(1)] by (simp add: one_per_key_def)

text \<open>A packet moves the entry that is stored under the hash of its key, whatever the string of the entry.\<close>

lemma xlate_fp_entry:
  assumes ready: "fp_ready (ucast bitmap) app s" and nd: "nd \<in> set (hmap_nodes (st_entrys (pst app)))"
    and hash: "hn_hash nd = str_hash (key_str (xin_flow xin) (match_bitmap (pst app)))"
  shows "\<exists>ret xin' s' st'. xlate_fp xin bitmap s = Some (ret, xin', s')
    \<and> find_app (ucast bitmap) s' = Some (app\<lparr>pst := (pst app)\<lparr>st_entrys := st'\<rparr>\<rparr>)
    \<and> nd\<lparr>hn_data := (hn_data nd)\<lparr>st_last_status := fsm_step (pstt app) xin (st_last_status (hn_data nd))\<rparr>\<rparr> \<in> set (hmap_nodes st')"
proof -
  let ?st = "st_entrys (pst app)"
  have app: "islistinit s" "find_app (ucast bitmap) s = Some app" "key_ok (match_bitmap (pst app))" "key_ok (at_bitmap (pat app))"
    and wf: "sfa_wf s" "one_per_key ?st" using ready by (auto simp: fp_ready_def)
  have "hmap_wf ?st" using wf(1) find_app_mem [OF app(2)] by (simp add: sfa_wf_def app_wf_def table_wf_def)
  from first_node_of [OF this wf(2) nd] hash
  have first: "hmap_first_node ?st (str_hash (key_str (xin_flow xin) (match_bitmap (pst app)))) = Some nd" by simp
  define n where "n = fsm_next (pstt app) xin (st_last_status (hn_data nd))"
  define f where "f = (hn_data_update (st_last_status_update (\<lambda>_. n)) :: ST_MATCH_ENTRY hmap_node \<Rightarrow> _)"
  obtain ret xin' where run: "xlate_fp xin bitmap s = Some (ret, xin',
      if n \<noteq> 0 then put_app (ucast bitmap) (pst_update (st_entrys_update (hmap_put (hn_addr nd) f))) s else s)"
    using xlate_fp_found [OF app first] by (simp add: Let_def n_def f_def split: prod.splits)
  show ?thesis
  proof (cases "n = 0")
    case True
    then show ?thesis using run app(2) nd
      by (intro exI [of _ ret] exI [of _ xin'] exI [of _ s] exI [of _ ?st]) (simp add: fsm_step_def n_def)
  next
    case False
    have "f nd \<in> set (hmap_nodes (hmap_put (hn_addr nd) f ?st))" using nd by (auto simp: hmap_put_nodes)
    moreover have "f nd = nd\<lparr>hn_data := (hn_data nd)\<lparr>st_last_status := fsm_step (pstt app) xin (st_last_status (hn_data nd))\<rparr>\<rparr>"
      using False by (simp add: f_def fsm_step_def n_def)
    ultimately show ?thesis using run app(2) False
      by (intro exI [of _ ret] exI [of _ xin'] exI [of _ "put_app (ucast bitmap) (pst_update (st_entrys_update (hmap_put (hn_addr nd) f))) s"]
          exI [of _ "hmap_put (hn_addr nd) f ?st"]) (simp add: find_put_app)
  qed
qed

fun run_fp :: "u8 \<Rightarrow> xlate_in list \<Rightarrow> APPS \<Rightarrow> APPS option" where
  "run_fp bitmap [] s = Some s"
| "run_fp bitmap (xin # xins) s = do { (ret, xin', s) \<leftarrow> xlate_fp xin bitmap s; run_fp bitmap xins s }"

lemma run_fp_refines:
  assumes "fp_ready (ucast bitmap) app s"
  shows "\<exists>s' st'. run_fp bitmap xins s = Some s'
    \<and> fp_ready (ucast bitmap) (app\<lparr>pst := (pst app)\<lparr>st_entrys := st'\<rparr>\<rparr>) s'
    \<and> state_of st' = fold (fsm_packet (match_bitmap (pst app)) (pstt app)) xins (state_of (st_entrys (pst app)))
    \<and> (\<forall>i. i \<noteq> ucast bitmap \<longrightarrow> find_app i s' = find_app i s)"
  using assms
proof (induction xins arbitrary: app s)
  case Nil
  then show ?case by (intro exI [of _ s] exI [of _ "st_entrys (pst app)"]) simp
next
  case (Cons xin xins)
  obtain ret xin' s1 st1 where s1: "xlate_fp xin bitmap s = Some (ret, xin', s1)"
    "fp_ready (ucast bitmap) (app\<lparr>pst := (pst app)\<lparr>st_entrys := st1\<rparr>\<rparr>) s1"
    "state_of st1 = fsm_packet (match_bitmap (pst app)) (pstt app) xin (state_of (st_entrys (pst app)))"
    "\<forall>i. i \<noteq> ucast bitmap \<longrightarrow> find_app i s1 = find_app i s"
    using xlate_fp_refines [OF Cons.prems, of xin] by auto
  from Cons.IH [OF s1(2)] show ?case using s1 by auto
qed

text \<open>Packets with other keys do not change the state of a key.\<close>

lemma fsm_packets_key:
  "fold (fsm_packet bm stts) xins m k =
     map_option (fold (fsm_step stts) (filter (\<lambda>xin. str_hash (key_str (xin_flow xin) bm) = k) xins)) (m k)"
proof (induction xins arbitrary: m)
  case (Cons xin xins)
  show ?case
    unfolding fold_simps(2) Cons.IH
    by (cases "m k") (auto simp: fsm_packet_def Let_def split: option.splits)
qed (simp add: option.map_id)

end
