(* ===== verification/Ovs_List.thy ===== *)
theory Ovs_List
  imports Sdpa_Prelude
begin

text \<open>
  The intrusive doubly linked list of \<^verbatim>\<open>lib/list.c\<close> and \<^verbatim>\<open>lib/list.h\<close>.

  A \<^verbatim>\<open>struct list\<close> is an address; its two members are the two components of the
  store \<open>lmem\<close>.  Every operation of the C file is a store transformer with the
  assignments in the order of the source.  \<open>is_list m l xs\<close> says that the store
  holds a circular list with head \<open>l\<close> and elements \<open>xs\<close>.  The lemmas show what
  each operation does to the sequence \<open>xs\<close>; the locale \<open>intrusive_seq\<close> is the
  contract the clients use.
\<close>

text \<open>The members \<^verbatim>\<open>prev\<close> and \<^verbatim>\<open>next\<close> of every \<^verbatim>\<open>struct list\<close> in memory.\<close>

record lmem =
  l_prev :: "addr \<Rightarrow> addr"
  l_next :: "addr \<Rightarrow> addr"

section \<open>Operations\<close>

definition set_prev :: "addr \<Rightarrow> addr \<Rightarrow> lmem \<Rightarrow> lmem" where
  "set_prev a b m = m\<lparr>l_prev := (l_prev m)(a := b)\<rparr>"

definition set_next :: "addr \<Rightarrow> addr \<Rightarrow> lmem \<Rightarrow> lmem" where
  "set_next a b m = m\<lparr>l_next := (l_next m)(a := b)\<rparr>"

definition list_init :: "addr \<Rightarrow> lmem \<Rightarrow> lmem" where
  "list_init l m = set_next l l (set_prev l l m)"

text \<open>\<^verbatim>\<open>memset(list, 0xcc, sizeof *list)\<close>, with 4-byte pointers.\<close>

definition list_poison :: "addr \<Rightarrow> lmem \<Rightarrow> lmem" where
  "list_poison l m = set_next l 0xcccccccc (set_prev l 0xcccccccc m)"

definition list_insert :: "addr \<Rightarrow> addr \<Rightarrow> lmem \<Rightarrow> lmem" where
  "list_insert before elem m =
     (let m = set_prev elem (l_prev m before) m;
          m = set_next elem before m;
          m = set_next (l_prev m before) elem m
      in set_prev before elem m)"

text \<open>\<open>till\<close> is the parameter \<^verbatim>\<open>last\<close>, which the body overwrites (\<open>lst\<close>).\<close>

definition list_splice :: "addr \<Rightarrow> addr \<Rightarrow> addr \<Rightarrow> lmem \<Rightarrow> lmem" where
  "list_splice before first till m =
     (if first = till then m
      else
        let lst = l_prev m till;
            m = set_next (l_prev m first) (l_next m lst) m;
            m = set_prev (l_next m lst) (l_prev m first) m;
            m = set_prev first (l_prev m before) m;
            m = set_next lst before m;
            m = set_next (l_prev m before) first m
        in set_prev before lst m)"

definition list_push_front :: "addr \<Rightarrow> addr \<Rightarrow> lmem \<Rightarrow> lmem" where
  "list_push_front l elem m = list_insert (l_next m l) elem m"

definition list_push_back :: "addr \<Rightarrow> addr \<Rightarrow> lmem \<Rightarrow> lmem" where
  "list_push_back l elem m = list_insert l elem m"

definition list_replace :: "addr \<Rightarrow> addr \<Rightarrow> lmem \<Rightarrow> lmem" where
  "list_replace element position m =
     (let m = set_next element (l_next m position) m;
          m = set_prev (l_next m element) element m;
          m = set_prev element (l_prev m position) m
      in set_next (l_prev m element) element m)"

text \<open>
  \<^verbatim>\<open>list->prev->next = list->next->prev = list\<close>: the inner assignment writes a
  \<open>prev\<close> member and the outer one a \<open>next\<close> member; neither changes what the
  other reads, unless \<open>list->next\<close> is \<open>list\<close> itself, the case the source comment excludes.
\<close>

definition list_moved :: "addr \<Rightarrow> lmem \<Rightarrow> lmem" where
  "list_moved l m = set_next (l_prev m l) l (set_prev (l_next m l) l m)"

definition list_is_empty :: "addr \<Rightarrow> lmem \<Rightarrow> bool" where
  "list_is_empty l m \<longleftrightarrow> l_next m l = l"

definition list_move :: "addr \<Rightarrow> addr \<Rightarrow> lmem \<Rightarrow> lmem" where
  "list_move dst src m =
     (if \<not> list_is_empty src m
      then list_moved dst (set_next dst (l_next m src) (set_prev dst (l_prev m src) m))
      else list_init dst m)"

definition list_remove :: "addr \<Rightarrow> lmem \<Rightarrow> addr \<times> lmem" where
  "list_remove elem m =
     (let m = set_next (l_prev m elem) (l_next m elem) m;
          m = set_prev (l_next m elem) (l_prev m elem) m
      in (l_next m elem, m))"

definition list_pop_front :: "addr \<Rightarrow> lmem \<Rightarrow> addr \<times> lmem" where
  "list_pop_front l m = (let front = l_next m l in (front, snd (list_remove front m)))"

definition list_pop_back :: "addr \<Rightarrow> lmem \<Rightarrow> addr \<times> lmem" where
  "list_pop_back l m = (let back = l_prev m l in (back, snd (list_remove back m)))"

definition list_front :: "addr \<Rightarrow> lmem \<Rightarrow> addr option" where
  "list_front l m = (if \<not> list_is_empty l m then Some (l_next m l) else None)"

definition list_back :: "addr \<Rightarrow> lmem \<Rightarrow> addr option" where
  "list_back l m = (if \<not> list_is_empty l m then Some (l_prev m l) else None)"

text \<open>
  The loop of \<open>list_size\<close> ends only when it comes back to the head; on a store
  that does not hold a list it may run forever.
\<close>

partial_function (option) list_size_loop :: "addr \<Rightarrow> lmem \<Rightarrow> addr \<Rightarrow> size_t \<Rightarrow> size_t option" where
  "list_size_loop l m e cnt =
     (if e \<noteq> l then list_size_loop l m (l_next m e) (cnt + 1) else Some cnt)"

definition list_size :: "addr \<Rightarrow> lmem \<Rightarrow> size_t option" where
  "list_size l m = list_size_loop l m (l_next m l) 0"

definition list_is_short :: "addr \<Rightarrow> lmem \<Rightarrow> bool" where
  "list_is_short l m \<longleftrightarrow> l_next m l = l_prev m l"

definition list_is_singleton :: "addr \<Rightarrow> lmem \<Rightarrow> bool" where
  "list_is_singleton l m \<longleftrightarrow> list_is_short l m \<and> \<not> list_is_empty l m"

text \<open>
  \<^verbatim>\<open>LIST_FOR_EACH\<close> with a body that breaks at the first element for which \<open>P\<close>
  holds: \<open>Some (Some e)\<close> is that element, \<open>Some None\<close> says that the loop ran to
  its end.  \<open>P = (\<lambda>_. False)\<close> is the loop without a break.
\<close>

partial_function (option) list_for_each_loop ::
    "(addr \<Rightarrow> bool) \<Rightarrow> addr \<Rightarrow> lmem \<Rightarrow> addr \<Rightarrow> addr option option" where
  "list_for_each_loop P l m iter =
     (if iter \<noteq> l
      then (if P iter then Some (Some iter) else list_for_each_loop P l m (l_next m iter))
      else Some None)"

definition list_for_each :: "(addr \<Rightarrow> bool) \<Rightarrow> addr \<Rightarrow> lmem \<Rightarrow> addr option option" where
  "list_for_each P l m = list_for_each_loop P l m (l_next m l)"

partial_function (option) list_for_each_reverse_loop ::
    "(addr \<Rightarrow> bool) \<Rightarrow> addr \<Rightarrow> lmem \<Rightarrow> addr \<Rightarrow> addr option option" where
  "list_for_each_reverse_loop P l m iter =
     (if iter \<noteq> l
      then (if P iter then Some (Some iter) else list_for_each_reverse_loop P l m (l_prev m iter))
      else Some None)"

definition list_for_each_reverse :: "(addr \<Rightarrow> bool) \<Rightarrow> addr \<Rightarrow> lmem \<Rightarrow> addr option option" where
  "list_for_each_reverse P l m = list_for_each_reverse_loop P l m (l_prev m l)"


section \<open>Sequences of linked cells\<close>

fun linked :: "lmem \<Rightarrow> addr list \<Rightarrow> bool" where
  "linked m (a # b # xs) \<longleftrightarrow> l_next m a = b \<and> l_prev m b = a \<and> linked m (b # xs)"
| "linked m [] \<longleftrightarrow> True"
| "linked m [a] \<longleftrightarrow> True"

definition is_list :: "lmem \<Rightarrow> addr \<Rightarrow> addr list \<Rightarrow> bool" where
  "is_list m l xs \<longleftrightarrow> distinct (l # xs) \<and> linked m (l # xs @ [l])"

lemma set_next_sel [simp]:
  "l_next (set_next a b m) = (l_next m)(a := b)" "l_prev (set_next a b m) = l_prev m"
  by (simp_all add: set_next_def)

lemma set_prev_sel [simp]:
  "l_prev (set_prev a b m) = (l_prev m)(a := b)" "l_next (set_prev a b m) = l_next m"
  by (simp_all add: set_prev_def)

lemma linked_append:
  "linked m (xs @ x # ys) \<longleftrightarrow> linked m (xs @ [x]) \<and> linked m (x # ys)"
proof (induction m xs rule: linked.induct)
  case (1 m a b xs)
  then show ?case by simp
next
  case (2 m)
  then show ?case by simp
next
  case (3 m a)
  then show ?case by (cases ys) auto
qed

text \<open>\<open>linked\<close> reads \<open>next\<close> on all cells but the last and \<open>prev\<close> on all but the first.\<close>

lemma linked_frame:
  assumes "linked m xs"
    and "\<forall>a \<in> set (butlast xs). l_next m' a = l_next m a"
    and "\<forall>a \<in> set (tl xs). l_prev m' a = l_prev m a"
  shows "linked m' xs"
  using assms by (induction m xs rule: linked.induct) auto

lemma linked_nth:
  "linked m xs \<Longrightarrow> Suc i < length xs \<Longrightarrow> l_next m (xs ! i) = xs ! Suc i \<and> l_prev m (xs ! Suc i) = xs ! i"
proof (induction m xs arbitrary: i rule: linked.induct)
  case (1 m a b xs)
  then show ?case by (cases i) auto
qed auto

text \<open>A cell linked in between two neighbours, and a stretch of cells taken out.\<close>

lemma linked_insert:
  assumes l: "linked m (as @ p # q # bs)"
    and d: "distinct (as @ [p])" "distinct (q # bs)"
    and pq: "p \<notin> set (butlast (q # bs))" "q \<notin> set (tl (as @ [p]))"
    and e: "e \<notin> set (as @ p # q # bs)"
  shows "linked (list_insert q e m) (as @ p # e # q # bs)"
proof -
  have p: "l_prev m q = p" and sides: "linked m (as @ [p])" "linked m (q # bs)"
    using l by (simp_all add: linked_append [of m as p "q # bs"])
  let ?m = "list_insert q e m"
  have eq: "l_next ?m = (l_next m)(e := q, p := e)" "l_prev ?m = (l_prev m)(e := p, q := e)"
    using e p by (auto simp: list_insert_def Let_def fun_eq_iff)
  have "linked ?m (as @ [p])"
    by (rule linked_frame [OF sides(1)]) (use d pq e in \<open>auto simp: eq dest: in_set_tlD\<close>)
  moreover have "linked ?m (q # bs)"
    by (rule linked_frame [OF sides(2)]) (use d pq e in \<open>auto simp: eq dest: in_set_butlastD split: if_splits\<close>)
  moreover have "l_next ?m p = e" "l_prev ?m e = p" "l_next ?m e = q" "l_prev ?m q = e"
    using e by (auto simp: eq)
  ultimately show ?thesis by (simp add: linked_append [of _ as p "e # q # bs"])
qed

lemma linked_remove:
  assumes l: "linked m (as @ p # e # q # bs)"
    and d: "distinct (as @ [p])" "distinct (q # bs)"
    and pq: "p \<notin> set (butlast (q # bs))" "q \<notin> set (tl (as @ [p]))"
    and e: "e \<noteq> p" "e \<noteq> q"
  shows "fst (list_remove e m) = q" "linked (snd (list_remove e m)) (as @ p # q # bs)"
proof -
  have p: "l_prev m e = p" "l_next m e = q" and sides: "linked m (as @ [p])" "linked m (q # bs)"
    using l by (simp_all add: linked_append [of m as p "e # q # bs"])
  let ?m = "snd (list_remove e m)"
  have eq: "l_next ?m = (l_next m)(p := q)" "l_prev ?m = (l_prev m)(q := p)"
    using e p by (auto simp: list_remove_def Let_def fun_eq_iff)
  show "fst (list_remove e m) = q"
    using e p by (auto simp: list_remove_def Let_def)
  have "linked ?m (as @ [p])"
    by (rule linked_frame [OF sides(1)]) (use d pq in \<open>auto simp: eq dest: in_set_tlD\<close>)
  moreover have "linked ?m (q # bs)"
    by (rule linked_frame [OF sides(2)])
      (use d pq in \<open>auto simp: eq dest: in_set_butlastD split: if_splits\<close>)
  moreover have "l_next ?m p = q" "l_prev ?m q = p"
    by (auto simp: eq)
  ultimately show "linked ?m (as @ p # q # bs)" by (simp add: linked_append [of _ as p "q # bs"])
qed


section \<open>What the operations do to the sequence\<close>

lemma is_list_init: "is_list (list_init l m) l []"
  by (simp add: is_list_def list_init_def)

text \<open>The ring around a gap, split at the cell before and the cell after the gap.\<close>

definition ring_gap :: "addr \<Rightarrow> addr list \<Rightarrow> addr list \<Rightarrow> addr list \<Rightarrow> addr \<Rightarrow> addr \<Rightarrow> addr list \<Rightarrow> bool" where
  "ring_gap l xs ys as p q bs \<longleftrightarrow>
     l # xs = as @ [p] \<and> ys @ [l] = q # bs \<and> distinct (as @ [p]) \<and> distinct (q # bs)
     \<and> p \<notin> set (butlast (q # bs)) \<and> q \<notin> set (tl (as @ [p]))"

lemma ring_gap_exists:
  assumes d: "distinct (l # xs @ ys)"
  obtains as p q bs where "ring_gap l xs ys as p q bs"
proof -
  obtain as p where 1: "l # xs = as @ [p]" by (cases "l # xs" rule: rev_cases) auto
  obtain q bs where 2: "ys @ [l] = q # bs" by (cases ys) auto
  have p: "p \<in> set (l # xs)" by (simp add: 1)
  have q: "q \<in> insert l (set ys)" using hd_append_singleton_in [of ys l] by (simp add: 2)
  have b: "butlast (q # bs) = ys" using arg_cong [OF 2, of butlast] by simp
  have t: "tl (as @ [p]) = xs" using arg_cong [OF 1, of tl] by simp
  have "distinct (as @ [p])" "distinct (q # bs)" "p \<notin> set ys" "q \<notin> set xs"
    using d p q by (auto simp flip: 1 2)
  then have "ring_gap l xs ys as p q bs"
    unfolding ring_gap_def b t using 1 2 by simp
  then show thesis by (rule that)
qed

lemma ring_gap_append:
  assumes "ring_gap l xs ys as p q bs"
  shows "l # xs @ mid @ ys @ [l] = as @ p # mid @ q # bs"
proof -
  have "l # xs @ mid @ ys @ [l] = (l # xs) @ mid @ (ys @ [l])" by simp
  also have "\<dots> = (as @ [p]) @ mid @ (q # bs)" using assms by (simp only: ring_gap_def)
  finally show ?thesis by simp
qed

lemma ring_gap_ends:
  assumes "ring_gap l xs ys as p q bs"
  shows "p \<in> set (l # xs)" "q \<in> insert l (set ys)" "hd (ys @ [l]) = q"
proof -
  have 1: "l # xs = as @ [p]" "ys @ [l] = q # bs" using assms by (auto simp: ring_gap_def)
  show "p \<in> set (l # xs)" by (simp add: 1)
  show "hd (ys @ [l]) = q" by (simp add: 1)
  then show "q \<in> insert l (set ys)" using hd_append_singleton_in [of ys l] by simp
qed

lemma ring_gap_insert:
  "ring_gap l xs ys as p q bs \<Longrightarrow> linked m (as @ p # q # bs) \<Longrightarrow> e \<notin> set (as @ p # q # bs)
   \<Longrightarrow> linked (list_insert q e m) (as @ p # e # q # bs)"
  unfolding ring_gap_def by (rule linked_insert) auto

lemma is_list_insert:
  assumes l: "is_list m l (xs @ ys)" and e: "e \<notin> set (l # xs @ ys)"
  shows "is_list (list_insert (hd (ys @ [l])) e m) l (xs @ e # ys)"
proof -
  have d: "distinct (l # xs @ ys)" using l by (simp add: is_list_def)
  then obtain as p q bs where g: "ring_gap l xs ys as p q bs" by (rule ring_gap_exists)
  note app = ring_gap_append [OF g]
  have "linked m (as @ p # q # bs)" using l app [of "[]"] by (simp add: is_list_def)
  moreover have "e \<notin> set (as @ p # q # bs)"
    using e arg_cong [OF app [of "[]"], of set] by auto
  ultimately have "linked (list_insert q e m) (as @ p # e # q # bs)"
    by (rule ring_gap_insert [OF g])
  then show ?thesis using d e ring_gap_ends(3) [OF g] app [of "[e]"] by (simp add: is_list_def)
qed

lemma is_list_remove:
  assumes l: "is_list m l (xs @ e # ys)"
  shows "fst (list_remove e m) = hd (ys @ [l])" "is_list (snd (list_remove e m)) l (xs @ ys)"
proof -
  have d: "distinct (l # xs @ ys)" and e: "e \<notin> set (l # xs @ ys)"
    using l by (auto simp: is_list_def)
  from d obtain as p q bs where g: "ring_gap l xs ys as p q bs" by (rule ring_gap_exists)
  note app = ring_gap_append [OF g]
  have lk: "linked m (as @ p # e # q # bs)" using l app [of "[e]"] by (simp add: is_list_def)
  have "e \<noteq> p" "e \<noteq> q" using e ring_gap_ends [OF g] by auto
  then have r: "fst (list_remove e m) = q" "linked (snd (list_remove e m)) (as @ p # q # bs)"
    using linked_remove [OF lk] g unfolding ring_gap_def by blast+
  from r(1) show "fst (list_remove e m) = hd (ys @ [l])" by (simp add: ring_gap_ends [OF g])
  from r(2) show "is_list (snd (list_remove e m)) l (xs @ ys)"
    using d app [of "[]"] by (simp add: is_list_def)
qed

lemma is_list_push_back:
  "is_list m l xs \<Longrightarrow> e \<notin> set (l # xs) \<Longrightarrow> is_list (list_push_back l e m) l (xs @ [e])"
  using is_list_insert [of m l xs "[]" e] by (simp add: list_push_back_def)

lemma is_list_next: "is_list m l xs \<Longrightarrow> l_next m l = hd (xs @ [l])"
  by (cases xs) (auto simp: is_list_def)

lemma is_list_prev:
  assumes "is_list m l xs"
  shows "l_prev m l = last (l # xs)"
proof (cases xs rule: rev_cases)
  case Nil
  with assms show ?thesis by (simp add: is_list_def)
next
  case (snoc ys y)
  with assms have "linked m ((l # ys) @ y # [l])" by (simp add: is_list_def)
  then have "linked m (y # [l])" using linked_append [of m "l # ys" y "[l]"] by blast
  with snoc show ?thesis by simp
qed

lemma is_list_push_front:
  "is_list m l xs \<Longrightarrow> e \<notin> set (l # xs) \<Longrightarrow> is_list (list_push_front l e m) l (e # xs)"
  using is_list_insert [of m l "[]" xs e] by (simp add: list_push_front_def is_list_next)

lemma is_list_is_empty: "is_list m l xs \<Longrightarrow> list_is_empty l m \<longleftrightarrow> xs = []"
  by (cases xs) (auto simp: list_is_empty_def is_list_next is_list_def)

lemma hd_eq_last_iff:
  assumes "distinct (l # xs)"
  shows "hd (xs @ [l]) = last (l # xs) \<longleftrightarrow> length xs \<le> 1"
proof (cases xs)
  case (Cons x ys)
  have "ys \<noteq> [] \<Longrightarrow> last ys \<in> set ys" by (rule last_in_set)
  with assms Cons show ?thesis by auto
qed simp

lemma is_list_is_short: "is_list m l xs \<Longrightarrow> list_is_short l m \<longleftrightarrow> length xs \<le> 1"
  using hd_eq_last_iff [of l xs]
  by (simp add: list_is_short_def is_list_next is_list_prev is_list_def del: last.simps)

lemma is_list_is_singleton: "is_list m l xs \<Longrightarrow> list_is_singleton l m \<longleftrightarrow> length xs = 1"
  by (auto simp: list_is_singleton_def is_list_is_short is_list_is_empty le_Suc_eq)

lemma is_list_front:
  "is_list m l xs \<Longrightarrow> list_front l m = (if xs = [] then None else Some (hd xs))"
  by (auto simp: list_front_def is_list_is_empty is_list_next)

lemma is_list_back:
  "is_list m l xs \<Longrightarrow> list_back l m = (if xs = [] then None else Some (last xs))"
  by (auto simp: list_back_def is_list_is_empty is_list_prev)

lemma is_list_pop_front:
  "is_list m l (x # xs) \<Longrightarrow> fst (list_pop_front l m) = x \<and> is_list (snd (list_pop_front l m)) l xs"
  using is_list_remove(2) [of m l "[]" x xs] by (simp add: list_pop_front_def is_list_next)

lemma is_list_pop_back:
  "is_list m l (xs @ [x]) \<Longrightarrow> fst (list_pop_back l m) = x \<and> is_list (snd (list_pop_back l m)) l xs"
  using is_list_remove(2) [of m l xs x "[]"] by (simp add: list_pop_back_def is_list_prev)

text \<open>The loops: their traversal of a well-formed list ends at the head.\<close>

lemma list_size_loop_linked:
  "linked m (e # xs @ [l]) \<Longrightarrow> l \<notin> set xs
   \<Longrightarrow> list_size_loop l m (hd (xs @ [l])) cnt = Some (cnt + of_nat (length xs))"
proof (induction xs arbitrary: e cnt)
  case Nil
  then show ?case by (simp add: list_size_loop.simps)
next
  case (Cons x xs)
  have "l_next m x = hd (xs @ [l])" using Cons.prems by (cases xs) auto
  moreover have "linked m (x # xs @ [l])" using Cons.prems by simp
  ultimately show ?case
    using Cons.IH [of x "cnt + 1"] Cons.prems
    by (subst list_size_loop.simps) (simp add: ac_simps)
qed

lemma is_list_size: "is_list m l xs \<Longrightarrow> list_size l m = Some (of_nat (length xs))"
  using list_size_loop_linked [of m l xs l 0] by (simp add: list_size_def is_list_next is_list_def)

lemma list_for_each_loop_linked:
  "linked m (e # xs @ [l]) \<Longrightarrow> l \<notin> set xs
   \<Longrightarrow> list_for_each_loop P l m (hd (xs @ [l])) = Some (find P xs)"
proof (induction xs arbitrary: e)
  case Nil
  then show ?case by (simp add: list_for_each_loop.simps)
next
  case (Cons x xs)
  have "l_next m x = hd (xs @ [l])" using Cons.prems by (cases xs) auto
  moreover have "linked m (x # xs @ [l])" using Cons.prems by simp
  ultimately show ?case
    using Cons.IH [of x] Cons.prems by (subst list_for_each_loop.simps) simp
qed

lemma is_list_for_each: "is_list m l xs \<Longrightarrow> list_for_each P l m = Some (find P xs)"
  using list_for_each_loop_linked [of m l xs l P]
  by (simp add: list_for_each_def is_list_next is_list_def)

lemma list_for_each_reverse_loop_linked:
  "linked m (l # xs @ [e]) \<Longrightarrow> l \<notin> set xs
   \<Longrightarrow> list_for_each_reverse_loop P l m (last (l # xs)) = Some (find P (rev xs))"
proof (induction xs arbitrary: e rule: rev_induct)
  case Nil
  then show ?case by (simp add: list_for_each_reverse_loop.simps)
next
  case (snoc x xs)
  have "linked m ((l # xs) @ x # [e])" using snoc.prems by simp
  then have lk: "linked m (l # xs @ [x])" using linked_append [of m "l # xs" x "[e]"] by simp
  have "l_prev m x = last (l # xs)"
  proof (cases xs rule: rev_cases)
    case Nil
    with lk show ?thesis by simp
  next
    case (snoc ys y)
    with lk have "linked m ((l # ys) @ y # [x])" by simp
    then have "linked m (y # [x])" using linked_append [of m "l # ys" y "[x]"] by blast
    with snoc show ?thesis by simp
  qed
  then show ?case
    using snoc.IH [OF lk] snoc.prems by (subst list_for_each_reverse_loop.simps) simp
qed

lemma is_list_for_each_reverse:
  "is_list m l xs \<Longrightarrow> list_for_each_reverse P l m = Some (find P (rev xs))"
  using list_for_each_reverse_loop_linked [of m l xs l P]
  by (simp add: list_for_each_reverse_def is_list_prev is_list_def)

text \<open>Cells outside a ring may change freely.\<close>

lemma is_list_frame:
  assumes "is_list m l xs"
    and "\<forall>a \<in> set (l # xs). l_next m' a = l_next m a \<and> l_prev m' a = l_prev m a"
  shows "is_list m' l xs"
  using assms linked_frame [of m "l # xs @ [l]" m'] by (auto simp: is_list_def butlast_append)

lemma list_insert_frame:
  assumes "is_list m l (xs @ ys)" "is_list m k zs" "set (k # zs) \<inter> set (e # l # xs @ ys) = {}"
  shows "is_list (list_insert (hd (ys @ [l])) e m) k zs"
proof (rule is_list_frame [OF assms(2)], intro ballI)
  fix a
  assume a: "a \<in> set (k # zs)"
  have d: "distinct (l # xs @ ys)" using assms(1) by (simp add: is_list_def)
  then obtain as p q bs where g: "ring_gap l xs ys as p q bs" by (rule ring_gap_exists)
  have "linked m (as @ p # q # bs)"
    using assms(1) ring_gap_append [OF g, of "[]"] by (simp add: is_list_def)
  then have "l_prev m q = p" using linked_append [of m as p "q # bs"] by simp
  then show "l_next (list_insert (hd (ys @ [l])) e m) a = l_next m a
           \<and> l_prev (list_insert (hd (ys @ [l])) e m) a = l_prev m a"
    using assms(3) a ring_gap_ends [OF g] by (auto simp: list_insert_def Let_def)
qed

lemma linked_append_iff:
  "xs \<noteq> [] \<Longrightarrow> ys \<noteq> [] \<Longrightarrow>
   linked m (xs @ ys) \<longleftrightarrow>
     linked m xs \<and> linked m ys \<and> l_next m (last xs) = hd ys \<and> l_prev m (hd ys) = last xs"
proof (induction m xs rule: linked.induct)
  case (1 m a b xs)
  then show ?case by auto
next
  case (3 m a)
  then show ?case by (cases ys) auto
qed simp

lemma ring_gap_linked:
  assumes g: "ring_gap l xs ys as p q bs"
  shows "linked m (l # xs @ ys @ [l]) \<longleftrightarrow>
     linked m (l # xs) \<and> linked m (ys @ [l]) \<and> l_next m p = q \<and> l_prev m q = p"
    and "mid \<noteq> [] \<Longrightarrow> linked m (l # xs @ mid @ ys @ [l]) \<longleftrightarrow>
     linked m (l # xs) \<and> linked m mid \<and> linked m (ys @ [l])
     \<and> l_next m p = hd mid \<and> l_prev m (hd mid) = p \<and> l_next m (last mid) = q \<and> l_prev m q = last mid"
proof -
  have pq: "last (l # xs) = p" "hd (ys @ [l]) = q" using g by (auto simp: ring_gap_def)
  show "linked m (l # xs @ ys @ [l]) \<longleftrightarrow>
     linked m (l # xs) \<and> linked m (ys @ [l]) \<and> l_next m p = q \<and> l_prev m q = p"
    using linked_append_iff [of "l # xs" "ys @ [l]" m] pq by (simp del: last.simps linked.simps)
  assume "mid \<noteq> []"
  then show "linked m (l # xs @ mid @ ys @ [l]) \<longleftrightarrow>
     linked m (l # xs) \<and> linked m mid \<and> linked m (ys @ [l])
     \<and> l_next m p = hd mid \<and> l_prev m (hd mid) = p \<and> l_next m (last mid) = q \<and> l_prev m q = last mid"
    using linked_append_iff [of "l # xs" "mid @ ys @ [l]" m] linked_append_iff [of mid "ys @ [l]" m] pq
    by (auto simp del: last.simps linked.simps)
qed

lemma ring_gap_tails:
  assumes "ring_gap l xs ys as p q bs"
  shows "p \<notin> set (butlast (l # xs))" "q \<notin> set (tl (ys @ [l]))"
proof -
  have 1: "l # xs = as @ [p]" "ys @ [l] = q # bs" "distinct (as @ [p])" "distinct (q # bs)"
    using assms by (auto simp: ring_gap_def)
  show "p \<notin> set (butlast (l # xs))" unfolding 1(1) using 1(3) by simp
  show "q \<notin> set (tl (ys @ [l]))" unfolding 1(2) using 1(4) by simp
qed

text \<open>
  \<open>list_splice\<close> between two lists: the elements \<open>mid\<close> leave the ring of \<open>l\<close>
  and appear, in the same order, in the ring of \<open>k\<close> just before \<open>before\<close>.
\<close>

lemma is_list_splice:
  assumes r1: "is_list m l (xs @ mid @ ys)" and r2: "is_list m k (us @ vs)"
    and dj: "set (l # xs @ mid @ ys) \<inter> set (k # us @ vs) = {}"
    and mid: "mid \<noteq> []"
  defines "m' \<equiv> list_splice (hd (vs @ [k])) (hd mid) (hd (ys @ [l])) m"
  shows "is_list m' l (xs @ ys)" and "is_list m' k (us @ mid @ vs)"
proof -
  have d1: "distinct (l # xs @ ys)" and d2: "distinct (k # us @ vs)"
    and dm: "distinct mid" "set mid \<inter> set (l # xs @ ys) = {}"
    using r1 r2 by (auto simp: is_list_def)
  from d1 obtain as p q bs where g: "ring_gap l xs ys as p q bs" by (rule ring_gap_exists)
  from d2 obtain cs r t ds where h: "ring_gap k us vs cs r t ds" by (rule ring_gap_exists)
  define f where "f = hd mid"
  define e where "e = last mid"
  have fe: "f \<in> set mid" "e \<in> set mid" using mid by (simp_all add: f_def e_def)
  have L: "linked m (l # xs)" "linked m mid" "linked m (ys @ [l])"
    and N: "l_prev m f = p" "l_prev m q = e" "l_next m e = q"
    using r1 ring_gap_linked(2) [OF g mid, of m] by (simp_all add: is_list_def f_def e_def)
  have L': "linked m (k # us)" "linked m (vs @ [k])" and N': "l_prev m t = r"
    using r2 ring_gap_linked(1) [OF h, of m] by (simp_all add: is_list_def)
  have ends: "p \<in> set (l # xs)" "q \<in> insert l (set ys)" "r \<in> set (k # us)" "t \<in> insert k (set vs)"
    using ring_gap_ends [OF g] ring_gap_ends [OF h] by simp_all
  have ne: "f \<noteq> q" "p \<noteq> e" "q \<noteq> t" "f \<noteq> t" "e \<noteq> r" "p \<noteq> r" "p \<notin> set ys" "q \<notin> set xs"
    "r \<notin> set vs" "t \<notin> set us"
    using fe dm dj ends d1 d2 by auto
  have m': "m' = list_splice t f q m"
    unfolding m'_def f_def using ring_gap_ends(3) [OF g] ring_gap_ends(3) [OF h] by simp
  have eq: "l_next m' = (l_next m)(p := q, e := t, r := f)"
    "l_prev m' = (l_prev m)(q := p, f := r, t := e)"
    using N N' ne unfolding m' by (auto simp: list_splice_def Let_def fun_eq_iff)
  have out: "f \<notin> set (l # xs @ ys)" "e \<notin> set (l # xs @ ys)" "f \<notin> set (k # us @ vs)" "e \<notin> set (k # us @ vs)"
    "p \<notin> set (k # us @ mid @ vs)" "q \<notin> set (k # us @ mid @ vs)"
    "r \<notin> set (l # xs @ mid @ ys)" "t \<notin> set (l # xs @ mid @ ys)"
    using fe dm dj ends by auto
  note tails = ring_gap_tails [OF g] ring_gap_tails [OF h]
  have "linked m' (l # xs)"
    by (rule linked_frame [OF L(1)]) (use out ne tails in \<open>auto simp: eq dest: in_set_butlastD split: if_splits\<close>)
  moreover have "linked m' mid"
    by (rule linked_frame [OF L(2)])
      (use out last_notin_butlast [OF dm(1) mid] hd_notin_tl [OF dm(1) mid]
       in \<open>auto simp: eq e_def f_def dest: in_set_butlastD in_set_tlD\<close>)
  moreover have "linked m' (ys @ [l])"
    by (rule linked_frame [OF L(3)]) (use out ne tails in \<open>auto simp: eq dest: in_set_tlD\<close>)
  moreover have "linked m' (k # us)"
    by (rule linked_frame [OF L'(1)]) (use out ne tails in \<open>auto simp: eq dest: in_set_butlastD split: if_splits\<close>)
  moreover have "linked m' (vs @ [k])"
    by (rule linked_frame [OF L'(2)]) (use out ne tails in \<open>auto simp: eq dest: in_set_tlD\<close>)
  ultimately have F: "linked m' (l # xs)" "linked m' mid" "linked m' (ys @ [l])" "linked m' (k # us)" "linked m' (vs @ [k])"
    by simp_all
  show "is_list m' l (xs @ ys)"
    using F d1 ne ring_gap_linked(1) [OF g, of m'] by (simp add: is_list_def eq)
  show "is_list m' k (us @ mid @ vs)"
    using F d2 dm dj ne ring_gap_linked(2) [OF h mid, of m']
    by (auto simp: is_list_def eq f_def e_def)
qed

lemma is_list_replace:
  assumes l: "is_list m l (xs @ x # ys)" and e: "e \<notin> set (l # xs @ x # ys)"
  shows "is_list (list_replace e x m) l (xs @ e # ys)"
proof -
  have d: "distinct (l # xs @ ys)" "x \<notin> set (l # xs @ ys)" using l by (auto simp: is_list_def)
  from d(1) obtain as p q bs where g: "ring_gap l xs ys as p q bs" by (rule ring_gap_exists)
  have L: "linked m (l # xs)" "linked m (ys @ [l])"
    and N: "l_next m x = q" "l_prev m x = p"
    using l ring_gap_linked(2) [OF g, of "[x]" m] by (simp_all add: is_list_def)
  have ends: "p \<in> set (l # xs)" "q \<in> insert l (set ys)" using ring_gap_ends [OF g] by simp_all
  let ?m = "list_replace e x m"
  have ne: "x \<noteq> p" "x \<noteq> q" "e \<noteq> x" "e \<noteq> p" "e \<noteq> q" "p \<notin> set ys" "q \<notin> set xs"
    using d e ends by auto
  then have eq: "l_next ?m = (l_next m)(e := q, p := e)" "l_prev ?m = (l_prev m)(e := p, q := e)"
    using N by (auto simp: list_replace_def Let_def fun_eq_iff)
  have "linked ?m (l # xs)"
    by (rule linked_frame [OF L(1)])
      (use e ne ring_gap_tails [OF g] in \<open>auto simp: eq dest: in_set_butlastD split: if_splits\<close>)
  moreover have "linked ?m (ys @ [l])"
    by (rule linked_frame [OF L(2)])
      (use e ne ring_gap_tails [OF g] in \<open>auto simp: eq dest: in_set_tlD\<close>)
  ultimately show ?thesis
    using d e ne ring_gap_linked(2) [OF g, of "[e]" ?m] by (auto simp: is_list_def eq)
qed

lemma is_list_move:
  assumes l: "is_list m src xs" and dst: "dst \<notin> set (src # xs)"
  shows "is_list (list_move dst src m) dst xs"
proof (cases "xs = []")
  case True
  with l show ?thesis by (simp add: list_move_def is_list_is_empty is_list_init)
next
  case False
  let ?m = "list_move dst src m"
  have d: "distinct (src # xs)" using l by (simp add: is_list_def)
  have N: "l_next m src = hd xs" "l_prev m src = last xs"
    using is_list_next [OF l] is_list_prev [OF l] False by simp_all
  have L: "linked m xs" using l False linked_append_iff [of "[src]" "xs @ [src]" m]
      linked_append_iff [of xs "[src]" m] by (simp add: is_list_def)
  have in_xs: "hd xs \<in> set xs" "last xs \<in> set xs" using False by simp_all
  then have ne: "dst \<noteq> hd xs" "dst \<noteq> last xs" using dst by auto
  have eq: "l_next ?m = (l_next m)(dst := hd xs, last xs := dst)"
    "l_prev ?m = (l_prev m)(dst := last xs, hd xs := dst)"
    using l False N ne
    by (auto simp: list_move_def is_list_is_empty list_moved_def fun_eq_iff)
  have "linked ?m xs"
    by (rule linked_frame [OF L])
      (use dst d last_notin_butlast [of xs] hd_notin_tl [of xs] False
       in \<open>auto simp: eq dest: in_set_butlastD in_set_tlD\<close>)
  then have "linked ?m ([dst] @ xs @ [dst])"
    using False ne linked_append_iff [of "[dst]" "xs @ [dst]" ?m] linked_append_iff [of xs "[dst]" ?m]
    by (simp add: eq)
  then show ?thesis using d dst by (simp add: is_list_def)
qed

lemma list_remove_frame:
  assumes "is_list m l (xs @ e # ys)" "is_list m k zs" "set (k # zs) \<inter> set (l # xs @ e # ys) = {}"
  shows "is_list (snd (list_remove e m)) k zs"
proof (rule is_list_frame [OF assms(2)], intro ballI)
  fix a
  assume a: "a \<in> set (k # zs)"
  have "distinct (l # xs @ ys)" using assms(1) by (simp add: is_list_def)
  then obtain as p q bs where g: "ring_gap l xs ys as p q bs" by (rule ring_gap_exists)
  have "l_next m e = q" "l_prev m e = p"
    using assms(1) ring_gap_linked(2) [OF g, of "[e]" m] by (simp_all add: is_list_def)
  then show "l_next (snd (list_remove e m)) a = l_next m a \<and> l_prev (snd (list_remove e m)) a = l_prev m a"
    using assms(3) a ring_gap_ends [OF g] by (auto simp: list_remove_def Let_def)
qed


section \<open>The contract for clients\<close>

text \<open>
  A client keeps a head and pushes, unlinks and scans elements; it relies on
  the sequence the store represents and on nothing else.
\<close>

locale intrusive_seq =
  fixes seq :: "'m \<Rightarrow> 'a \<Rightarrow> 'a list \<Rightarrow> bool"
    and create :: "'a \<Rightarrow> 'm \<Rightarrow> 'm"
    and push :: "'a \<Rightarrow> 'a \<Rightarrow> 'm \<Rightarrow> 'm"
    and unlink :: "'a \<Rightarrow> 'm \<Rightarrow> 'm"
    and scan :: "('a \<Rightarrow> bool) \<Rightarrow> 'a \<Rightarrow> 'm \<Rightarrow> 'a option option"
  assumes seq_create: "seq (create l m) l []"
    and seq_push: "seq m l xs \<Longrightarrow> e \<notin> set (l # xs) \<Longrightarrow> seq (push l e m) l (xs @ [e])"
    and seq_unlink: "seq m l (xs @ e # ys) \<Longrightarrow> seq (unlink e m) l (xs @ ys)"
    and seq_scan: "seq m l xs \<Longrightarrow> scan P l m = Some (find P xs)"
    and seq_distinct: "seq m l xs \<Longrightarrow> distinct (l # xs)"
begin

lemma push_all:
  "seq m l xs \<Longrightarrow> distinct es \<Longrightarrow> set es \<inter> set (l # xs) = {}
   \<Longrightarrow> seq (fold (push l) es m) l (xs @ es)"
proof (induction es arbitrary: m xs)
  case Nil
  then show ?case by simp
next
  case (Cons e es)
  have "seq (push l e m) l (xs @ [e])" using Cons.prems by (intro seq_push) auto
  with Cons.prems Cons.IH [of "push l e m" "xs @ [e]"] show ?case by auto
qed

text \<open>A list built by pushes is scanned in the order of the pushes.\<close>

lemma scan_pushed:
  assumes "distinct (l # es)"
  shows "scan P l (fold (push l) es (create l m)) = Some (find P es)"
  using push_all [OF seq_create, of es l m] assms by (auto intro: seq_scan)

text \<open>An element that is unlinked and pushed again becomes the most recent one.\<close>

lemma touch:
  assumes "seq m l (xs @ e # ys)"
  shows "seq (push l e (unlink e m)) l (xs @ ys @ [e])"
  using seq_push [OF seq_unlink [OF assms], of e] seq_distinct [OF assms] by auto

end

interpretation ovs_list: intrusive_seq is_list list_init list_push_back
    "\<lambda>e m. snd (list_remove e m)" list_for_each
  by unfold_locales
    (simp_all add: is_list_init is_list_push_back is_list_remove is_list_for_each,
     simp add: is_list_def)

end
