(* ===== verification/Ovs_Byteq.thy ===== *)
theory Ovs_Byteq
  imports Ovs_Hmap
begin

text \<open>
  The circular queue of bytes of \<^verbatim>\<open>lib/byteq.c\<close>.

  \<open>head\<close> and \<open>tail\<close> are free-running 32-bit counters that wrap around; only their
  difference and their low bits mean anything.  The \<^verbatim>\<open>int\<close> results of the C functions
  are words compared as signed numbers, the way \<^verbatim>\<open>MIN\<close> on two of them does.  A failed assertion
  and an access outside the buffer are \<open>None\<close>.  The file descriptor of
  \<^verbatim>\<open>byteq_read\<close> and \<^verbatim>\<open>byteq_write\<close> is a parameter: a system call takes the state of the
  world to its result, the value of \<^verbatim>\<open>errno\<close> and the new state.
\<close>

record byteq =
  bq_buffer :: "u8 list"
  bq_size :: u32
  bq_head :: u32
  bq_tail :: u32

section \<open>Operations\<close>

definition smin :: "u32 \<Rightarrow> u32 \<Rightarrow> u32" where
  "smin x y = (if sint x < sint y then x else y)"

definition byteq_init :: "u8 list \<Rightarrow> size_t \<Rightarrow> byteq option" where
  "byteq_init buffer sz =
     (if is_pow2 (ucast sz) then Some \<lparr>bq_buffer = buffer, bq_size = sz, bq_head = 0, bq_tail = 0\<rparr> else None)"

definition byteq_used :: "byteq \<Rightarrow> u32" where
  "byteq_used q = bq_head q - bq_tail q"

definition byteq_avail :: "byteq \<Rightarrow> u32" where
  "byteq_avail q = bq_size q - byteq_used q"

definition byteq_is_empty :: "byteq \<Rightarrow> bool" where
  "byteq_is_empty q \<longleftrightarrow> byteq_used q = 0"

definition byteq_is_full :: "byteq \<Rightarrow> bool" where
  "byteq_is_full q \<longleftrightarrow> byteq_avail q = 0"

text \<open>The indices \<^verbatim>\<open>byteq_head\<close> and \<^verbatim>\<open>byteq_tail\<close> point to.\<close>

definition byteq_head :: "byteq \<Rightarrow> nat" where
  "byteq_head q = unat (bq_head q AND (bq_size q - 1))"

definition byteq_tail :: "byteq \<Rightarrow> nat" where
  "byteq_tail q = unat (bq_tail q AND (bq_size q - 1))"

definition byteq_headroom :: "byteq \<Rightarrow> u32" where
  "byteq_headroom q =
     (let avail = byteq_avail q;
          head_to_end = bq_size q - (bq_head q AND (bq_size q - 1))
      in smin avail head_to_end)"

definition byteq_advance_head :: "byteq \<Rightarrow> u32 \<Rightarrow> byteq option" where
  "byteq_advance_head q n = (if byteq_headroom q \<ge> n then Some (q\<lparr>bq_head := bq_head q + n\<rparr>) else None)"

definition byteq_tailroom :: "byteq \<Rightarrow> u32" where
  "byteq_tailroom q =
     (let used = byteq_used q;
          tail_to_end = bq_size q - (bq_tail q AND (bq_size q - 1))
      in smin used tail_to_end)"

definition byteq_advance_tail :: "byteq \<Rightarrow> u32 \<Rightarrow> byteq option" where
  "byteq_advance_tail q n = (if byteq_tailroom q \<ge> n then Some (q\<lparr>bq_tail := bq_tail q + n\<rparr>) else None)"

text \<open>\<^verbatim>\<open>memcpy\<close> to and a read from index \<open>i\<close> of the buffer.\<close>

definition buf_write :: "nat \<Rightarrow> u8 list \<Rightarrow> u8 list \<Rightarrow> u8 list option" where
  "buf_write i p b = (if i + length p \<le> length b then Some (take i b @ p @ drop (i + length p) b) else None)"

definition byteq_put :: "byteq \<Rightarrow> u8 \<Rightarrow> byteq option" where
  "byteq_put q c =
     (if byteq_is_full q then None
      else do {
        b \<leftarrow> buf_write (byteq_head q) [c] (bq_buffer q);
        Some (q\<lparr>bq_buffer := b, bq_head := bq_head q + 1\<rparr>)
      })"

partial_function (option) byteq_putn_loop :: "byteq \<Rightarrow> u8 list \<Rightarrow> size_t \<Rightarrow> byteq option" where
  "byteq_putn_loop q p n =
     (if n > 0 then do {
        let chunk = min n (byteq_headroom q);
        let k = unat chunk;
        b \<leftarrow> (if k \<le> length p then buf_write (byteq_head q) (take k p) (bq_buffer q) else None);
        q \<leftarrow> byteq_advance_head (q\<lparr>bq_buffer := b\<rparr>) chunk;
        byteq_putn_loop q (drop k p) (n - chunk)
      } else Some q)"

definition byteq_putn :: "byteq \<Rightarrow> u8 list \<Rightarrow> size_t \<Rightarrow> byteq option" where
  "byteq_putn q p n = (if byteq_avail q \<ge> n then byteq_putn_loop q p n else None)"

text \<open>The string without its terminator.\<close>

definition byteq_put_string :: "byteq \<Rightarrow> u8 list \<Rightarrow> byteq option" where
  "byteq_put_string q s = byteq_putn q s (of_nat (length s))"

definition byteq_get :: "byteq \<Rightarrow> (u8 \<times> byteq) option" where
  "byteq_get q =
     (if byteq_is_empty q \<or> \<not> byteq_tail q < length (bq_buffer q) then None
      else Some (bq_buffer q ! byteq_tail q, q\<lparr>bq_tail := bq_tail q + 1\<rparr>))"

partial_function (option) byteq_write ::
    "('w \<Rightarrow> u8 list \<Rightarrow> int \<times> int \<times> 'w) \<Rightarrow> byteq \<Rightarrow> 'w \<Rightarrow> (int \<times> byteq \<times> 'w) option" where
  "byteq_write sys_write q w =
     (if \<not> byteq_is_empty q then do {
        let k = unat (byteq_tailroom q);
        p \<leftarrow> rd_bytes (bq_buffer q) (byteq_tail q) k;
        let (n, errno, w) = sys_write w p;
        if n > 0 then do {
          q \<leftarrow> byteq_advance_tail q (of_int n);
          byteq_write sys_write q w
        } else if n < 0 then Some (errno, q, w) else None
      } else Some (0, q, w))"

text \<open>\<^verbatim>\<open>read\<close> is given the room it may fill and returns the bytes it has put there.\<close>

partial_function (option) byteq_read ::
    "('w \<Rightarrow> nat \<Rightarrow> int \<times> u8 list \<times> int \<times> 'w) \<Rightarrow> byteq \<Rightarrow> 'w \<Rightarrow> (int \<times> byteq \<times> 'w) option" where
  "byteq_read sys_read q w =
     (if \<not> byteq_is_full q then do {
        let k = unat (byteq_headroom q);
        let (n, p, errno, w) = sys_read w k;
        b \<leftarrow> buf_write (byteq_head q) p (bq_buffer q);
        let q = q\<lparr>bq_buffer := b\<rparr>;
        if n > 0 then do {
          q \<leftarrow> byteq_advance_head q (of_int n);
          byteq_read sys_read q w
        } else Some (if n = 0 then - 1 else errno, q, w)
      } else Some (0, q, w))"

section \<open>A ring as a sequence\<close>

definition ring :: "u8 list \<Rightarrow> nat \<Rightarrow> nat \<Rightarrow> u8 list" where
  "ring b t n = map (\<lambda>j. b ! ((t + j) mod length b)) [0..<n]"

lemma length_ring [simp]: "length (ring b t n) = n"
  by (simp add: ring_def)

lemma ring_split: "k \<le> n \<Longrightarrow> ring b t n = ring b t k @ ring b (t + k) (n - k)"
  by (rule nth_equalityI) (auto simp: ring_def nth_append add.assoc)

lemma ring_here:
  assumes "t mod length b + k \<le> length b" "b \<noteq> []"
  shows "ring b t k = take k (drop (t mod length b) b)"
proof (rule nth_equalityI)
  fix j
  assume "j < length (ring b t k)"
  then have "t mod length b + j < length b" "j < k" using assms(1) by auto
  moreover have "(t + j) mod length b = (t mod length b + j) mod length b" by (simp add: mod_add_left_eq)
  ultimately show "ring b t k ! j = take k (drop (t mod length b) b) ! j"
    using assms by (simp add: ring_def)
qed (use assms in \<open>simp\<close>)

lemma mod_distinct:
  fixes t j u d s :: nat
  assumes "j < u" "u + d < s" 
  shows "(t + j) mod s \<noteq> (t + u + d) mod s"
proof
  assume "(t + j) mod s = (t + u + d) mod s"
  moreover have "t + u + d = (t + j) + (u + d - j)" using assms by simp
  ultimately have "(u + d - j) mod s = 0" by (metis mod_add_right_eq mod_eq_self_iff_div_eq_0 mod_eq_dvd_iff_nat add_diff_cancel_left' le_add1 mod_0_imp_dvd dvd_imp_mod_0)
  then show False using assms by (simp add: mod_less)
qed

lemma ring_write:
  assumes "i = (t + u) mod length b" "i + length p \<le> length b" "u + length p \<le> length b" "b \<noteq> []"
  shows "ring (take i b @ p @ drop (i + length p) b) t (u + length p) = ring b t u @ p"
proof (rule nth_equalityI)
  fix j
  let ?b = "take i b @ p @ drop (i + length p) b"
  assume "j < length (ring ?b t (u + length p))"
  then have j: "j < u + length p" by simp
  have len: "length ?b = length b" using assms(2) by simp
  show "ring ?b t (u + length p) ! j = (ring b t u @ p) ! j"
  proof (cases "j < u")
    case True
    have "(t + j) mod length b \<noteq> i + d" if "d < length p" for d
      using mod_distinct [OF True, of d "length b" t] that assms(1-3)
      by (metis add_less_cancel_left less_le_trans mod_add_left_eq mod_less)
    then have "\<not> (i \<le> (t + j) mod length b \<and> (t + j) mod length b < i + length p)"
      by (metis add_less_cancel_left le_add_diff_inverse)
    then show ?thesis
      using True assms(2,4) len by (auto simp: ring_def nth_append)
  next
    case False
    then obtain d where d: "j = u + d" using le_Suc_ex [of u j] by auto
    then have "i + d < length b" "d < length p" using j assms(2) by auto
    moreover have "(t + j) mod length b = ((t + u) mod length b + d) mod length b"
      unfolding d add.assoc [symmetric] by (rule mod_add_left_eq [symmetric])
    ultimately have "(t + j) mod length b = i + d" using assms(1) by simp
    then show ?thesis using \<open>d < length p\<close> assms(2) len d by (simp add: ring_def nth_append)
  qed
qed simp


section \<open>Well-formed queues\<close>

definition byteq_wf :: "byteq \<Rightarrow> bool" where
  "byteq_wf q \<longleftrightarrow> (\<exists>k < 31. bq_size q = 2 ^ k) \<and> length (bq_buffer q) = unat (bq_size q)
     \<and> byteq_used q \<le> bq_size q"

definition byteq_contents :: "byteq \<Rightarrow> u8 list" where
  "byteq_contents q = ring (bq_buffer q) (unat (bq_tail q)) (unat (byteq_used q))"

text \<open>The numbers behind the words of a well-formed queue.\<close>

lemma byteq_wf_nat:
  assumes "byteq_wf q"
  obtains k where "k < 31" "bq_size q = 2 ^ k" "unat (bq_size q) = 2 ^ k" "length (bq_buffer q) = 2 ^ k"
    "bq_buffer q \<noteq> []" "unat (byteq_used q) \<le> 2 ^ k" "(2::nat) ^ k < 2 ^ 31"
    "byteq_head q = unat (bq_head q) mod 2 ^ k" "byteq_tail q = unat (bq_tail q) mod 2 ^ k"
proof -
  obtain k where k: "k < 31" "bq_size q = 2 ^ k" using assms by (auto simp: byteq_wf_def)
  have n: "unat (bq_size q) = 2 ^ k" using k by (simp add: unat_2p)
  moreover have "length (bq_buffer q) = 2 ^ k" "unat (byteq_used q) \<le> 2 ^ k"
    using assms n by (auto simp: byteq_wf_def word_le_nat_alt)
  moreover from this have "bq_buffer q \<noteq> []" by auto
  moreover have "(2::nat) ^ k < 2 ^ 31" using k(1) by (intro power_strict_increasing) auto
  ultimately show thesis
    using that k unfolding byteq_head_def byteq_tail_def by (simp add: unat_and_2p)
qed

lemma byteq_avail_nat: "byteq_wf q \<Longrightarrow> unat (byteq_avail q) = unat (bq_size q) - unat (byteq_used q)"
  by (simp add: byteq_avail_def byteq_wf_def unat_sub_le)

text \<open>The head is the tail plus the bytes in use, up to a multiple of the size.\<close>

lemma byteq_head_eq:
  assumes "k < 31"
  shows "unat (bq_head q) mod 2 ^ k = (unat (bq_tail q) + unat (byteq_used q)) mod 2 ^ k"
  using unat_add_mod [of k "bq_tail q" "byteq_used q"] assms by (simp add: byteq_used_def)

lemma smin_nat: "unat x < 2 ^ 31 \<Longrightarrow> unat y < 2 ^ 31 \<Longrightarrow> unat (smin x y) = min (unat x) (unat y)"
  by (simp only: smin_def sint_unat of_nat_less_iff min_def) auto

lemma room_nat:
  fixes x :: u32
  assumes "k < 31" "unat a \<le> 2 ^ k"
  shows "unat (smin a (2 ^ k - (x AND (2 ^ k - 1)))) = min (unat a) (2 ^ k - unat x mod 2 ^ k)"
proof -
  have s: "(2::nat) ^ k < 2 ^ 31" using assms(1) by (intro power_strict_increasing) auto
  have m: "unat (x AND (2 ^ k - 1)) = unat x mod 2 ^ k" by (rule unat_and_2p)
  have "x AND (2 ^ k - 1) \<le> 2 ^ k" using assms(1) m by (simp add: word_le_nat_alt unat_2p less_imp_le)
  then have e: "unat (2 ^ k - (x AND (2 ^ k - 1))) = 2 ^ k - unat x mod 2 ^ k"
    using unat_sub_le m assms(1) by (simp add: unat_2p)
  then show ?thesis using smin_nat [of a "2 ^ k - (x AND (2 ^ k - 1))"] s assms(2) by simp
qed

lemma byteq_headroom_nat:
  assumes "byteq_wf q"
  shows "unat (byteq_headroom q) = min (unat (bq_size q) - unat (byteq_used q)) (unat (bq_size q) - byteq_head q)"
proof -
  obtain k where k: "k < 31" "bq_size q = 2 ^ k" "unat (bq_size q) = 2 ^ k" "byteq_head q = unat (bq_head q) mod 2 ^ k"
    by (rule byteq_wf_nat [OF assms])
  then show ?thesis
    using room_nat [of k "byteq_avail q" "bq_head q"] byteq_avail_nat [OF assms]
    by (simp add: byteq_headroom_def Let_def)
qed

lemma byteq_tailroom_nat:
  assumes "byteq_wf q"
  shows "unat (byteq_tailroom q) = min (unat (byteq_used q)) (unat (bq_size q) - byteq_tail q)"
proof -
  obtain k where k: "k < 31" "bq_size q = 2 ^ k" "unat (bq_size q) = 2 ^ k" "unat (byteq_used q) \<le> 2 ^ k"
    "byteq_tail q = unat (bq_tail q) mod 2 ^ k"
    by (rule byteq_wf_nat [OF assms])
  then show ?thesis
    using room_nat [of k "byteq_used q" "bq_tail q"] by (simp add: byteq_tailroom_def Let_def)
qed

text \<open>One lemma for every operation that adds bytes: a chunk within the headroom.\<close>

lemma byteq_add_chunk:
  assumes wf: "byteq_wf q" and p: "length p \<le> unat (byteq_headroom q)"
  obtains b where "buf_write (byteq_head q) p (bq_buffer q) = Some b"
    "byteq_wf (q\<lparr>bq_buffer := b, bq_head := bq_head q + of_nat (length p)\<rparr>)"
    "byteq_contents (q\<lparr>bq_buffer := b, bq_head := bq_head q + of_nat (length p)\<rparr>) = byteq_contents q @ p"
proof -
  obtain k where k: "k < 31" "unat (bq_size q) = 2 ^ k" "length (bq_buffer q) = 2 ^ k" "bq_buffer q \<noteq> []"
    "unat (byteq_used q) \<le> 2 ^ k" "(2::nat) ^ k < 2 ^ 31" "byteq_head q = unat (bq_head q) mod 2 ^ k"
    by (rule byteq_wf_nat [OF wf])
  let ?i = "byteq_head q" and ?u = "unat (byteq_used q)"
  define b where "b = take ?i (bq_buffer q) @ p @ drop (?i + length p) (bq_buffer q)"
  have room: "length p \<le> 2 ^ k - ?u" "length p \<le> 2 ^ k - ?i"
    using p byteq_headroom_nat [OF wf] k(2) by auto
  have i: "?i = (unat (bq_tail q) + ?u) mod length (bq_buffer q)"
    using k byteq_head_eq [OF k(1), of q] by simp
  have "?i < 2 ^ k" using k(7) by simp
  then have fit: "?i + length p \<le> length (bq_buffer q)" "?u + length p \<le> length (bq_buffer q)" 
    using room k(3,5) by auto
  let ?q = "q\<lparr>bq_buffer := b, bq_head := bq_head q + of_nat (length p)\<rparr>"
  have n: "unat (of_nat (length p) :: u32) = length p" using fit(2) k(3,6) by (simp add: unat_of_nat)
  have used: "byteq_used ?q = byteq_used q + of_nat (length p)" by (simp add: byteq_used_def)
  then have u: "unat (byteq_used ?q) = ?u + length p"
    using unat_add_small [of "byteq_used q" "of_nat (length p)"] n fit(2) k(3,6) by simp
  have "length b = 2 ^ k" using fit(1) k(3) by (simp add: b_def)
  then have "byteq_wf ?q" using wf u fit(2) k(2,3) by (simp add: byteq_wf_def word_le_nat_alt)
  moreover have "byteq_contents ?q = byteq_contents q @ p"
    using ring_write [OF i fit(1,2) k(4)] u by (simp add: byteq_contents_def b_def)
  moreover have "buf_write ?i p (bq_buffer q) = Some b" using fit(1) by (simp add: buf_write_def b_def)
  ultimately show thesis using that by blast
qed

text \<open>The same for taking bytes out.\<close>

lemma byteq_take_chunk:
  assumes wf: "byteq_wf q" and n: "n \<le> unat (byteq_tailroom q)"
  shows "byteq_wf (q\<lparr>bq_tail := bq_tail q + of_nat n\<rparr>)"
    "rd_bytes (bq_buffer q) (byteq_tail q) n = Some (take n (byteq_contents q))"
    "byteq_contents (q\<lparr>bq_tail := bq_tail q + of_nat n\<rparr>) = drop n (byteq_contents q)"
proof -
  obtain k where k: "k < 31" "unat (bq_size q) = 2 ^ k" "length (bq_buffer q) = 2 ^ k" "bq_buffer q \<noteq> []"
    "unat (byteq_used q) \<le> 2 ^ k" "(2::nat) ^ k < 2 ^ 31" "byteq_tail q = unat (bq_tail q) mod 2 ^ k"
    by (rule byteq_wf_nat [OF wf])
  let ?u = "unat (byteq_used q)" and ?q = "q\<lparr>bq_tail := bq_tail q + of_nat n\<rparr>"
  have room: "n \<le> ?u" "n \<le> 2 ^ k - byteq_tail q" using n byteq_tailroom_nat [OF wf] k(2) by auto
  have m: "unat (of_nat n :: u32) = n" using room(1) k(5,6) by (simp add: unat_of_nat)
  have "byteq_used ?q = byteq_used q - of_nat n" by (simp add: byteq_used_def)
  then have u: "unat (byteq_used ?q) = ?u - n"
    using unat_sub_le [of "of_nat n" "byteq_used q"] m room(1) by (simp add: word_le_nat_alt)
  show "byteq_wf ?q" using wf u k(2,5) by (simp add: byteq_wf_def word_le_nat_alt)
  have t: "byteq_tail q = unat (bq_tail q) mod length (bq_buffer q)" "byteq_tail q + n \<le> length (bq_buffer q)"
    using k(3,7) room(2) by (auto simp: less_imp_le le_diff_conv2 add.commute)
  have split: "byteq_contents q = ring (bq_buffer q) (unat (bq_tail q)) n @ ring (bq_buffer q) (unat (bq_tail q) + n) (?u - n)"
    unfolding byteq_contents_def by (rule ring_split [OF room(1)])
  have "ring (bq_buffer q) (unat (bq_tail q)) n = take n (drop (byteq_tail q) (bq_buffer q))"
    using ring_here [of "unat (bq_tail q)" "bq_buffer q" n] t k(4) by simp
  then show "rd_bytes (bq_buffer q) (byteq_tail q) n = Some (take n (byteq_contents q))"
    using t(2) split by (simp add: rd_bytes_def)
  have "(unat (bq_tail q + of_nat n) + j) mod 2 ^ k = (unat (bq_tail q) + n + j) mod 2 ^ k" for j
    using unat_add_mod [of k "bq_tail q" "of_nat n"] k(1) m by (intro mod_add_cong) simp_all
  then have "ring (bq_buffer q) (unat (bq_tail q + of_nat n)) (?u - n) = ring (bq_buffer q) (unat (bq_tail q) + n) (?u - n)"
    using k(3) by (simp add: ring_def)
  then show "byteq_contents ?q = drop n (byteq_contents q)"
    unfolding split using u by (simp add: byteq_contents_def)
qed

lemma length_byteq_contents: "length (byteq_contents q) = unat (byteq_used q)"
  by (simp add: byteq_contents_def)

lemma byteq_is_empty_iff: "byteq_is_empty q \<longleftrightarrow> byteq_contents q = []"
  by (simp add: byteq_is_empty_def word_unat_eq_iff length_byteq_contents [symmetric])

lemma byteq_is_full_iff:
  assumes "byteq_wf q"
  shows "byteq_is_full q \<longleftrightarrow> length (byteq_contents q) = unat (bq_size q)"
  using byteq_avail_nat [OF assms] assms
  by (simp add: byteq_is_full_def word_unat_eq_iff length_byteq_contents byteq_wf_def word_le_nat_alt) linarith

text \<open>A queue that is not full has headroom, one that is not empty has tailroom.\<close>

lemma byteq_headroom_pos:
  assumes "byteq_wf q" "\<not> byteq_is_full q"
  shows "0 < unat (byteq_headroom q)"
proof -
  have "unat (byteq_used q) < unat (bq_size q)"
    using assms byteq_is_full_iff [OF assms(1)] by (simp add: length_byteq_contents byteq_wf_def word_le_nat_alt)
  moreover have "byteq_head q < unat (bq_size q)" by (rule byteq_wf_nat [OF assms(1)]) simp
  ultimately show ?thesis by (simp add: byteq_headroom_nat [OF assms(1)])
qed

lemma byteq_tailroom_pos:
  assumes "byteq_wf q" "\<not> byteq_is_empty q"
  shows "0 < unat (byteq_tailroom q)"
proof -
  have "0 < unat (byteq_used q)" using assms(2) by (simp add: byteq_is_empty_iff length_byteq_contents [symmetric])
  moreover have "byteq_tail q < unat (bq_size q)" by (rule byteq_wf_nat [OF assms(1)]) simp
  ultimately show ?thesis by (simp add: byteq_tailroom_nat [OF assms(1)])
qed

lemma word_of_nat_unat: "of_nat (unat x) = (x :: u32)"
  by simp

section \<open>What the operations do\<close>

lemma byteq_init_wf:
  assumes "k < 31" "length b = 2 ^ k"
  obtains q where "byteq_init b (2 ^ k) = Some q" "byteq_wf q" "byteq_contents q = []" "bq_size q = 2 ^ k"
proof -
  have u: "ucast (2 ^ k :: u32) = (2 ^ k :: u64)"
    using assms(1) by (intro bit_word_eqI) (auto simp: bit_unsigned_iff bit_exp_iff)
  have "(2 ^ k :: u64) AND Bit_Operations.mask k = 0"
    by (rule bit_eqI) (auto simp: bit_and_iff bit_exp_iff bit_mask_iff)
  moreover have "(2 ^ k :: u64) \<noteq> 0" using assms(1) by simp
  ultimately have "is_pow2 (ucast (2 ^ k :: u32))" unfolding u is_pow2_def by (simp add: mask_eq_exp_minus_1)
  then show thesis
    using assms
    by (intro that [of "\<lparr>bq_buffer = b, bq_size = 2 ^ k, bq_head = 0, bq_tail = 0\<rparr>"])
      (auto simp: byteq_init_def byteq_wf_def byteq_contents_def byteq_used_def unat_2p ring_def)
qed

lemma byteq_put:
  assumes "byteq_wf q" "length (byteq_contents q) < unat (bq_size q)"
  obtains q' where "byteq_put q c = Some q'" "byteq_wf q'" "byteq_contents q' = byteq_contents q @ [c]"
    "bq_size q' = bq_size q"
proof -
  have full: "\<not> byteq_is_full q" using assms byteq_is_full_iff by simp
  then have "length [c] \<le> unat (byteq_headroom q)" using byteq_headroom_pos [OF assms(1)] by simp
  then obtain b where b: "buf_write (byteq_head q) [c] (bq_buffer q) = Some b"
    "byteq_wf (q\<lparr>bq_buffer := b, bq_head := bq_head q + of_nat (length [c])\<rparr>)"
    "byteq_contents (q\<lparr>bq_buffer := b, bq_head := bq_head q + of_nat (length [c])\<rparr>) = byteq_contents q @ [c]"
    by (rule byteq_add_chunk [OF assms(1)])
  then show thesis using full
    by (intro that [of "q\<lparr>bq_buffer := b, bq_head := bq_head q + 1\<rparr>"]) (simp_all add: byteq_put_def)
qed

lemma byteq_get:
  assumes "byteq_wf q" "byteq_contents q = c # cs"
  obtains q' where "byteq_get q = Some (c, q')" "byteq_wf q'" "byteq_contents q' = cs" "bq_size q' = bq_size q"
proof -
  have e: "\<not> byteq_is_empty q" using assms(2) by (simp add: byteq_is_empty_iff)
  then have "1 \<le> unat (byteq_tailroom q)" using byteq_tailroom_pos [OF assms(1)] by simp
  note t = byteq_take_chunk [OF assms(1) this]
  have "byteq_tail q < length (bq_buffer q)" "bq_buffer q ! byteq_tail q = c"
    using t(2) assms(2) by (auto simp: rd_bytes_def split: if_splits) (metis Cons_nth_drop_Suc less_eq_Suc_le list.inject take_Suc_Cons)
  then show thesis using t(1,3) e assms(2)
    by (intro that [of "q\<lparr>bq_tail := bq_tail q + 1\<rparr>"]) (simp_all add: byteq_get_def)
qed

lemma byteq_putn_loop:
  assumes "byteq_wf q" "n = of_nat (length p)" "length (byteq_contents q) + length p \<le> unat (bq_size q)"
  shows "\<exists>q'. byteq_putn_loop q p n = Some q' \<and> byteq_wf q' \<and> byteq_contents q' = byteq_contents q @ p
    \<and> bq_size q' = bq_size q"
  using assms
proof (induction "length p" arbitrary: q p n rule: less_induct)
  case less
  obtain k where k: "unat (bq_size q) = 2 ^ k" "(2::nat) ^ k < 2 ^ 31" by (rule byteq_wf_nat [OF less.prems(1)])
  have n: "unat n = length p" using less.prems(2,3) k by (simp add: unat_of_nat)
  show ?case
  proof (cases "p = []")
    case True
    then show ?thesis using less.prems by (simp add: byteq_putn_loop.simps [of q])
  next
    case False
    then have "\<not> byteq_is_full q"
      using less.prems(3) byteq_is_full_iff [OF less.prems(1)] by (cases p) auto
    then have room: "0 < unat (byteq_headroom q)" by (rule byteq_headroom_pos [OF less.prems(1)])
    let ?chunk = "min n (byteq_headroom q)"
    let ?k = "unat ?chunk"
    have kk: "?k = min (length p) (unat (byteq_headroom q))" using n by (simp add: min_def word_le_nat_alt)
    have "length (take ?k p) \<le> unat (byteq_headroom q)" using kk by simp
    then obtain b where b: "buf_write (byteq_head q) (take ?k p) (bq_buffer q) = Some b"
      "byteq_wf (q\<lparr>bq_buffer := b, bq_head := bq_head q + of_nat (length (take ?k p))\<rparr>)"
      "byteq_contents (q\<lparr>bq_buffer := b, bq_head := bq_head q + of_nat (length (take ?k p))\<rparr>)
        = byteq_contents q @ take ?k p"
      by (rule byteq_add_chunk [OF less.prems(1)])
    let ?q = "q\<lparr>bq_buffer := b, bq_head := bq_head q + ?chunk\<rparr>"
    have lt: "length (take ?k p) = ?k" using kk by simp
    have q: "byteq_wf ?q" "byteq_contents ?q = byteq_contents q @ take ?k p" using b(2,3) unfolding lt by simp_all
    have adv: "byteq_advance_head (q\<lparr>bq_buffer := b\<rparr>) ?chunk = Some ?q"
      by (simp add: byteq_advance_head_def byteq_headroom_def byteq_avail_def byteq_used_def Let_def)
    have step: "byteq_putn_loop q p n = byteq_putn_loop ?q (drop ?k p) (n - ?chunk)"
      using False n b(1) adv kk by (subst byteq_putn_loop.simps) (simp add: word_gt_0 word_unat_eq_iff Let_def)
    have "unat (n - ?chunk) = length (drop ?k p)" using n by (simp add: unat_sub_le)
    then have "n - ?chunk = of_nat (length (drop ?k p))" using word_of_nat_unat [of "n - ?chunk"] by (simp only:)
    moreover have "length (drop ?k p) < length p" using kk room False by simp
    ultimately show ?thesis
      using less.hyps [of "drop ?k p" ?q "n - ?chunk"] q less.prems(3) step by simp
  qed
qed

lemma byteq_putn:
  assumes "byteq_wf q" "length (byteq_contents q) + length p \<le> unat (bq_size q)"
  shows "\<exists>q'. byteq_putn q p (of_nat (length p)) = Some q' \<and> byteq_wf q'
    \<and> byteq_contents q' = byteq_contents q @ p \<and> bq_size q' = bq_size q"
proof -
  obtain k where k: "unat (bq_size q) = 2 ^ k" "(2::nat) ^ k < 2 ^ 31" by (rule byteq_wf_nat [OF assms(1)])
  have "unat (of_nat (length p) :: u32) = length p" using assms(2) k by (simp add: unat_of_nat)
  then have "of_nat (length p) \<le> byteq_avail q"
    using assms(2) by (simp add: word_le_nat_alt byteq_avail_nat [OF assms(1)] length_byteq_contents)
  then show ?thesis using byteq_putn_loop [OF assms(1) refl assms(2)] by (simp add: byteq_putn_def)
qed

section \<open>Draining a queue into a file descriptor\<close>

text \<open>
  The documented behaviour of \<^verbatim>\<open>write\<close> on a nonempty buffer: it accepts some bytes from its
  start, appending them to what the peer has received, or fails.
\<close>

definition write_ok :: "('w \<Rightarrow> u8 list \<Rightarrow> int \<times> int \<times> 'w) \<Rightarrow> ('w \<Rightarrow> u8 list) \<Rightarrow> bool" where
  "write_ok sys_write sent \<longleftrightarrow> (\<forall>w p. p \<noteq> [] \<longrightarrow>
     (case sys_write w p of (n, errno, w') \<Rightarrow>
        n \<noteq> 0 \<and> n \<le> int (length p) \<and> (n < 0 \<longrightarrow> errno > 0) \<and> sent w' = sent w @ take (nat n) p))"

text \<open>
  C21.  \<^verbatim>\<open>byteq_write\<close> ends, whatever a well-behaved \<^verbatim>\<open>write\<close> accepts in each call; the bytes sent followed by those
  left in the queue are the bytes there were, and it returns 0 exactly when none is left.
\<close>

theorem byteq_write:
  assumes "write_ok sys_write sent" "byteq_wf q"
  shows "\<exists>r q' w'. byteq_write sys_write q w = Some (r, q', w') \<and> byteq_wf q'
    \<and> sent w' @ byteq_contents q' = sent w @ byteq_contents q \<and> (r = 0 \<longleftrightarrow> byteq_contents q' = []) \<and> r \<ge> 0"
  using assms(2)
proof (induction "length (byteq_contents q)" arbitrary: q w rule: less_induct)
  case less
  show ?case
  proof (cases "byteq_is_empty q")
    case True
    then show ?thesis using less.prems by (subst byteq_write.simps) (simp add: byteq_is_empty_iff)
  next
    case False
    let ?k = "unat (byteq_tailroom q)"
    let ?p = "take ?k (byteq_contents q)"
    note t = byteq_take_chunk [OF less.prems, of ?k]
    have kk: "?k > 0" "?k \<le> length (byteq_contents q)"
      using byteq_tailroom_pos [OF less.prems False] byteq_tailroom_nat [OF less.prems] by (auto simp: length_byteq_contents)
    obtain n errno w1 where sys: "sys_write w ?p = (n, errno, w1)" by (cases "sys_write w ?p")
    have "?p \<noteq> []" using kk by auto
    then have n: "n \<noteq> 0" "n \<le> int (length ?p)" "n < 0 \<longrightarrow> errno > 0" "sent w1 = sent w @ take (nat n) ?p"
      using assms(1) [unfolded write_ok_def, THEN spec, THEN spec, of ?p w] sys by simp_all
    show ?thesis
    proof (cases "n > 0")
      case False
      then show ?thesis
        using n \<open>\<not> byteq_is_empty q\<close> t(2) sys less.prems
        by (subst byteq_write.simps) (simp add: Let_def byteq_is_empty_iff)
    next
      case True
      define m where "m = nat n"
      have "length ?p = ?k" using kk(2) by simp
      then have "m \<le> ?k" using n(2) by (simp only: m_def nat_le_iff)
      then have m: "n = int m" "0 < m" "m \<le> ?k" using True by (auto simp: m_def)
      note tm = byteq_take_chunk [OF less.prems m(3)]
      let ?q = "q\<lparr>bq_tail := bq_tail q + of_nat m\<rparr>"
      have "unat (of_nat m :: u32) \<le> ?k" using m(3) unat_of_nat [of m, where 'a = 32] by (metis mod_less_eq_dividend order_trans)
      then have adv: "byteq_advance_tail q (of_int n) = Some ?q"
        using m(1) by (simp add: byteq_advance_tail_def word_le_nat_alt)
      have step: "byteq_write sys_write q w = byteq_write sys_write ?q w1"
        using True \<open>\<not> byteq_is_empty q\<close> t(2) sys adv by (subst byteq_write.simps) (simp add: Let_def)
      have "length (byteq_contents ?q) < length (byteq_contents q)" using tm(3) m(2,3) kk by simp
      from less.hyps [OF this tm(1), of w1] show ?thesis
        using n(4) tm(3) m step by auto
    qed
  qed
qed

section \<open>The contract of a bounded queue\<close>

fun put_all :: "('q \<Rightarrow> 'a \<Rightarrow> 'q option) \<Rightarrow> 'a list \<Rightarrow> 'q \<Rightarrow> 'q option" where
  "put_all put [] q = Some q"
| "put_all put (c # cs) q = do { q \<leftarrow> put q c; put_all put cs q }"

fun get_n :: "('q \<Rightarrow> ('a \<times> 'q) option) \<Rightarrow> nat \<Rightarrow> 'q \<Rightarrow> ('a list \<times> 'q) option" where
  "get_n get 0 q = Some ([], q)"
| "get_n get (Suc n) q = do { (c, q) \<leftarrow> get q; (cs, q) \<leftarrow> get_n get n q; Some (c # cs, q) }"

locale bounded_queue =
  fixes invar :: "'q \<Rightarrow> bool" and contents :: "'q \<Rightarrow> 'a list" and capacity :: "'q \<Rightarrow> nat"
    and put :: "'q \<Rightarrow> 'a \<Rightarrow> 'q option" and get :: "'q \<Rightarrow> ('a \<times> 'q) option"
  assumes put_law: "invar q \<Longrightarrow> length (contents q) < capacity q \<Longrightarrow>
      \<exists>q'. put q c = Some q' \<and> invar q' \<and> contents q' = contents q @ [c] \<and> capacity q' = capacity q"
    and get_law: "invar q \<Longrightarrow> contents q = c # cs \<Longrightarrow>
      \<exists>q'. get q = Some (c, q') \<and> invar q' \<and> contents q' = cs \<and> capacity q' = capacity q"
begin

lemma put_all_contents:
  "invar q \<Longrightarrow> length (contents q) + length cs \<le> capacity q \<Longrightarrow>
    \<exists>q'. put_all put cs q = Some q' \<and> invar q' \<and> contents q' = contents q @ cs \<and> capacity q' = capacity q"
proof (induction cs arbitrary: q)
  case (Cons c cs)
  then obtain q1 where q1: "put q c = Some q1" "invar q1" "contents q1 = contents q @ [c]" "capacity q1 = capacity q"
    using put_law [of q c] by auto
  then show ?case using Cons.IH [of q1] Cons.prems(2) by auto
qed auto

lemma get_n_contents:
  "invar q \<Longrightarrow> contents q = cs @ ds \<Longrightarrow>
    \<exists>q'. get_n get (length cs) q = Some (cs, q') \<and> invar q' \<and> contents q' = ds \<and> capacity q' = capacity q"
proof (induction cs arbitrary: q)
  case (Cons c cs)
  then obtain q1 where q1: "get q = Some (c, q1)" "invar q1" "contents q1 = cs @ ds" "capacity q1 = capacity q"
    using get_law [of q c "cs @ ds"] by auto
  then show ?case using Cons.IH [of q1] by auto
qed auto

text \<open>First in, first out.\<close>

lemma fifo:
  assumes "invar q" "length (contents q) + length cs \<le> capacity q"
  shows "\<exists>q1 q2. put_all put cs q = Some q1
    \<and> get_n get (length (contents q) + length cs) q1 = Some (contents q @ cs, q2) \<and> contents q2 = []"
proof -
  obtain q1 where q1: "put_all put cs q = Some q1" "invar q1" "contents q1 = (contents q @ cs) @ []"
    using put_all_contents [OF assms] by auto
  then show ?thesis using get_n_contents [OF q1(2,3)] by auto
qed

end

interpretation bq: bounded_queue byteq_wf byteq_contents "\<lambda>q. unat (bq_size q)" byteq_put byteq_get
proof (unfold_locales, goal_cases)
  case (1 q c)
  then show ?case by (metis byteq_put)
next
  case (2 q c cs)
  then show ?case by (metis byteq_get)
qed

section \<open>Properties\<close>

text \<open>
  C20.  The queue is first in, first out: bytes that fit go in behind those that are there, also when an index wraps
  around, and come out in that order.
\<close>

theorem byteq_fifo:
  assumes "byteq_wf q" "length (byteq_contents q) + length cs \<le> unat (bq_size q)"
  shows "\<exists>q1 q2. put_all byteq_put cs q = Some q1
    \<and> get_n byteq_get (length (byteq_contents q) + length cs) q1 = Some (byteq_contents q @ cs, q2) \<and> byteq_is_empty q2"
  using bq.fifo [OF assms] by (auto simp: byteq_is_empty_iff)

definition wrapping_byteq :: byteq where
  "wrapping_byteq = \<lparr>bq_buffer = [1, 2, 3, 4], bq_size = 4, bq_head = 0xffffffff, bq_tail = 0xfffffffe\<rparr>"

lemma wrapping_byteq: "byteq_wf wrapping_byteq" "byteq_contents wrapping_byteq = [3]"
proof -
  have "bq_size wrapping_byteq = 2 ^ 2" by (simp add: wrapping_byteq_def)
  then have "\<exists>k < 31. bq_size wrapping_byteq = 2 ^ k" by (intro exI [of _ 2]) simp
  then show "byteq_wf wrapping_byteq" by (simp add: byteq_wf_def wrapping_byteq_def byteq_used_def)
  show "byteq_contents wrapping_byteq = [3]" by (simp add: byteq_contents_def ring_def wrapping_byteq_def byteq_used_def)
qed

theorem byteq_fifo_witness:
  "\<exists>q1 q2. put_all byteq_put [7, 8, 9] wrapping_byteq = Some q1 \<and> get_n byteq_get 4 q1 = Some ([3, 7, 8, 9], q2) \<and> byteq_is_empty q2"
proof -
  have "length (byteq_contents wrapping_byteq) + length [7, 8, 9 :: u8] = 4" by (simp add: wrapping_byteq(2))
  moreover have "unat (bq_size wrapping_byteq) = 4" by (simp add: wrapping_byteq_def)
  ultimately show ?thesis using byteq_fifo [OF wrapping_byteq(1), of "[7, 8, 9]"] by (simp only: wrapping_byteq(2)) simp
qed

theorem byteq_write_witness:
  "\<exists>r q' w'. byteq_write (\<lambda>w p. (1, 0, w @ take 1 p)) wrapping_byteq [] = Some (r, q', w') \<and> w' @ byteq_contents q' = [3]"
proof -
  have "write_ok (\<lambda>w p. (1, 0, w @ take 1 p)) (\<lambda>w. w)" by (auto simp: write_ok_def Suc_le_eq)
  from byteq_write [OF this wrapping_byteq(1), of "[]"] show ?thesis by (auto simp: wrapping_byteq(2))
qed

end
