(* ===== verification/Machine.thy ===== *)
theory Machine
  imports Sdpa_Prelude
begin

text \<open>
  Runs of an event-driven component.  A step takes an event and gives the new state, or \<open>None\<close>
  where the C code would be undefined; \<open>ok s e\<close> is what the caller must guarantee of the event.
\<close>

inductive reaches :: "('s \<Rightarrow> 'e \<Rightarrow> bool) \<Rightarrow> ('e \<Rightarrow> 's \<Rightarrow> 's option) \<Rightarrow> 's \<Rightarrow> 's \<Rightarrow> bool"
  for ok :: "'s \<Rightarrow> 'e \<Rightarrow> bool" and step :: "'e \<Rightarrow> 's \<Rightarrow> 's option" where
  reaches_refl: "reaches ok step s s"
| reaches_step: "reaches ok step s s1 \<Longrightarrow> ok s1 e \<Longrightarrow> step e s1 = Some s2 \<Longrightarrow> reaches ok step s s2"

primrec run_steps :: "('e \<Rightarrow> 's \<Rightarrow> 's option) \<Rightarrow> 'e list \<Rightarrow> 's \<Rightarrow> 's option" where
  "run_steps step [] s = Some s"
| "run_steps step (e # es) s = do { s \<leftarrow> step e s; run_steps step es s }"

primrec oks :: "('s \<Rightarrow> 'e \<Rightarrow> bool) \<Rightarrow> ('e \<Rightarrow> 's \<Rightarrow> 's option) \<Rightarrow> 'e list \<Rightarrow> 's \<Rightarrow> bool" where
  "oks ok step [] s \<longleftrightarrow> True"
| "oks ok step (e # es) s \<longleftrightarrow> ok s e \<and> (case step e s of None \<Rightarrow> True | Some s' \<Rightarrow> oks ok step es s')"

text \<open>The contract: an allowed event has a next state, which keeps the invariant.\<close>

locale total_machine =
  fixes inv :: "'s \<Rightarrow> bool" and ok :: "'s \<Rightarrow> 'e \<Rightarrow> bool" and step :: "'e \<Rightarrow> 's \<Rightarrow> 's option"
  assumes step_total: "inv s \<Longrightarrow> ok s e \<Longrightarrow> \<exists>s'. step e s = Some s' \<and> inv s'"
begin

lemma reaches_inv: "reaches ok step s s' \<Longrightarrow> inv s \<Longrightarrow> inv s'"
proof (induction rule: reaches.induct)
  case (reaches_step s s1 e s2)
  then show ?case using step_total [of s1 e] by auto
qed

lemma never_stuck: "reaches ok step s s' \<Longrightarrow> inv s \<Longrightarrow> ok s' e \<Longrightarrow> \<exists>s''. step e s' = Some s''"
  using step_total reaches_inv by blast

lemma run_total: "inv s \<Longrightarrow> oks ok step es s \<Longrightarrow> \<exists>s'. run_steps step es s = Some s' \<and> inv s'"
proof (induction es arbitrary: s)
  case (Cons e es)
  then show ?case using step_total [of s e] by fastforce
qed simp

end

text \<open>A machine whose steps refine those of an abstract one.\<close>

locale refined_machine =
  fixes inv :: "'s \<Rightarrow> bool" and ok :: "'s \<Rightarrow> 'e \<Rightarrow> bool" and step :: "'e \<Rightarrow> 's \<Rightarrow> 's option"
    and abs :: "'s \<Rightarrow> 'a" and spec :: "'e \<Rightarrow> 'a \<Rightarrow> 'a"
  assumes step_refines: "inv s \<Longrightarrow> ok s e \<Longrightarrow> \<exists>s'. step e s = Some s' \<and> inv s' \<and> abs s' = spec e (abs s)"
begin

lemma run_refines:
  "inv s \<Longrightarrow> oks ok step es s \<Longrightarrow> \<exists>s'. run_steps step es s = Some s' \<and> inv s' \<and> abs s' = fold spec es (abs s)"
proof (induction es arbitrary: s)
  case (Cons e es)
  then obtain s1 where "step e s = Some s1" "inv s1" "abs s1 = spec e (abs s)"
    using step_refines [of s e] by auto
  then show ?case using Cons.IH [of s1] Cons.prems(2) by simp
qed simp

end

sublocale refined_machine \<subseteq> total_machine inv ok step
  by unfold_locales (use step_refines in blast)

end
