(* ===== verification/Ovs_Heap.thy ===== *)
theory Ovs_Heap
  imports Machine
begin

text \<open>
  The binary max-heap of \<^verbatim>\<open>lib/heap.c\<close> and \<^verbatim>\<open>lib/heap.h\<close>.

  A heap is its array of pointers, element 0 unused, with the number of nodes and the number
  allocated; the record also has the members \<^verbatim>\<open>idx\<close> and \<^verbatim>\<open>priority\<close> of every
  \<^verbatim>\<open>struct heap_node\<close> in memory.  A node is its address.  An access outside
  the array is \<open>None\<close>.  The indices are natural numbers: an array of pointers
  with \<open>2 ^ 30\<close> elements does not fit the address space, so \<^verbatim>\<open>2 * i + 1\<close> never wraps.
\<close>

record heap =
  hp_array :: "addr list"
  hp_n :: nat
  hp_allocated :: nat
  hp_idx :: "addr \<Rightarrow> nat"
  hp_prio :: "addr \<Rightarrow> u64"

section \<open>Operations\<close>

definition heap_init :: "heap \<Rightarrow> heap" where
  "heap_init h = h\<lparr>hp_array := [], hp_n := 0, hp_allocated := 0\<rparr>"

definition heap_clear :: "heap \<Rightarrow> heap" where
  "heap_clear h = h\<lparr>hp_n := 0\<rparr>"

text \<open>Each heap carries the members of its own nodes.\<close>

definition heap_swap :: "heap \<Rightarrow> heap \<Rightarrow> heap \<times> heap" where
  "heap_swap a b = (let tmp = a; a = b; b = tmp in (a, b))"

definition heap_count :: "heap \<Rightarrow> nat" where
  "heap_count h = hp_n h"

definition heap_is_empty :: "heap \<Rightarrow> bool" where
  "heap_is_empty h \<longleftrightarrow> hp_n h = 0"

definition heap_parent :: "nat \<Rightarrow> nat" where
  "heap_parent idx = idx div 2"

definition heap_left :: "nat \<Rightarrow> nat" where
  "heap_left idx = idx * 2"

definition heap_right :: "nat \<Rightarrow> nat" where
  "heap_right idx = idx * 2 + 1"

definition heap_is_leaf :: "heap \<Rightarrow> nat \<Rightarrow> bool" where
  "heap_is_leaf h idx \<longleftrightarrow> heap_left idx > hp_n h"

text \<open>\<^verbatim>\<open>heap->array[i]\<close>.\<close>

definition elem :: "heap \<Rightarrow> nat \<Rightarrow> addr option" where
  "elem h i = (if i < length (hp_array h) then Some (hp_array h ! i) else None)"

definition put_node :: "heap \<Rightarrow> addr \<Rightarrow> nat \<Rightarrow> heap option" where
  "put_node h node i =
     (if i < length (hp_array h)
      then Some (h\<lparr>hp_array := (hp_array h)[i := node], hp_idx := (hp_idx h)(node := i)\<rparr>) else None)"

definition swap_nodes :: "heap \<Rightarrow> nat \<Rightarrow> nat \<Rightarrow> heap option" where
  "swap_nodes h i j = do {
     old_i \<leftarrow> elem h i;
     old_j \<leftarrow> elem h j;
     h \<leftarrow> put_node h old_j i;
     put_node h old_i j
   }"

text \<open>The priority of the node at an index.\<close>

definition prio_at :: "heap \<Rightarrow> nat \<Rightarrow> u64 option" where
  "prio_at h i = map_option (hp_prio h) (elem h i)"

function float_up :: "heap \<Rightarrow> nat \<Rightarrow> bool \<Rightarrow> (bool \<times> heap) option" where
  "float_up h i moved =
     (if i > 1 then do {
        pp \<leftarrow> prio_at h (heap_parent i);
        pi \<leftarrow> prio_at h i;
        if pp \<ge> pi then Some (moved, h)
        else do {
          h \<leftarrow> swap_nodes h (heap_parent i) i;
          float_up h (heap_parent i) True
        }
      } else Some (moved, h))"
  by pat_completeness auto
termination
  by (relation "measure (\<lambda>(h, i, moved). i)") (auto simp: heap_parent_def)

text \<open>Lines 189 to 199: the index of the largest of a node and its children.\<close>

definition float_down_max :: "heap \<Rightarrow> nat \<Rightarrow> nat option" where
  "float_down_max h i = do {
     let left = heap_left i;
     let right = heap_right i;
     pl \<leftarrow> prio_at h left;
     pm \<leftarrow> prio_at h i;
     let m = (if pl > pm then left else i);
     if right \<le> hp_n h then do {
       pr \<leftarrow> prio_at h right;
       pm \<leftarrow> prio_at h m;
       Some (if pr > pm then right else m)
     } else Some m
   }"

lemma float_down_max_bounds:
  assumes "float_down_max h i = Some m" "\<not> heap_is_leaf h i" "m \<noteq> i"
  shows "i < m \<and> m \<le> hp_n h"
proof -
  have "m = heap_left i \<and> i \<noteq> 0 \<or> m = heap_right i \<and> heap_right i \<le> hp_n h"
    using assms(1,3) by (cases i) (auto simp: float_down_max_def Let_def bind_eq_Some_conv heap_left_def split: if_splits)
  then show ?thesis using assms(2) by (auto simp: heap_left_def heap_right_def heap_is_leaf_def)
qed

lemma put_node_n: "put_node h a i = Some h' \<Longrightarrow> hp_n h' = hp_n h"
  by (auto simp: put_node_def split: if_splits)

lemma swap_nodes_n: "swap_nodes h i j = Some h' \<Longrightarrow> hp_n h' = hp_n h"
  by (auto simp: swap_nodes_def bind_eq_Some_conv dest!: put_node_n)

function float_down :: "heap \<Rightarrow> nat \<Rightarrow> heap option" where
  "float_down h i =
     (if \<not> heap_is_leaf h i then do {
        m \<leftarrow> float_down_max h i;
        if m = i then Some h
        else do {
          h \<leftarrow> swap_nodes h m i;
          float_down h m
        }
      } else Some h)"
  by pat_completeness auto
termination
  by (relation "measure (\<lambda>(h, i). hp_n h - i)") (auto dest!: float_down_max_bounds swap_nodes_n)

declare float_up.simps [simp del] float_down.simps [simp del]

definition float_up_or_down :: "heap \<Rightarrow> nat \<Rightarrow> heap option" where
  "float_up_or_down h i = do {
     (moved, h) \<leftarrow> float_up h i False;
     if \<not> moved then float_down h i else Some h
   }"

text \<open>\<^verbatim>\<open>xrealloc\<close> keeps the elements; the new ones are the parameter \<open>junk\<close>.\<close>

definition heap_raw_insert :: "addr list \<Rightarrow> heap \<Rightarrow> addr \<Rightarrow> u64 \<Rightarrow> heap option" where
  "heap_raw_insert junk h node priority = do {
     let h = (if hp_n h \<ge> hp_allocated h
              then let allocated = (if hp_n h = 0 then 1 else 2 * hp_n h)
                   in h\<lparr>hp_allocated := allocated, hp_array := take (allocated + 1) (hp_array h @ junk)\<rparr>
              else h);
     let h = h\<lparr>hp_n := hp_n h + 1\<rparr>;
     h \<leftarrow> put_node h node (hp_n h);
     Some (h\<lparr>hp_prio := (hp_prio h)(node := priority)\<rparr>)
   }"

definition heap_insert :: "addr list \<Rightarrow> heap \<Rightarrow> addr \<Rightarrow> u64 \<Rightarrow> heap option" where
  "heap_insert junk h node priority = do {
     h \<leftarrow> heap_raw_insert junk h node priority;
     (moved, h) \<leftarrow> float_up h (hp_idx h node) False;
     Some h
   }"

definition heap_raw_remove :: "heap \<Rightarrow> addr \<Rightarrow> heap option" where
  "heap_raw_remove h node = do {
     let i = hp_idx h node;
     h \<leftarrow> (if i < hp_n h then do { a \<leftarrow> elem h (hp_n h); put_node h a i } else Some h);
     Some (h\<lparr>hp_n := hp_n h - 1\<rparr>)
   }"

definition heap_remove :: "heap \<Rightarrow> addr \<Rightarrow> heap option" where
  "heap_remove h node = do {
     let i = hp_idx h node;
     h \<leftarrow> heap_raw_remove h node;
     if i \<le> hp_n h then float_up_or_down h i else Some h
   }"

definition heap_raw_change :: "heap \<Rightarrow> addr \<Rightarrow> u64 \<Rightarrow> heap" where
  "heap_raw_change h node priority = h\<lparr>hp_prio := (hp_prio h)(node := priority)\<rparr>"

definition heap_change :: "heap \<Rightarrow> addr \<Rightarrow> u64 \<Rightarrow> heap option" where
  "heap_change h node priority =
     (let h = heap_raw_change h node priority in float_up_or_down h (hp_idx h node))"

fun heap_rebuild_loop :: "heap \<Rightarrow> nat \<Rightarrow> heap option" where
  "heap_rebuild_loop h 0 = Some h"
| "heap_rebuild_loop h (Suc i) = do { h \<leftarrow> float_down h (Suc i); heap_rebuild_loop h i }"

definition heap_rebuild :: "heap \<Rightarrow> heap option" where
  "heap_rebuild h = heap_rebuild_loop h (hp_n h div 2)"

definition heap_max :: "heap \<Rightarrow> addr option" where
  "heap_max h = elem h 1"

definition heap_pop :: "heap \<Rightarrow> (addr \<times> heap) option" where
  "heap_pop h = map_option (\<lambda>a. (a, h\<lparr>hp_n := hp_n h - 1\<rparr>)) (elem h (hp_n h))"

text \<open>The nodes \<^verbatim>\<open>HEAP_FOR_EACH\<close> visits.\<close>

partial_function (option) heap_for_each_loop :: "heap \<Rightarrow> addr \<Rightarrow> addr list option" where
  "heap_for_each_loop h node =
     (if hp_idx h node < hp_n h then do {
        a \<leftarrow> elem h (hp_idx h node + 1);
        as \<leftarrow> heap_for_each_loop h a;
        Some (node # as)
      } else Some [node])"

definition heap_for_each :: "heap \<Rightarrow> addr list option" where
  "heap_for_each h = (if hp_n h > 0 then do { a \<leftarrow> elem h 1; heap_for_each_loop h a } else Some [])"

section \<open>Heap order on indices\<close>

text \<open>
  \<open>p\<close> gives the priority at an index.  \<open>ordered n p m\<close>: every node whose parent
  is at \<open>m\<close> or later is at most its parent.  \<open>ordered_but_down\<close> allows the children of \<open>i\<close>
  to be larger than \<open>i\<close>, \<open>ordered_but_up\<close> allows \<open>i\<close> to be larger than its parent;
  in both the children of \<open>i\<close> are at most the parent of \<open>i\<close>.
\<close>

definition ordered :: "nat \<Rightarrow> (nat \<Rightarrow> 'a::linorder) \<Rightarrow> nat \<Rightarrow> bool" where
  "ordered n p m \<longleftrightarrow> (\<forall>j. 2 \<le> j \<and> j \<le> n \<and> m \<le> j div 2 \<longrightarrow> p j \<le> p (j div 2))"

definition skips :: "nat \<Rightarrow> (nat \<Rightarrow> 'a::linorder) \<Rightarrow> nat \<Rightarrow> nat \<Rightarrow> bool" where
  "skips n p m i \<longleftrightarrow> (\<forall>j. 2 \<le> j \<and> j \<le> n \<and> j div 2 = i \<and> 2 \<le> i \<and> m \<le> i div 2 \<longrightarrow> p j \<le> p (i div 2))"

definition ordered_but_down :: "nat \<Rightarrow> (nat \<Rightarrow> 'a::linorder) \<Rightarrow> nat \<Rightarrow> nat \<Rightarrow> bool" where
  "ordered_but_down n p m i \<longleftrightarrow>
     (\<forall>j. 2 \<le> j \<and> j \<le> n \<and> m \<le> j div 2 \<and> j div 2 \<noteq> i \<longrightarrow> p j \<le> p (j div 2)) \<and> skips n p m i"

definition ordered_but_up :: "nat \<Rightarrow> (nat \<Rightarrow> 'a::linorder) \<Rightarrow> nat \<Rightarrow> bool" where
  "ordered_but_up n p i \<longleftrightarrow> (\<forall>j. 2 \<le> j \<and> j \<le> n \<and> j \<noteq> i \<longrightarrow> p j \<le> p (j div 2)) \<and> skips n p 1 i"

definition swapped :: "nat \<Rightarrow> nat \<Rightarrow> (nat \<Rightarrow> 'a) \<Rightarrow> nat \<Rightarrow> 'a" where
  "swapped i j p = p(i := p j, j := p i)"

lemma div2_neq: "2 \<le> j \<Longrightarrow> j div 2 \<noteq> j" "2 \<le> j \<Longrightarrow> 1 \<le> j div 2" "2 \<le> j \<Longrightarrow> j div 2 < (j::nat)"
  by auto

lemma ordered_up_step:
  assumes "ordered_but_up n p i" "2 \<le> i" "i \<le> n" "p (i div 2) < p i"
  shows "ordered_but_up n (swapped (i div 2) i p) (i div 2)"
proof -
  let ?h = "i div 2" and ?p = "swapped (i div 2) i p"
  have ok: "p j \<le> p (j div 2)" if "2 \<le> j" "j \<le> n" "j \<noteq> i" for j
    using assms(1) that by (simp add: ordered_but_up_def)
  have below: "p j \<le> p ?h" if "2 \<le> j" "j \<le> n" "j div 2 = i" for j
    using assms(1,2) that div2_neq(2) [of i] unfolding ordered_but_up_def skips_def by blast
  have ne: "?h \<noteq> i" "?h < i" using assms(2) div2_neq by auto
  have "?p j \<le> ?p (j div 2)" if j: "2 \<le> j" "j \<le> n" "j \<noteq> ?h" for j
  proof -
    consider "j = i" | "j \<noteq> i" "j div 2 = ?h" | "j div 2 = i" | "j \<noteq> i" "j div 2 \<noteq> ?h" "j div 2 \<noteq> i" by blast
    then show ?thesis
    proof cases
      case 1
      then show ?thesis using assms(4) ne by (simp add: swapped_def)
    next
      case 2
      then show ?thesis using ok [OF j(1,2)] assms(4) ne j(3) by (simp add: swapped_def)
    next
      case 3
      moreover from this have "j \<noteq> i" using j(1) div2_neq(1) by blast
      ultimately show ?thesis using below [OF j(1,2)] ne j(3) by (simp add: swapped_def)
    next
      case 4
      then show ?thesis using ok [OF j(1,2)] j(3) by (simp add: swapped_def)
    qed
  qed
  moreover have "?p j \<le> ?p (?h div 2)" if j: "2 \<le> j" "j \<le> n" "j div 2 = ?h" "2 \<le> ?h" for j
  proof -
    have hh: "?h div 2 \<noteq> ?h" "?h div 2 \<noteq> i" using j(4) div2_neq(3) [of ?h] ne by auto
    have "p ?h \<le> p (?h div 2)" using ok [of ?h] j(4) ne assms(3) by simp
    moreover have "j \<noteq> ?h" using j(1,3) div2_neq(1) by metis
    moreover have "j \<noteq> i \<Longrightarrow> p j \<le> p ?h" using ok [OF j(1,2)] j(3) by simp
    ultimately show ?thesis using hh ne by (cases "j = i") (auto simp: swapped_def)
  qed
  ultimately show ?thesis unfolding ordered_but_up_def skips_def by blast
qed

lemma ordered_down_step:
  assumes "ordered_but_down n p m i" "1 \<le> i"
    and c: "c div 2 = i" "2 \<le> c" "c \<le> n" "p i < p c" "\<And>j. 2 \<le> j \<Longrightarrow> j \<le> n \<Longrightarrow> j div 2 = i \<Longrightarrow> p j \<le> p c"
  shows "ordered_but_down n (swapped c i p) m c"
proof -
  let ?p = "swapped c i p"
  have ok: "p j \<le> p (j div 2)" if "2 \<le> j" "j \<le> n" "m \<le> j div 2" "j div 2 \<noteq> i" for j
    using assms(1) that by (simp add: ordered_but_down_def)
  have skip: "p j \<le> p (i div 2)" if "2 \<le> j" "j \<le> n" "j div 2 = i" "2 \<le> i" "m \<le> i div 2" for j
    using assms(1) that unfolding ordered_but_down_def skips_def by blast
  have ne: "c \<noteq> i" "i < c" using c(1,2) div2_neq by auto
  have "?p j \<le> ?p (j div 2)" if j: "2 \<le> j" "j \<le> n" "m \<le> j div 2" "j div 2 \<noteq> c" for j
  proof -
    consider "j = c" | "j \<noteq> c" "j div 2 = i" | "j = i" | "j \<noteq> c" "j \<noteq> i" "j div 2 \<noteq> i" by blast
    then show ?thesis
    proof cases
      case 1
      then show ?thesis using c(1,4) ne by (simp add: swapped_def)
    next
      case 2
      moreover from this have "j \<noteq> i" using j(1) div2_neq(1) by blast
      ultimately show ?thesis using c(5) [OF j(1,2)] ne by (simp add: swapped_def)
    next
      case 3
      then have "i div 2 \<noteq> i" "i div 2 \<noteq> c" using j(1,4) div2_neq(1) by auto
      then show ?thesis using skip [OF c(2,3,1)] 3 j(1,3) ne by (simp add: swapped_def)
    next
      case 4
      then show ?thesis using ok [OF j(1-3)] j(4) by (simp add: swapped_def)
    qed
  qed
  moreover have "?p j \<le> ?p (c div 2)" if j: "2 \<le> j" "j \<le> n" "j div 2 = c" "m \<le> c div 2" for j
  proof -
    have "p j \<le> p c" using ok [OF j(1,2)] j(3,4) c(1) ne by simp
    moreover have "j \<noteq> c" "j \<noteq> i" using j(1,3) div2_neq(3) [of j] ne by auto
    ultimately show ?thesis using c(1) ne by (simp add: swapped_def)
  qed
  ultimately show ?thesis unfolding ordered_but_down_def skips_def by blast
qed

text \<open>A node without larger children ends a downward pass, the root and a small enough node an upward pass.\<close>

lemma ordered_down_end:
  assumes "ordered_but_down n p m i" "\<And>j. 2 \<le> j \<Longrightarrow> j \<le> n \<Longrightarrow> j div 2 = i \<Longrightarrow> p j \<le> p i"
  shows "ordered n p m"
  using assms unfolding ordered_def ordered_but_down_def by (metis)

lemma ordered_up_end:
  assumes "ordered_but_up n p i" "2 \<le> i \<Longrightarrow> p i \<le> p (i div 2)"
  shows "ordered n p 1"
  using assms unfolding ordered_def ordered_but_up_def by blast

text \<open>When only \<open>i\<close> may be out of order, one of the two passes applies.\<close>

lemma ordered_either:
  assumes ok: "\<And>j. 2 \<le> j \<Longrightarrow> j \<le> n \<Longrightarrow> j \<noteq> i \<Longrightarrow> j div 2 \<noteq> i \<Longrightarrow> p j \<le> p (j div 2)"
    and skip: "skips n p 1 i"
  shows "2 \<le> i \<and> p (i div 2) < p i \<Longrightarrow> ordered_but_up n p i"
    "\<not> (2 \<le> i \<and> p (i div 2) < p i) \<Longrightarrow> ordered_but_down n p 1 i"
proof -
  have "p j \<le> p (j div 2)" if i: "2 \<le> i \<and> p (i div 2) < p i" and j: "2 \<le> j" "j \<le> n" "j \<noteq> i" for j
  proof (cases "j div 2 = i")
    case True
    then have "p j \<le> p (i div 2)" using skip i j div2_neq(2) [of i] unfolding skips_def by blast
    also have "\<dots> \<le> p (j div 2)" using i True by (simp add: less_imp_le)
    finally show ?thesis .
  qed (use ok j in blast)
  then show "2 \<le> i \<and> p (i div 2) < p i \<Longrightarrow> ordered_but_up n p i"
    using skip by (simp add: ordered_but_up_def)
  have "p j \<le> p (j div 2)"
    if i: "\<not> (2 \<le> i \<and> p (i div 2) < p i)" and j: "2 \<le> j" "j \<le> n" "j div 2 \<noteq> i" for j
    using ok [OF j(1,2) _ j(3)] i j(1) by (cases "j = i") (auto simp: not_less)
  then show "\<not> (2 \<le> i \<and> p (i div 2) < p i) \<Longrightarrow> ordered_but_down n p 1 i"
    using skip by (simp add: ordered_but_down_def)
qed

text \<open>The largest element is at the root.\<close>

lemma ordered_root:
  assumes "ordered n p 1" "1 \<le> j" "j \<le> n"
  shows "p j \<le> p 1"
  using assms(2,3)
proof (induction j rule: less_induct)
  case (less j)
  show ?case
  proof (cases "j = 1")
    case False
    then have "2 \<le> j" using less.prems(1) by simp
    then have "p j \<le> p (j div 2)" using assms(1) less.prems(2) div2_neq(2) unfolding ordered_def by blast
    also have "\<dots> \<le> p 1" using less \<open>2 \<le> j\<close> div2_neq by (intro less.IH) auto
    finally show ?thesis .
  qed simp
qed

text \<open>Only the indices of nodes matter.\<close>

lemma ordered_cong:
  assumes "\<And>k. 1 \<le> k \<Longrightarrow> k \<le> n \<Longrightarrow> p k = q k"
  shows "ordered n p m \<longleftrightarrow> ordered n q m" "ordered_but_down n p m i \<longleftrightarrow> ordered_but_down n q m i"
    "ordered_but_up n p i \<longleftrightarrow> ordered_but_up n q i"
proof -
  have e: "p j = q j" "p (j div 2) = q (j div 2)" if "2 \<le> j" "j \<le> n" for j
    using that by (auto intro!: assms)
  have g: "p (i div 2) = q (i div 2)" if "2 \<le> j" "j \<le> n" "j div 2 = i" "2 \<le> i" for i j
    using that by (intro assms) auto
  show "ordered n p m \<longleftrightarrow> ordered n q m" using e by (simp add: ordered_def)
  have s: "skips n p m i \<longleftrightarrow> skips n q m i" for m i using e g unfolding skips_def by metis
  show "ordered_but_down n p m i \<longleftrightarrow> ordered_but_down n q m i"
    using e unfolding ordered_but_down_def s by metis
  show "ordered_but_up n p i \<longleftrightarrow> ordered_but_up n q i"
    using e unfolding ordered_but_up_def s by metis
qed

section \<open>Well-formed heaps\<close>

definition heap_wf :: "heap \<Rightarrow> bool" where
  "heap_wf h \<longleftrightarrow> (hp_allocated h = 0 \<or> length (hp_array h) = hp_allocated h + 1) \<and> hp_n h \<le> hp_allocated h
     \<and> (\<forall>i. 1 \<le> i \<and> i \<le> hp_n h \<longrightarrow> hp_idx h (hp_array h ! i) = i)"

definition heap_nodes :: "heap \<Rightarrow> addr list" where
  "heap_nodes h = map (\<lambda>i. hp_array h ! i) [1..<Suc (hp_n h)]"

abbreviation prio_of :: "heap \<Rightarrow> nat \<Rightarrow> u64" where
  "prio_of h i \<equiv> hp_prio h (hp_array h ! i)"

abbreviation heap_order :: "heap \<Rightarrow> bool" where
  "heap_order h \<equiv> ordered (hp_n h) (prio_of h) 1"

text \<open>\<open>h'\<close> has the nodes of \<open>h\<close>, with their priorities, perhaps in another order.\<close>

definition rearranged :: "heap \<Rightarrow> heap \<Rightarrow> bool" where
  "rearranged h h' \<longleftrightarrow> heap_wf h' \<and> hp_n h' = hp_n h \<and> hp_allocated h' = hp_allocated h
     \<and> hp_prio h' = hp_prio h \<and> mset (heap_nodes h') = mset (heap_nodes h)"

lemma rearranged_refl: "heap_wf h \<Longrightarrow> rearranged h h"
  by (simp add: rearranged_def)

lemma rearranged_trans: "rearranged h h1 \<Longrightarrow> rearranged h1 h2 \<Longrightarrow> rearranged h h2"
  by (simp add: rearranged_def)

lemma heap_wf_bound: "heap_wf h \<Longrightarrow> 1 \<le> i \<Longrightarrow> i \<le> hp_n h \<Longrightarrow> i < length (hp_array h)"
  by (auto simp: heap_wf_def)

lemma elem_some: "heap_wf h \<Longrightarrow> 1 \<le> i \<Longrightarrow> i \<le> hp_n h \<Longrightarrow> elem h i = Some (hp_array h ! i)"
  using heap_wf_bound by (auto simp: elem_def)

lemma prio_at_some: "heap_wf h \<Longrightarrow> 1 \<le> i \<Longrightarrow> i \<le> hp_n h \<Longrightarrow> prio_at h i = Some (prio_of h i)"
  by (simp add: prio_at_def elem_some)

lemma heap_wf_inj:
  "heap_wf h \<Longrightarrow> 1 \<le> i \<Longrightarrow> i \<le> hp_n h \<Longrightarrow> 1 \<le> j \<Longrightarrow> j \<le> hp_n h \<Longrightarrow> hp_array h ! i = hp_array h ! j \<Longrightarrow> i = j"
  unfolding heap_wf_def by metis

lemma heap_nodes_distinct: "heap_wf h \<Longrightarrow> distinct (heap_nodes h)"
  using heap_wf_inj by (auto simp: heap_nodes_def distinct_map inj_on_def)

lemma mset_map_swap:
  assumes "i \<in> set xs" "j \<in> set xs" "distinct xs" "i \<noteq> j"
  shows "mset (map (f(i := f j, j := f i)) xs) = mset (map f xs)"
proof -
  obtain M where M: "mset xs = add_mset i (add_mset j M)"
    using assms by (metis insert_noteq_member multi_member_split set_mset_mset)
  have "count (mset xs) i = 1" "count (mset xs) j = 1"
    using assms(1-3) by (simp_all add: distinct_count_atmost_1)
  then have "i \<notin># M" "j \<notin># M" using assms(4) by (simp_all add: M not_in_iff)
  then have "image_mset (f(i := f j, j := f i)) M = image_mset f M" by (intro image_mset_cong) auto
  then show ?thesis using assms(4) by (simp add: M)
qed

lemma swap_nodes_some:
  assumes wf: "heap_wf h" and i: "1 \<le> i" "i \<le> hp_n h" and j: "1 \<le> j" "j \<le> hp_n h" and ne: "i \<noteq> j"
  obtains h' where "swap_nodes h i j = Some h'" "rearranged h h'"
    "\<forall>k. 1 \<le> k \<and> k \<le> hp_n h \<longrightarrow> prio_of h' k = swapped i j (prio_of h) k"
proof -
  let ?a = "hp_array h"
  define h' where "h' = h\<lparr>hp_array := ?a[i := ?a ! j, j := ?a ! i], hp_idx := (hp_idx h)(?a ! j := i, ?a ! i := j)\<rparr>"
  have b: "i < length ?a" "j < length ?a" using heap_wf_bound [OF wf] i j by auto
  have "swap_nodes h i j = Some h'"
    using b by (simp add: swap_nodes_def elem_def put_node_def h'_def)
  moreover have "heap_wf h'"
  proof -
    have "hp_idx h' (hp_array h' ! k) = k" if k: "1 \<le> k" "k \<le> hp_n h" for k
      using b ne i j k heap_wf_inj [OF wf] wf unfolding heap_wf_def
      by (simp add: h'_def nth_list_update) (metis)
    then show ?thesis using wf by (simp add: heap_wf_def h'_def)
  qed
  moreover have nodes: "heap_nodes h' = map ((\<lambda>k. ?a ! k)(i := ?a ! j, j := ?a ! i)) [1..<Suc (hp_n h)]"
    using b ne by (auto simp: heap_nodes_def h'_def nth_list_update)
  have range: "i \<in> set [1..<Suc (hp_n h)]" "j \<in> set [1..<Suc (hp_n h)]" using i j by auto
  have "mset (heap_nodes h') = mset (heap_nodes h)"
    unfolding nodes heap_nodes_def [of h] by (rule mset_map_swap [OF range distinct_upt ne])
  moreover have "prio_of h' k = swapped i j (prio_of h) k" for k
    using b ne by (auto simp: h'_def swapped_def nth_list_update)
  ultimately show thesis by (intro that) (auto simp: rearranged_def h'_def)
qed

section \<open>Floating up and down\<close>

lemma float_up_order:
  assumes "heap_wf h" "1 \<le> i" "i \<le> hp_n h" "ordered_but_up (hp_n h) (prio_of h) i"
  shows "\<exists>mv' h'. float_up h i mv = Some (mv', h') \<and> rearranged h h' \<and> heap_order h'"
  using assms
proof (induction h i mv rule: float_up.induct)
  case (1 h i mv)
  let ?n = "hp_n h" and ?p = "i div 2"
  show ?case
  proof (cases "i > 1 \<and> prio_of h ?p < prio_of h i")
    case False
    then have "float_up h i mv = Some (mv, h)"
      using 1(2-4) by (subst float_up.simps) (auto simp: heap_parent_def prio_at_some not_less)
    moreover have "heap_order h" using False 1(5) ordered_up_end [of ?n "prio_of h" i] by (auto simp: not_less)
    ultimately show ?thesis using 1(2) rearranged_refl by blast
  next
    case True
    have i: "2 \<le> i" "1 \<le> ?p" "?p \<le> ?n" "?p \<noteq> i" using True 1(4) by auto
    have lt: "\<not> prio_of h i \<le> prio_of h ?p" using True by (simp add: not_le)
    obtain h1 where h1: "swap_nodes h ?p i = Some h1" "rearranged h h1"
      "\<forall>k. 1 \<le> k \<and> k \<le> ?n \<longrightarrow> prio_of h1 k = swapped ?p i (prio_of h) k"
      by (rule swap_nodes_some [OF 1(2) i(2,3) 1(3,4) i(4)])
    have "ordered_but_up ?n (swapped ?p i (prio_of h)) ?p"
      using ordered_up_step [OF 1(5) i(1) 1(4)] True by blast
    then have "ordered_but_up (hp_n h1) (prio_of h1) ?p"
      using h1(2,3) ordered_cong(3) [of ?n "prio_of h1" "swapped ?p i (prio_of h)"] by (simp add: rearranged_def)
    then have "\<exists>mv' h'. float_up h1 ?p True = Some (mv', h') \<and> rearranged h1 h' \<and> heap_order h'"
      using 1(1) [of "prio_of h ?p" "prio_of h i" h1] True 1(2-4) h1(1,2) i
      by (simp add: heap_parent_def prio_at_some rearranged_def)
    moreover have "float_up h i mv = float_up h1 ?p True"
      using lt 1(2-4) h1(1) i by (subst float_up.simps) (simp add: heap_parent_def prio_at_some)
    ultimately show ?thesis using rearranged_trans [OF h1(2)] by (auto simp del: One_nat_def)
  qed
qed

text \<open>Whether \<^verbatim>\<open>float_up\<close> moves the node.\<close>

lemma float_up_moved:
  assumes "heap_wf h" "1 \<le> i" "i \<le> hp_n h" "float_up h i False = Some (mv, h')"
  shows "mv \<longleftrightarrow> i > 1 \<and> prio_of h (i div 2) < prio_of h i" "\<not> mv \<Longrightarrow> h' = h"
proof -
  have stays: "float_up h i True = Some (mv, h') \<Longrightarrow> mv" for h i
    by (induction h i True rule: float_up.induct) (subst (asm) float_up.simps, auto simp: bind_eq_Some_conv split: if_splits)
  show "mv \<longleftrightarrow> i > 1 \<and> prio_of h (i div 2) < prio_of h i" "\<not> mv \<Longrightarrow> h' = h"
    using assms stays
    by (auto simp: float_up.simps [of h i False] heap_parent_def prio_at_some bind_eq_Some_conv not_less split: if_splits)
qed

lemma float_down_max_some:
  assumes "heap_wf h" "1 \<le> i" "\<not> heap_is_leaf h i"
  obtains c where "float_down_max h i = Some c" "c = i \<or> c div 2 = i \<and> 2 \<le> c \<and> c \<le> hp_n h \<and> prio_of h i < prio_of h c"
    "\<And>j. 2 \<le> j \<Longrightarrow> j \<le> hp_n h \<Longrightarrow> j div 2 = i \<Longrightarrow> prio_of h j \<le> prio_of h c"
proof -
  let ?P = "prio_of h" and ?l = "2 * i" and ?r = "2 * i + 1"
  have l: "?l \<le> hp_n h" using assms(3) by (simp add: heap_is_leaf_def heap_left_def)
  define m where "m = (if ?P ?l > ?P i then ?l else i)"
  define c where "c = (if ?r \<le> hp_n h \<and> ?P ?r > ?P m then ?r else m)"
  have mb: "1 \<le> m" "m \<le> hp_n h" using assms(2) l by (auto simp: m_def)
  have "float_down_max h i = Some c"
    using assms(1,2) l mb
    by (simp add: float_down_max_def Let_def heap_left_def heap_right_def prio_at_some mult.commute [of i 2] m_def [symmetric])
      (simp add: c_def prio_at_some)
  moreover have "c = i \<or> c div 2 = i \<and> 2 \<le> c \<and> c \<le> hp_n h \<and> ?P i < ?P c"
    using assms(2) l by (auto simp: c_def m_def split: if_splits)
  moreover have "?P j \<le> ?P c" if "2 \<le> j" "j \<le> hp_n h" "j div 2 = i" for j
  proof -
    have "j = ?l \<or> j = ?r" using that(3) by presburger
    then show ?thesis using that(2) by (auto simp: c_def m_def split: if_splits)
  qed
  ultimately show thesis using that by blast
qed

lemma float_down_order:
  assumes "heap_wf h" "1 \<le> i" "i \<le> hp_n h" "ordered_but_down (hp_n h) (prio_of h) m i"
  shows "\<exists>h'. float_down h i = Some h' \<and> rearranged h h' \<and> ordered (hp_n h') (prio_of h') m"
  using assms
proof (induction h i rule: float_down.induct)
  case (1 h i)
  let ?n = "hp_n h"
  show ?case
  proof (cases "heap_is_leaf h i")
    case True
    then have "ordered ?n (prio_of h) m"
      using ordered_down_end [OF 1(5)] by (fastforce simp: heap_is_leaf_def heap_left_def)
    then show ?thesis using True 1(2) rearranged_refl by (subst float_down.simps) simp
  next
    case False
    obtain c where c: "float_down_max h i = Some c"
      "c = i \<or> c div 2 = i \<and> 2 \<le> c \<and> c \<le> hp_n h \<and> prio_of h i < prio_of h c"
      "\<And>j. 2 \<le> j \<Longrightarrow> j \<le> hp_n h \<Longrightarrow> j div 2 = i \<Longrightarrow> prio_of h j \<le> prio_of h c"
      using float_down_max_some [OF 1(2,3) False] by metis
    show ?thesis
    proof (cases "c = i")
      case True
      then have "ordered ?n (prio_of h) m" using ordered_down_end [OF 1(5)] c(3) by blast
      then show ?thesis using False c(1) True 1(2) rearranged_refl by (subst float_down.simps) simp
    next
      case ne: False
      then have cc: "c div 2 = i" "2 \<le> c" "1 \<le> c" "c \<le> ?n" "prio_of h i < prio_of h c" using c(2) by auto
      obtain h1 where h1: "swap_nodes h c i = Some h1" "rearranged h h1"
        "\<forall>k. 1 \<le> k \<and> k \<le> ?n \<longrightarrow> prio_of h1 k = swapped c i (prio_of h) k"
        by (rule swap_nodes_some [OF 1(2) cc(3,4) 1(3,4) ne])
      have "ordered_but_down ?n (swapped c i (prio_of h)) m c"
        by (rule ordered_down_step [OF 1(5,3) cc(1,2,4,5) c(3)])
      then have "ordered_but_down (hp_n h1) (prio_of h1) m c"
        using h1(2,3) ordered_cong(2) [of ?n "prio_of h1" "swapped c i (prio_of h)"] by (simp add: rearranged_def)
      then have "\<exists>h'. float_down h1 c = Some h' \<and> rearranged h1 h' \<and> ordered (hp_n h') (prio_of h') m"
        using 1(1) [OF False c(1) ne h1(1)] h1(2) cc by (simp add: rearranged_def)
      moreover have "float_down h i = float_down h1 c"
        using False c(1) ne h1(1) by (subst float_down.simps) simp
      ultimately show ?thesis using h1(2) rearranged_trans by auto
    qed
  qed
qed

text \<open>Any priority at \<open>i\<close>, in between its parent and its children or not.\<close>

lemma float_up_or_down_order:
  assumes wf: "heap_wf h" and i: "1 \<le> i" "i \<le> hp_n h"
    and ok: "\<And>j. 2 \<le> j \<Longrightarrow> j \<le> hp_n h \<Longrightarrow> j \<noteq> i \<Longrightarrow> j div 2 \<noteq> i \<Longrightarrow> prio_of h j \<le> prio_of h (j div 2)"
    and skip: "skips (hp_n h) (prio_of h) 1 i"
  shows "\<exists>h'. float_up_or_down h i = Some h' \<and> rearranged h h' \<and> heap_order h'"
proof (cases "2 \<le> i \<and> prio_of h (i div 2) < prio_of h i")
  case True
  from float_up_order [OF wf i ordered_either(1) [OF ok skip True], of False]
  obtain mv h' where h': "float_up h i False = Some (mv, h')" "rearranged h h'" "heap_order h'" by blast
  then have mv using float_up_moved(1) [OF wf i h'(1)] True by simp
  then show ?thesis using h' by (simp add: float_up_or_down_def)
next
  case False
  then have stay: "float_up h i False = Some (False, h)"
    using i wf by (subst float_up.simps) (auto simp: heap_parent_def prio_at_some not_less)
  from float_down_order [OF wf i ordered_either(2) [OF ok skip False]] show ?thesis
    using stay by (simp add: float_up_or_down_def)
qed

section \<open>What the operations do\<close>

lemma heap_order_change:
  assumes "ordered n p 1" "\<And>j. 1 \<le> j \<Longrightarrow> j \<le> n \<Longrightarrow> j \<noteq> i \<Longrightarrow> q j = p j" "1 \<le> i" "i \<le> n"
  shows "\<And>j. 2 \<le> j \<Longrightarrow> j \<le> n \<Longrightarrow> j \<noteq> i \<Longrightarrow> j div 2 \<noteq> i \<Longrightarrow> q j \<le> q (j div 2)" "skips n q 1 i"
proof -
  have ok: "p j \<le> p (j div 2)" if "2 \<le> j" "j \<le> n" for j
    using assms(1) that div2_neq(2) unfolding ordered_def by blast
  show "q j \<le> q (j div 2)" if "2 \<le> j" "j \<le> n" "j \<noteq> i" "j div 2 \<noteq> i" for j
    using ok [OF that(1,2)] assms(2) that by simp
  show "skips n q 1 i" unfolding skips_def
  proof (intro allI impI)
    fix j
    assume j: "2 \<le> j \<and> j \<le> n \<and> j div 2 = i \<and> 2 \<le> i \<and> 1 \<le> i div 2"
    have "p j \<le> p i" "p i \<le> p (i div 2)" using ok [of j] ok [of i] j assms(4) by auto
    moreover have "q j = p j" "q (i div 2) = p (i div 2)" using j assms by (auto intro!: assms(2))
    ultimately show "q j \<le> q (i div 2)" by simp
  qed
qed

lemma ordered_smaller: "ordered n p m \<Longrightarrow> k \<le> n \<Longrightarrow> ordered k p m"
  by (simp add: ordered_def)

lemma in_heap_nodes: "a \<in> set (heap_nodes h) \<longleftrightarrow> (\<exists>i. 1 \<le> i \<and> i \<le> hp_n h \<and> a = hp_array h ! i)"
  by (auto simp: heap_nodes_def)

lemma heap_node_idx:
  assumes "heap_wf h" "node \<in> set (heap_nodes h)"
  shows "1 \<le> hp_idx h node" "hp_idx h node \<le> hp_n h" "hp_array h ! hp_idx h node = node"
  using assms unfolding in_heap_nodes heap_wf_def by auto

definition room_for :: "addr list \<Rightarrow> heap \<Rightarrow> bool" where
  "room_for junk h \<longleftrightarrow> 2 * hp_n h + 2 \<le> length junk"

lemma heap_raw_insert_some:
  assumes wf: "heap_wf h" and new: "node \<notin> set (heap_nodes h)" and room: "room_for junk h"
  obtains h' where "heap_raw_insert junk h node pr = Some h'" "heap_wf h'" "hp_n h' = Suc (hp_n h)"
    "heap_nodes h' = heap_nodes h @ [node]" "hp_prio h' = (hp_prio h)(node := pr)" "hp_idx h' node = Suc (hp_n h)"
proof -
  let ?n = "hp_n h"
  define h1 where "h1 = (if ?n \<ge> hp_allocated h
      then let allocated = (if ?n = 0 then 1 else 2 * ?n)
           in h\<lparr>hp_allocated := allocated, hp_array := take (allocated + 1) (hp_array h @ junk)\<rparr>
      else h)"
  have h1: "length (hp_array h1) = hp_allocated h1 + 1" "?n < hp_allocated h1" "hp_n h1 = ?n"
    "hp_idx h1 = hp_idx h" "hp_prio h1 = hp_prio h"
    "\<And>i. 1 \<le> i \<Longrightarrow> i \<le> ?n \<Longrightarrow> hp_array h1 ! i = hp_array h ! i"
    using wf room by (auto simp: h1_def heap_wf_def room_for_def Let_def nth_append split: if_splits)
  define h' where "h' = h1\<lparr>hp_n := Suc ?n, hp_array := (hp_array h1)[Suc ?n := node],
      hp_idx := (hp_idx h)(node := Suc ?n), hp_prio := (hp_prio h)(node := pr)\<rparr>"
  have "heap_raw_insert junk h node pr = Some h'"
    using h1 by (simp add: heap_raw_insert_def h1_def [symmetric] put_node_def h'_def)
  moreover have arr: "hp_array h' ! i = (if i = Suc ?n then node else hp_array h ! i)" if "1 \<le> i" "i \<le> Suc ?n" for i
    using that h1 by (simp add: h'_def)
  have nodes: "heap_nodes h' = heap_nodes h @ [node]"
  proof -
    have "heap_nodes h' = map (\<lambda>i. hp_array h' ! i) ([1..<Suc ?n] @ [Suc ?n])" by (simp add: heap_nodes_def h'_def)
    then show ?thesis using arr by (auto simp: heap_nodes_def simp del: upt_Suc)
  qed
  moreover have "heap_wf h'"
  proof -
    have "hp_idx h' (hp_array h' ! i) = i" if "1 \<le> i" "i \<le> Suc ?n" for i
      using that arr [OF that] wf new in_heap_nodes [of "hp_array h ! i" h] by (auto simp: h'_def heap_wf_def)
    then show ?thesis using h1 by (simp add: heap_wf_def h'_def)
  qed
  ultimately show thesis using that [of h'] by (simp add: h'_def)
qed

lemma nth_heap_nodes: "1 \<le> i \<Longrightarrow> i \<le> hp_n h \<Longrightarrow> hp_array h ! i = heap_nodes h ! (i - 1)"
  by (simp add: heap_nodes_def del: upt_Suc)

lemma length_heap_nodes [simp]: "length (heap_nodes h) = hp_n h"
  by (simp add: heap_nodes_def del: upt_Suc)

lemma heap_insert:
  assumes wf: "heap_wf h" "heap_order h" and new: "node \<notin> set (heap_nodes h)" and room: "room_for junk h"
  shows "\<exists>h'. heap_insert junk h node pr = Some h' \<and> heap_wf h' \<and> heap_order h'
    \<and> mset (heap_nodes h') = add_mset node (mset (heap_nodes h)) \<and> hp_prio h' = (hp_prio h)(node := pr)"
proof -
  obtain h1 where h1: "heap_raw_insert junk h node pr = Some h1" "heap_wf h1" "hp_n h1 = Suc (hp_n h)"
    "heap_nodes h1 = heap_nodes h @ [node]" "hp_prio h1 = (hp_prio h)(node := pr)" "hp_idx h1 node = Suc (hp_n h)"
    by (rule heap_raw_insert_some [OF wf(1) new room])
  have same: "prio_of h1 k = prio_of h k" if "1 \<le> k" "k \<le> hp_n h" for k
  proof -
    have "heap_nodes h ! (k - 1) \<in> set (heap_nodes h)" using that by (intro nth_mem) auto
    then have "heap_nodes h ! (k - 1) \<noteq> node" using new by auto
    then show ?thesis using that h1(3-5) by (cases k) (auto simp: nth_heap_nodes nth_append)
  qed
  have "ordered_but_up (hp_n h1) (prio_of h1) (Suc (hp_n h))"
    using wf(2) same h1(3) div2_neq(2)
    by (auto simp: ordered_but_up_def ordered_def skips_def le_Suc_eq)
  from float_up_order [OF h1(2) _ _ this, of False] h1 show ?thesis
    by (auto simp: heap_insert_def rearranged_def)
qed

lemma heap_change:
  assumes wf: "heap_wf h" "heap_order h" and node: "node \<in> set (heap_nodes h)"
  shows "\<exists>h'. heap_change h node pr = Some h' \<and> heap_wf h' \<and> heap_order h'
    \<and> mset (heap_nodes h') = mset (heap_nodes h) \<and> hp_prio h' = (hp_prio h)(node := pr)"
proof -
  let ?h = "heap_raw_change h node pr" and ?i = "hp_idx h node"
  have f: "heap_wf ?h" "hp_n ?h = hp_n h" "hp_idx ?h = hp_idx h" "hp_array ?h = hp_array h"
    "heap_nodes ?h = heap_nodes h" "hp_prio ?h = (hp_prio h)(node := pr)"
    using wf(1) by (simp_all add: heap_raw_change_def heap_wf_def heap_nodes_def)
  note i = heap_node_idx [OF wf(1) node]
  have "prio_of ?h j = prio_of h j" if "1 \<le> j" "j \<le> hp_n h" "j \<noteq> ?i" for j
    using that i heap_wf_inj [OF wf(1) that(1,2) i(1,2)] f(4,6) by auto
  note c = heap_order_change [OF wf(2) this i(1,2)]
  from float_up_or_down_order [OF f(1), of ?i] show ?thesis
    using c i f by (auto simp: heap_change_def Let_def rearranged_def)
qed


lemma heap_raw_remove_some:
  assumes wf: "heap_wf h" and node: "node \<in> set (heap_nodes h)"
  obtains h' where "heap_raw_remove h node = Some h'" "heap_wf h'" "hp_n h' = hp_n h - 1"
    "mset (heap_nodes h) = add_mset node (mset (heap_nodes h'))" "hp_prio h' = hp_prio h"
    "\<forall>j. 1 \<le> j \<and> j < hp_n h \<and> j \<noteq> hp_idx h node \<longrightarrow> hp_array h' ! j = hp_array h ! j"
proof -
  let ?n = "hp_n h" and ?i = "hp_idx h node" and ?a = "hp_array h"
  note i = heap_node_idx [OF wf node]
  define h' where "h' = (if ?i < ?n then h\<lparr>hp_n := ?n - 1, hp_array := ?a[?i := ?a ! ?n], hp_idx := (hp_idx h)(?a ! ?n := ?i)\<rparr>
    else h\<lparr>hp_n := ?n - 1\<rparr>)"
  have b: "?i < length ?a" using heap_wf_bound [OF wf] i by auto
  have "heap_raw_remove h node = Some h'"
    using i b by (auto simp: heap_raw_remove_def h'_def Let_def elem_some [OF wf] put_node_def)
  moreover have arr: "hp_array h' ! j = (if j = ?i then ?a ! ?n else ?a ! j)" if "1 \<le> j" "j < ?n" for j
    using that b i by (simp add: h'_def nth_list_update)
  moreover have "heap_wf h'"
  proof -
    have "hp_idx h' (hp_array h' ! j) = j" if j: "1 \<le> j" "j < ?n" for j
      using arr [OF j] j heap_wf_inj [OF wf, of j ?n] wf i by (auto simp: h'_def heap_wf_def)
    moreover have "hp_n h' = ?n - 1" "hp_allocated h' = hp_allocated h" "length (hp_array h') = length ?a"
      by (simp_all add: h'_def)
    ultimately show ?thesis using wf i(1,2) unfolding heap_wf_def by auto
  qed
  moreover have "mset (heap_nodes h) = add_mset node (mset (heap_nodes h'))"
  proof -
    obtain m where m: "?n = Suc m" using i by (cases ?n) auto
    have n': "hp_n h' = m" by (simp add: h'_def m)
    have last: "heap_nodes h = map (\<lambda>j. ?a ! j) [1..<Suc m] @ [?a ! ?n]" using m by (simp add: heap_nodes_def)
    have upd: "heap_nodes h' = (map (\<lambda>j. ?a ! j) [1..<Suc m])[?i - 1 := ?a ! ?n]"
      using arr m n' i by (intro nth_equalityI) (auto simp: heap_nodes_def nth_list_update simp del: upt_Suc)
    show ?thesis
    proof (cases "?i < ?n")
      case True
      then have "?i - 1 < length (map (\<lambda>j. ?a ! j) [1..<Suc m])" using m i by auto
      then have "mset (heap_nodes h') = add_mset (?a ! ?n) (mset (map (\<lambda>j. ?a ! j) [1..<Suc m]) - {#node#})"
        "node \<in># mset (map (\<lambda>j. ?a ! j) [1..<Suc m])"
        using i True m unfolding upd by (auto simp: mset_update intro!: image_eqI [of _ _ ?i] simp del: upt_Suc)
      then show ?thesis unfolding last by simp
    next
      case False
      then show ?thesis using i m unfolding upd last by (simp add: list_update_beyond del: upt_Suc)
    qed
  qed
  ultimately show thesis using that [of h'] by (simp add: h'_def)
qed

lemma heap_remove:
  assumes wf: "heap_wf h" "heap_order h" and node: "node \<in> set (heap_nodes h)"
  shows "\<exists>h'. heap_remove h node = Some h' \<and> heap_wf h' \<and> heap_order h'
    \<and> mset (heap_nodes h) = add_mset node (mset (heap_nodes h')) \<and> hp_prio h' = hp_prio h"
proof -
  let ?i = "hp_idx h node"
  obtain h1 where h1: "heap_raw_remove h node = Some h1" "heap_wf h1" "hp_n h1 = hp_n h - 1"
    "mset (heap_nodes h) = add_mset node (mset (heap_nodes h1))" "hp_prio h1 = hp_prio h"
    "\<forall>j. 1 \<le> j \<and> j < hp_n h \<and> j \<noteq> ?i \<longrightarrow> hp_array h1 ! j = hp_array h ! j"
    by (rule heap_raw_remove_some [OF wf(1) node])
  note i = heap_node_idx [OF wf(1) node]
  have less: "ordered (hp_n h1) (prio_of h) 1" using ordered_smaller [OF wf(2)] h1(3) by simp
  have same: "prio_of h1 j = prio_of h j" if "1 \<le> j" "j \<le> hp_n h1" "j \<noteq> ?i" for j
    using that h1(3,5,6) by simp
  show ?thesis
  proof (cases "?i \<le> hp_n h1")
    case True
    note c = heap_order_change [OF less same i(1) True]
    from float_up_or_down_order [OF h1(2) i(1) True] c show ?thesis
      using h1 True by (auto simp: heap_remove_def Let_def rearranged_def)
  next
    case False
    then have "heap_order h1" using less ordered_cong(1) [of "hp_n h1" "prio_of h1" "prio_of h"] same by auto
    then show ?thesis using h1 False by (auto simp: heap_remove_def Let_def)
  qed
qed

lemma heap_rebuild_loop:
  "heap_wf h \<Longrightarrow> i \<le> hp_n h \<Longrightarrow> ordered (hp_n h) (prio_of h) (Suc i) \<Longrightarrow>
    \<exists>h'. heap_rebuild_loop h i = Some h' \<and> rearranged h h' \<and> heap_order h'"
proof (induction i arbitrary: h)
  case 0
  then show ?case using rearranged_refl by simp
next
  case (Suc i)
  have "ordered_but_down (hp_n h) (prio_of h) (Suc i) (Suc i)"
    using Suc.prems(3) by (auto simp: ordered_but_down_def ordered_def skips_def)
  from float_down_order [OF Suc.prems(1) _ Suc.prems(2) this] obtain h1 where
    h1: "float_down h (Suc i) = Some h1" "rearranged h h1" "ordered (hp_n h1) (prio_of h1) (Suc i)" by auto
  from Suc.IH [of h1] h1 Suc.prems(2) show ?case using rearranged_trans [OF h1(2)] by (auto simp: rearranged_def)
qed

lemma heap_rebuild: "heap_wf h \<Longrightarrow> \<exists>h'. heap_rebuild h = Some h' \<and> rearranged h h' \<and> heap_order h'"
  unfolding heap_rebuild_def by (rule heap_rebuild_loop) (auto simp: ordered_def)

lemma heap_max:
  assumes "heap_wf h" "heap_order h" "0 < hp_n h"
  obtains a where "heap_max h = Some a" "a \<in> set (heap_nodes h)" "\<forall>b \<in> set (heap_nodes h). hp_prio h b \<le> hp_prio h a"
proof
  show "heap_max h = Some (hp_array h ! 1)" using assms elem_some [of h 1] by (simp add: heap_max_def)
  show "hp_array h ! 1 \<in> set (heap_nodes h)" using assms(3) unfolding in_heap_nodes by (intro exI [of _ 1]) auto
  show "\<forall>b \<in> set (heap_nodes h). hp_prio h b \<le> prio_of h 1"
    using ordered_root [OF assms(2)] by (auto simp: in_heap_nodes)
qed

lemma heap_pop:
  assumes wf: "heap_wf h" "heap_order h" "0 < hp_n h"
  shows "\<exists>a h'. heap_pop h = Some (a, h') \<and> heap_wf h' \<and> heap_order h'
    \<and> heap_nodes h = heap_nodes h' @ [a] \<and> hp_prio h' = hp_prio h"
proof -
  obtain m where m: "hp_n h = Suc m" using wf(3) by (cases "hp_n h") auto
  have "ordered m (prio_of h) 1" using ordered_smaller [OF wf(2)] m by simp
  then show ?thesis using wf(1) m by (auto simp: heap_pop_def elem_some heap_wf_def heap_nodes_def)
qed

lemma heap_for_each_loop:
  assumes "heap_wf h" "1 \<le> i" "i \<le> hp_n h"
  shows "heap_for_each_loop h (hp_array h ! i) = Some (drop (i - 1) (heap_nodes h))"
  using assms(3,2)
proof (induction i rule: inc_induct)
  case base
  have "drop (hp_n h - 1) (heap_nodes h) = [heap_nodes h ! (hp_n h - 1)]"
    using base by (subst Cons_nth_drop_Suc [symmetric]) auto
  then show ?case using assms(1) base
    by (subst heap_for_each_loop.simps) (simp add: heap_wf_def nth_heap_nodes)
next
  case (step k)
  have idx: "hp_idx h (hp_array h ! k) = k" using assms(1) step by (simp add: heap_wf_def)
  have "drop (k - 1) (heap_nodes h) = hp_array h ! k # drop k (heap_nodes h)"
    using step by (subst Cons_nth_drop_Suc [symmetric]) (auto simp: nth_heap_nodes)
  then show ?case using step idx elem_some [OF assms(1), of "Suc k"] by (subst heap_for_each_loop.simps) simp
qed

lemma heap_for_each: "heap_wf h \<Longrightarrow> heap_for_each h = Some (heap_nodes h)"
  using heap_for_each_loop [of h 1] elem_some [of h 1] by (auto simp: heap_for_each_def heap_nodes_def simp del: upt_Suc)

section \<open>The contract of a priority queue\<close>

text \<open>Takes the largest element \<open>k\<close> times.\<close>

primrec drain :: "('q \<Rightarrow> 'a option) \<Rightarrow> ('q \<Rightarrow> 'a \<Rightarrow> 'q option) \<Rightarrow> nat \<Rightarrow> 'q \<Rightarrow> ('a list \<times> 'q) option" where
  "drain peek rem 0 q = Some ([], q)"
| "drain peek rem (Suc k) q = do {
     a \<leftarrow> peek q;
     q \<leftarrow> rem q a;
     (as, q) \<leftarrow> drain peek rem k q;
     Some (a # as, q)
   }"

locale priority_queue =
  fixes inv :: "'q \<Rightarrow> bool" and elems :: "'q \<Rightarrow> 'a multiset" and prio :: "'q \<Rightarrow> 'a \<Rightarrow> 'p::linorder"
    and peek :: "'q \<Rightarrow> 'a option" and rem :: "'q \<Rightarrow> 'a \<Rightarrow> 'q option"
  assumes peek: "inv q \<Longrightarrow> elems q \<noteq> {#} \<Longrightarrow>
      \<exists>a. peek q = Some a \<and> a \<in># elems q \<and> (\<forall>b \<in># elems q. prio q b \<le> prio q a)"
    and rem: "inv q \<Longrightarrow> a \<in># elems q \<Longrightarrow>
      \<exists>q'. rem q a = Some q' \<and> inv q' \<and> elems q = add_mset a (elems q') \<and> prio q' = prio q"
begin

text \<open>Taking the largest element as often as there are elements sorts them.\<close>

lemma drain_sorts:
  "inv q \<Longrightarrow> size (elems q) = k \<Longrightarrow> \<exists>as q'. drain peek rem k q = Some (as, q') \<and> mset as = elems q
    \<and> sorted_wrt (\<lambda>a b. prio q b \<le> prio q a) as \<and> inv q' \<and> elems q' = {#}"
proof (induction k arbitrary: q)
  case (Suc k)
  then have "elems q \<noteq> {#}" by auto
  with peek [OF Suc.prems(1)] obtain a where a: "peek q = Some a" "a \<in># elems q" "\<forall>b \<in># elems q. prio q b \<le> prio q a" by blast
  from rem [OF Suc.prems(1) a(2)] obtain q1 where
    q1: "rem q a = Some q1" "inv q1" "elems q = add_mset a (elems q1)" "prio q1 = prio q" by blast
  have "size (elems q1) = k" using Suc.prems(2) q1(3) by simp
  from Suc.IH [OF q1(2) this] obtain as q' where r: "drain peek rem k q1 = Some (as, q')" "mset as = elems q1"
    "sorted_wrt (\<lambda>a b. prio q b \<le> prio q a) as" "inv q'" "elems q' = {#}" using q1(4) by auto
  have "\<forall>b \<in> set as. prio q b \<le> prio q a"
  proof
    fix b
    assume "b \<in> set as"
    then have "b \<in># elems q" using r(2) q1(3) by (metis insertI2 set_mset_add_mset_insert set_mset_mset)
    then show "prio q b \<le> prio q a" using a(3) by blast
  qed
  then show ?case using a q1 r by simp
qed simp

end

interpretation pq: priority_queue "\<lambda>h. heap_wf h \<and> heap_order h" "\<lambda>h. mset (heap_nodes h)" hp_prio heap_max heap_remove
proof
  fix h
  assume h: "heap_wf h \<and> heap_order h" "mset (heap_nodes h) \<noteq> {#}"
  then have "0 < length (heap_nodes h)" by (simp del: length_heap_nodes)
  then have "0 < hp_n h" by simp
  then obtain a where "heap_max h = Some a" "a \<in> set (heap_nodes h)" "\<forall>b \<in> set (heap_nodes h). hp_prio h b \<le> hp_prio h a"
    using heap_max [of h] h by blast
  then show "\<exists>a. heap_max h = Some a \<and> a \<in># mset (heap_nodes h) \<and> (\<forall>b \<in># mset (heap_nodes h). hp_prio h b \<le> hp_prio h a)"
    by simp
next
  fix h a
  assume "heap_wf h \<and> heap_order h" "a \<in># mset (heap_nodes h)"
  then show "\<exists>h'. heap_remove h a = Some h' \<and> (heap_wf h' \<and> heap_order h')
      \<and> mset (heap_nodes h) = add_mset a (mset (heap_nodes h')) \<and> hp_prio h' = hp_prio h"
    using heap_remove [of h a] by auto
qed

section \<open>Sequences of operations\<close>

text \<open>The operations of a client of the heap; \<open>junk\<close> is the fresh memory that a growing array gets.\<close>

datatype heap_op = Insert "addr list" addr u64 | Change addr u64 | Remove addr

fun heap_step :: "heap_op \<Rightarrow> heap \<Rightarrow> heap option" where
  "heap_step (Insert junk a p) h = heap_insert junk h a p"
| "heap_step (Change a p) h = heap_change h a p"
| "heap_step (Remove a) h = heap_remove h a"

fun heap_op_ok :: "heap \<Rightarrow> heap_op \<Rightarrow> bool" where
  "heap_op_ok h (Insert junk a p) \<longleftrightarrow> a \<notin> set (heap_nodes h) \<and> room_for junk h"
| "heap_op_ok h (Change a p) \<longleftrightarrow> a \<in> set (heap_nodes h)"
| "heap_op_ok h (Remove a) \<longleftrightarrow> a \<in> set (heap_nodes h)"

text \<open>What they mean for a map from nodes to priorities.\<close>

fun heap_spec :: "heap_op \<Rightarrow> (addr \<Rightarrow> u64 option) \<Rightarrow> addr \<Rightarrow> u64 option" where
  "heap_spec (Insert junk a p) f = f(a \<mapsto> p)"
| "heap_spec (Change a p) f = f(a \<mapsto> p)"
| "heap_spec (Remove a) f = f(a := None)"

definition heap_prios :: "heap \<Rightarrow> addr \<Rightarrow> u64 option" where
  "heap_prios h a = (if a \<in> set (heap_nodes h) then Some (hp_prio h a) else None)"

interpretation hp: refined_machine "\<lambda>h. heap_wf h \<and> heap_order h" heap_op_ok heap_step heap_prios heap_spec
proof
  fix h e
  assume h: "heap_wf h \<and> heap_order h" and e: "heap_op_ok h e"
  show "\<exists>h'. heap_step e h = Some h' \<and> (heap_wf h' \<and> heap_order h') \<and> heap_prios h' = heap_spec e (heap_prios h)"
  proof (cases e)
    case (Insert junk a p)
    then obtain h' where h': "heap_insert junk h a p = Some h'" "heap_wf h'" "heap_order h'"
      "mset (heap_nodes h') = add_mset a (mset (heap_nodes h))" "hp_prio h' = (hp_prio h)(a := p)"
      using heap_insert [of h a junk p] h e by auto
    have "set (heap_nodes h') = insert a (set (heap_nodes h))" using arg_cong [OF h'(4), of set_mset] by simp
    then have "heap_prios h' = (heap_prios h)(a \<mapsto> p)" using h'(5) by (auto simp: heap_prios_def fun_eq_iff)
    then show ?thesis using h' Insert by simp
  next
    case (Change a p)
    then obtain h' where h': "heap_change h a p = Some h'" "heap_wf h'" "heap_order h'"
      "mset (heap_nodes h') = mset (heap_nodes h)" "hp_prio h' = (hp_prio h)(a := p)"
      using heap_change [of h a p] h e by auto
    have "set (heap_nodes h') = set (heap_nodes h)" using arg_cong [OF h'(4), of set_mset] by simp
    then have "heap_prios h' = (heap_prios h)(a \<mapsto> p)" using h'(5) Change e by (auto simp: heap_prios_def fun_eq_iff)
    then show ?thesis using h' Change by simp
  next
    case (Remove a)
    then obtain h' where h': "heap_remove h a = Some h'" "heap_wf h'" "heap_order h'"
      "mset (heap_nodes h) = add_mset a (mset (heap_nodes h'))" "hp_prio h' = hp_prio h"
      using heap_remove [of h a] h e by auto
    then have e: "mset (heap_nodes h) = mset (a # heap_nodes h')" by simp
    have "distinct (heap_nodes h)" using h heap_nodes_distinct by blast
    then have "distinct (a # heap_nodes h')" using mset_eq_imp_distinct_iff [OF e] by blast
    then have "heap_prios h' = (heap_prios h)(a := None)"
      using h'(5) mset_eq_setD [OF e] by (auto simp: heap_prios_def fun_eq_iff)
    then show ?thesis using h' Remove by simp
  qed
qed

lemma heap_init_ok: "heap_wf (heap_init h)" "heap_order (heap_init h)" "heap_prios (heap_init h) = Map.empty"
  by (auto simp: heap_init_def heap_wf_def ordered_def heap_prios_def heap_nodes_def)

text \<open>
  C18.  Insertions, changes of priority and removals in any order keep the heap well formed, act on
  the map from nodes to priorities as on an abstract map, and the maximum is a node of greatest priority.
\<close>

theorem heap_run_refines:
  assumes "oks heap_op_ok heap_step es (heap_init h0)"
  shows "\<exists>h. run_steps heap_step es (heap_init h0) = Some h \<and> heap_wf h \<and> heap_order h
    \<and> heap_prios h = fold heap_spec es Map.empty
    \<and> (heap_prios h \<noteq> Map.empty \<longrightarrow> (\<exists>a p. heap_max h = Some a \<and> heap_prios h a = Some p
         \<and> (\<forall>b q. heap_prios h b = Some q \<longrightarrow> q \<le> p)))"
proof -
  obtain h where h: "run_steps heap_step es (heap_init h0) = Some h" "heap_wf h" "heap_order h"
    "heap_prios h = fold heap_spec es Map.empty"
    using hp.run_refines [of "heap_init h0" es] assms heap_init_ok [of h0] by auto
  have "\<exists>a p. heap_max h = Some a \<and> heap_prios h a = Some p \<and> (\<forall>b q. heap_prios h b = Some q \<longrightarrow> q \<le> p)"
    if "heap_prios h \<noteq> Map.empty"
  proof -
    from that obtain b where "b \<in> set (heap_nodes h)" unfolding fun_eq_iff heap_prios_def by (auto split: if_splits)
    then have "0 < hp_n h" by (auto simp: heap_nodes_def)
    then obtain a where "heap_max h = Some a" "a \<in> set (heap_nodes h)" "\<forall>b \<in> set (heap_nodes h). hp_prio h b \<le> hp_prio h a"
      by (rule heap_max [OF h(2,3)])
    then show ?thesis by (intro exI [of _ a] exI [of _ "hp_prio h a"]) (auto simp: heap_prios_def split: if_splits)
  qed
  then show ?thesis using h by blast
qed

definition a_heap :: heap where
  "a_heap = \<lparr>hp_array = [], hp_n = 0, hp_allocated = 0, hp_idx = (\<lambda>_. 0), hp_prio = (\<lambda>_. 0)\<rparr>"

theorem heap_run_refines_witness:
  "\<exists>h a. run_steps heap_step [Insert [0, 0, 0, 0, 0, 0] 10 5, Insert [0, 0, 0, 0, 0, 0] 20 9, Insert [0, 0, 0, 0, 0, 0] 30 3, Change 10 12, Remove 20]
      (heap_init a_heap) = Some h \<and> heap_max h = Some a \<and> heap_prios h = [10 \<mapsto> 12, 30 \<mapsto> 3]"
proof -
  let ?es = "[Insert [0, 0, 0, 0, 0, 0] 10 5, Insert [0, 0, 0, 0, 0, 0] 20 9, Insert [0, 0, 0, 0, 0, 0] 30 3, Change 10 12, Remove 20]"
  have "oks heap_op_ok heap_step ?es (heap_init a_heap)" by code_simp
  from heap_run_refines [OF this] obtain h where h: "run_steps heap_step ?es (heap_init a_heap) = Some h"
    "heap_prios h = fold heap_spec ?es Map.empty" "heap_prios h \<noteq> Map.empty \<longrightarrow> (\<exists>a. heap_max h = Some a)" by blast
  have "heap_prios h = [10 \<mapsto> 12, 30 \<mapsto> 3]" using h(2) by (simp add: fun_eq_iff)
  moreover from this have "heap_prios h 30 \<noteq> None" by simp
  then have "heap_prios h \<noteq> Map.empty" by auto
  ultimately show ?thesis using h(1,3) by blast
qed

text \<open>
  C19.  Taking the maximum out of the heap until it is empty yields the nodes in descending order of priority.
\<close>

theorem heap_drain_sorts:
  assumes "heap_wf h" "heap_order h"
  shows "\<exists>as h'. drain heap_max heap_remove (heap_count h) h = Some (as, h') \<and> mset as = mset (heap_nodes h)
    \<and> sorted_wrt (\<lambda>a b. hp_prio h b \<le> hp_prio h a) as \<and> heap_is_empty h'"
proof -
  have "size (mset (heap_nodes h)) = heap_count h" by (simp add: heap_count_def)
  moreover have "heap_is_empty h'" if "mset (heap_nodes h') = {#}" for h'
    using arg_cong [OF that, of size] by (simp add: heap_is_empty_def del: mset_zero_iff)
  ultimately show ?thesis using pq.drain_sorts [OF conjI [OF assms]] by blast
qed

definition three_heap :: heap where
  "three_heap = \<lparr>hp_array = [0, 10, 20, 30], hp_n = 3, hp_allocated = 3, hp_idx = (\<lambda>a. a div 10), hp_prio = (\<lambda>a. if a = 10 then 9 else 4)\<rparr>"

theorem heap_drain_sorts_witness:
  "\<exists>h'. drain heap_max heap_remove 3 three_heap = Some ([10, 30, 20], h') \<and> heap_is_empty h'"
proof -
  have i: "i = 1 \<or> i = 2 \<or> i = 3" if "Suc 0 \<le> i" "i \<le> 3" for i :: nat using that by auto
  have "heap_wf three_heap" "heap_order three_heap" by (auto simp: heap_wf_def three_heap_def ordered_def dest!: i)
  from heap_drain_sorts [OF this] obtain as h' where d: "drain heap_max heap_remove 3 three_heap = Some (as, h')" "heap_is_empty h'"
    by (auto simp: three_heap_def heap_count_def)
  have "map_option fst (drain heap_max heap_remove 3 three_heap) = Some [10, 30, 20]" by code_simp
  then show ?thesis using d by simp
qed

end
