(* ===== verification/C_Int.thy ===== *)
theory C_Int
  imports Sdpa_Prelude
begin

text \<open>
  \<^verbatim>\<open>int\<close> and \<^verbatim>\<open>long long int\<close> as integers.  An operation whose result is outside the type is
  \<open>None\<close>: signed overflow is undefined.  Further the saturating operations of \<^verbatim>\<open>lib/sat-math.h\<close>.
\<close>

section \<open>Signed arithmetic\<close>

abbreviation INT_MAX :: int where "INT_MAX \<equiv> 2147483647"

abbreviation LLONG_MAX :: int where "LLONG_MAX \<equiv> 9223372036854775807"

abbreviation LLONG_MIN :: int where "LLONG_MIN \<equiv> - 9223372036854775808"

abbreviation UINT_MAX :: u32 where "UINT_MAX \<equiv> 0xffffffff"

definition c_int :: "int \<Rightarrow> int option" where
  "c_int x = (if - INT_MAX - 1 \<le> x \<and> x \<le> INT_MAX then Some x else None)"

definition c_ll :: "int \<Rightarrow> int option" where
  "c_ll x = (if LLONG_MIN \<le> x \<and> x \<le> LLONG_MAX then Some x else None)"

text \<open>Division truncates toward zero.\<close>

definition c_half :: "int \<Rightarrow> int" where
  "c_half x = (if x < 0 then - (- x div 2) else x div 2)"

lemma c_ll_some: "LLONG_MIN \<le> x \<Longrightarrow> x \<le> LLONG_MAX \<Longrightarrow> c_ll x = Some x"
  by (simp add: c_ll_def)

lemma uint_u32: "0 \<le> uint (x :: u32)" "uint (x :: u32) < 4294967296"
  using uint_lt2p [of x] by simp_all

section \<open>Saturating arithmetic\<close>

definition sat_add :: "u32 \<Rightarrow> u32 \<Rightarrow> u32" where
  "sat_add x y = (if x + y \<ge> x then x + y else UINT_MAX)"

definition sat_sub :: "u32 \<Rightarrow> u32 \<Rightarrow> u32" where
  "sat_sub x y = (if x \<ge> y then x - y else 0)"

definition sat_mul :: "u32 \<Rightarrow> u32 \<Rightarrow> u32" where
  "sat_mul x y = (if y = 0 then 0 else if x \<le> UINT_MAX div y then x * y else UINT_MAX)"

lemma sat_add_unat: "unat (sat_add x y) = min 4294967295 (unat x + unat y)"
proof -
  have b: "unat x < 4294967296" "unat y < 4294967296" using unsigned_less [of x] unsigned_less [of y] by simp_all
  have s: "unat (x + y) = (if unat x + unat y < 4294967296 then unat x + unat y else unat x + unat y - 4294967296)"
    using b by (simp add: unat_word_ariths mod_if)
  then have "x + y \<ge> x \<longleftrightarrow> unat x + unat y < 4294967296" using b by (auto simp: word_le_nat_alt)
  then show ?thesis using s by (simp add: sat_add_def)
qed

lemma sat_sub_unat: "unat (sat_sub x y) = unat x - unat y"
  by (simp add: sat_sub_def word_le_nat_alt unat_sub_if')

lemma sat_mul_unat: "unat (sat_mul x y) = min 4294967295 (unat x * unat y)"
proof (cases "y = 0")
  case False
  then have y: "0 < unat y" by (simp add: unat_gt_0)
  have d: "x \<le> UINT_MAX div y \<longleftrightarrow> unat x * unat y \<le> 4294967295"
    using y by (simp add: word_le_nat_alt unat_div less_eq_div_iff_mult_less_eq)
  show ?thesis
  proof (cases "x \<le> UINT_MAX div y")
    case True
    then have "unat (x * y) = unat x * unat y" using d by (simp add: unat_word_ariths)
    then show ?thesis using False True d by (simp add: sat_mul_def)
  next
    case not: False
    then show ?thesis using False d by (simp add: sat_mul_def)
  qed
qed (simp add: sat_mul_def)

end
