(* ===== verification/Ovs_Reconnect.thy ===== *)
theory Ovs_Reconnect
  imports Machine C_Int
begin

text \<open>
  The connection state machine of \<^verbatim>\<open>lib/reconnect.c\<close>: the client reports events and
  calls \<^verbatim>\<open>reconnect_run\<close>, which tells it to connect, to probe or to disconnect.

  \<^verbatim>\<open>int\<close> and \<^verbatim>\<open>long long int\<close> are integers; an arithmetic operation on them whose
  result is outside the type is \<open>None\<close>, since signed overflow is undefined.
  \<^verbatim>\<open>unsigned int\<close> is a 32-bit word.  Log messages are not part of the state;
  \<open>disconnect_report\<close> is the one message whose text the code chooses.
\<close>

section \<open>The state\<close>

datatype state = S_VOID | S_BACKOFF | S_CONNECTING | S_ACTIVE | S_IDLE | S_RECONNECT | S_LISTENING

datatype vlog_level = VLL_ERR | VLL_WARN | VLL_INFO | VLL_DBG

datatype reconnect_action = RECONNECT_CONNECT | RECONNECT_DISCONNECT | RECONNECT_PROBE

record reconnect =
  rc_name :: string
  min_backoff :: int
  max_backoff :: int
  probe_interval :: int
  rc_passive :: bool
  rc_info :: vlog_level
  rc_state :: state
  state_entered :: int
  backoff :: int
  last_activity :: int
  last_connected :: int
  last_disconnected :: int
  max_tries :: u32
  creation_time :: int
  n_attempted_connections :: u32
  n_successful_connections :: u32
  total_connected_duration :: u32
  seqno :: u32

definition is_connected_state :: "state \<Rightarrow> bool" where
  "is_connected_state st \<longleftrightarrow> st \<in> {S_ACTIVE, S_IDLE}"

fun reconnect_state_name :: "state \<Rightarrow> string" where
  "reconnect_state_name S_VOID = ''VOID''"
| "reconnect_state_name S_BACKOFF = ''BACKOFF''"
| "reconnect_state_name S_CONNECTING = ''CONNECTING''"
| "reconnect_state_name S_ACTIVE = ''ACTIVE''"
| "reconnect_state_name S_IDLE = ''IDLE''"
| "reconnect_state_name S_RECONNECT = ''RECONNECT''"
| "reconnect_state_name S_LISTENING = ''LISTENING''"

abbreviation RECONNECT_DEFAULT_MIN_BACKOFF :: int where "RECONNECT_DEFAULT_MIN_BACKOFF \<equiv> 1000"

abbreviation RECONNECT_DEFAULT_MAX_BACKOFF :: int where "RECONNECT_DEFAULT_MAX_BACKOFF \<equiv> 8000"

abbreviation RECONNECT_DEFAULT_PROBE_INTERVAL :: int where "RECONNECT_DEFAULT_PROBE_INTERVAL \<equiv> 5000"

definition reconnect_create :: "int \<Rightarrow> reconnect" where
  "reconnect_create now = \<lparr>rc_name = ''void'', min_backoff = RECONNECT_DEFAULT_MIN_BACKOFF,
     max_backoff = RECONNECT_DEFAULT_MAX_BACKOFF, probe_interval = RECONNECT_DEFAULT_PROBE_INTERVAL,
     rc_passive = False, rc_info = VLL_INFO, rc_state = S_VOID, state_entered = now, backoff = 0,
     last_activity = now, last_connected = LLONG_MAX, last_disconnected = LLONG_MAX,
     max_tries = UINT_MAX, creation_time = now, n_attempted_connections = 0,
     n_successful_connections = 0, total_connected_duration = 0, seqno = 0\<rparr>"

section \<open>Configuration\<close>

definition reconnect_set_quiet :: "reconnect \<Rightarrow> bool \<Rightarrow> reconnect" where
  "reconnect_set_quiet fsm quiet = fsm\<lparr>rc_info := (if quiet then VLL_DBG else VLL_INFO)\<rparr>"

definition reconnect_get_name :: "reconnect \<Rightarrow> string" where
  "reconnect_get_name fsm = rc_name fsm"

text \<open>A null \<^verbatim>\<open>name\<close> is \<open>None\<close>.\<close>

definition reconnect_set_name :: "reconnect \<Rightarrow> string option \<Rightarrow> reconnect" where
  "reconnect_set_name fsm name = fsm\<lparr>rc_name := (case name of Some s \<Rightarrow> s | None \<Rightarrow> ''void'')\<rparr>"

definition reconnect_get_min_backoff :: "reconnect \<Rightarrow> int" where
  "reconnect_get_min_backoff fsm = min_backoff fsm"

definition reconnect_get_max_backoff :: "reconnect \<Rightarrow> int" where
  "reconnect_get_max_backoff fsm = max_backoff fsm"

definition reconnect_get_probe_interval :: "reconnect \<Rightarrow> int" where
  "reconnect_get_probe_interval fsm = probe_interval fsm"

definition reconnect_set_max_tries :: "reconnect \<Rightarrow> u32 \<Rightarrow> reconnect" where
  "reconnect_set_max_tries fsm tries = fsm\<lparr>max_tries := tries\<rparr>"

definition reconnect_get_max_tries :: "reconnect \<Rightarrow> u32" where
  "reconnect_get_max_tries fsm = max_tries fsm"

definition reconnect_set_backoff :: "reconnect \<Rightarrow> int \<Rightarrow> int \<Rightarrow> reconnect" where
  "reconnect_set_backoff fsm min_b max_b =
     (let fsm = fsm\<lparr>min_backoff := max min_b 1000\<rparr>;
          fsm = fsm\<lparr>max_backoff := (if max_b \<noteq> 0 then max max_b 1000 else RECONNECT_DEFAULT_MAX_BACKOFF)\<rparr>;
          fsm = (if min_backoff fsm > max_backoff fsm then fsm\<lparr>max_backoff := min_backoff fsm\<rparr> else fsm)
      in if rc_state fsm = S_BACKOFF \<and> backoff fsm > max_b then fsm\<lparr>backoff := max_b\<rparr> else fsm)"

definition reconnect_set_probe_interval :: "reconnect \<Rightarrow> int \<Rightarrow> reconnect" where
  "reconnect_set_probe_interval fsm interval =
     fsm\<lparr>probe_interval := (if interval \<noteq> 0 then max 1000 interval else 0)\<rparr>"

definition reconnect_is_passive :: "reconnect \<Rightarrow> bool" where
  "reconnect_is_passive fsm = rc_passive fsm"

section \<open>Transitions\<close>

definition reconnect_transition :: "reconnect \<Rightarrow> int \<Rightarrow> state \<Rightarrow> reconnect option" where
  "reconnect_transition fsm now st = do {
     let fsm = (if rc_state fsm = S_CONNECTING then
                  let fsm = fsm\<lparr>n_attempted_connections := n_attempted_connections fsm + 1\<rparr>
                  in if st = S_ACTIVE then fsm\<lparr>n_successful_connections := n_successful_connections fsm + 1\<rparr> else fsm
                else fsm);
     fsm \<leftarrow> (if is_connected_state (rc_state fsm) \<noteq> is_connected_state st then do {
               fsm \<leftarrow> (if is_connected_state (rc_state fsm) then do {
                         d \<leftarrow> c_ll (now - last_connected fsm);
                         t \<leftarrow> c_ll (uint (total_connected_duration fsm) + d);
                         Some (fsm\<lparr>total_connected_duration := word_of_int t\<rparr>)
                       } else Some fsm);
               Some (fsm\<lparr>seqno := seqno fsm + 1\<rparr>)
             } else Some fsm);
     Some (fsm\<lparr>rc_state := st, state_entered := now\<rparr>)
   }"

definition reconnect_may_retry :: "reconnect \<Rightarrow> bool \<times> reconnect" where
  "reconnect_may_retry fsm =
     (let may_retry = max_tries fsm > 0
      in (may_retry, if may_retry \<and> max_tries fsm \<noteq> UINT_MAX then fsm\<lparr>max_tries := max_tries fsm - 1\<rparr> else fsm))"

definition reconnect_set_passive :: "reconnect \<Rightarrow> bool \<Rightarrow> int \<Rightarrow> reconnect option" where
  "reconnect_set_passive fsm pas now =
     (if rc_passive fsm \<noteq> pas then do {
        let fsm = fsm\<lparr>rc_passive := pas\<rparr>;
        let (go, fsm) = (if pas then (rc_state fsm \<in> {S_CONNECTING, S_RECONNECT}, fsm)
                         else if rc_state fsm = S_LISTENING then reconnect_may_retry fsm else (False, fsm));
        if go then do {
          fsm \<leftarrow> reconnect_transition fsm now S_BACKOFF;
          Some (fsm\<lparr>backoff := 0\<rparr>)
        } else Some fsm
      } else Some fsm)"

definition reconnect_is_enabled :: "reconnect \<Rightarrow> bool" where
  "reconnect_is_enabled fsm \<longleftrightarrow> rc_state fsm \<noteq> S_VOID"

definition reconnect_enable :: "reconnect \<Rightarrow> int \<Rightarrow> reconnect option" where
  "reconnect_enable fsm now =
     (let (go, fsm) = (if rc_state fsm = S_VOID then reconnect_may_retry fsm else (False, fsm))
      in if go then do {
           fsm \<leftarrow> reconnect_transition fsm now S_BACKOFF;
           Some (fsm\<lparr>backoff := 0\<rparr>)
         } else Some fsm)"

definition reconnect_disable :: "reconnect \<Rightarrow> int \<Rightarrow> reconnect option" where
  "reconnect_disable fsm now = (if rc_state fsm \<noteq> S_VOID then reconnect_transition fsm now S_VOID else Some fsm)"

definition reconnect_force_reconnect :: "reconnect \<Rightarrow> int \<Rightarrow> reconnect option" where
  "reconnect_force_reconnect fsm now =
     (if rc_state fsm \<in> {S_CONNECTING, S_ACTIVE, S_IDLE} then reconnect_transition fsm now S_RECONNECT else Some fsm)"

text \<open>Lines 331 to 357: the level and the format of the message.\<close>

definition disconnect_report :: "reconnect \<Rightarrow> int \<Rightarrow> vlog_level \<times> string" where
  "disconnect_report fsm error =
     (if rc_state fsm \<in> {S_ACTIVE, S_IDLE} then
        if error > 0 then (VLL_WARN, ''%s: connection dropped (%s)'')
        else if error = -1 then (rc_info fsm, ''%s: connection closed by peer'')
        else (rc_info fsm, ''%s: connection dropped'')
      else if rc_state fsm = S_LISTENING then
        if error > 0 then (VLL_WARN, ''%s: error listening for connections (%s)'')
        else (rc_info fsm, ''%s: error listening for connections'')
      else if error > 0 then (VLL_WARN, ''%s: %s attempt failed (%s)'')
      else (rc_info fsm, ''%s: %s attempt timed out''))"

text \<open>Lines 362 to 375: the next backoff.\<close>

definition next_backoff :: "reconnect \<Rightarrow> int option" where
  "next_backoff fsm = do {
     quick \<leftarrow> (if rc_state fsm \<in> {S_ACTIVE, S_IDLE} then do {
                 d \<leftarrow> c_ll (last_activity fsm - last_connected fsm);
                 Some (d \<ge> backoff fsm \<or> rc_passive fsm)
               } else Some False);
     if quick then Some (if rc_passive fsm then 0 else min_backoff fsm)
     else if backoff fsm < min_backoff fsm then Some (min_backoff fsm)
     else if backoff fsm \<ge> c_half (max_backoff fsm) then Some (max_backoff fsm)
     else c_int (backoff fsm * 2)
   }"

definition reconnect_disconnected :: "reconnect \<Rightarrow> int \<Rightarrow> int \<Rightarrow> reconnect option" where
  "reconnect_disconnected fsm now error =
     (if rc_state fsm \<notin> {S_BACKOFF, S_VOID} then do {
        let fsm = (if rc_state fsm \<in> {S_ACTIVE, S_IDLE} then fsm\<lparr>last_disconnected := now\<rparr> else fsm);
        b \<leftarrow> next_backoff fsm;
        let fsm = fsm\<lparr>backoff := b\<rparr>;
        let (retry, fsm) = reconnect_may_retry fsm;
        reconnect_transition fsm now (if retry then S_BACKOFF else S_VOID)
      } else Some fsm)"

definition reconnect_connecting :: "reconnect \<Rightarrow> int \<Rightarrow> reconnect option" where
  "reconnect_connecting fsm now =
     (if rc_state fsm \<noteq> S_CONNECTING then reconnect_transition fsm now S_CONNECTING else Some fsm)"

definition reconnect_listening :: "reconnect \<Rightarrow> int \<Rightarrow> reconnect option" where
  "reconnect_listening fsm now =
     (if rc_state fsm \<noteq> S_LISTENING then reconnect_transition fsm now S_LISTENING else Some fsm)"

definition reconnect_listen_error :: "reconnect \<Rightarrow> int \<Rightarrow> int \<Rightarrow> reconnect option" where
  "reconnect_listen_error fsm now error =
     (if rc_state fsm = S_LISTENING then reconnect_disconnected fsm now error else Some fsm)"

definition reconnect_connected :: "reconnect \<Rightarrow> int \<Rightarrow> reconnect option" where
  "reconnect_connected fsm now =
     (if \<not> is_connected_state (rc_state fsm) then do {
        fsm \<leftarrow> reconnect_connecting fsm now;
        fsm \<leftarrow> reconnect_transition fsm now S_ACTIVE;
        Some (fsm\<lparr>last_connected := now\<rparr>)
      } else Some fsm)"

definition reconnect_connect_failed :: "reconnect \<Rightarrow> int \<Rightarrow> int \<Rightarrow> reconnect option" where
  "reconnect_connect_failed fsm now error = do {
     fsm \<leftarrow> reconnect_connecting fsm now;
     reconnect_disconnected fsm now error
   }"

definition reconnect_activity :: "reconnect \<Rightarrow> int \<Rightarrow> reconnect option" where
  "reconnect_activity fsm now = do {
     fsm \<leftarrow> (if rc_state fsm \<noteq> S_ACTIVE then reconnect_transition fsm now S_ACTIVE else Some fsm);
     Some (fsm\<lparr>last_activity := now\<rparr>)
   }"

section \<open>Running the state machine\<close>

definition reconnect_deadline :: "reconnect \<Rightarrow> int option" where
  "reconnect_deadline fsm =
     (if state_entered fsm = LLONG_MIN then None
      else case rc_state fsm of
        S_VOID \<Rightarrow> Some LLONG_MAX
      | S_LISTENING \<Rightarrow> Some LLONG_MAX
      | S_BACKOFF \<Rightarrow> c_ll (state_entered fsm + backoff fsm)
      | S_CONNECTING \<Rightarrow> c_ll (state_entered fsm + max 1000 (backoff fsm))
      | S_ACTIVE \<Rightarrow>
          if probe_interval fsm \<noteq> 0 then
            let base = max (last_activity fsm) (state_entered fsm) in c_ll (base + probe_interval fsm)
          else Some LLONG_MAX
      | S_IDLE \<Rightarrow>
          if probe_interval fsm \<noteq> 0 then c_ll (state_entered fsm + probe_interval fsm) else Some LLONG_MAX
      | S_RECONNECT \<Rightarrow> Some (state_entered fsm))"

text \<open>The return value 0 is \<open>None\<close>.\<close>

definition reconnect_run :: "reconnect \<Rightarrow> int \<Rightarrow> (reconnect_action option \<times> reconnect) option" where
  "reconnect_run fsm now = do {
     deadline \<leftarrow> reconnect_deadline fsm;
     if now \<ge> deadline then
       case rc_state fsm of
         S_VOID \<Rightarrow> Some (None, fsm)
       | S_BACKOFF \<Rightarrow> Some (Some RECONNECT_CONNECT, fsm)
       | S_CONNECTING \<Rightarrow> Some (Some RECONNECT_DISCONNECT, fsm)
       | S_ACTIVE \<Rightarrow> do {
           fsm \<leftarrow> reconnect_transition fsm now S_IDLE;
           Some (Some RECONNECT_PROBE, fsm)
         }
       | S_IDLE \<Rightarrow> Some (Some RECONNECT_DISCONNECT, fsm)
       | S_RECONNECT \<Rightarrow> Some (Some RECONNECT_DISCONNECT, fsm)
       | S_LISTENING \<Rightarrow> Some (None, fsm)
     else Some (None, fsm)
   }"

definition reconnect_timeout :: "reconnect \<Rightarrow> int \<Rightarrow> int option" where
  "reconnect_timeout fsm now = do {
     deadline \<leftarrow> reconnect_deadline fsm;
     if deadline \<noteq> LLONG_MAX then do {
       remaining \<leftarrow> c_ll (deadline - now);
       Some (max 0 (min INT_MAX remaining))
     } else Some (- 1)
   }"

text \<open>The argument of the call of \<^verbatim>\<open>poll_timer_wait\<close>, if there is one.\<close>

definition reconnect_wait :: "reconnect \<Rightarrow> int \<Rightarrow> int option option" where
  "reconnect_wait fsm now = do {
     timeout \<leftarrow> reconnect_timeout fsm now;
     Some (if timeout \<ge> 0 then Some timeout else None)
   }"

section \<open>Statistics\<close>

definition reconnect_is_connected :: "reconnect \<Rightarrow> bool" where
  "reconnect_is_connected fsm = is_connected_state (rc_state fsm)"

definition reconnect_get_last_connect_elapsed :: "reconnect \<Rightarrow> int \<Rightarrow> u32 option" where
  "reconnect_get_last_connect_elapsed fsm now =
     (if last_connected fsm = LLONG_MAX then Some UINT_MAX else map_option word_of_int (c_ll (now - last_connected fsm)))"

definition reconnect_get_last_disconnect_elapsed :: "reconnect \<Rightarrow> int \<Rightarrow> u32 option" where
  "reconnect_get_last_disconnect_elapsed fsm now =
     (if last_disconnected fsm = LLONG_MAX then Some UINT_MAX else map_option word_of_int (c_ll (now - last_disconnected fsm)))"

record reconnect_stats =
  rs_creation_time :: int
  rs_last_activity :: int
  rs_last_connected :: int
  rs_last_disconnected :: int
  rs_backoff :: int
  rs_seqno :: u32
  rs_is_connected :: bool
  rs_msec_since_connect :: u32
  rs_msec_since_disconnect :: u32
  rs_total_connected_duration :: u32
  rs_n_attempted_connections :: u32
  rs_n_successful_connections :: u32
  rs_state :: string
  rs_state_elapsed :: u32

definition reconnect_get_stats :: "reconnect \<Rightarrow> int \<Rightarrow> reconnect_stats option" where
  "reconnect_get_stats fsm now = do {
     since_connect \<leftarrow> reconnect_get_last_connect_elapsed fsm now;
     since_disconnect \<leftarrow> reconnect_get_last_disconnect_elapsed fsm now;
     elapsed \<leftarrow> c_ll (now - state_entered fsm);
     Some \<lparr>rs_creation_time = creation_time fsm, rs_last_activity = last_activity fsm,
       rs_last_connected = last_connected fsm, rs_last_disconnected = last_disconnected fsm,
       rs_backoff = backoff fsm, rs_seqno = seqno fsm, rs_is_connected = reconnect_is_connected fsm,
       rs_msec_since_connect = since_connect, rs_msec_since_disconnect = since_disconnect,
       rs_total_connected_duration = total_connected_duration fsm
         + (if is_connected_state (rc_state fsm) then since_connect else 0),
       rs_n_attempted_connections = n_attempted_connections fsm,
       rs_n_successful_connections = n_successful_connections fsm,
       rs_state = reconnect_state_name (rc_state fsm), rs_state_elapsed = word_of_int elapsed\<rparr>
   }"

section \<open>Events\<close>

datatype event =
    Enable | Disable | Force_reconnect | Disconnected int | Connecting | Listening | Listen_error int
  | Connected | Connect_failed int | Activity | Run | Set_passive bool | Set_backoff int int
  | Set_probe_interval int | Set_max_tries u32

fun rc_event :: "event \<Rightarrow> int \<Rightarrow> reconnect \<Rightarrow> reconnect option" where
  "rc_event Enable now fsm = reconnect_enable fsm now"
| "rc_event Disable now fsm = reconnect_disable fsm now"
| "rc_event Force_reconnect now fsm = reconnect_force_reconnect fsm now"
| "rc_event (Disconnected error) now fsm = reconnect_disconnected fsm now error"
| "rc_event Connecting now fsm = reconnect_connecting fsm now"
| "rc_event Listening now fsm = reconnect_listening fsm now"
| "rc_event (Listen_error error) now fsm = reconnect_listen_error fsm now error"
| "rc_event Connected now fsm = reconnect_connected fsm now"
| "rc_event (Connect_failed error) now fsm = reconnect_connect_failed fsm now error"
| "rc_event Activity now fsm = reconnect_activity fsm now"
| "rc_event Run now fsm = map_option snd (reconnect_run fsm now)"
| "rc_event (Set_passive b) now fsm = reconnect_set_passive fsm b now"
| "rc_event (Set_backoff a b) now fsm = Some (reconnect_set_backoff fsm a b)"
| "rc_event (Set_probe_interval i) now fsm = Some (reconnect_set_probe_interval fsm i)"
| "rc_event (Set_max_tries m) now fsm = Some (reconnect_set_max_tries fsm m)"

text \<open>The state of a run is the time of the last event and the state machine.\<close>

definition rc_step :: "event \<times> int \<Rightarrow> int \<times> reconnect \<Rightarrow> (int \<times> reconnect) option" where
  "rc_step e s = map_option (Pair (snd e)) (rc_event (fst e) (snd e) (snd s))"

text \<open>Times are milliseconds from 0 to \<open>2 ^ 62\<close>.  Arguments are values of \<^verbatim>\<open>int\<close>.\<close>

abbreviation T_MAX :: int where "T_MAX \<equiv> 4611686018427387904"

fun args_ok :: "event \<Rightarrow> bool" where
  "args_ok (Set_backoff a b) \<longleftrightarrow> a \<le> INT_MAX \<and> 0 \<le> b \<and> b \<le> INT_MAX"
| "args_ok (Set_probe_interval i) \<longleftrightarrow> i \<le> INT_MAX"
| "args_ok _ \<longleftrightarrow> True"

definition rc_ok :: "int \<times> reconnect \<Rightarrow> event \<times> int \<Rightarrow> bool" where
  "rc_ok s e \<longleftrightarrow> fst s \<le> snd e \<and> snd e \<le> T_MAX \<and> args_ok (fst e)"

section \<open>The invariant\<close>

definition past :: "int \<Rightarrow> int \<Rightarrow> bool" where
  "past t x \<longleftrightarrow> 0 \<le> x \<and> x \<le> t"

text \<open>
  The configured values are in range, every time is in the past or unset, and the sequence number is odd
  exactly while the connection is up.
\<close>

definition rc_wf :: "int \<Rightarrow> reconnect \<Rightarrow> bool" where
  "rc_wf t fsm \<longleftrightarrow> 0 \<le> t \<and> t \<le> T_MAX
     \<and> 1000 \<le> min_backoff fsm \<and> min_backoff fsm \<le> max_backoff fsm \<and> max_backoff fsm \<le> INT_MAX
     \<and> 0 \<le> backoff fsm \<and> backoff fsm \<le> INT_MAX
     \<and> (probe_interval fsm = 0 \<or> 1000 \<le> probe_interval fsm \<and> probe_interval fsm \<le> INT_MAX)
     \<and> past t (state_entered fsm) \<and> past t (last_activity fsm)
     \<and> (past t (last_connected fsm) \<or> last_connected fsm = LLONG_MAX)
     \<and> (past t (last_disconnected fsm) \<or> last_disconnected fsm = LLONG_MAX)
     \<and> (odd (seqno fsm) \<longleftrightarrow> reconnect_is_connected fsm)"

lemma reconnect_create_wf: "0 \<le> now \<Longrightarrow> now \<le> T_MAX \<Longrightarrow> rc_wf now (reconnect_create now)"
  by (simp add: rc_wf_def reconnect_create_def past_def reconnect_is_connected_def is_connected_state_def)

text \<open>What a transition does when no difference of times overflows.\<close>

definition moved :: "reconnect \<Rightarrow> int \<Rightarrow> state \<Rightarrow> reconnect" where
  "moved fsm now st =
     (let flip = is_connected_state (rc_state fsm) \<noteq> is_connected_state st in
      fsm\<lparr>n_attempted_connections := n_attempted_connections fsm + (if rc_state fsm = S_CONNECTING then 1 else 0),
          n_successful_connections := n_successful_connections fsm
            + (if rc_state fsm = S_CONNECTING \<and> st = S_ACTIVE then 1 else 0),
          total_connected_duration := total_connected_duration fsm
            + (if flip \<and> is_connected_state (rc_state fsm) then word_of_int (now - last_connected fsm) else 0),
          seqno := seqno fsm + (if flip then 1 else 0),
          rc_state := st, state_entered := now\<rparr>)"

lemma transition_moved:
  assumes "past T_MAX now" "past T_MAX (last_connected fsm) \<or> last_connected fsm = LLONG_MAX"
  shows "reconnect_transition fsm now st = Some (moved fsm now st)"
proof -
  have d: "LLONG_MIN \<le> now - last_connected fsm" "now - last_connected fsm \<le> T_MAX"
    using assms by (auto simp: past_def)
  have "c_ll (now - last_connected fsm) = Some (now - last_connected fsm)"
    "c_ll (uint (total_connected_duration fsm) + (now - last_connected fsm))
       = Some (uint (total_connected_duration fsm) + (now - last_connected fsm))"
    using d uint_u32 [of "total_connected_duration fsm"] by (intro c_ll_some; linarith)+
  then show ?thesis
    by (simp add: reconnect_transition_def moved_def Let_def)
qed

lemma rc_wf_later: "rc_wf t fsm \<Longrightarrow> t \<le> now \<Longrightarrow> now \<le> T_MAX \<Longrightarrow> rc_wf now fsm"
  by (auto simp: rc_wf_def past_def)

lemma moved_wf: "rc_wf now fsm \<Longrightarrow> rc_wf now (moved fsm now st)"
  by (auto simp: rc_wf_def moved_def Let_def past_def reconnect_is_connected_def)

lemma transition_wf:
  assumes "rc_wf now fsm"
  shows "reconnect_transition fsm now st = Some (moved fsm now st)"
  using assms by (intro transition_moved) (auto simp: rc_wf_def past_def)

lemma moved_simps [simp]:
  "rc_state (moved fsm now st) = st" "state_entered (moved fsm now st) = now" "backoff (moved fsm now st) = backoff fsm"
  "min_backoff (moved fsm now st) = min_backoff fsm" "max_backoff (moved fsm now st) = max_backoff fsm"
  "max_tries (moved fsm now st) = max_tries fsm" "rc_passive (moved fsm now st) = rc_passive fsm"
  "probe_interval (moved fsm now st) = probe_interval fsm" "last_activity (moved fsm now st) = last_activity fsm"
  "last_connected (moved fsm now st) = last_connected fsm" "last_disconnected (moved fsm now st) = last_disconnected fsm"
  by (simp_all add: moved_def Let_def)

text \<open>A change of these members keeps the invariant.\<close>

lemma rc_wf_update:
  "rc_wf now fsm \<Longrightarrow> 0 \<le> b \<Longrightarrow> b \<le> INT_MAX \<Longrightarrow> rc_wf now (fsm\<lparr>backoff := b\<rparr>)"
  "rc_wf now fsm \<Longrightarrow> rc_wf now (fsm\<lparr>max_tries := m\<rparr>)"
  "rc_wf now fsm \<Longrightarrow> rc_wf now (fsm\<lparr>rc_passive := p\<rparr>)"
  "rc_wf now fsm \<Longrightarrow> rc_wf now (fsm\<lparr>last_activity := now\<rparr>)"
  "rc_wf now fsm \<Longrightarrow> rc_wf now (fsm\<lparr>last_connected := now\<rparr>)"
  "rc_wf now fsm \<Longrightarrow> rc_wf now (fsm\<lparr>last_disconnected := now\<rparr>)"
  by (auto simp: rc_wf_def past_def reconnect_is_connected_def)

lemma may_retry_wf:
  assumes "rc_wf now fsm" "reconnect_may_retry fsm = (r, fsm')"
  shows "rc_wf now fsm'" "r \<longleftrightarrow> max_tries fsm > 0"
    "rc_state fsm' = rc_state fsm" "backoff fsm' = backoff fsm"
  using assms rc_wf_update(2) [OF assms(1)] by (auto simp: reconnect_may_retry_def Let_def split: if_splits)

lemma next_backoff_some:
  assumes "rc_wf now fsm"
  obtains b where "next_backoff fsm = Some b"
    "0 \<le> b" "b \<le> max_backoff fsm" "\<not> (rc_passive fsm \<and> reconnect_is_connected fsm) \<longrightarrow> min_backoff fsm \<le> b"
proof -
  have w: "1000 \<le> min_backoff fsm" "min_backoff fsm \<le> max_backoff fsm" "max_backoff fsm \<le> INT_MAX"
    "0 \<le> backoff fsm" "backoff fsm \<le> INT_MAX" "past now (last_activity fsm)"
    "past now (last_connected fsm) \<or> last_connected fsm = LLONG_MAX" "now \<le> T_MAX"
    using assms by (simp_all add: rc_wf_def)
  have half: "c_half (max_backoff fsm) = max_backoff fsm div 2" using w by (simp add: c_half_def)
  have "c_ll (last_activity fsm - last_connected fsm) = Some (last_activity fsm - last_connected fsm)"
    using w by (intro c_ll_some) (auto simp: past_def)
  then show thesis
    by (intro that [of "the (next_backoff fsm)"])
       (use w(1-5) in \<open>auto simp: next_backoff_def half c_int_def reconnect_is_connected_def is_connected_state_def\<close>)
qed

lemma reconnect_disconnected_wf:
  assumes "rc_wf now fsm"
  shows "\<exists>fsm'. reconnect_disconnected fsm now error = Some fsm' \<and> rc_wf now fsm'"
proof (cases "rc_state fsm \<in> {S_BACKOFF, S_VOID}")
  case False
  define f1 where "f1 = (if rc_state fsm \<in> {S_ACTIVE, S_IDLE} then fsm\<lparr>last_disconnected := now\<rparr> else fsm)"
  have wf1: "rc_wf now f1" using assms rc_wf_update(6) by (simp add: f1_def)
  obtain b where b: "next_backoff f1 = Some b" "0 \<le> b" "b \<le> max_backoff f1" by (rule next_backoff_some [OF wf1])
  have wf2: "rc_wf now (f1\<lparr>backoff := b\<rparr>)" using b wf1 by (intro rc_wf_update) (auto simp: rc_wf_def)
  obtain r f3 where r: "reconnect_may_retry (f1\<lparr>backoff := b\<rparr>) = (r, f3)" by fastforce
  have wf3: "rc_wf now f3" by (rule may_retry_wf(1) [OF wf2 r])
  have "reconnect_disconnected fsm now error = reconnect_transition f3 now (if r then S_BACKOFF else S_VOID)"
    unfolding reconnect_disconnected_def Let_def f1_def [symmetric] using False b(1) r by simp
  then show ?thesis using transition_wf [OF wf3] moved_wf [OF wf3] by simp
qed (use assms in \<open>simp add: reconnect_disconnected_def\<close>)

lemma reconnect_to_backoff_wf:
  assumes "rc_wf now fsm"
  shows "\<exists>fsm'. (do { fsm \<leftarrow> reconnect_transition fsm now S_BACKOFF; Some (fsm\<lparr>backoff := 0\<rparr>) }) = Some fsm' \<and> rc_wf now fsm'"
  using transition_wf [OF assms] moved_wf [OF assms] rc_wf_update(1) [of now "moved fsm now S_BACKOFF" 0] by simp

lemma reconnect_set_passive_wf:
  assumes "rc_wf now fsm"
  shows "\<exists>fsm'. reconnect_set_passive fsm p now = Some fsm' \<and> rc_wf now fsm'"
proof -
  have wf: "rc_wf now (fsm\<lparr>rc_passive := p\<rparr>)" using assms by (rule rc_wf_update)
  obtain r f where r: "reconnect_may_retry (fsm\<lparr>rc_passive := p\<rparr>) = (r, f)" by fastforce
  have "rc_wf now f" by (rule may_retry_wf(1) [OF wf r])
  then show ?thesis
    using assms wf r reconnect_to_backoff_wf by (auto simp: reconnect_set_passive_def Let_def)
qed

lemma reconnect_enable_wf:
  assumes "rc_wf now fsm"
  shows "\<exists>fsm'. reconnect_enable fsm now = Some fsm' \<and> rc_wf now fsm'"
proof -
  obtain r f where r: "reconnect_may_retry fsm = (r, f)" by fastforce
  have "rc_wf now f" by (rule may_retry_wf(1) [OF assms r])
  then show ?thesis
    using assms r reconnect_to_backoff_wf by (auto simp: reconnect_enable_def Let_def)
qed

lemma reconnect_connecting_wf:
  assumes "rc_wf now fsm"
  shows "\<exists>fsm'. reconnect_connecting fsm now = Some fsm' \<and> rc_wf now fsm' \<and> rc_state fsm' = S_CONNECTING"
  using assms transition_wf [OF assms] moved_wf by (simp add: reconnect_connecting_def)

lemma reconnect_connected_wf:
  assumes "rc_wf now fsm"
  shows "\<exists>fsm'. reconnect_connected fsm now = Some fsm' \<and> rc_wf now fsm'"
proof (cases "is_connected_state (rc_state fsm)")
  case False
  from reconnect_connecting_wf [OF assms] obtain f where f: "reconnect_connecting fsm now = Some f" "rc_wf now f" by blast
  then show ?thesis using False transition_wf [OF f(2)] moved_wf [OF f(2)] rc_wf_update(5)
    by (simp add: reconnect_connected_def)
qed (use assms in \<open>simp add: reconnect_connected_def\<close>)

lemma reconnect_deadline_some:
  assumes "rc_wf now fsm"
  obtains d where "reconnect_deadline fsm = Some d" "0 \<le> d"
    "d \<noteq> LLONG_MAX \<longrightarrow> d \<le> T_MAX + INT_MAX" 
    "d = LLONG_MAX \<longleftrightarrow> rc_state fsm \<in> {S_VOID, S_LISTENING} \<or> reconnect_is_connected fsm \<and> probe_interval fsm = 0"
proof -
  have w: "0 \<le> backoff fsm" "backoff fsm \<le> INT_MAX"
    "probe_interval fsm = 0 \<or> 1000 \<le> probe_interval fsm \<and> probe_interval fsm \<le> INT_MAX"
    "0 \<le> last_activity fsm" "last_activity fsm \<le> T_MAX" "0 \<le> state_entered fsm" "state_entered fsm \<le> T_MAX"
    using assms by (auto simp: rc_wf_def past_def)
  show thesis
    by (rule that [of "the (reconnect_deadline fsm)"]; cases "rc_state fsm")
       (use w in \<open>auto simp: reconnect_deadline_def c_ll_def Let_def max_def reconnect_is_connected_def is_connected_state_def\<close>)
qed

lemma reconnect_run_wf:
  assumes "rc_wf now fsm"
  shows "\<exists>a fsm'. reconnect_run fsm now = Some (a, fsm') \<and> rc_wf now fsm'"
proof -
  obtain d where d: "reconnect_deadline fsm = Some d" by (rule reconnect_deadline_some [OF assms])
  show ?thesis using assms d transition_wf [OF assms] moved_wf [OF assms]
    by (cases "rc_state fsm") (simp_all add: reconnect_run_def)
qed

lemma reconnect_set_backoff_wf:
  assumes "rc_wf now fsm" "a \<le> INT_MAX" "0 \<le> b" "b \<le> INT_MAX"
  shows "rc_wf now (reconnect_set_backoff fsm a b)"
proof -
  let ?hi = "if b \<noteq> 0 then max b 1000 else RECONNECT_DEFAULT_MAX_BACKOFF"
  let ?f = "fsm\<lparr>min_backoff := max a 1000, max_backoff := max (max a 1000) ?hi\<rparr>"
  have wf: "rc_wf now ?f" using assms by (auto simp: rc_wf_def reconnect_is_connected_def)
  have "reconnect_set_backoff fsm a b = (if rc_state fsm = S_BACKOFF \<and> backoff fsm > b then ?f\<lparr>backoff := b\<rparr> else ?f)"
    by (simp add: reconnect_set_backoff_def Let_def max_def)
  then show ?thesis using wf rc_wf_update(1) [OF wf assms(3,4)] by simp
qed

text \<open>Every event keeps the invariant, and none of them overflows.\<close>

lemma rc_event_wf:
  assumes wf: "rc_wf now fsm" and "args_ok e"
  shows "\<exists>fsm'. rc_event e now fsm = Some fsm' \<and> rc_wf now fsm'"
proof (cases e)
  case (Listen_error x)
  then show ?thesis using wf reconnect_disconnected_wf [OF wf] by (simp add: reconnect_listen_error_def)
next
  case (Connect_failed x)
  then show ?thesis using reconnect_connecting_wf [OF wf] reconnect_disconnected_wf
    by (auto simp: reconnect_connect_failed_def)
next
  case Run
  then show ?thesis using reconnect_run_wf [OF wf] by auto
next
  case Activity
  then show ?thesis using transition_wf [OF wf] moved_wf [OF wf] rc_wf_update(4) wf by (simp add: reconnect_activity_def)
next
  case (Set_backoff a b)
  then show ?thesis using assms reconnect_set_backoff_wf by simp
next
  case (Set_probe_interval i)
  then show ?thesis using assms by (auto simp: reconnect_set_probe_interval_def rc_wf_def reconnect_is_connected_def)
qed (use wf transition_wf [OF wf] moved_wf [OF wf] in
  \<open>simp_all add: reconnect_enable_wf reconnect_disconnected_wf reconnect_connected_wf reconnect_set_passive_wf
     reconnect_disable_def reconnect_force_reconnect_def reconnect_connecting_def reconnect_listening_def
     reconnect_set_max_tries_def rc_wf_update\<close>)

interpretation rc: total_machine "\<lambda>s. rc_wf (fst s) (snd s)" rc_ok rc_step
proof
  fix s e
  assume a: "rc_wf (fst s) (snd s)" "rc_ok s e"
  then have "rc_wf (snd e) (snd s)" using rc_wf_later by (auto simp: rc_ok_def)
  then show "\<exists>s'. rc_step e s = Some s' \<and> rc_wf (fst s') (snd s')"
    using rc_event_wf [of "snd e" "snd s" "fst e"] a(2) by (auto simp: rc_step_def rc_ok_def)
qed

section \<open>Timeouts\<close>

text \<open>\<^verbatim>\<open>reconnect_run\<close> asks for an action exactly from the deadline on.\<close>

lemma reconnect_run_action:
  assumes "rc_wf now fsm" "reconnect_deadline fsm = Some d" "now \<le> t" "t \<le> T_MAX"
  shows "\<exists>a fsm'. reconnect_run fsm t = Some (a, fsm') \<and> (a \<noteq> None \<longleftrightarrow> d \<le> t)"
proof -
  have wf: "rc_wf t fsm" using rc_wf_later assms by blast
  obtain d' where "reconnect_deadline fsm = Some d'"
    "d' = LLONG_MAX \<longleftrightarrow> rc_state fsm \<in> {S_VOID, S_LISTENING} \<or> reconnect_is_connected fsm \<and> probe_interval fsm = 0"
    by (rule reconnect_deadline_some [OF wf])
  then have "rc_state fsm \<in> {S_VOID, S_LISTENING} \<Longrightarrow> \<not> d \<le> t" using assms(2,4) by auto
  then show ?thesis using assms(2) transition_wf [OF wf]
    by (cases "rc_state fsm") (auto simp: reconnect_run_def)
qed

text \<open>
  C15.  The wait that \<^verbatim>\<open>reconnect_timeout\<close> computes is exact: before it is over \<^verbatim>\<open>reconnect_run\<close> asks for
  nothing, and from then on it asks for an action, so that a client that sleeps that long and calls it makes progress.
\<close>

theorem reconnect_timeout_run:
  assumes "rc_wf now fsm"
  shows "\<exists>w. reconnect_timeout fsm now = Some w \<and> - 1 \<le> w
    \<and> (\<forall>t. now \<le> t \<and> t \<le> T_MAX \<and> (w < 0 \<or> t < now + w) \<longrightarrow> map_option fst (reconnect_run fsm t) = Some None)
    \<and> (\<forall>t. 0 \<le> w \<and> w < INT_MAX \<and> now + w \<le> t \<and> t \<le> T_MAX \<longrightarrow> (\<exists>a fsm'. reconnect_run fsm t = Some (Some a, fsm')))"
proof -
  obtain d where d: "reconnect_deadline fsm = Some d" "0 \<le> d" "d \<noteq> LLONG_MAX \<longrightarrow> d \<le> T_MAX + INT_MAX"
    by (rule reconnect_deadline_some [OF assms])
  define w where "w = (if d = LLONG_MAX then - 1 else max 0 (min INT_MAX (d - now)))"
  have "0 \<le> now" "now \<le> T_MAX" using assms by (auto simp: rc_wf_def)
  then have "reconnect_timeout fsm now = Some w"
    using d by (auto simp: reconnect_timeout_def w_def c_ll_def)
  moreover have "map_option fst (reconnect_run fsm t) = Some None" if "now \<le> t" "t \<le> T_MAX" "w < 0 \<or> t < now + w" for t
  proof -
    have "\<not> d \<le> t" using that by (auto simp: w_def max_def min_def split: if_splits)
    then show ?thesis using reconnect_run_action [OF assms d(1) that(1,2)] by auto
  qed
  moreover have "\<exists>a fsm'. reconnect_run fsm t = Some (Some a, fsm')"
    if "0 \<le> w" "w < INT_MAX" "now + w \<le> t" "t \<le> T_MAX" for t
  proof -
    have "d \<le> t" using that by (auto simp: w_def split: if_splits)
    then show ?thesis using reconnect_run_action [OF assms d(1), of t] that by auto
  qed
  ultimately show ?thesis by (intro exI [of _ w]) (auto simp: w_def)
qed

text \<open>
  C16.  A silent peer is probed after one probe interval and given up after another.
\<close>

theorem reconnect_silent_peer:
  assumes wf: "rc_wf now fsm" and st: "rc_state fsm = S_ACTIVE" "probe_interval fsm \<noteq> 0"
    and t1: "max (last_activity fsm) (state_entered fsm) + probe_interval fsm \<le> t1" "now \<le> t1"
    and t2: "t1 + probe_interval fsm \<le> t2" "t2 \<le> T_MAX"
  shows "\<exists>fsm1. reconnect_run fsm t1 = Some (Some RECONNECT_PROBE, fsm1)
    \<and> reconnect_run fsm1 t2 = Some (Some RECONNECT_DISCONNECT, fsm1)"
proof -
  have p: "1000 \<le> probe_interval fsm" "probe_interval fsm \<le> INT_MAX" "0 \<le> now" "now \<le> T_MAX"
    "0 \<le> state_entered fsm" "state_entered fsm \<le> T_MAX" "0 \<le> last_activity fsm" "last_activity fsm \<le> T_MAX"
    using wf st by (auto simp: rc_wf_def past_def)
  have wf1: "rc_wf t1 fsm" using rc_wf_later [OF wf] t1 t2 p by auto
  have "reconnect_run fsm t1 = Some (Some RECONNECT_PROBE, moved fsm t1 S_IDLE)"
    using transition_wf [OF wf1] st t1 p by (simp add: reconnect_run_def reconnect_deadline_def c_ll_def Let_def max_def)
  moreover have "reconnect_run (moved fsm t1 S_IDLE) t2 = Some (Some RECONNECT_DISCONNECT, moved fsm t1 S_IDLE)"
    using st t1 t2 p by (simp add: reconnect_run_def reconnect_deadline_def c_ll_def)
  ultimately show ?thesis by blast
qed

section \<open>Backing off\<close>

definition step_backoff :: "int \<Rightarrow> int \<Rightarrow> int \<Rightarrow> int" where
  "step_backoff lo hi b = (if b < lo then lo else if b \<ge> hi div 2 then hi else b * 2)"

lemma reconnect_connect_failed_eq:
  assumes wf: "rc_wf now fsm"
  shows "\<exists>fsm'. reconnect_connect_failed fsm now error = Some fsm' \<and> rc_wf now fsm'
    \<and> backoff fsm' = step_backoff (min_backoff fsm) (max_backoff fsm) (backoff fsm)
    \<and> min_backoff fsm' = min_backoff fsm \<and> max_backoff fsm' = max_backoff fsm
    \<and> rc_state fsm' = (if max_tries fsm > 0 then S_BACKOFF else S_VOID)
    \<and> max_tries fsm' = (if max_tries fsm \<in> {0, UINT_MAX} then max_tries fsm else max_tries fsm - 1)
    \<and> state_entered fsm' = now"
proof -
  define f1 where "f1 = (if rc_state fsm = S_CONNECTING then fsm else moved fsm now S_CONNECTING)"
  have c: "reconnect_connecting fsm now = Some f1" "rc_wf now f1" "rc_state f1 = S_CONNECTING"
    "backoff f1 = backoff fsm" "min_backoff f1 = min_backoff fsm" "max_backoff f1 = max_backoff fsm" "max_tries f1 = max_tries fsm"
    using transition_wf [OF wf] moved_wf [OF wf] wf by (auto simp: reconnect_connecting_def f1_def)
  let ?b = "step_backoff (min_backoff fsm) (max_backoff fsm) (backoff fsm)"
  have w: "1000 \<le> max_backoff fsm" "max_backoff fsm \<le> INT_MAX" "0 \<le> backoff fsm" using wf by (auto simp: rc_wf_def)
  have nb: "next_backoff f1 = Some ?b"
    using w by (auto simp: next_backoff_def c c_half_def c_int_def step_backoff_def)
  have b: "0 \<le> ?b" "?b \<le> INT_MAX" using wf by (auto simp: step_backoff_def rc_wf_def)
  obtain r f3 where r: "reconnect_may_retry (f1\<lparr>backoff := ?b\<rparr>) = (r, f3)" by fastforce
  have wf2: "rc_wf now (f1\<lparr>backoff := ?b\<rparr>)" using rc_wf_update(1) [OF c(2) b] .
  note m = may_retry_wf [OF wf2 r]
  have "reconnect_connect_failed fsm now error = Some (moved f3 now (if r then S_BACKOFF else S_VOID))"
    using c nb r transition_wf [OF m(1)] by (simp add: reconnect_connect_failed_def reconnect_disconnected_def Let_def)
  moreover have "min_backoff f3 = min_backoff fsm" "max_backoff f3 = max_backoff fsm"
    "max_tries f3 = (if max_tries fsm \<in> {0, UINT_MAX} then max_tries fsm else max_tries fsm - 1)"
    using r c(5-7) by (auto simp: reconnect_may_retry_def Let_def word_gt_0 split: if_splits)
  ultimately show ?thesis using moved_wf [OF m(1)] m(2,4) c(7) by auto
qed

text \<open>One failed attempt after another, each with its time and its error.\<close>

primrec fails :: "(int \<times> int) list \<Rightarrow> reconnect \<Rightarrow> reconnect option" where
  "fails [] fsm = Some fsm"
| "fails (t # ts) fsm = do { fsm \<leftarrow> reconnect_connect_failed fsm (fst t) (snd t); fails ts fsm }"

definition times_from :: "int \<Rightarrow> (int \<times> int) list \<Rightarrow> bool" where
  "times_from now ts \<longleftrightarrow> sorted (now # map fst ts @ [T_MAX])"

lemma fails_effect:
  "rc_wf now fsm \<Longrightarrow> times_from now ts \<Longrightarrow> \<exists>fsm'. fails ts fsm = Some fsm'
    \<and> backoff fsm' = (step_backoff (min_backoff fsm) (max_backoff fsm) ^^ length ts) (backoff fsm)
    \<and> (max_tries fsm \<noteq> UINT_MAX \<longrightarrow> unat (max_tries fsm') = unat (max_tries fsm) - length ts
         \<and> (ts \<noteq> [] \<longrightarrow> rc_state fsm' = (if length ts \<le> unat (max_tries fsm) then S_BACKOFF else S_VOID)))
    \<and> (max_tries fsm = UINT_MAX \<longrightarrow> max_tries fsm' = UINT_MAX \<and> (ts \<noteq> [] \<longrightarrow> rc_state fsm' = S_BACKOFF))"
proof (induction ts arbitrary: now fsm)
  case (Cons t ts)
  let ?lo = "min_backoff fsm" and ?hi = "max_backoff fsm"
  have "rc_wf (fst t) fsm" using rc_wf_later [OF Cons.prems(1)] Cons.prems(2) by (auto simp: times_from_def)
  from reconnect_connect_failed_eq [OF this, of "snd t"] obtain f where
    f: "reconnect_connect_failed fsm (fst t) (snd t) = Some f" "rc_wf (fst t) f"
    "backoff f = step_backoff ?lo ?hi (backoff fsm)" "min_backoff f = ?lo" "max_backoff f = ?hi"
    "rc_state f = (if max_tries fsm > 0 then S_BACKOFF else S_VOID)"
    "max_tries f = (if max_tries fsm \<in> {0, UINT_MAX} then max_tries fsm else max_tries fsm - 1)" by blast
  have "times_from (fst t) ts" using Cons.prems(2) by (simp add: times_from_def)
  note IH = Cons.IH [OF f(2) this]
  have dec: "unat (max_tries f) = unat (max_tries fsm) - 1" "max_tries f \<noteq> UINT_MAX" if "max_tries fsm \<noteq> UINT_MAX"
    using that f(7) by (auto simp: unat_minus_one)
  have pos: "0 < unat (max_tries fsm) \<longleftrightarrow> max_tries fsm > 0" by (simp add: word_less_nat_alt)
  show ?case
  proof (cases "max_tries fsm = UINT_MAX")
    case True
    then show ?thesis using IH f by (auto simp: funpow_swap1)
  next
    case False
    then show ?thesis using IH f(1,3-6) dec pos by (auto simp: funpow_swap1)
  qed
qed simp

lemma step_backoff_iter:
  assumes "0 < lo" "lo \<le> hi" "even hi"
  shows "(step_backoff lo hi ^^ Suc k) 0 = min hi (lo * 2 ^ k)"
proof (induction k)
  case 0
  then show ?case using assms by (simp add: step_backoff_def)
next
  case (Suc k)
  have "step_backoff lo hi (min hi v) = min hi (v * 2)" if "lo \<le> v" for v
    using that assms by (auto simp: step_backoff_def min_def elim!: evenE)
  from this [of "lo * 2 ^ k"] show ?case using Suc assms(1) by (simp add: ac_simps)
qed

section \<open>Properties\<close>

definition rc_enabled :: reconnect where
  "rc_enabled = moved (reconnect_create 1000) 1000 S_BACKOFF"

lemma rc_enabled_step: "rc_step (Enable, 1000) (1000, reconnect_create 1000) = Some (1000, rc_enabled)"
  by (simp add: rc_step_def reconnect_enable_def reconnect_may_retry_def reconnect_create_def reconnect_transition_def
      rc_enabled_def moved_def is_connected_state_def)

lemma rc_enabled_wf: "rc_wf 1000 rc_enabled"
  unfolding rc_enabled_def by (intro moved_wf reconnect_create_wf) simp_all

text \<open>
  C14.  From its creation on, whatever events occur in whatever order at non-decreasing times, the state
  machine stays well formed, its sequence number is odd exactly while it is connected,
  and no event makes a signed computation overflow.
\<close>

theorem reconnect_reachable_safe:
  assumes "0 \<le> now" "now \<le> T_MAX" "reaches rc_ok rc_step (now, reconnect_create now) s" "rc_ok s e"
  shows "rc_wf (fst s) (snd s) \<and> (odd (seqno (snd s)) \<longleftrightarrow> reconnect_is_connected (snd s)) \<and> (\<exists>s'. rc_step e s = Some s')"
proof -
  have "rc_wf now (reconnect_create now)" using reconnect_create_wf assms by blast
  then show ?thesis
    using rc.reaches_inv [OF assms(3)] rc.never_stuck [OF assms(3) _ assms(4)] by (auto simp: rc_wf_def)
qed

theorem reconnect_reachable_safe_witness:
  "reaches rc_ok rc_step (1000, reconnect_create 1000) (1000, rc_enabled) \<and> rc_wf 1000 rc_enabled
    \<and> (\<exists>s'. rc_step (Connected, 2000) (1000, rc_enabled) = Some s')"
proof -
  have r: "reaches rc_ok rc_step (1000, reconnect_create 1000) (1000, rc_enabled)"
    by (rule reaches_step [where step = rc_step, OF reaches_refl _ rc_enabled_step]) (simp add: rc_ok_def)
  have "rc_ok (1000, rc_enabled) (Connected, 2000)" by (simp add: rc_ok_def)
  from reconnect_reachable_safe [OF _ _ r this] show ?thesis using r by simp
qed

theorem reconnect_timeout_run_witness:
  "\<exists>w. reconnect_timeout rc_enabled 1000 = Some w \<and> w = 0
    \<and> (\<exists>a fsm'. reconnect_run rc_enabled 5000 = Some (Some a, fsm'))"
proof -
  obtain w where w: "reconnect_timeout rc_enabled 1000 = Some w"
    "\<forall>t. 0 \<le> w \<and> w < INT_MAX \<and> 1000 + w \<le> t \<and> t \<le> T_MAX \<longrightarrow> (\<exists>a fsm'. reconnect_run rc_enabled t = Some (Some a, fsm'))"
    using reconnect_timeout_run [OF rc_enabled_wf] by auto
  moreover have "w = 0" using w(1)
    by (simp add: reconnect_timeout_def reconnect_deadline_def rc_enabled_def reconnect_create_def c_ll_def)
  ultimately show ?thesis by simp
qed

theorem reconnect_silent_peer_witness:
  "\<exists>fsm1. reconnect_run (moved rc_enabled 2000 S_ACTIVE) 7000 = Some (Some RECONNECT_PROBE, fsm1)
    \<and> reconnect_run fsm1 12000 = Some (Some RECONNECT_DISCONNECT, fsm1)"
proof -
  have "rc_wf 2000 (moved rc_enabled 2000 S_ACTIVE)"
    by (intro moved_wf rc_wf_later [OF rc_enabled_wf]) simp_all
  from reconnect_silent_peer [OF this, of 7000 12000] show ?thesis
    by (simp add: rc_enabled_def reconnect_create_def)
qed

text \<open>
  C17.  Consecutive failed attempts double the backoff from its minimum up to its maximum, and a limited number of
  tries is used up one by one: the machine backs off while tries are left and then turns itself off.
\<close>

theorem reconnect_backoff_doubles:
  assumes "rc_wf now fsm" "backoff fsm = 0" "even (max_backoff fsm)" "times_from now ts" "length ts = Suc k"
  shows "\<exists>fsm'. fails ts fsm = Some fsm' \<and> backoff fsm' = min (max_backoff fsm) (min_backoff fsm * 2 ^ k)
    \<and> rc_state fsm' = (if max_tries fsm = UINT_MAX \<or> Suc k \<le> unat (max_tries fsm) then S_BACKOFF else S_VOID)"
proof -
  have ne: "ts \<noteq> []" using assms(5) by auto
  have w: "0 < min_backoff fsm" "min_backoff fsm \<le> max_backoff fsm" using assms(1) by (auto simp: rc_wf_def)
  show ?thesis
    using fails_effect [OF assms(1,4)] step_backoff_iter [OF w assms(3), of k] ne assms(2)
    by (cases "max_tries fsm = UINT_MAX") (auto simp: assms(5) simp del: funpow.simps)
qed

theorem reconnect_backoff_doubles_witness:
  "\<exists>fsm'. fails [(2000, 111), (4000, 111), (8000, 110)] rc_enabled = Some fsm' \<and> backoff fsm' = 4000 \<and> rc_state fsm' = S_BACKOFF"
  using reconnect_backoff_doubles [OF rc_enabled_wf, of "[(2000, 111), (4000, 111), (8000, 110)]" 2]
  by (simp add: rc_enabled_def reconnect_create_def times_from_def)

text \<open>
  The argument 0 of \<^verbatim>\<open>reconnect_set_backoff\<close> selects the default maximum; but while the machine backs off
  it also ends the wait at once.
\<close>

lemma reconnect_set_backoff_default:
  assumes "rc_wf now fsm" "rc_state fsm = S_BACKOFF" "0 < backoff fsm"
  shows "RECONNECT_DEFAULT_MAX_BACKOFF \<le> max_backoff (reconnect_set_backoff fsm a 0)"
    "\<exists>fsm'. reconnect_run (reconnect_set_backoff fsm a 0) now = Some (Some RECONNECT_CONNECT, fsm')"
  using assms by (auto simp: reconnect_set_backoff_def Let_def reconnect_run_def reconnect_deadline_def rc_wf_def past_def c_ll_def)

text \<open>
  A connection that \<^verbatim>\<open>reconnect_force_reconnect\<close> ends is not recorded: the time of the last disconnection stays unset.
\<close>

lemma reconnect_force_last_disconnected:
  assumes "rc_wf now fsm" "reconnect_is_connected fsm" "last_disconnected fsm = LLONG_MAX"
  shows "\<exists>fsm1 fsm2. reconnect_force_reconnect fsm now = Some fsm1 \<and> reconnect_disconnected fsm1 now 0 = Some fsm2
    \<and> \<not> reconnect_is_connected fsm2 \<and> reconnect_get_last_disconnect_elapsed fsm2 now = Some UINT_MAX"
proof -
  have st: "rc_state fsm \<in> {S_ACTIVE, S_IDLE}" using assms(2) by (simp add: reconnect_is_connected_def is_connected_state_def)
  define f1 where "f1 = moved fsm now S_RECONNECT"
  have f1: "reconnect_force_reconnect fsm now = Some f1" "rc_wf now f1" "rc_state f1 = S_RECONNECT" "last_disconnected f1 = LLONG_MAX"
    using transition_wf [OF assms(1)] moved_wf [OF assms(1)] st assms(3) by (auto simp: reconnect_force_reconnect_def f1_def)
  obtain b where b: "next_backoff f1 = Some b" "0 \<le> b" "b \<le> max_backoff f1" by (rule next_backoff_some [OF f1(2)])
  have wf2: "rc_wf now (f1\<lparr>backoff := b\<rparr>)" using b f1(2) by (intro rc_wf_update) (auto simp: rc_wf_def)
  obtain r f3 where r: "reconnect_may_retry (f1\<lparr>backoff := b\<rparr>) = (r, f3)" by fastforce
  note m = may_retry_wf [OF wf2 r]
  have "last_disconnected f3 = LLONG_MAX" using r f1(4) by (auto simp: reconnect_may_retry_def Let_def split: if_splits)
  moreover have "reconnect_disconnected f1 now 0 = Some (moved f3 now (if r then S_BACKOFF else S_VOID))"
    using f1(3) b(1) r transition_wf [OF m(1)] by (simp add: reconnect_disconnected_def Let_def)
  ultimately show ?thesis using f1(1)
    by (auto simp: reconnect_get_last_disconnect_elapsed_def reconnect_is_connected_def is_connected_state_def)
qed

end
