(* ===== verification/Ovs_Hmap_Iter.thy ===== *)
theory Ovs_Hmap_Iter
  imports Ovs_Hmap
begin

text \<open>
  The rest of \<^verbatim>\<open>lib/hmap.c\<close>: iteration by position, the choice of a random node, and
  \<^verbatim>\<open>HMAP_FOR_EACH_SAFE\<close> with a body that removes the node.  The random numbers are arguments.
\<close>

section \<open>Operations\<close>

text \<open>Lines 260 to 272: the rest of a chain from its element number \<open>offset\<close> on.\<close>

fun node_at :: "'a chain \<Rightarrow> nat \<Rightarrow> nat \<Rightarrow> 'a chain" where
  "node_at [] n_idx offset = []"
| "node_at (node # rest) n_idx offset = (if n_idx = offset then node # rest else node_at rest (Suc n_idx) offset)"

text \<open>
  The loop over the buckets.  Its index is a natural number: it reaches at most
  \<^verbatim>\<open>mask + 1\<close>, which is a power of two and not the 0 of an overflow.
\<close>

function at_position_loop :: "'a hmap \<Rightarrow> nat \<Rightarrow> nat \<Rightarrow> 'a hmap_node option \<times> u32 \<times> u32" where
  "at_position_loop h b_idx offset =
     (if b_idx \<le> unat (hm_mask h) then
        case node_at (hm_buckets h ! b_idx) 0 offset of
          node # rest \<Rightarrow>
            (Some node,
             if rest \<noteq> [] then (hn_hash node AND hm_mask h, of_nat offset + 1)
             else ((hn_hash node AND hm_mask h) + 1, 0))
        | [] \<Rightarrow> at_position_loop h (Suc b_idx) 0
      else (None, 0, 0))"
  by pat_completeness auto
termination
  by (relation "measure (\<lambda>(h, b, offset). Suc (unat (hm_mask h)) - b)") auto

declare at_position_loop.simps [simp del]

definition hmap_at_position :: "'a hmap \<Rightarrow> u32 \<times> u32 \<Rightarrow> 'a hmap_node option \<times> u32 \<times> u32" where
  "hmap_at_position h pos = at_position_loop h (unat (fst pos)) (unat (snd pos))"

text \<open>A caller that starts at the position \<open>(0, 0)\<close> and goes on until there is no node.\<close>

partial_function (option) at_position_all :: "'a hmap \<Rightarrow> u32 \<times> u32 \<Rightarrow> 'a hmap_node list option" where
  "at_position_all h pos =
     (case hmap_at_position h pos of
        (None, pos) \<Rightarrow> Some []
      | (Some node, pos) \<Rightarrow> do { nodes \<leftarrow> at_position_all h pos; Some (node # nodes) })"

text \<open>\<open>i\<close> starts as \<^verbatim>\<open>random_uint32()\<close> and wraps; \<open>rng n\<close> is \<^verbatim>\<open>random_range(n)\<close>.\<close>

partial_function (option) random_bucket :: "'a hmap \<Rightarrow> size_t \<Rightarrow> 'a chain option" where
  "random_bucket h i =
     (let bucket = hm_buckets h ! bucket_of h i in if bucket \<noteq> [] then Some bucket else random_bucket h (i + 1))"

definition hmap_random_node :: "u32 \<Rightarrow> (nat \<Rightarrow> nat) \<Rightarrow> 'a hmap \<Rightarrow> 'a hmap_node option" where
  "hmap_random_node r rng h = do {
     bucket \<leftarrow> random_bucket h r;
     let n = length bucket;
     let i = rng n;
     if i < n then Some (bucket ! i) else None
   }"

text \<open>\<open>nxt\<close> is found before the node goes.\<close>

partial_function (option) hmap_remove_each_loop :: "'a hmap \<Rightarrow> 'a chain \<Rightarrow> 'a hmap option" where
  "hmap_remove_each_loop h node =
     (if node \<noteq> [] then do {
        let nxt = hmap_next h node;
        h \<leftarrow> hmap_remove h (hd node);
        hmap_remove_each_loop h nxt
      } else Some h)"

definition hmap_remove_each :: "'a hmap \<Rightarrow> 'a hmap option" where
  "hmap_remove_each h = hmap_remove_each_loop h (hmap_first h)"

section \<open>Iteration by position\<close>

lemma node_at_drop: "n \<le> k \<Longrightarrow> node_at c n k = drop (k - n) c"
  by (induction c n k rule: node_at.induct) (auto simp: Suc_diff_le drop_Cons' not_less_eq_eq)

text \<open>The nodes from a position on.\<close>

definition nodes_from :: "'a hmap \<Rightarrow> nat \<Rightarrow> nat \<Rightarrow> 'a hmap_node list" where
  "nodes_from h b off = (if b < length (hm_buckets h) then drop off (hm_buckets h ! b) else []) @ concat (drop (Suc b) (hm_buckets h))"

lemma nodes_from_next: "nodes_from h b 0 = concat (drop b (hm_buckets h))"
  by (cases "b < length (hm_buckets h)") (simp_all add: nodes_from_def Cons_nth_drop_Suc [symmetric])

lemma bucket_length: "i < length (hm_buckets h) \<Longrightarrow> length (hm_buckets h ! i) \<le> length (hmap_nodes h)"
proof -
  assume "i < length (hm_buckets h)"
  then have "hm_buckets h ! i \<in> set (hm_buckets h)" by simp
  then obtain xs ys where "hm_buckets h = xs @ (hm_buckets h ! i) # ys" by (meson split_list)
  then have "hmap_nodes h = concat xs @ hm_buckets h ! i @ concat ys"
    unfolding hmap_nodes_def by (metis concat.simps(2) concat_append)
  then show ?thesis by simp
qed

lemma at_position_loop:
  assumes wf: "hmap_wf h" and small: "length (hmap_nodes h) < 2 ^ 32"
  shows "case at_position_loop h b off of
      (None, pos) \<Rightarrow> nodes_from h b off = []
    | (Some nd, pos) \<Rightarrow> nodes_from h b off = nd # nodes_from h (unat (fst pos)) (unat (snd pos))"
proof (induction "Suc (unat (hm_mask h)) - b" arbitrary: b off)
  case 0
  then show ?case using wf
    by (auto simp: at_position_loop.simps [of h b off] nodes_from_def hmap_wf_def hmap_placed_def)
next
  case (Suc k)
  let ?bs = "hm_buckets h"
  have p: "hmap_placed h" "length ?bs = Suc (unat (hm_mask h))" using wf by (auto simp: hmap_wf_def hmap_placed_def)
  have b: "b \<le> unat (hm_mask h)" "b < length ?bs" using Suc.hyps(2) p(2) by auto
  show ?case
  proof (cases "drop off (?bs ! b)")
    case Nil
    then have "at_position_loop h b off = at_position_loop h (Suc b) 0"
      using b by (simp add: at_position_loop.simps [of h b off] node_at_drop)
    moreover have "nodes_from h b off = nodes_from h (Suc b) 0"
      unfolding nodes_from_next using Nil b by (simp add: nodes_from_def)
    moreover have "k = Suc (unat (hm_mask h)) - Suc b" using Suc.hyps(2) by simp
    ultimately show ?thesis using Suc.hyps(1) [of "Suc b" 0] by presburger
  next
    case (Cons nd rest)
    then have nd: "nd \<in> set (?bs ! b)" by (metis in_set_dropD list.set_intros(1))
    then have bk: "bucket_of h (hn_hash nd) = b" using p(1) b(2) unfolding hmap_placed_def by blast
    have off: "unat (of_nat off + 1 :: u32) = Suc off" if "rest \<noteq> []"
    proof -
      have "length (drop off (?bs ! b)) \<ge> 2" using that Cons by (cases rest) auto
      then have "Suc off < 2 ^ 32" using bucket_length [OF b(2)] small by simp
      then have "unat (of_nat (Suc off) :: u32) = Suc off" unfolding unat_of_nat by simp
      then show ?thesis by (simp add: add.commute)
    qed
    have tl: "rest = drop (Suc off) (?bs ! b)" using Cons by (metis drop_Suc drop_tl list.sel(3))
    show ?thesis
    proof (cases "rest = []")
      case True
      then show ?thesis using Cons b bk bucket_of_Suc [OF wf, of "hn_hash nd"]
        by (simp add: at_position_loop.simps [of h b off] node_at_drop nodes_from_next) (simp add: nodes_from_def)
    next
      case False
      then show ?thesis using Cons b bk off [OF False] tl
        by (simp add: at_position_loop.simps [of h b off] node_at_drop nodes_from_def)
    qed
  qed
qed


lemma at_position_all:
  assumes wf: "hmap_wf h" and small: "length (hmap_nodes h) < 2 ^ 32"
  shows "at_position_all h pos = Some (nodes_from h (unat (fst pos)) (unat (snd pos)))"
proof (induction "length (nodes_from h (unat (fst pos)) (unat (snd pos)))" arbitrary: pos)
  case 0
  then show ?case
    using at_position_loop [OF wf small, of "unat (fst pos)" "unat (snd pos)"]
    by (subst at_position_all.simps) (auto simp: hmap_at_position_def split: prod.splits option.splits)
next
  case (Suc k)
  then show ?case
    using at_position_loop [OF wf small, of "unat (fst pos)" "unat (snd pos)"]
    by (subst at_position_all.simps) (auto simp: hmap_at_position_def split: prod.splits option.splits)
qed

section \<open>Random nodes\<close>

lemma and_pred_zero:
  fixes x :: nat
  assumes "x \<noteq> 0" "x AND (x - 1) = 0"
  shows "\<exists>k. x = 2 ^ k"
  using assms
proof (induction x rule: less_induct)
  case (less x)
  have rec: "x AND (x - 1) = of_bool (odd x \<and> odd (x - 1)) + 2 * (x div 2 AND (x - 1) div 2)"
    by (rule and_rec)
  show ?case
  proof (cases "odd x")
    case True
    then have "(x - 1) div 2 = x div 2" by (elim oddE) simp
    then have "x div 2 = 0" using rec less.prems(2) by simp
    then have "x = 1" using True by (metis One_nat_def dvd_mult_div_cancel mult_0_right odd_two_times_div_two_succ add_0)
    then show ?thesis by (intro exI [of _ 0]) simp
  next
    case False
    then have "(x - 1) div 2 = x div 2 - 1" "x div 2 \<noteq> 0" using less.prems(1) by (auto elim!: evenE)
    then obtain k where "x div 2 = 2 ^ k" using less.IH [of "x div 2"] less.prems rec by auto
    then have "x = 2 ^ Suc k" using False by (metis dvd_mult_div_cancel power_Suc)
    then show ?thesis by blast
  qed
qed

lemma mask_power:
  assumes "hmap_wf h"
  obtains k where "k < 32" "hm_mask h = mask k" "length (hm_buckets h) = 2 ^ k"
proof -
  let ?m = "unat (hm_mask h)"
  let ?x = "ucast (hm_mask h + 1) :: u64"
  have l: "length (hm_buckets h) = ?m + 1" using assms by (simp add: hmap_wf_def hmap_placed_def)
  have "hm_mask h + 1 \<noteq> 0" using assms by (auto simp: hmap_wf_def is_pow2_def)
  then have m: "unat (hm_mask h + 1) = ?m + 1" by (metis Suc_eq_plus1 add.commute unatSuc)
  moreover have "?m < 2 ^ 32" using unsigned_less [of "hm_mask h"] by simp
  ultimately have x: "unat ?x = ?m + 1" by (simp add: unsigned_ucast_eq take_bit_nat_eq_self)
  have nz: "?x \<noteq> 0" "?x AND (?x - 1) = 0" using assms by (auto simp: hmap_wf_def is_pow2_def)
  have "unat (?x AND (?x - 1)) = 0" unfolding nz(2) by simp
  moreover have "unat (?x - 1) = unat ?x - 1" by (rule unat_minus_one [OF nz(1)])
  ultimately have "unat ?x AND (unat ?x - 1) = 0" by (simp only: unsigned_and_eq)
  then obtain k where k: "?m + 1 = 2 ^ k" using and_pred_zero [of "?m + 1"] unfolding x by auto
  have "?m < 2 ^ 32" using unsigned_less [of "hm_mask h"] by simp
  then have "(2::nat) ^ k \<le> 2 ^ 32" using k by simp
  then have "k \<le> 32" using power_le_imp_le_exp [of "2 :: nat" k 32] by simp
  moreover have "unat (hm_mask h + 1) < 2 ^ 32" using unsigned_less [of "hm_mask h + 1"] by simp
  then have "k \<noteq> 32" using m k by auto
  ultimately have k32: "k < 32" by simp
  have "hm_mask h + 1 = 2 ^ k" using m k k32 by (simp add: word_unat_eq_iff unat_2p)
  then have "hm_mask h = mask k" by (simp add: mask_eq_exp_minus_1 eq_diff_eq)
  then show thesis using that k32 l k by simp
qed

lemma bucket_of_of_nat:
  assumes "hmap_wf h" "b < length (hm_buckets h)"
  shows "bucket_of h (of_nat b) = b"
proof -
  obtain k where k: "k < 32" "hm_mask h = mask k" "length (hm_buckets h) = 2 ^ k" by (rule mask_power [OF assms(1)])
  have "b < 2 ^ 32" using power_strict_increasing [OF k(1), of "2 :: nat"] assms(2) k(3) by simp
  then show ?thesis
    using k assms(2) by (simp add: take_bit_eq_mask [symmetric] unsigned_take_bit_eq unat_of_nat take_bit_nat_eq_self)
qed

text \<open>The search for a bucket ends, and any node can be chosen.\<close>

lemma random_bucket_steps:
  assumes "hm_buckets h ! bucket_of h (i + of_nat d) \<noteq> []"
  shows "\<exists>j. random_bucket h i = Some (hm_buckets h ! bucket_of h j) \<and> hm_buckets h ! bucket_of h j \<noteq> []"
  using assms
proof (induction d arbitrary: i)
  case (Suc d)
  have "hm_buckets h ! bucket_of h (i + 1 + of_nat d) \<noteq> []" using Suc.prems by (simp add: add.assoc)
  note IH = Suc.IH [OF this]
  show ?case
  proof (cases "hm_buckets h ! bucket_of h i = []")
    case True
    then have "random_bucket h i = random_bucket h (i + 1)" by (subst random_bucket.simps) simp
    then show ?thesis using IH by simp
  next
    case False
    then show ?thesis by (intro exI [of _ i]) (subst random_bucket.simps, simp)
  qed
next
  case 0
  then show ?case by (intro exI [of _ i]) (subst random_bucket.simps, simp)
qed

lemma hmap_random_node:
  assumes wf: "hmap_wf h" and ne: "hmap_nodes h \<noteq> []" and rng: "\<And>n. 0 < n \<Longrightarrow> rng n < n"
  shows "\<exists>nd. hmap_random_node r rng h = Some nd \<and> nd \<in> set (hmap_nodes h)"
proof -
  obtain nd where nd: "nd \<in> set (hmap_nodes h)" using ne by (cases "hmap_nodes h") auto
  have p: "hmap_placed h" using wf by (simp add: hmap_wf_def)
  let ?b = "bucket_of h (hn_hash nd)"
  have "bucket_of h (r + of_nat (unat (of_nat ?b - r))) = ?b"
    using bucket_of_of_nat [OF wf bucket_of_less [OF p]] by simp
  moreover have "hm_buckets h ! ?b \<noteq> []" using in_bucket [OF p nd] by auto
  ultimately obtain j where j: "random_bucket h r = Some (hm_buckets h ! bucket_of h j)" "hm_buckets h ! bucket_of h j \<noteq> []"
    using random_bucket_steps [of h r "unat (of_nat ?b - r)"] by auto
  then have i: "rng (length (hm_buckets h ! bucket_of h j)) < length (hm_buckets h ! bucket_of h j)"
    using rng by simp
  then show ?thesis
    using j(1) bucket_subset [OF bucket_of_less [OF p] nth_mem [OF i]] by (simp add: hmap_random_node_def Let_def)
qed

lemma hmap_random_node_any:
  assumes wf: "hmap_wf h" and nd: "nd \<in> set (hmap_nodes h)"
  shows "\<exists>r i. hmap_random_node r (\<lambda>_. i) h = Some nd"
proof -
  have p: "hmap_placed h" using wf by (simp add: hmap_wf_def)
  have b: "nd \<in> set (hm_buckets h ! bucket_of h (hn_hash nd))" by (rule in_bucket [OF p nd])
  then obtain i where i: "i < length (hm_buckets h ! bucket_of h (hn_hash nd))" "hm_buckets h ! bucket_of h (hn_hash nd) ! i = nd"
    by (auto simp: in_set_conv_nth)
  have "random_bucket h (hn_hash nd) = Some (hm_buckets h ! bucket_of h (hn_hash nd))"
    using b by (subst random_bucket.simps) (auto simp: Let_def)
  then show ?thesis using i by (intro exI [of _ "hn_hash nd"] exI [of _ i]) (simp add: hmap_random_node_def Let_def)
qed


section \<open>Removing every node\<close>

lemma hmap_first_split:
  assumes "hmap_placed h" "hmap_first h = x # c"
  obtains pre post where "hm_buckets h = pre @ (x # c) # post" "\<forall>b \<in> set pre. b = []"
proof -
  let ?d = "dropWhile (\<lambda>c. c = []) (hm_buckets h)"
  have "(case ?d of [] \<Rightarrow> [] | c # cs \<Rightarrow> c) = x # c"
    using assms hmap_next0_drop [OF assms(1), of 0] by (simp add: hmap_first_def)
  then obtain post where "?d = (x # c) # post" by (cases ?d) auto
  then have "hm_buckets h = takeWhile (\<lambda>c. c = []) (hm_buckets h) @ (x # c) # post" by (metis takeWhile_dropWhile_id)
  moreover have "\<forall>b \<in> set (takeWhile (\<lambda>c. c = []) (hm_buckets h)). b = []" by (auto dest: set_takeWhileD)
  ultimately show thesis using that by blast
qed

text \<open>The node found before the first node goes is the first node afterwards.\<close>

lemma hmap_next_first:
  assumes wf: "hmap_wf h" and first: "hmap_first h = x # c" and h': "hmap_remove h x = Some h'" "hmap_wf h'"
  shows "hmap_next h (x # c) = hmap_first h'"
proof -
  have p: "hmap_placed h" "hmap_placed h'" using wf h'(2) by (auto simp: hmap_wf_def)
  obtain pre post where bs: "hm_buckets h = pre @ (x # c) # post" "\<forall>b \<in> set pre. b = []"
    by (rule hmap_first_split [OF p(1) first])
  let ?n = "length pre"
  have "hm_buckets h ! ?n = x # c" "?n < length (hm_buckets h)" using bs(1) by (simp_all add: nth_append)
  then have b: "bucket_of h (hn_hash x) = ?n" using p(1) unfolding hmap_placed_def by (metis list.set_intros(1))
  have "hm_buckets h' = pre @ c # post" "hm_mask h' = hm_mask h"
    using h'(1) b bs(1) by (auto simp: hmap_remove_def Let_def nth_append list_update_append)
  then have first': "hmap_first h' = (case dropWhile (\<lambda>c. c = []) (c # post) of [] \<Rightarrow> [] | c # cs \<Rightarrow> c)"
    using hmap_next0_drop [OF p(2), of 0] bs(2) by (simp add: hmap_first_def)
  have "hmap_next0 h (Suc ?n) = (case dropWhile (\<lambda>c. c = []) post of [] \<Rightarrow> [] | c # cs \<Rightarrow> c)"
    using hmap_next0_drop [OF p(1), of "Suc ?n"] bs(1) by simp
  then show ?thesis
    using first' b bucket_of_Suc [OF wf, of "hn_hash x"] by (simp add: hmap_next_def)
qed

lemma hmap_remove_each:
  "hmap_wf h \<Longrightarrow> \<exists>h'. hmap_remove_each h = Some h' \<and> hmap_wf h' \<and> hmap_nodes h' = [] \<and> hm_mask h' = hm_mask h"
  unfolding hmap_remove_each_def
proof (induction "length (hmap_nodes h)" arbitrary: h)
  case 0
  have p: "hmap_placed h" using 0(2) by (simp add: hmap_wf_def)
  have "hmap_first h = []"
  proof (cases "hmap_first h")
    case (Cons x c)
    obtain pre post where "hm_buckets h = pre @ (x # c) # post" by (rule hmap_first_split [OF p Cons])
    then show ?thesis using 0(1) by (simp add: hmap_nodes_def)
  qed
  then show ?case using 0 by (subst hmap_remove_each_loop.simps) simp
next
  case (Suc k)
  have p: "hmap_placed h" using Suc.prems by (simp add: hmap_wf_def)
  have "hmap_first h \<noteq> []"
  proof
    assume "hmap_first h = []"
    then have "hmap_nodes h = []" using hmap_next0_none [OF p, of 0] by (simp add: hmap_first_def hmap_nodes_def)
    then show False using Suc.hyps(2) by simp
  qed
  then obtain x c where x: "hmap_first h = x # c" by (cases "hmap_first h") auto
  obtain pre post where "hm_buckets h = pre @ (x # c) # post" by (rule hmap_first_split [OF p x])
  then have "x \<in> set (hmap_nodes h)" by (simp add: hmap_nodes_def)
  then obtain h1 where h1: "hmap_remove h x = Some h1" "hmap_wf h1" "mset (hmap_nodes h) = add_mset x (mset (hmap_nodes h1))"
    "hm_mask h1 = hm_mask h" by (rule hmap_remove [OF Suc.prems])
  have "k = length (hmap_nodes h1)" using Suc.hyps(2) mset_eq_length [of "hmap_nodes h" "x # hmap_nodes h1"] h1(3) by simp
  from Suc.hyps(1) [OF this h1(2)] show ?case
    using h1 x hmap_next_first [OF Suc.prems x h1(1,2)] by (subst hmap_remove_each_loop.simps) simp
qed

section \<open>Properties\<close>

text \<open>
  A caller that keeps a position and asks for the next node until there is none sees what
  \<^verbatim>\<open>HMAP_FOR_EACH\<close> sees: every node once, in the same order.
\<close>

lemma hmap_at_position_each:
  assumes "hmap_wf h" "length (hmap_nodes h) < 2 ^ 32"
  shows "at_position_all h (0, 0) = hmap_for_each h"
  using at_position_all [OF assms, of "(0, 0)"] hmap_for_each_eq [OF assms(1)]
  by (simp add: nodes_from_next hmap_nodes_def)

text \<open>
  C22.  A random node is found whatever the random numbers are, since the search for a bucket in use ends,
  and every node is the one chosen for some of them.
\<close>

theorem hmap_random_node_total:
  assumes "hmap_wf h" "hmap_nodes h \<noteq> []"
  shows "(\<forall>r rng. (\<forall>n > 0. rng n < n) \<longrightarrow> (\<exists>nd \<in> set (hmap_nodes h). hmap_random_node r rng h = Some nd))
    \<and> (\<forall>nd \<in> set (hmap_nodes h). \<exists>r i. hmap_random_node r (\<lambda>_. i) h = Some nd)"
  using hmap_random_node [OF assms] hmap_random_node_any [OF assms(1)] by blast

theorem hmap_random_node_total_witness:
  "\<exists>h nd. hmap_insert_at hmap_init \<lparr>hn_addr = 1, hn_hash = 0, hn_data = ()\<rparr> 5 = Some h \<and> hmap_random_node 17 (\<lambda>n. n - 1) h = Some nd"
proof -
  let ?nd = "\<lparr>hn_addr = 1, hn_hash = 0, hn_data = ()\<rparr>"
  obtain h where h: "hmap_insert_at hmap_init ?nd 5 = Some h" "hmap_wf h" "mset (hmap_nodes h) = {#?nd\<lparr>hn_hash := 5\<rparr>#}"
    by (rule hmap_insert [of hmap_init ?nd 5]) simp_all
  have ne: "hmap_nodes h \<noteq> []" using h(3) by auto
  have "\<exists>nd \<in> set (hmap_nodes h). hmap_random_node 17 (\<lambda>n. n - 1) h = Some nd"
    using hmap_random_node_total [OF h(2) ne, THEN conjunct1, THEN spec, THEN spec, of "\<lambda>n. n - 1" 17] by simp
  then show ?thesis using h(1) by blast
qed

end
