(* ===== verification/Ovs_Keyed.thy ===== *)
theory Ovs_Keyed
  imports Ovs_Hmap_Iter
begin

text \<open>
  Hash maps whose entries have a key: what search, insertion, removal and assignment to an entry do to the
  finite map from keys to values.  The string maps and the MAC learning table are such maps.
\<close>

section \<open>Maps with keys\<close>

text \<open>
  \<open>key\<close> is the key in an entry and \<open>val\<close> its value; \<open>hf\<close> is the hash of a key and \<open>ok\<close> what holds of
  every key.  In a \<open>keyed_by\<close> map the nodes have the hashes of their keys; in a \<open>dict_by\<close> map every key is there once.
\<close>

abbreviation key_of :: "('a \<Rightarrow> 'k) \<Rightarrow> 'a hmap_node \<Rightarrow> 'k" where
  "key_of key nd \<equiv> key (hn_data nd)"

definition keyed_by :: "('k \<Rightarrow> size_t) \<Rightarrow> ('k \<Rightarrow> bool) \<Rightarrow> ('a \<Rightarrow> 'k) \<Rightarrow> 'a hmap \<Rightarrow> bool" where
  "keyed_by hf ok key h \<longleftrightarrow> hmap_wf h
     \<and> (\<forall>nd \<in> set (hmap_nodes h). hn_hash nd = hf (key_of key nd) \<and> ok (key_of key nd))"

definition dict_by :: "('k \<Rightarrow> size_t) \<Rightarrow> ('k \<Rightarrow> bool) \<Rightarrow> ('a \<Rightarrow> 'k) \<Rightarrow> 'a hmap \<Rightarrow> bool" where
  "dict_by hf ok key h \<longleftrightarrow> keyed_by hf ok key h \<and> distinct (map (key_of key) (hmap_nodes h))"

definition dict_of :: "('a \<Rightarrow> 'k) \<Rightarrow> ('a \<Rightarrow> 'v) \<Rightarrow> 'a hmap \<Rightarrow> 'k \<Rightarrow> 'v option" where
  "dict_of key val h = map_of (map (\<lambda>nd. (key_of key nd, val (hn_data nd))) (hmap_nodes h))"

abbreviation addrs :: "'a hmap \<Rightarrow> addr set" where
  "addrs h \<equiv> hn_addr ` set (hmap_nodes h)"

lemma dict_of_Some:
  assumes "dict_by hf ok key h"
  shows "dict_of key val h k = Some v \<longleftrightarrow> (\<exists>nd \<in> set (hmap_nodes h). key_of key nd = k \<and> val (hn_data nd) = v)"
  using assms by (auto simp: dict_of_def dict_by_def comp_def)

lemma dict_of_None: "dict_of key val h k = None \<longleftrightarrow> (\<forall>nd \<in> set (hmap_nodes h). key_of key nd \<noteq> k)"
  by (auto simp: dict_of_def map_of_eq_None_iff image_image)

lemma dict_init [simp]: "dict_by hf ok key hmap_init" "dict_of key val hmap_init = Map.empty"
  by (simp_all add: dict_by_def keyed_by_def dict_of_def)

lemma hmap_addr_eq: "hmap_wf h \<Longrightarrow> x \<in> set (hmap_nodes h) \<Longrightarrow> y \<in> set (hmap_nodes h) \<Longrightarrow> hn_addr x = hn_addr y \<Longrightarrow> x = y"
  by (auto simp: hmap_wf_def distinct_map inj_on_def)

lemma dict_key_eq:
  "dict_by hf ok key h \<Longrightarrow> x \<in> set (hmap_nodes h) \<Longrightarrow> y \<in> set (hmap_nodes h) \<Longrightarrow> key_of key x = key_of key y \<Longrightarrow> x = y"
  by (auto simp: dict_by_def distinct_map inj_on_def)

text \<open>Search by hash and name finds an entry with the name when there is one.\<close>

lemma keyed_search:
  assumes "keyed_by hf ok key h" "\<forall>nd \<in> set (hmap_nodes h). P nd \<longleftrightarrow> key_of key nd = k"
  shows "hmap_for_each_with_hash P (hf k) h = Some nd \<Longrightarrow> nd \<in> set (hmap_nodes h) \<and> key_of key nd = k"
    "hmap_for_each_with_hash P (hf k) h = None \<longleftrightarrow> (\<forall>nd \<in> set (hmap_nodes h). key_of key nd \<noteq> k)"
proof -
  have n: "nodes_with_hash h (hf k) = filter (\<lambda>nd. hn_hash nd = hf k) (hmap_nodes h)"
    using assms(1) by (intro nodes_with_hash_eq) (simp add: keyed_by_def hmap_wf_def)
  show "hmap_for_each_with_hash P (hf k) h = Some nd \<Longrightarrow> nd \<in> set (hmap_nodes h) \<and> key_of key nd = k"
    using assms(2) unfolding hmap_for_each_with_hash_eq n find_Some_iff by (metis filter_is_subset nth_mem subsetD)
  show "hmap_for_each_with_hash P (hf k) h = None \<longleftrightarrow> (\<forall>nd \<in> set (hmap_nodes h). key_of key nd \<noteq> k)"
    using assms unfolding hmap_for_each_with_hash_eq n find_None_iff keyed_by_def by auto
qed

lemma dict_search:
  assumes "dict_by hf ok key h" "\<forall>nd \<in> set (hmap_nodes h). P nd \<longleftrightarrow> key_of key nd = k"
  shows "hmap_for_each_with_hash P (hf k) h = Some nd \<longleftrightarrow> nd \<in> set (hmap_nodes h) \<and> key_of key nd = k"
    "map_option (\<lambda>nd. val (hn_data nd)) (hmap_for_each_with_hash P (hf k) h) = dict_of key val h k"
proof -
  have k: "keyed_by hf ok key h" using assms(1) by (simp add: dict_by_def)
  let ?f = "hmap_for_each_with_hash P (hf k) h"
  note s = keyed_search [OF k assms(2)]
  show "?f = Some nd \<longleftrightarrow> nd \<in> set (hmap_nodes h) \<and> key_of key nd = k"
  proof
    assume "nd \<in> set (hmap_nodes h) \<and> key_of key nd = k"
    moreover from this obtain x where "?f = Some x" using s(2) by (cases ?f) auto
    ultimately show "?f = Some nd" using s(1) dict_key_eq [OF assms(1)] by metis
  qed (rule s(1))
  show "map_option (\<lambda>nd. val (hn_data nd)) ?f = dict_of key val h k"
  proof (cases ?f)
    case None
    then show ?thesis using s(2) dict_of_None [of key val h k] by simp
  next
    case (Some x)
    then show ?thesis using s(1) [OF Some] dict_of_Some [OF assms(1), of val k "val (hn_data x)"] by auto
  qed
qed

text \<open>Adding, deleting and changing an entry.\<close>

lemma keyed_add:
  assumes "keyed_by hf ok key h" "hn_addr nd \<notin> addrs h" "ok (key_of key nd)"
  obtains h' where "hmap_insert_at h nd (hf (key_of key nd)) = Some h'" "keyed_by hf ok key h'"
    "mset (hmap_nodes h') = add_mset (nd\<lparr>hn_hash := hf (key_of key nd)\<rparr>) (mset (hmap_nodes h))"
    "hm_n h' = hm_n h + 1" "addrs h' = insert (hn_addr nd) (addrs h)"
proof -
  let ?nd = "nd\<lparr>hn_hash := hf (key_of key nd)\<rparr>"
  have wf: "hmap_wf h" using assms(1) by (simp add: keyed_by_def)
  obtain h' where h': "hmap_insert_at h nd (hf (key_of key nd)) = Some h'" "hmap_wf h'"
    "mset (hmap_nodes h') = add_mset ?nd (mset (hmap_nodes h))" "hm_n h' = hm_n h + 1"
    by (rule hmap_insert [OF wf assms(2)])
  have s: "set (hmap_nodes h') = insert ?nd (set (hmap_nodes h))"
    using h'(3) by (metis set_mset_add_mset_insert set_mset_mset)
  have "keyed_by hf ok key h'" using assms h'(2) by (auto simp: keyed_by_def s)
  then show thesis using that h' s by simp
qed

lemma dict_add:
  assumes "dict_by hf ok key h" "hn_addr nd \<notin> addrs h" "ok (key_of key nd)" "dict_of key val h (key_of key nd) = None"
  obtains h' where "hmap_insert_at h nd (hf (key_of key nd)) = Some h'" "dict_by hf ok key h'"
    "dict_of key val h' = (dict_of key val h)(key_of key nd \<mapsto> val (hn_data nd))"
    "hm_n h' = hm_n h + 1" "addrs h' = insert (hn_addr nd) (addrs h)"
proof -
  let ?nd = "nd\<lparr>hn_hash := hf (key_of key nd)\<rparr>"
  have k: "keyed_by hf ok key h" using assms(1) by (simp add: dict_by_def)
  obtain h' where h': "hmap_insert_at h nd (hf (key_of key nd)) = Some h'" "keyed_by hf ok key h'"
    "mset (hmap_nodes h') = add_mset ?nd (mset (hmap_nodes h))" "hm_n h' = hm_n h + 1" "addrs h' = insert (hn_addr nd) (addrs h)"
    by (rule keyed_add [OF k assms(2,3)])
  have s: "set (hmap_nodes h') = insert ?nd (set (hmap_nodes h))"
    using h'(3) by (metis set_mset_add_mset_insert set_mset_mset)
  have new: "\<forall>x \<in> set (hmap_nodes h). key_of key x \<noteq> key_of key nd" using assms(4) by (simp add: dict_of_None)
  have "mset (hmap_nodes h') = mset (?nd # hmap_nodes h)" using h'(3) by simp
  then have wf: "dict_by hf ok key h'"
    using assms(1) h'(2) new same_nodes_distinct [of "hmap_nodes h'" "?nd # hmap_nodes h" "key_of key"]
    by (auto simp: dict_by_def)
  have "dict_of key val h' x = ((dict_of key val h)(key_of key nd \<mapsto> val (hn_data nd))) x" for x
  proof (cases "dict_of key val h' x")
    case None
    then have "dict_of key val h x = None" "x \<noteq> key_of key nd" by (auto simp: dict_of_None s)
    then show ?thesis using None by simp
  next
    case (Some v)
    then have "if x = key_of key nd then v = val (hn_data nd) else dict_of key val h x = Some v"
      using new by (auto simp: dict_of_Some [OF wf] dict_of_Some [OF assms(1)] s)
    then show ?thesis using Some by (simp split: if_splits)
  qed
  then show thesis using that h' wf by blast
qed

lemma dict_del:
  assumes "dict_by hf ok key h" "nd \<in> set (hmap_nodes h)"
  obtains h' where "hmap_remove h nd = Some h'" "dict_by hf ok key h'"
    "dict_of key val h' = (dict_of key val h)(key_of key nd := None)" "addrs h' = addrs h - {hn_addr nd}"
    "mset (hmap_nodes h) = add_mset nd (mset (hmap_nodes h'))"
proof -
  have wf: "hmap_wf h" using assms(1) by (simp add: dict_by_def keyed_by_def)
  obtain h' where h': "hmap_remove h nd = Some h'" "hmap_wf h'" "mset (hmap_nodes h) = add_mset nd (mset (hmap_nodes h'))"
    by (rule hmap_remove [OF wf assms(2)])
  have m: "mset (hmap_nodes h) = mset (nd # hmap_nodes h')" using h'(3) by simp
  have s: "set (hmap_nodes h) = insert nd (set (hmap_nodes h'))"
    using h'(3) by (metis set_mset_add_mset_insert set_mset_mset)
  have d: "distinct (map (key_of key) (nd # hmap_nodes h'))" "distinct (map hn_addr (nd # hmap_nodes h'))"
    using assms(1) wf same_nodes_distinct [OF m] by (auto simp: dict_by_def hmap_wf_def)
  have wf': "dict_by hf ok key h'" using assms(1) h'(2) d(1) s by (auto simp: dict_by_def keyed_by_def)
  have "dict_of key val h' x = ((dict_of key val h)(key_of key nd := None)) x" for x
  proof (cases "dict_of key val h' x")
    case None
    then have "x \<noteq> key_of key nd \<Longrightarrow> dict_of key val h x = None" by (auto simp: dict_of_None s)
    then show ?thesis using None by auto
  next
    case (Some v)
    then obtain y where "y \<in> set (hmap_nodes h')" "key_of key y = x" "val (hn_data y) = v"
      by (auto simp: dict_of_Some [OF wf'])
    then have "dict_of key val h x = Some v" "x \<noteq> key_of key nd"
      using d(1) s by (auto simp: dict_of_Some [OF assms(1)] image_iff)
    then show ?thesis using Some by simp
  qed
  moreover have "addrs h' = addrs h - {hn_addr nd}" using d(2) s by auto
  ultimately show thesis using that [OF h'(1) wf' _ _ h'(3)] by blast
qed

text \<open>Assigning to an entry through a pointer, its name unchanged.\<close>

abbreviation set_data :: "'a hmap \<Rightarrow> 'a hmap_node \<Rightarrow> ('a \<Rightarrow> 'a) \<Rightarrow> 'a hmap" where
  "set_data h nd f \<equiv> hmap_put (hn_addr nd) (\<lambda>x. x\<lparr>hn_data := f (hn_data x)\<rparr>) h"

lemma dict_set:
  assumes "dict_by hf ok key h" "nd \<in> set (hmap_nodes h)" "\<And>x. key (f x) = key x"
  shows "dict_by hf ok key (set_data h nd f)" "addrs (set_data h nd f) = addrs h"
    "dict_of key val (set_data h nd f) = (dict_of key val h)(key_of key nd \<mapsto> val (f (hn_data nd)))"
    "hm_n (set_data h nd f) = hm_n h"
proof -
  define g :: "'b hmap_node \<Rightarrow> 'b hmap_node" where "g = (\<lambda>x. if hn_addr x = hn_addr nd then x\<lparr>hn_data := f (hn_data x)\<rparr> else x)"
  have wf: "hmap_wf h" using assms(1) by (simp add: dict_by_def keyed_by_def)
  have g: "hn_addr (g x) = hn_addr x" "hn_hash (g x) = hn_hash x" "key_of key (g x) = key_of key x" for x
    using assms(3) by (auto simp: g_def)
  have n: "hmap_nodes (set_data h nd f) = map g (hmap_nodes h)" by (simp add: hmap_put_nodes g_def)
  have "map (key_of key) (map g xs) = map (key_of key) xs" for xs by (induction xs) (simp_all add: g(3))
  then have d: "distinct (map (key_of key) (map g (hmap_nodes h)))" using assms(1) unfolding dict_by_def by metis
  have "hmap_wf (set_data h nd f)" by (rule hmap_put_wf [OF wf]) simp
  then show wf': "dict_by hf ok key (set_data h nd f)"
    using assms(1) d g unfolding dict_by_def keyed_by_def n by auto
  show "addrs (set_data h nd f) = addrs h" unfolding n using g(1) by (auto simp: image_iff)
  have same: "g x = (if x = nd then nd\<lparr>hn_data := f (hn_data nd)\<rparr> else x)" if "x \<in> set (hmap_nodes h)" for x
    using hmap_addr_eq [OF wf that assms(2)] by (auto simp: g_def)
  have "dict_of key val (set_data h nd f) k = ((dict_of key val h)(key_of key nd \<mapsto> val (f (hn_data nd)))) k" for k
  proof (cases "\<exists>x \<in> set (hmap_nodes h). key_of key x = k")
    case True
    then obtain x where x: "x \<in> set (hmap_nodes h)" "key_of key x = k" by blast
    then have "dict_of key val (set_data h nd f) k = Some (val (hn_data (g x)))"
      unfolding dict_of_Some [OF wf'] n using g(3) by auto
    moreover have "dict_of key val h k = Some (val (hn_data x))" unfolding dict_of_Some [OF assms(1)] using x by auto
    ultimately show ?thesis using same [OF x(1)] x(2) dict_key_eq [OF assms(1) x(1) assms(2)] by auto
  next
    case False
    then have "dict_of key val (set_data h nd f) k = None" "dict_of key val h k = None" "k \<noteq> key_of key nd"
      using g(3) assms(2) by (auto simp: dict_of_None n)
    then show ?thesis by simp
  qed
  then show "dict_of key val (set_data h nd f) = (dict_of key val h)(key_of key nd \<mapsto> val (f (hn_data nd)))" by blast
qed (simp add: hmap_put_def)

text \<open>The number of entries and the entries that iteration visits.\<close>

lemma dict_dom: "dom (dict_of key val h) = key_of key ` set (hmap_nodes h)"
  by (force simp: dict_of_def dom_map_of_conv_image_fst)

lemma dict_nodes_card:
  assumes "dict_by hf ok key h"
  shows "length (hmap_nodes h) = card (dom (dict_of key val h))"
  using assms unfolding dict_dom dict_by_def by (simp add: card_image distinct_map distinct_card)

lemma dict_count_eq:
  assumes "dict_by hf ok key a" "dict_by hf' ok' key' b" "card (dom (dict_of key val a)) < 2 ^ 32" "card (dom (dict_of key' val' b)) < 2 ^ 32"
  shows "hmap_count a = hmap_count b \<longleftrightarrow> card (dom (dict_of key val a)) = card (dom (dict_of key' val' b))"
proof -
  have "hm_n a = of_nat (card (dom (dict_of key val a)))" "hm_n b = of_nat (card (dom (dict_of key' val' b)))"
    using assms(1,2) dict_nodes_card [OF assms(1), of val] dict_nodes_card [OF assms(2), of val']
    by (auto simp: dict_by_def keyed_by_def hmap_wf_def)
  then show ?thesis using assms(3,4) by (simp add: hmap_count_def word_unat_eq_iff unat_of_nat)
qed

end
