(* ===== verification/Ovs_Dict.thy ===== *)
theory Ovs_Dict
  imports Machine Ovs_Hash Ovs_Keyed "HOL-Library.List_Lexorder"
begin

text \<open>
  What \<^verbatim>\<open>simap\<close>, \<^verbatim>\<open>smap\<close>, \<^verbatim>\<open>sset\<close> and \<^verbatim>\<open>shash\<close> share: C strings, and hash maps whose entries
  have a string as a key.  A string is the list of its bytes before the terminator;
  the functions of \<^verbatim>\<open>string.h\<close> see the terminator at its end.
\<close>

type_synonym str = "u8 list"

definition str_ok :: "str \<Rightarrow> bool" where
  "str_ok s \<longleftrightarrow> 0 \<notin> set s"

section \<open>Strings\<close>

text \<open>The sign of a difference of bytes is that of \<^verbatim>\<open>unsigned char\<close> values.\<close>

fun strcmp :: "str \<Rightarrow> str \<Rightarrow> int" where
  "strcmp [] [] = 0"
| "strcmp [] (b # bs) = - uint b"
| "strcmp (a # as) [] = uint a"
| "strcmp (a # as) (b # bs) = (if a = b then strcmp as bs else uint a - uint b)"

fun strncmp :: "str \<Rightarrow> str \<Rightarrow> nat \<Rightarrow> int" where
  "strncmp as bs 0 = 0"
| "strncmp [] [] (Suc n) = 0"
| "strncmp [] (b # bs) (Suc n) = - uint b"
| "strncmp (a # as) [] (Suc n) = uint a"
| "strncmp (a # as) (b # bs) (Suc n) = (if a = b then strncmp as bs n else uint a - uint b)"

text \<open>\<^verbatim>\<open>!s[i]\<close>, for \<open>i\<close> up to the length of \<open>s\<close>.\<close>

definition nul_at :: "str \<Rightarrow> nat \<Rightarrow> bool" where
  "nul_at s i \<longleftrightarrow> i = length s"

lemma str_ok_simps [simp]: "str_ok []" "str_ok (c # s) \<longleftrightarrow> c \<noteq> 0 \<and> str_ok s"
  by (auto simp: str_ok_def)

lemma uint_eqs: "uint x = 0 \<longleftrightarrow> x = 0" "uint x = uint y \<longleftrightarrow> x = y" "0 < uint x \<longleftrightarrow> x \<noteq> 0"
  using uint_ge_0 [of x] unfolding uint_0_iff [symmetric] word_uint_eq_iff [of x y] by linarith+

lemma strncmp_eq: "str_ok a \<Longrightarrow> str_ok b \<Longrightarrow> strncmp a b n = 0 \<longleftrightarrow> take n a = take n b"
  by (induction a b n rule: strncmp.induct) (auto simp: uint_eqs)

text \<open>The test of the \<^verbatim>\<open>find\<close> functions: the name is the first \<open>n\<close> bytes of the other.\<close>

lemma strncmp_nul:
  assumes "str_ok a" "str_ok b" "n \<le> length b"
  shows "strncmp a b n = 0 \<and> nul_at a n \<longleftrightarrow> a = take n b"
  using assms by (auto simp: strncmp_eq nul_at_def)

lemma strcmp_eq: "str_ok a \<Longrightarrow> str_ok b \<Longrightarrow> strcmp a b = 0 \<longleftrightarrow> a = b"
  by (induction a b rule: strcmp.induct) (auto simp: uint_eqs)

lemma strcmp_less: "str_ok a \<Longrightarrow> str_ok b \<Longrightarrow> strcmp a b < 0 \<longleftrightarrow> a < b"
  by (induction a b rule: strcmp.induct) (auto simp: word_less_def uint_eqs)

text \<open>\<^verbatim>\<open>qsort\<close> with a comparison of strings.\<close>

fun qsort_insert :: "('a \<Rightarrow> 'a \<Rightarrow> int) \<Rightarrow> 'a \<Rightarrow> 'a list \<Rightarrow> 'a list" where
  "qsort_insert cmp x [] = [x]"
| "qsort_insert cmp x (y # ys) = (if cmp x y \<le> 0 then x # y # ys else y # qsort_insert cmp x ys)"

definition qsort :: "('a \<Rightarrow> 'a \<Rightarrow> int) \<Rightarrow> 'a list \<Rightarrow> 'a list" where
  "qsort cmp xs = foldr (qsort_insert cmp) xs []"

lemma strcmp_le: "str_ok a \<Longrightarrow> str_ok b \<Longrightarrow> strcmp a b \<le> 0 \<longleftrightarrow> a \<le> b"
  using strcmp_less [of a b] strcmp_eq [of a b] by (auto simp: le_less)

lemma qsort_by:
  assumes "\<forall>x \<in> set xs. str_ok (key x)"
  shows "qsort (\<lambda>a b. strcmp (key a) (key b)) xs = sort_key key xs"
  using assms
proof (induction xs)
  case (Cons x xs)
  have "qsort_insert (\<lambda>a b. strcmp (key a) (key b)) x ys = insort_key key x ys"
    if "\<forall>y \<in> set ys. str_ok (key y)" for ys
    using that Cons.prems by (induction ys) (auto simp: strcmp_le)
  then show ?case using Cons by (simp add: qsort_def)
qed (simp add: qsort_def)

section \<open>Maps with strings as keys\<close>

abbreviation name_hash :: "str \<Rightarrow> size_t" where
  "name_hash s \<equiv> hash_bytes s 0"

abbreviation keyed :: "('a \<Rightarrow> str) \<Rightarrow> 'a hmap \<Rightarrow> bool" where
  "keyed \<equiv> keyed_by name_hash str_ok"

abbreviation dict_wf :: "('a \<Rightarrow> str) \<Rightarrow> 'a hmap \<Rightarrow> bool" where
  "dict_wf \<equiv> dict_by name_hash str_ok"

lemmas keyed_def = keyed_by_def [where hf = name_hash and ok = str_ok]

lemmas dict_wf_def = dict_by_def [where hf = name_hash and ok = str_ok]

text \<open>Search with the test of \<^verbatim>\<open>simap_find__\<close>, \<^verbatim>\<open>smap_find__\<close> and \<^verbatim>\<open>shash_find__\<close>.\<close>

lemma dict_search_name:
  fixes key :: "'a \<Rightarrow> str" and name :: str and len :: nat
  defines "P \<equiv> \<lambda>nd. strncmp (key_of key nd) name len = 0 \<and> nul_at (key_of key nd) len"
  assumes "dict_wf key h" "str_ok name" "len \<le> length name"
  shows "hmap_for_each_with_hash P (name_hash (take len name)) h = Some nd
      \<longleftrightarrow> nd \<in> set (hmap_nodes h) \<and> key_of key nd = take len name"
    "map_option (\<lambda>nd. val (hn_data nd)) (hmap_for_each_with_hash P (name_hash (take len name)) h)
      = dict_of key val h (take len name)"
proof -
  have "\<forall>nd \<in> set (hmap_nodes h). P nd \<longleftrightarrow> key_of key nd = take len name"
    using assms by (auto simp: P_def strncmp_nul dict_wf_def keyed_def)
  note s = dict_search [OF assms(2) this]
  show "hmap_for_each_with_hash P (name_hash (take len name)) h = Some nd
      \<longleftrightarrow> nd \<in> set (hmap_nodes h) \<and> key_of key nd = take len name" by (rule s(1))
  show "map_option (\<lambda>nd. val (hn_data nd)) (hmap_for_each_with_hash P (name_hash (take len name)) h)
      = dict_of key val h (take len name)" by (rule s(2))
qed

lemma dict_sorted:
  assumes "dict_wf key h"
  shows "\<exists>xs. hmap_for_each h = Some xs \<and> length xs = card (dom (dict_of key val h))
    \<and> sorted (map (key_of key) (qsort (\<lambda>a b. strcmp (key_of key a) (key_of key b)) xs))
    \<and> mset (qsort (\<lambda>a b. strcmp (key_of key a) (key_of key b)) xs) = mset (hmap_nodes h)"
proof -
  have "hmap_wf h" "\<forall>x \<in> set (hmap_nodes h). str_ok (key_of key x)" using assms by (auto simp: dict_wf_def keyed_def)
  then show ?thesis using hmap_for_each_eq [of h] dict_nodes_card [OF assms, of val] by (simp add: qsort_by)
qed

section \<open>The contract of a dictionary\<close>

text \<open>
  \<open>live\<close> are the addresses in use; \<open>put\<close> gets the address that the allocator returns, should it need one.
\<close>

datatype ('k, 'v) dict_op = Put addr 'k 'v | Del 'k

fun dict_step :: "(addr \<Rightarrow> 'm \<Rightarrow> 'k \<Rightarrow> 'v \<Rightarrow> 'm option) \<Rightarrow> ('m \<Rightarrow> 'k \<Rightarrow> 'm option) \<Rightarrow> ('k, 'v) dict_op \<Rightarrow> 'm \<Rightarrow> 'm option" where
  "dict_step put del (Put a k v) m = put a m k v"
| "dict_step put del (Del k) m = del m k"

fun dict_op_ok :: "('m \<Rightarrow> addr set) \<Rightarrow> ('k \<Rightarrow> bool) \<Rightarrow> 'm \<Rightarrow> ('k, 'v) dict_op \<Rightarrow> bool" where
  "dict_op_ok live kok m (Put a k v) \<longleftrightarrow> a \<notin> live m \<and> kok k"
| "dict_op_ok live kok m (Del k) \<longleftrightarrow> kok k"

text \<open>What the operations mean for a map.\<close>

fun dict_spec :: "('k, 'v) dict_op \<Rightarrow> ('k \<Rightarrow> 'v option) \<Rightarrow> 'k \<Rightarrow> 'v option" where
  "dict_spec (Put a k v) f = f(k \<mapsto> v)"
| "dict_spec (Del k) f = f(k := None)"

locale dictionary =
  fixes inv :: "'m \<Rightarrow> bool" and abs :: "'m \<Rightarrow> 'k \<Rightarrow> 'v option" and live :: "'m \<Rightarrow> addr set" and kok :: "'k \<Rightarrow> bool"
    and put :: "addr \<Rightarrow> 'm \<Rightarrow> 'k \<Rightarrow> 'v \<Rightarrow> 'm option" and del :: "'m \<Rightarrow> 'k \<Rightarrow> 'm option"
  assumes put_law: "inv m \<Longrightarrow> kok k \<Longrightarrow> a \<notin> live m \<Longrightarrow> \<exists>m'. put a m k v = Some m' \<and> inv m' \<and> abs m' = (abs m)(k \<mapsto> v)"
    and del_law: "inv m \<Longrightarrow> kok k \<Longrightarrow> \<exists>m'. del m k = Some m' \<and> inv m' \<and> abs m' = (abs m)(k := None)"
begin

lemma step_effect:
  assumes "inv m" "dict_op_ok live kok m e"
  shows "\<exists>m'. dict_step put del e m = Some m' \<and> inv m' \<and> abs m' = dict_spec e (abs m)"
proof (cases e)
  case (Put a k v)
  then show ?thesis using assms put_law [of m k a v] by simp
next
  case (Del k)
  then show ?thesis using assms del_law [of m k] by simp
qed

end

sublocale dictionary \<subseteq> refined_machine inv "dict_op_ok live kok" "dict_step put del" abs dict_spec
  by unfold_locales (rule step_effect)

end
