(* ===== verification/Ovs_Simap.thy ===== *)
theory Ovs_Simap
  imports Ovs_Dict
begin

text \<open>
  The map from strings to unsigned integers of \<^verbatim>\<open>lib/simap.c\<close>.  Functions that
  allocate a node get its address as their first argument; \<^verbatim>\<open>free\<close> has no effect on the model.
\<close>

record simap_node =
  sn_name :: str
  sn_data :: u32

type_synonym simap = "simap_node hmap"

section \<open>Operations\<close>

definition simap_init :: simap where
  "simap_init = hmap_init"

definition simap_swap :: "simap \<Rightarrow> simap \<Rightarrow> simap \<times> simap" where
  "simap_swap a b = hmap_swap a b"

definition simap_clear :: "simap \<Rightarrow> simap option" where
  "simap_clear simap = hmap_remove_each simap"

definition simap_is_empty :: "simap \<Rightarrow> bool" where
  "simap_is_empty simap = hmap_is_empty simap"

definition simap_count :: "simap \<Rightarrow> size_t" where
  "simap_count simap = hmap_count simap"

definition simap_hash_name :: "str \<Rightarrow> nat \<Rightarrow> size_t" where
  "simap_hash_name name len = hash_bytes (take len name) 0"

definition simap_find0 :: "simap \<Rightarrow> str \<Rightarrow> nat \<Rightarrow> size_t \<Rightarrow> simap_node hmap_node option" where
  "simap_find0 simap name name_len hash =
     hmap_for_each_with_hash
       (\<lambda>node. strncmp (sn_name (hn_data node)) name name_len = 0 \<and> nul_at (sn_name (hn_data node)) name_len) hash simap"

definition simap_add_nocopy :: "addr \<Rightarrow> simap \<Rightarrow> str \<Rightarrow> u32 \<Rightarrow> size_t \<Rightarrow> simap option" where
  "simap_add_nocopy node simap name data hash =
     hmap_insert_at simap \<lparr>hn_addr = node, hn_hash = 0, hn_data = \<lparr>sn_name = name, sn_data = data\<rparr>\<rparr> hash"

definition simap_put :: "addr \<Rightarrow> simap \<Rightarrow> str \<Rightarrow> u32 \<Rightarrow> (bool \<times> simap) option" where
  "simap_put a simap name data =
     (let len = length name;
          hash = simap_hash_name name len
      in case simap_find0 simap name len hash of
           Some node \<Rightarrow> Some (False, set_data simap node (\<lambda>d. d\<lparr>sn_data := data\<rparr>))
         | None \<Rightarrow> do { simap \<leftarrow> simap_add_nocopy a simap name data hash; Some (True, simap) })"

definition simap_increase :: "addr \<Rightarrow> simap \<Rightarrow> str \<Rightarrow> u32 \<Rightarrow> (u32 \<times> simap) option" where
  "simap_increase a simap name amt =
     (if amt \<noteq> 0 then
        let len = length name;
            hash = simap_hash_name name len
        in case simap_find0 simap name len hash of
             Some node \<Rightarrow>
               Some (sn_data (hn_data node) + amt, set_data simap node (\<lambda>d. d\<lparr>sn_data := sn_data d + amt\<rparr>))
           | None \<Rightarrow> do { simap \<leftarrow> simap_add_nocopy a simap name amt hash; Some (amt, simap) }
      else Some (0, simap))"

definition simap_delete :: "simap \<Rightarrow> simap_node hmap_node \<Rightarrow> simap option" where
  "simap_delete simap node = hmap_remove simap node"

definition simap_find_len :: "simap \<Rightarrow> str \<Rightarrow> nat \<Rightarrow> simap_node hmap_node option" where
  "simap_find_len simap name len = simap_find0 simap name len (simap_hash_name name len)"

definition simap_find :: "simap \<Rightarrow> str \<Rightarrow> simap_node hmap_node option" where
  "simap_find simap name = simap_find_len simap name (length name)"

definition simap_find_and_delete :: "simap \<Rightarrow> str \<Rightarrow> (bool \<times> simap) option" where
  "simap_find_and_delete simap name =
     (case simap_find simap name of
        Some node \<Rightarrow> do { simap \<leftarrow> simap_delete simap node; Some (True, simap) }
      | None \<Rightarrow> Some (False, simap))"

definition simap_get :: "simap \<Rightarrow> str \<Rightarrow> u32" where
  "simap_get simap name = (case simap_find simap name of Some node \<Rightarrow> sn_data (hn_data node) | None \<Rightarrow> 0)"

definition simap_contains :: "simap \<Rightarrow> str \<Rightarrow> bool" where
  "simap_contains simap name \<longleftrightarrow> simap_find simap name \<noteq> None"

definition simap_compare_nodes_by_name :: "simap_node hmap_node \<Rightarrow> simap_node hmap_node \<Rightarrow> int" where
  "simap_compare_nodes_by_name a b = strcmp (sn_name (hn_data a)) (sn_name (hn_data b))"

text \<open>The outer \<open>None\<close> is the failed assertion, the inner one the null pointer.\<close>

definition simap_sort :: "simap \<Rightarrow> simap_node hmap_node list option option" where
  "simap_sort simap =
     (if simap_is_empty simap then Some None
      else do {
        nodes \<leftarrow> hmap_for_each simap;
        if of_nat (length nodes) = simap_count simap
        then Some (Some (qsort simap_compare_nodes_by_name nodes)) else None
      })"

section \<open>What the operations do\<close>

abbreviation simap_wf :: "simap \<Rightarrow> bool" where
  "simap_wf \<equiv> dict_wf sn_name"

abbreviation simap_of :: "simap \<Rightarrow> str \<Rightarrow> u32 option" where
  "simap_of \<equiv> dict_of sn_name sn_data"

lemma simap_find_len:
  assumes "simap_wf m" "str_ok name" "len \<le> length name"
  shows "simap_find_len m name len = Some nd \<longleftrightarrow> nd \<in> set (hmap_nodes m) \<and> sn_name (hn_data nd) = take len name"
    "map_option (\<lambda>nd. sn_data (hn_data nd)) (simap_find_len m name len) = simap_of m (take len name)"
  using dict_search_name [OF assms] by (simp_all add: simap_find_len_def simap_find0_def simap_hash_name_def)

lemma simap_find:
  assumes "simap_wf m" "str_ok name"
  shows "simap_find m name = Some nd \<longleftrightarrow> nd \<in> set (hmap_nodes m) \<and> sn_name (hn_data nd) = name"
    "map_option (\<lambda>nd. sn_data (hn_data nd)) (simap_find m name) = simap_of m name"
  using simap_find_len [OF assms order_refl] by (simp_all add: simap_find_def)

lemma simap_find0_find: "simap_find0 m name (length name) (simap_hash_name name (length name)) = simap_find m name"
  by (simp add: simap_find_def simap_find_len_def)

lemma simap_find_cases:
  assumes "simap_wf m" "str_ok name"
  obtains "simap_find m name = None" "simap_of m name = None"
  | nd where "simap_find m name = Some nd" "nd \<in> set (hmap_nodes m)" "sn_name (hn_data nd) = name"
      "simap_of m name = Some (sn_data (hn_data nd))"
  using simap_find [OF assms] by (cases "simap_find m name") auto

lemma simap_add_nocopy:
  assumes "simap_wf m" "str_ok name" "a \<notin> addrs m" "simap_of m name = None"
  shows "\<exists>m'. simap_add_nocopy a m name v (simap_hash_name name (length name)) = Some m'
    \<and> simap_wf m' \<and> simap_of m' = (simap_of m)(name \<mapsto> v) \<and> addrs m' = insert a (addrs m)"
  using dict_add [where hf = name_hash and ok = str_ok and key = sn_name and val = sn_data and h = m
      and nd = "\<lparr>hn_addr = a, hn_hash = 0, hn_data = \<lparr>sn_name = name, sn_data = v\<rparr>\<rparr>"] assms
  by (simp add: simap_add_nocopy_def simap_hash_name_def) metis

lemma simap_set:
  assumes "simap_wf m" "nd \<in> set (hmap_nodes m)"
  shows "simap_wf (set_data m nd (\<lambda>d. d\<lparr>sn_data := f d\<rparr>))" "addrs (set_data m nd (\<lambda>d. d\<lparr>sn_data := f d\<rparr>)) = addrs m"
    "simap_of (set_data m nd (\<lambda>d. d\<lparr>sn_data := f d\<rparr>)) = (simap_of m)(sn_name (hn_data nd) \<mapsto> f (hn_data nd))"
  using dict_set(1,2) [OF assms, of "\<lambda>d. d\<lparr>sn_data := f d\<rparr>"]
    dict_set(3) [OF assms, of "\<lambda>d. d\<lparr>sn_data := f d\<rparr>" sn_data] by auto

lemma simap_put:
  assumes "simap_wf m" "str_ok name" "a \<notin> addrs m"
  shows "\<exists>m'. simap_put a m name v = Some (simap_of m name = None, m') \<and> simap_wf m'
    \<and> simap_of m' = (simap_of m)(name \<mapsto> v) \<and> addrs m' \<subseteq> insert a (addrs m)"
proof (cases rule: simap_find_cases [OF assms(1,2)])
  case 1
  then show ?thesis using simap_add_nocopy [OF assms(1-3) 1(2), of v] by (auto simp: simap_put_def Let_def simap_find0_find)
next
  case (2 nd)
  then show ?thesis using simap_set [OF assms(1) 2(2), of "\<lambda>_. v"]
    by (auto simp: simap_put_def Let_def simap_find0_find)
qed

lemma simap_increase:
  assumes "simap_wf m" "str_ok name" "a \<notin> addrs m" "amt \<noteq> 0"
  shows "\<exists>m'. simap_increase a m name amt = Some (simap_get m name + amt, m') \<and> simap_wf m'
    \<and> simap_of m' = (simap_of m)(name \<mapsto> simap_get m name + amt) \<and> addrs m' \<subseteq> insert a (addrs m)"
proof (cases rule: simap_find_cases [OF assms(1,2)])
  case 1
  then show ?thesis using simap_add_nocopy [OF assms(1-3) 1(2), of amt] assms(4)
    by (auto simp: simap_increase_def Let_def simap_find0_find simap_get_def)
next
  case (2 nd)
  then show ?thesis using simap_set [OF assms(1) 2(2), of "\<lambda>d. sn_data d + amt"] assms(4)
    by (auto simp: simap_increase_def Let_def simap_find0_find simap_get_def)
qed

lemma simap_find_and_delete:
  assumes "simap_wf m" "str_ok name"
  shows "\<exists>m'. simap_find_and_delete m name = Some (simap_of m name \<noteq> None, m') \<and> simap_wf m'
    \<and> simap_of m' = (simap_of m)(name := None) \<and> addrs m' \<subseteq> addrs m"
proof (cases rule: simap_find_cases [OF assms])
  case 1
  then show ?thesis using assms(1) by (auto simp: simap_find_and_delete_def)
next
  case (2 nd)
  obtain m' where "hmap_remove m nd = Some m'" "simap_wf m'" "simap_of m' = (simap_of m)(sn_name (hn_data nd) := None)"
    "addrs m' = addrs m - {hn_addr nd}"
    by (rule dict_del [OF assms(1) 2(2), where val = sn_data])
  then show ?thesis using 2 by (auto simp: simap_find_and_delete_def simap_delete_def)
qed

lemma simap_get: "simap_wf m \<Longrightarrow> str_ok name \<Longrightarrow> simap_get m name = (case simap_of m name of Some v \<Rightarrow> v | None \<Rightarrow> 0)"
  using simap_find(2) [of m name] by (auto simp: simap_get_def split: option.splits)

interpretation simap: dictionary simap_wf simap_of addrs str_ok
  "\<lambda>a m k v. map_option snd (simap_put a m k v)" "\<lambda>m k. map_option snd (simap_find_and_delete m k)"
proof
  fix m k a v
  assume "simap_wf m" "str_ok k" "a \<notin> addrs m"
  from simap_put [OF this, of v] show "\<exists>m'. map_option snd (simap_put a m k v) = Some m' \<and> simap_wf m'
      \<and> simap_of m' = (simap_of m)(k \<mapsto> v)" by auto
next
  fix m k
  assume "simap_wf m" "str_ok k"
  from simap_find_and_delete [OF this] show "\<exists>m'. map_option snd (simap_find_and_delete m k) = Some m' \<and> simap_wf m'
      \<and> simap_of m' = (simap_of m)(k := None)" by auto
qed

text \<open>Sorting never fails its assertion and gives every entry once, by name.\<close>

lemma simap_sort:
  assumes "simap_wf m" "card (dom (simap_of m)) < 2 ^ 32" "simap_of m \<noteq> Map.empty"
  shows "\<exists>xs. simap_sort m = Some (Some xs) \<and> sorted (map (\<lambda>nd. sn_name (hn_data nd)) xs) \<and> mset xs = mset (hmap_nodes m)"
proof -
  obtain xs where xs: "hmap_for_each m = Some xs" "length xs = card (dom (simap_of m))"
    "sorted (map (key_of sn_name) (qsort (\<lambda>a b. strcmp (key_of sn_name a) (key_of sn_name b)) xs))"
    "mset (qsort (\<lambda>a b. strcmp (key_of sn_name a) (key_of sn_name b)) xs) = mset (hmap_nodes m)"
    using dict_sorted [OF assms(1), of sn_data] by blast
  have wf: "hmap_wf m" using assms(1) by (simp add: dict_wf_def keyed_def)
  have n: "xs = hmap_nodes m" using hmap_for_each_eq [OF wf] xs(1) by simp
  have "xs \<noteq> []" using assms(3) unfolding n by (auto simp: dict_of_def)
  then have "0 < card (dom (simap_of m))" unfolding xs(2) [symmetric] by simp
  then have "unat (of_nat (length xs) :: u32) \<noteq> 0" using xs(2) assms(2) by (simp add: unat_of_nat)
  then have "simap_sort m = Some (Some (qsort simap_compare_nodes_by_name xs))"
    using wf xs(1) n by (auto simp: simap_sort_def simap_is_empty_def hmap_is_empty_def simap_count_def hmap_count_def hmap_wf_def)
  moreover have "simap_compare_nodes_by_name = (\<lambda>a b. strcmp (key_of sn_name a) (key_of sn_name b))"
    by (intro ext) (simp add: simap_compare_nodes_by_name_def)
  ultimately show ?thesis using xs(3,4) by simp
qed

lemma simap_clear: "simap_wf m \<Longrightarrow> \<exists>m'. simap_clear m = Some m' \<and> simap_wf m' \<and> simap_of m' = Map.empty"
  using hmap_remove_each [of m] by (auto simp: simap_clear_def dict_wf_def keyed_def dict_of_def)

section \<open>Properties\<close>

abbreviation simap_step :: "(str, u32) dict_op \<Rightarrow> simap \<Rightarrow> simap option" where
  "simap_step \<equiv> dict_step (\<lambda>a m k v. map_option snd (simap_put a m k v)) (\<lambda>m k. map_option snd (simap_find_and_delete m k))"

text \<open>
  C23.  Any sequence of \<^verbatim>\<open>simap_put\<close> and \<^verbatim>\<open>simap_find_and_delete\<close> on a new map succeeds and refines the same sequence of
  updates of a finite map, which is then what \<^verbatim>\<open>simap_get\<close> reads, with 0 for a missing name.
\<close>

theorem simap_run_refines:
  assumes "oks (dict_op_ok addrs str_ok) simap_step es simap_init"
  shows "\<exists>m. run_steps simap_step es simap_init = Some m \<and> simap_wf m \<and> simap_of m = fold dict_spec es Map.empty
    \<and> (\<forall>name. str_ok name \<longrightarrow> simap_get m name = (case fold dict_spec es Map.empty name of Some v \<Rightarrow> v | None \<Rightarrow> 0))"
proof -
  have "simap_wf simap_init" "simap_of simap_init = Map.empty"
    by (simp_all add: simap_init_def)
  then show ?thesis using simap.run_refines [OF _ assms] simap_get by fastforce
qed

theorem simap_run_refines_witness:
  "\<exists>m. run_steps simap_step [Put 1 [65] 7, Put 2 [66] 8, Put 3 [65] 9, Del [66]] simap_init = Some m
    \<and> simap_get m [65] = 9 \<and> simap_get m [66] = 0"
proof -
  have "oks (dict_op_ok addrs str_ok) simap_step [Put 1 [65] 7, Put 2 [66] 8, Put 3 [65] 9, Del [66]] simap_init" by code_simp
  from simap_run_refines [OF this] show ?thesis by (auto simp: str_ok_def)
qed

end
