(* ===== verification/Ovs_Smap.thy ===== *)
theory Ovs_Smap
  imports Ovs_Dict
begin

text \<open>
  The map from strings to strings of \<^verbatim>\<open>lib/smap.c\<close>, without the conversions from and to
  JSON.  \<^verbatim>\<open>smap_add\<close> does not look for the key: a map can have several entries for
  one key, and \<open>keyed\<close> is the invariant of such a map.
\<close>

record smap_node =
  sm_key :: str
  sm_value :: str

type_synonym smap = "smap_node hmap"

section \<open>Operations\<close>

definition smap_init :: smap where
  "smap_init = hmap_init"

definition smap_add0 :: "addr \<Rightarrow> smap \<Rightarrow> str \<Rightarrow> str \<Rightarrow> size_t \<Rightarrow> smap option" where
  "smap_add0 node smap key val hash =
     hmap_insert_at smap \<lparr>hn_addr = node, hn_hash = 0, hn_data = \<lparr>sm_key = key, sm_value = val\<rparr>\<rparr> hash"

definition smap_find0 :: "smap \<Rightarrow> str \<Rightarrow> nat \<Rightarrow> size_t \<Rightarrow> smap_node hmap_node option" where
  "smap_find0 smap key key_len hash =
     hmap_for_each_with_hash
       (\<lambda>node. strncmp (sm_key (hn_data node)) key key_len = 0 \<and> nul_at (sm_key (hn_data node)) key_len) hash smap"

definition smap_add :: "addr \<Rightarrow> smap \<Rightarrow> str \<Rightarrow> str \<Rightarrow> smap option" where
  "smap_add a smap key val = (let key_len = length key in smap_add0 a smap (take key_len key) val (hash_bytes (take key_len key) 0))"

definition smap_get_node :: "smap \<Rightarrow> str \<Rightarrow> smap_node hmap_node option" where
  "smap_get_node smap key = (let key_len = length key in smap_find0 smap key key_len (hash_bytes (take key_len key) 0))"

definition smap_get :: "smap \<Rightarrow> str \<Rightarrow> str option" where
  "smap_get smap key = map_option (\<lambda>node. sm_value (hn_data node)) (smap_get_node smap key)"

definition smap_add_once :: "addr \<Rightarrow> smap \<Rightarrow> str \<Rightarrow> str \<Rightarrow> (bool \<times> smap) option" where
  "smap_add_once a smap key val =
     (if smap_get smap key = None then do { smap \<leftarrow> smap_add a smap key val; Some (True, smap) } else Some (False, smap))"

text \<open>\<open>val\<close> is the string that \<^verbatim>\<open>xvasprintf\<close> makes of the format and its arguments.\<close>

definition smap_add_format :: "addr \<Rightarrow> smap \<Rightarrow> str \<Rightarrow> str \<Rightarrow> smap option" where
  "smap_add_format a smap key val =
     (let key_len = length key in smap_add0 a smap (take key_len key) val (hash_bytes (take key_len key) 0))"

definition smap_replace :: "addr \<Rightarrow> smap \<Rightarrow> str \<Rightarrow> str \<Rightarrow> smap option" where
  "smap_replace a smap key val =
     (let key_len = length key;
          hash = hash_bytes (take key_len key) 0
      in case smap_find0 smap key key_len hash of
           Some node \<Rightarrow> Some (set_data smap node (\<lambda>d. d\<lparr>sm_value := val\<rparr>))
         | None \<Rightarrow> smap_add0 a smap (take key_len key) val hash)"

definition smap_remove_node :: "smap \<Rightarrow> smap_node hmap_node \<Rightarrow> smap option" where
  "smap_remove_node smap node = hmap_remove smap node"

definition smap_remove :: "smap \<Rightarrow> str \<Rightarrow> smap option" where
  "smap_remove smap key =
     (case smap_get_node smap key of Some node \<Rightarrow> smap_remove_node smap node | None \<Rightarrow> Some smap)"

text \<open>The key and the value go to the caller.\<close>

definition smap_steal :: "smap \<Rightarrow> smap_node hmap_node \<Rightarrow> (str \<times> str \<times> smap) option" where
  "smap_steal smap node = do { smap \<leftarrow> hmap_remove smap node; Some (sm_key (hn_data node), sm_value (hn_data node), smap) }"

definition smap_clear :: "smap \<Rightarrow> smap option" where
  "smap_clear smap = hmap_remove_each smap"

text \<open>\<^verbatim>\<open>strcasecmp\<close> in the C locale, as far as the code uses it: whether the result is 0.\<close>

definition tolower :: "u8 \<Rightarrow> u8" where
  "tolower c = (if 0x41 \<le> c \<and> c \<le> 0x5a then c + 0x20 else c)"

definition strcasecmp_eq :: "str \<Rightarrow> str \<Rightarrow> bool" where
  "strcasecmp_eq a b \<longleftrightarrow> map tolower a = map tolower b"

abbreviation str_true :: str where "str_true \<equiv> [0x74, 0x72, 0x75, 0x65]"

abbreviation str_false :: str where "str_false \<equiv> [0x66, 0x61, 0x6c, 0x73, 0x65]"

definition smap_get_bool :: "smap \<Rightarrow> str \<Rightarrow> bool \<Rightarrow> bool" where
  "smap_get_bool smap key def =
     (case smap_get smap key of
        None \<Rightarrow> def
      | Some val \<Rightarrow> if def then \<not> strcasecmp_eq str_false val else strcasecmp_eq str_true val)"

text \<open>\<^verbatim>\<open>atoi\<close>: white space, a sign, digits; \<open>None\<close> when the value is not an \<^verbatim>\<open>int\<close>.\<close>

fun skip_space :: "str \<Rightarrow> str" where
  "skip_space [] = []"
| "skip_space (c # s) = (if c = 0x20 \<or> 9 \<le> c \<and> c \<le> 13 then skip_space s else c # s)"

fun digits :: "str \<Rightarrow> int \<Rightarrow> int" where
  "digits [] n = n"
| "digits (c # s) n = (if 0x30 \<le> c \<and> c \<le> 0x39 then digits s (10 * n + uint (c - 0x30)) else n)"

definition atoi :: "str \<Rightarrow> int option" where
  "atoi s =
     (let v = (case skip_space s of
                 [] \<Rightarrow> 0
               | c # t \<Rightarrow> if c = 0x2d then - digits t 0 else if c = 0x2b then digits t 0 else digits (c # t) 0)
      in if - 2147483648 \<le> v \<and> v \<le> 2147483647 then Some v else None)"

definition smap_get_int :: "smap \<Rightarrow> str \<Rightarrow> int \<Rightarrow> int option" where
  "smap_get_int smap key def = (case smap_get smap key of Some val \<Rightarrow> atoi val | None \<Rightarrow> Some def)"

definition smap_is_empty :: "smap \<Rightarrow> bool" where
  "smap_is_empty smap = hmap_is_empty smap"

definition smap_count :: "smap \<Rightarrow> size_t" where
  "smap_count smap = hmap_count smap"

fun smap_clone_loop :: "(nat \<Rightarrow> addr) \<Rightarrow> nat \<Rightarrow> smap_node hmap_node list \<Rightarrow> smap \<Rightarrow> smap option" where
  "smap_clone_loop alloc i [] dst = Some dst"
| "smap_clone_loop alloc i (node # nodes) dst = do {
     dst \<leftarrow> smap_add0 (alloc i) dst (sm_key (hn_data node)) (sm_value (hn_data node)) (hn_hash node);
     smap_clone_loop alloc (Suc i) nodes dst
   }"

definition smap_clone :: "(nat \<Rightarrow> addr) \<Rightarrow> smap \<Rightarrow> smap option" where
  "smap_clone alloc src = do { nodes \<leftarrow> hmap_for_each src; smap_clone_loop alloc 0 nodes smap_init }"

definition smap_compare_nodes_by_key :: "smap_node hmap_node \<Rightarrow> smap_node hmap_node \<Rightarrow> int" where
  "smap_compare_nodes_by_key a b = strcmp (sm_key (hn_data a)) (sm_key (hn_data b))"

definition smap_sort :: "smap \<Rightarrow> smap_node hmap_node list option option" where
  "smap_sort smap =
     (if smap_is_empty smap then Some None
      else do {
        nodes \<leftarrow> hmap_for_each smap;
        if of_nat (length nodes) = smap_count smap
        then Some (Some (qsort smap_compare_nodes_by_key nodes)) else None
      })"

section \<open>What the operations do\<close>

abbreviation smap_wf :: "smap \<Rightarrow> bool" where
  "smap_wf \<equiv> dict_wf sm_key"

abbreviation smap_of :: "smap \<Rightarrow> str \<Rightarrow> str option" where
  "smap_of \<equiv> dict_of sm_key sm_value"

lemma smap_get_node:
  assumes "smap_wf m" "str_ok key"
  shows "smap_get_node m key = Some nd \<longleftrightarrow> nd \<in> set (hmap_nodes m) \<and> sm_key (hn_data nd) = key"
    "smap_get m key = smap_of m key"
  using dict_search_name [OF assms order_refl] by (simp_all add: smap_get_def smap_get_node_def smap_find0_def Let_def)

lemma smap_get_cases:
  assumes "smap_wf m" "str_ok key"
  obtains "smap_get_node m key = None" "smap_of m key = None"
  | nd where "smap_get_node m key = Some nd" "nd \<in> set (hmap_nodes m)" "sm_key (hn_data nd) = key"
      "smap_of m key = Some (sm_value (hn_data nd))"
  using smap_get_node [OF assms] by (cases "smap_get_node m key") (auto simp: smap_get_def)

lemma smap_add0:
  assumes "smap_wf m" "str_ok key" "a \<notin> addrs m" "smap_of m key = None"
  shows "\<exists>m'. smap_add0 a m key v (name_hash key) = Some m' \<and> smap_wf m' \<and> smap_of m' = (smap_of m)(key \<mapsto> v)
    \<and> addrs m' = insert a (addrs m)"
  using dict_add [where hf = name_hash and ok = str_ok and key = sm_key and val = sm_value and h = m
      and nd = "\<lparr>hn_addr = a, hn_hash = 0, hn_data = \<lparr>sm_key = key, sm_value = v\<rparr>\<rparr>"] assms
  by (simp add: smap_add0_def) metis

lemma smap_replace:
  assumes "smap_wf m" "str_ok key" "a \<notin> addrs m"
  shows "\<exists>m'. smap_replace a m key v = Some m' \<and> smap_wf m' \<and> smap_of m' = (smap_of m)(key \<mapsto> v)"
proof (cases rule: smap_get_cases [OF assms(1,2)])
  case 1
  then show ?thesis using smap_add0 [OF assms 1(2), of v] by (auto simp: smap_replace_def Let_def smap_get_node_def)
next
  case (2 nd)
  then show ?thesis
    using dict_set(1) [OF assms(1) 2(2), of "\<lambda>d. d\<lparr>sm_value := v\<rparr>"]
      dict_set(3) [OF assms(1) 2(2), of "\<lambda>d. d\<lparr>sm_value := v\<rparr>" sm_value]
    by (auto simp: smap_replace_def Let_def smap_get_node_def)
qed

lemma smap_remove:
  assumes "smap_wf m" "str_ok key"
  shows "\<exists>m'. smap_remove m key = Some m' \<and> smap_wf m' \<and> smap_of m' = (smap_of m)(key := None)"
proof (cases rule: smap_get_cases [OF assms])
  case 1
  then show ?thesis using assms(1) by (auto simp: smap_remove_def)
next
  case (2 nd)
  obtain m' where "hmap_remove m nd = Some m'" "smap_wf m'" "smap_of m' = (smap_of m)(sm_key (hn_data nd) := None)"
    by (rule dict_del [OF assms(1) 2(2), where val = sm_value])
  then show ?thesis using 2 by (auto simp: smap_remove_def smap_remove_node_def)
qed

lemma smap_add_once:
  assumes "smap_wf m" "str_ok key" "a \<notin> addrs m"
  shows "\<exists>m'. smap_add_once a m key v = Some (smap_of m key = None, m') \<and> smap_wf m'
    \<and> smap_of m' = (if smap_of m key = None then (smap_of m)(key \<mapsto> v) else smap_of m)"
  using smap_get_node(2) [OF assms(1,2)] smap_add0 [OF assms, of v] assms(1)
  by (auto simp: smap_add_once_def smap_add_def Let_def)

text \<open>Adding keeps a map searchable, duplicates or not.\<close>

lemma smap_add_keyed:
  assumes "keyed sm_key m" "str_ok key" "a \<notin> addrs m"
  shows "\<exists>m'. smap_add a m key v = Some m' \<and> keyed sm_key m' \<and> smap_get m' key \<noteq> None"
proof -
  let ?nd = "\<lparr>hn_addr = a, hn_hash = 0, hn_data = \<lparr>sm_key = key, sm_value = v\<rparr>\<rparr> :: smap_node hmap_node"
  have "\<exists>m'. hmap_insert_at m ?nd (name_hash key) = Some m' \<and> keyed sm_key m'
      \<and> mset (hmap_nodes m') = add_mset (?nd\<lparr>hn_hash := name_hash key\<rparr>) (mset (hmap_nodes m))"
    using keyed_add [where hf = name_hash and ok = str_ok and key = sm_key and nd = ?nd and h = m] assms by simp metis
  then obtain m' where m': "hmap_insert_at m ?nd (name_hash key) = Some m'" "keyed sm_key m'"
    "mset (hmap_nodes m') = add_mset (?nd\<lparr>hn_hash := name_hash key\<rparr>) (mset (hmap_nodes m))" by blast
  have "?nd\<lparr>hn_hash := name_hash key\<rparr> \<in> set (hmap_nodes m')"
    using m'(3) by (metis set_mset_mset union_single_eq_member)
  moreover have "\<forall>nd \<in> set (hmap_nodes m'). strncmp (sm_key (hn_data nd)) key (length key) = 0
      \<and> nul_at (sm_key (hn_data nd)) (length key) \<longleftrightarrow> key_of sm_key nd = key"
    using m'(2) assms(2) by (auto simp: strncmp_nul keyed_def)
  note s = keyed_search(2) [OF m'(2) this]
  ultimately have "smap_get_node m' key \<noteq> None" using s by (force simp: smap_get_node_def smap_find0_def Let_def)
  then show ?thesis using m'(1,2) by (auto simp: smap_add_def smap_add0_def smap_get_def)
qed

interpretation smap: dictionary smap_wf smap_of addrs str_ok smap_replace smap_remove
  by unfold_locales (use smap_replace smap_remove in blast)+

text \<open>The value of a boolean setting that is not one of the two words is the default.\<close>

lemma smap_get_bool:
  assumes "smap_wf m" "str_ok key"
  shows "smap_get_bool m key def =
    (case smap_of m key of
       Some v \<Rightarrow> if strcasecmp_eq str_true v then True else if strcasecmp_eq str_false v then False else def
     | None \<Rightarrow> def)"
proof -
  have "\<not> (strcasecmp_eq str_true v \<and> strcasecmp_eq str_false v)" for v by (cases v) (auto simp: strcasecmp_eq_def tolower_def)
  then show ?thesis using smap_get_node(2) [OF assms] by (auto simp: smap_get_bool_def split: option.splits)
qed

text \<open>A clone has the entries of the original, duplicates included.\<close>

lemma smap_clone_loop:
  assumes "keyed sm_key s" "inj alloc" "addrs s \<inter> alloc ` {i..} = {}"
    and "\<forall>nd \<in> set nodes. hn_hash nd = name_hash (sm_key (hn_data nd)) \<and> str_ok (sm_key (hn_data nd))"
  shows "\<exists>s'. smap_clone_loop alloc i nodes s = Some s' \<and> keyed sm_key s'
    \<and> image_mset hn_data (mset (hmap_nodes s')) = image_mset hn_data (mset (hmap_nodes s) + mset nodes)"
  using assms
proof (induction nodes arbitrary: i s)
  case (Cons nd nodes)
  let ?nd = "\<lparr>hn_addr = alloc i, hn_hash = 0, hn_data = hn_data nd\<rparr> :: smap_node hmap_node"
  have fresh: "hn_addr ?nd \<notin> addrs s" and ok: "str_ok (key_of sm_key ?nd)" using Cons.prems by auto
  obtain s1 where s1: "hmap_insert_at s ?nd (name_hash (key_of sm_key ?nd)) = Some s1" "keyed sm_key s1"
    "mset (hmap_nodes s1) = add_mset (?nd\<lparr>hn_hash := name_hash (key_of sm_key ?nd)\<rparr>) (mset (hmap_nodes s))"
    "addrs s1 = insert (hn_addr ?nd) (addrs s)"
    by (rule keyed_add [OF Cons.prems(1) fresh ok])
  have e: "\<lparr>sm_key = sm_key (hn_data nd), sm_value = sm_value (hn_data nd)\<rparr> = hn_data nd" by simp
  have add: "smap_add0 (alloc i) s (sm_key (hn_data nd)) (sm_value (hn_data nd)) (hn_hash nd) = Some s1"
    using s1(1) Cons.prems(4) unfolding smap_add0_def e by simp
  have "addrs s1 \<inter> alloc ` {Suc i..} = {}"
    using Cons.prems(2,3) unfolding s1(4) by (auto simp: inj_eq)
  from Cons.IH [OF s1(2) Cons.prems(2) this] Cons.prems(4) show ?case using s1(3) add by auto
qed simp

lemma smap_clone:
  assumes "keyed sm_key m" "inj alloc"
  shows "\<exists>s. smap_clone alloc m = Some s \<and> keyed sm_key s
    \<and> image_mset hn_data (mset (hmap_nodes s)) = image_mset hn_data (mset (hmap_nodes m))"
proof -
  have "hmap_wf m" using assms(1) by (simp add: keyed_def)
  moreover have "keyed sm_key smap_init" by (simp add: keyed_def smap_init_def)
  ultimately show ?thesis
    using smap_clone_loop [of smap_init alloc 0 "hmap_nodes m"] assms hmap_for_each_eq [of m]
    by (auto simp: smap_clone_def smap_init_def keyed_def)
qed

section \<open>Properties\<close>

text \<open>
  C24.  Any sequence of \<^verbatim>\<open>smap_replace\<close> and \<^verbatim>\<open>smap_remove\<close> on a new map succeeds and refines the same sequence of
  updates of a finite map.
\<close>

theorem smap_run_refines:
  assumes "oks (dict_op_ok addrs str_ok) (dict_step smap_replace smap_remove) es smap_init"
  shows "\<exists>m. run_steps (dict_step smap_replace smap_remove) es smap_init = Some m \<and> smap_wf m
    \<and> (\<forall>key. str_ok key \<longrightarrow> smap_get m key = fold dict_spec es Map.empty key)"
proof -
  have "smap_wf smap_init" "smap_of smap_init = Map.empty"
    by (simp_all add: smap_init_def)
  then show ?thesis using smap.run_refines [OF _ assms] smap_get_node(2) by fastforce
qed

theorem smap_run_refines_witness:
  "\<exists>m. run_steps (dict_step smap_replace smap_remove) [Put 1 [65] [48], Put 2 [65] [49], Put 3 [66] [50], Del [66]] smap_init = Some m
    \<and> smap_get m [65] = Some [49] \<and> smap_get m [66] = None"
proof -
  have "oks (dict_op_ok addrs str_ok) (dict_step smap_replace smap_remove) [Put 1 [65] [48], Put 2 [65] [49], Put 3 [66] [50], Del [66]] smap_init"
    by code_simp
  from smap_run_refines [OF this] show ?thesis by (auto simp: str_ok_def)
qed

end
