(* ===== verification/Ovs_Sset.thy ===== *)
theory Ovs_Sset
  imports Ovs_Dict
begin

text \<open>
  The set of strings of \<^verbatim>\<open>lib/sset.c\<close>.  A node holds its string inline; the name that
  \<^verbatim>\<open>SSET_FIRST\<close> and \<^verbatim>\<open>SSET_NEXT\<close> return points into the node and stands for it.
\<close>

type_synonym sset = "str hmap"

section \<open>Operations\<close>

definition sset_hash_name :: "str \<Rightarrow> size_t" where
  "sset_hash_name name = hash_bytes name 0"

definition sset_find0 :: "sset \<Rightarrow> str \<Rightarrow> size_t \<Rightarrow> str hmap_node option" where
  "sset_find0 sset name hash = hmap_for_each_with_hash (\<lambda>node. strcmp (hn_data node) name = 0) hash sset"

definition sset_add0 :: "addr \<Rightarrow> sset \<Rightarrow> str \<Rightarrow> size_t \<Rightarrow> sset option" where
  "sset_add0 node sset name hash = hmap_insert_at sset \<lparr>hn_addr = node, hn_hash = 0, hn_data = name\<rparr> hash"

definition sset_init :: sset where
  "sset_init = hmap_init"

text \<open>\<open>alloc i\<close> is the address of the node number \<open>i\<close> of the clone.\<close>

fun sset_clone_loop :: "(nat \<Rightarrow> addr) \<Rightarrow> nat \<Rightarrow> str hmap_node list \<Rightarrow> sset \<Rightarrow> sset option" where
  "sset_clone_loop alloc i [] sset = Some sset"
| "sset_clone_loop alloc i (node # nodes) sset = do {
     sset \<leftarrow> sset_add0 (alloc i) sset (hn_data node) (hn_hash node);
     sset_clone_loop alloc (Suc i) nodes sset
   }"

definition sset_clone :: "(nat \<Rightarrow> addr) \<Rightarrow> sset \<Rightarrow> sset option" where
  "sset_clone alloc orig = do { nodes \<leftarrow> hmap_for_each orig; sset_clone_loop alloc 0 nodes sset_init }"

definition sset_swap :: "sset \<Rightarrow> sset \<Rightarrow> sset \<times> sset" where
  "sset_swap a b = hmap_swap a b"

definition sset_is_empty :: "sset \<Rightarrow> bool" where
  "sset_is_empty sset = hmap_is_empty sset"

definition sset_count :: "sset \<Rightarrow> size_t" where
  "sset_count sset = hmap_count sset"

text \<open>The result is whether a node is returned.\<close>

definition sset_add :: "addr \<Rightarrow> sset \<Rightarrow> str \<Rightarrow> (bool \<times> sset) option" where
  "sset_add a sset name =
     (let hash = sset_hash_name name
      in case sset_find0 sset name hash of
           Some node \<Rightarrow> Some (False, sset)
         | None \<Rightarrow> do { sset \<leftarrow> sset_add0 a sset name hash; Some (True, sset) })"

definition sset_add_assert :: "addr \<Rightarrow> sset \<Rightarrow> str \<Rightarrow> sset option" where
  "sset_add_assert a sset name = do { (added, sset) \<leftarrow> sset_add a sset name; if added then Some sset else None }"

fun sset_add_array :: "(nat \<Rightarrow> addr) \<Rightarrow> nat \<Rightarrow> sset \<Rightarrow> str list \<Rightarrow> sset option" where
  "sset_add_array alloc i sset [] = Some sset"
| "sset_add_array alloc i sset (name # names) = do {
     (added, sset) \<leftarrow> sset_add (alloc i) sset name;
     sset_add_array alloc (Suc i) sset names
   }"

definition sset_delete :: "sset \<Rightarrow> str hmap_node \<Rightarrow> sset option" where
  "sset_delete sset node = hmap_remove sset node"

definition sset_clear :: "sset \<Rightarrow> sset option" where
  "sset_clear sset = hmap_remove_each sset"

definition sset_find :: "sset \<Rightarrow> str \<Rightarrow> str hmap_node option" where
  "sset_find sset name = sset_find0 sset name (sset_hash_name name)"

definition sset_find_and_delete :: "sset \<Rightarrow> str \<Rightarrow> (bool \<times> sset) option" where
  "sset_find_and_delete sset name =
     (case sset_find sset name of
        Some node \<Rightarrow> do { sset \<leftarrow> sset_delete sset node; Some (True, sset) }
      | None \<Rightarrow> Some (False, sset))"

definition sset_find_and_delete_assert :: "sset \<Rightarrow> str \<Rightarrow> sset option" where
  "sset_find_and_delete_assert sset name =
     do { (deleted, sset) \<leftarrow> sset_find_and_delete sset name; if deleted then Some sset else None }"

text \<open>The set must not be empty: there is no name to copy otherwise.\<close>

definition sset_pop :: "sset \<Rightarrow> (str \<times> sset) option" where
  "sset_pop sset =
     (case hmap_first sset of
        [] \<Rightarrow> None
      | node # _ \<Rightarrow> do { sset \<leftarrow> sset_delete sset node; Some (hn_data node, sset) })"

definition sset_contains :: "sset \<Rightarrow> str \<Rightarrow> bool" where
  "sset_contains sset name \<longleftrightarrow> sset_find sset name \<noteq> None"

definition sset_equals :: "sset \<Rightarrow> sset \<Rightarrow> bool option" where
  "sset_equals a b =
     (if sset_count a \<noteq> sset_count b then Some False
      else do {
        nodes \<leftarrow> hmap_for_each a;
        Some (list_all (\<lambda>node. sset_find0 b (hn_data node) (hn_hash node) \<noteq> None) nodes)
      })"

definition sset_at_position :: "sset \<Rightarrow> u32 \<times> u32 \<Rightarrow> str hmap_node option \<times> u32 \<times> u32" where
  "sset_at_position sset pos = hmap_at_position sset pos"

definition compare_string_pointers :: "str \<Rightarrow> str \<Rightarrow> int" where
  "compare_string_pointers a b = strcmp a b"

definition sset_sort :: "sset \<Rightarrow> str list option" where
  "sset_sort sset = do {
     nodes \<leftarrow> hmap_for_each sset;
     if of_nat (length nodes) = sset_count sset then Some (qsort compare_string_pointers (map hn_data nodes)) else None
   }"

section \<open>What the operations do\<close>

abbreviation sset_wf :: "sset \<Rightarrow> bool" where
  "sset_wf \<equiv> dict_wf (\<lambda>s. s)"

text \<open>The strings in the set; as a dictionary, every string has the value \<open>()\<close>.\<close>

definition sset_of :: "sset \<Rightarrow> str set" where
  "sset_of m = hn_data ` set (hmap_nodes m)"

abbreviation sset_map :: "sset \<Rightarrow> str \<Rightarrow> unit option" where
  "sset_map \<equiv> dict_of (\<lambda>s. s) (\<lambda>_. ())"

lemma sset_map_eq: "sset_map m k = (if k \<in> sset_of m then Some () else None)"
  using dict_of_None [of "\<lambda>s. s" "\<lambda>_. ()" m k] by (cases "sset_map m k") (auto simp: sset_of_def)

lemma sset_of_dom: "sset_of m = dom (sset_map m)"
  by (auto simp: sset_map_eq dom_def)

lemma sset_find0:
  assumes "sset_wf m" "str_ok name"
  shows "sset_find0 m name (sset_hash_name name) = Some nd \<longleftrightarrow> nd \<in> set (hmap_nodes m) \<and> hn_data nd = name"
    "sset_find0 m name (sset_hash_name name) \<noteq> None \<longleftrightarrow> name \<in> sset_of m"
proof -
  have "\<forall>nd \<in> set (hmap_nodes m). strcmp (hn_data nd) name = 0 \<longleftrightarrow> key_of (\<lambda>s. s) nd = name"
    using assms by (auto simp: strcmp_eq dict_wf_def keyed_def)
  note s = dict_search(1) [OF assms(1) this]
  show one: "sset_find0 m name (sset_hash_name name) = Some nd \<longleftrightarrow> nd \<in> set (hmap_nodes m) \<and> hn_data nd = name" for nd
    using s by (simp add: sset_find0_def sset_hash_name_def)
  show "sset_find0 m name (sset_hash_name name) \<noteq> None \<longleftrightarrow> name \<in> sset_of m"
    using one by (auto simp: sset_of_def)
qed

lemma sset_add0:
  assumes "sset_wf m" "str_ok name" "a \<notin> addrs m" "name \<notin> sset_of m"
  shows "\<exists>m'. sset_add0 a m name (sset_hash_name name) = Some m' \<and> sset_wf m'
    \<and> sset_of m' = insert name (sset_of m) \<and> addrs m' = insert a (addrs m) \<and> hm_n m' = hm_n m + 1"
proof -
  let ?nd = "\<lparr>hn_addr = a, hn_hash = 0, hn_data = name\<rparr> :: str hmap_node"
  have "sset_map m name = None" using assms(4) by (simp add: sset_map_eq)
  then obtain m' where m': "hmap_insert_at m ?nd (name_hash name) = Some m'" "sset_wf m'"
    "sset_map m' = (sset_map m)(name \<mapsto> ())" "hm_n m' = hm_n m + 1" "addrs m' = insert a (addrs m)"
    using dict_add [where hf = name_hash and ok = str_ok and key = "\<lambda>s. s" and val = "\<lambda>_. ()" and h = m and nd = ?nd] assms(1-3) by auto
  have "sset_of m' = insert name (sset_of m)" unfolding sset_of_dom m'(3) by simp
  then show ?thesis using m' by (simp add: sset_add0_def sset_hash_name_def)
qed

lemma sset_add:
  assumes "sset_wf m" "str_ok name" "a \<notin> addrs m"
  shows "\<exists>m'. sset_add a m name = Some (name \<notin> sset_of m, m') \<and> sset_wf m'
    \<and> sset_of m' = insert name (sset_of m) \<and> addrs m' \<subseteq> insert a (addrs m)"
proof (cases "sset_find0 m name (sset_hash_name name)")
  case None
  then have "name \<notin> sset_of m" using sset_find0(2) [OF assms(1,2)] by auto
  then show ?thesis using None sset_add0 [OF assms] by (auto simp: sset_add_def Let_def)
next
  case (Some nd)
  then have "name \<in> sset_of m" using sset_find0(2) [OF assms(1,2)] by auto
  then show ?thesis using Some assms(1) by (auto simp: sset_add_def Let_def)
qed

lemma sset_del:
  assumes "sset_wf m" "nd \<in> set (hmap_nodes m)"
  shows "\<exists>m'. sset_delete m nd = Some m' \<and> sset_wf m' \<and> sset_of m' = sset_of m - {hn_data nd} \<and> addrs m' = addrs m - {hn_addr nd}"
proof -
  obtain m' where "hmap_remove m nd = Some m'" "sset_wf m'" "sset_map m' = (sset_map m)(hn_data nd := None)"
    "addrs m' = addrs m - {hn_addr nd}"
    by (rule dict_del [OF assms, where val = "\<lambda>_. ()"])
  then show ?thesis by (auto simp: sset_delete_def sset_of_dom)
qed

lemma sset_find_and_delete:
  assumes "sset_wf m" "str_ok name"
  shows "\<exists>m'. sset_find_and_delete m name = Some (name \<in> sset_of m, m') \<and> sset_wf m' \<and> sset_of m' = sset_of m - {name}"
proof (cases "sset_find m name")
  case None
  then have "name \<notin> sset_of m" using sset_find0(2) [OF assms] by (auto simp: sset_find_def)
  then show ?thesis using None assms(1) by (auto simp: sset_find_and_delete_def)
next
  case (Some nd)
  then have "nd \<in> set (hmap_nodes m)" "hn_data nd = name" "name \<in> sset_of m"
    using sset_find0 [OF assms] by (auto simp: sset_find_def)
  then show ?thesis using Some sset_del [OF assms(1), of nd] by (auto simp: sset_find_and_delete_def)
qed

lemma sset_pop:
  assumes "sset_wf m" "sset_of m \<noteq> {}"
  shows "\<exists>name m'. sset_pop m = Some (name, m') \<and> name \<in> sset_of m \<and> sset_wf m' \<and> sset_of m' = sset_of m - {name}"
proof -
  have p: "hmap_placed m" using assms(1) by (simp add: dict_wf_def keyed_def hmap_wf_def)
  have "hmap_first m \<noteq> []"
  proof
    assume "hmap_first m = []"
    then have "hmap_nodes m = []" using hmap_next0_none [OF p, of 0] by (simp add: hmap_first_def hmap_nodes_def)
    then show False using assms(2) by (simp add: sset_of_def)
  qed
  then obtain nd c where nd: "hmap_first m = nd # c" by (cases "hmap_first m") auto
  obtain pre post where "hm_buckets m = pre @ (nd # c) # post" by (rule hmap_first_split [OF p nd])
  then have "nd \<in> set (hmap_nodes m)" by (simp add: hmap_nodes_def)
  then show ?thesis using sset_del [OF assms(1), of nd] nd by (auto simp: sset_pop_def sset_of_def)
qed

text \<open>Two sets are equal when they have as many strings and one has the strings of the other.\<close>

lemma sset_equals:
  assumes "sset_wf a" "sset_wf b" "card (sset_of a) < 2 ^ 32" "card (sset_of b) < 2 ^ 32"
  shows "sset_equals a b = Some (sset_of a = sset_of b)"
proof -
  have wf: "hmap_wf a" "hmap_wf b" using assms(1,2) by (auto simp: dict_wf_def keyed_def)
  have count: "sset_count a = sset_count b \<longleftrightarrow> card (sset_of a) = card (sset_of b)"
    using dict_count_eq [OF assms(1,2), of "\<lambda>_. ()" "\<lambda>_. ()"] assms(3,4) by (simp add: sset_of_dom sset_count_def)
  have all: "list_all (\<lambda>nd. sset_find0 b (hn_data nd) (hn_hash nd) \<noteq> None) (hmap_nodes a) \<longleftrightarrow> sset_of a \<subseteq> sset_of b"
  proof -
    have "sset_find0 b (hn_data nd) (hn_hash nd) \<noteq> None \<longleftrightarrow> hn_data nd \<in> sset_of b" if "nd \<in> set (hmap_nodes a)" for nd
      using that assms(1) sset_find0(2) [OF assms(2), of "hn_data nd"]
      by (simp add: dict_wf_def keyed_def sset_hash_name_def)
    then show ?thesis by (auto simp: list_all_iff sset_of_def)
  qed
  have "finite (sset_of a)" "finite (sset_of b)" by (simp_all add: sset_of_def)
  then have "(card (sset_of a) = card (sset_of b) \<and> sset_of a \<subseteq> sset_of b) = (sset_of a = sset_of b)"
    using card_subset_eq [of "sset_of b" "sset_of a"] by auto
  then show ?thesis using count all hmap_for_each_eq [OF wf(1)] by (auto simp: sset_equals_def)
qed

lemma sset_clone_loop:
  assumes "sset_wf s" "inj alloc" "addrs s \<inter> alloc ` {i..} = {}"
    and "\<forall>nd \<in> set nodes. hn_hash nd = name_hash (hn_data nd) \<and> str_ok (hn_data nd)"
    and "distinct (map hn_data nodes)" "sset_of s \<inter> hn_data ` set nodes = {}"
  shows "\<exists>s'. sset_clone_loop alloc i nodes s = Some s' \<and> sset_wf s' \<and> sset_of s' = sset_of s \<union> hn_data ` set nodes"
  using assms
proof (induction nodes arbitrary: i s)
  case (Cons nd nodes)
  have "alloc i \<notin> addrs s" "hn_data nd \<notin> sset_of s" "str_ok (hn_data nd)" "hn_hash nd = sset_hash_name (hn_data nd)"
    using Cons.prems by (auto simp: sset_hash_name_def)
  then obtain s1 where s1: "sset_add0 (alloc i) s (hn_data nd) (hn_hash nd) = Some s1" "sset_wf s1"
    "sset_of s1 = insert (hn_data nd) (sset_of s)" "addrs s1 = insert (alloc i) (addrs s)"
    using sset_add0 [OF Cons.prems(1), of "hn_data nd" "alloc i"] by auto
  have "addrs s1 \<inter> alloc ` {Suc i..} = {}"
    using Cons.prems(2,3) unfolding s1(4) by (auto simp: inj_eq)
  then show ?case using Cons.IH [of s1 "Suc i"] Cons.prems s1 by (auto simp: image_iff)
qed simp

lemma sset_clone:
  assumes "sset_wf m" "inj alloc"
  shows "\<exists>s. sset_clone alloc m = Some s \<and> sset_wf s \<and> sset_of s = sset_of m"
proof -
  have "hmap_wf m" using assms(1) by (auto simp: dict_wf_def keyed_def)
  then show ?thesis
    using sset_clone_loop [of sset_init alloc 0 "hmap_nodes m"] assms hmap_for_each_eq [of m]
    by (auto simp: sset_clone_def sset_init_def dict_wf_def keyed_def sset_of_def)
qed

interpretation sset: dictionary sset_wf sset_map addrs str_ok
  "\<lambda>a m k _. map_option snd (sset_add a m k)" "\<lambda>m k. map_option snd (sset_find_and_delete m k)"
proof
  fix m k a v
  assume "sset_wf m" "str_ok k" "a \<notin> addrs m"
  from sset_add [OF this] show "\<exists>m'. map_option snd (sset_add a m k) = Some m' \<and> sset_wf m' \<and> sset_map m' = (sset_map m)(k \<mapsto> v)"
    by (auto simp: sset_map_eq fun_eq_iff)
next
  fix m k
  assume "sset_wf m" "str_ok k"
  from sset_find_and_delete [OF this] show "\<exists>m'. map_option snd (sset_find_and_delete m k) = Some m' \<and> sset_wf m'
      \<and> sset_map m' = (sset_map m)(k := None)" by (auto simp: sset_map_eq fun_eq_iff)
qed

end
