(* ===== verification/Ovs_Shash.thy ===== *)
theory Ovs_Shash
  imports Ovs_Dict
begin

text \<open>
  The map from strings to pointers of \<^verbatim>\<open>lib/shash.c\<close>.  A \<^verbatim>\<open>void *\<close> is an address and 0 the null
  pointer.  \<^verbatim>\<open>hash_string\<close> of a string is \<^verbatim>\<open>hash_bytes\<close> of its bytes.
\<close>

record shash_node =
  sh_name :: str
  sh_data :: addr

type_synonym shash = "shash_node hmap"

section \<open>Operations\<close>

definition shash_hash_name :: "str \<Rightarrow> size_t" where
  "shash_hash_name name = hash_bytes name 0"

definition shash_init :: shash where
  "shash_init = hmap_init"

definition shash_swap :: "shash \<Rightarrow> shash \<Rightarrow> shash \<times> shash" where
  "shash_swap a b = hmap_swap a b"

definition shash_clear :: "shash \<Rightarrow> shash option" where
  "shash_clear sh = hmap_remove_each sh"

definition shash_is_empty :: "shash \<Rightarrow> bool" where
  "shash_is_empty sh = hmap_is_empty sh"

definition shash_count :: "shash \<Rightarrow> size_t" where
  "shash_count sh = hmap_count sh"

definition shash_add_nocopy0 :: "addr \<Rightarrow> shash \<Rightarrow> str \<Rightarrow> addr \<Rightarrow> size_t \<Rightarrow> shash option" where
  "shash_add_nocopy0 node sh name data hash =
     hmap_insert_at sh \<lparr>hn_addr = node, hn_hash = 0, hn_data = \<lparr>sh_name = name, sh_data = data\<rparr>\<rparr> hash"

definition shash_add_nocopy :: "addr \<Rightarrow> shash \<Rightarrow> str \<Rightarrow> addr \<Rightarrow> shash option" where
  "shash_add_nocopy a sh name data = shash_add_nocopy0 a sh name data (shash_hash_name name)"

definition shash_add :: "addr \<Rightarrow> shash \<Rightarrow> str \<Rightarrow> addr \<Rightarrow> shash option" where
  "shash_add a sh name data = shash_add_nocopy a sh name data"

definition shash_find0 :: "shash \<Rightarrow> str \<Rightarrow> nat \<Rightarrow> size_t \<Rightarrow> shash_node hmap_node option" where
  "shash_find0 sh name name_len hash =
     hmap_for_each_with_hash
       (\<lambda>node. strncmp (sh_name (hn_data node)) name name_len = 0 \<and> nul_at (sh_name (hn_data node)) name_len) hash sh"

definition shash_find :: "shash \<Rightarrow> str \<Rightarrow> shash_node hmap_node option" where
  "shash_find sh name = shash_find0 sh name (length name) (shash_hash_name name)"

definition shash_find_len :: "shash \<Rightarrow> str \<Rightarrow> nat \<Rightarrow> shash_node hmap_node option" where
  "shash_find_len sh name len = shash_find0 sh name len (hash_bytes (take len name) 0)"

definition shash_find_data :: "shash \<Rightarrow> str \<Rightarrow> addr" where
  "shash_find_data sh name = (case shash_find sh name of Some node \<Rightarrow> sh_data (hn_data node) | None \<Rightarrow> 0)"

definition shash_add_once :: "addr \<Rightarrow> shash \<Rightarrow> str \<Rightarrow> addr \<Rightarrow> (bool \<times> shash) option" where
  "shash_add_once a sh name data =
     (if shash_find sh name = None then do { sh \<leftarrow> shash_add a sh name data; Some (True, sh) } else Some (False, sh))"

definition shash_add_assert :: "addr \<Rightarrow> shash \<Rightarrow> str \<Rightarrow> addr \<Rightarrow> shash option" where
  "shash_add_assert a sh name data =
     do { (added, sh) \<leftarrow> shash_add_once a sh name data; if added then Some sh else None }"

definition shash_replace :: "addr \<Rightarrow> shash \<Rightarrow> str \<Rightarrow> addr \<Rightarrow> (addr \<times> shash) option" where
  "shash_replace a sh name data =
     (let hash = shash_hash_name name
      in case shash_find0 sh name (length name) hash of
           None \<Rightarrow> do { sh \<leftarrow> shash_add_nocopy0 a sh name data hash; Some (0, sh) }
         | Some node \<Rightarrow> Some (sh_data (hn_data node), set_data sh node (\<lambda>d. d\<lparr>sh_data := data\<rparr>)))"

definition shash_steal :: "shash \<Rightarrow> shash_node hmap_node \<Rightarrow> (str \<times> shash) option" where
  "shash_steal sh node = do { sh \<leftarrow> hmap_remove sh node; Some (sh_name (hn_data node), sh) }"

definition shash_delete :: "shash \<Rightarrow> shash_node hmap_node \<Rightarrow> shash option" where
  "shash_delete sh node = map_option snd (shash_steal sh node)"

definition shash_find_and_delete :: "shash \<Rightarrow> str \<Rightarrow> (addr \<times> shash) option" where
  "shash_find_and_delete sh name =
     (case shash_find sh name of
        Some node \<Rightarrow> do { let data = sh_data (hn_data node); sh \<leftarrow> shash_delete sh node; Some (data, sh) }
      | None \<Rightarrow> Some (0, sh))"

definition shash_find_and_delete_assert :: "shash \<Rightarrow> str \<Rightarrow> (addr \<times> shash) option" where
  "shash_find_and_delete_assert sh name =
     do { (data, sh) \<leftarrow> shash_find_and_delete sh name; if data \<noteq> 0 then Some (data, sh) else None }"

definition shash_first :: "shash \<Rightarrow> shash_node hmap_node option" where
  "shash_first sh = (case hmap_first sh of [] \<Rightarrow> None | node # _ \<Rightarrow> Some node)"

definition shash_compare_nodes_by_name :: "shash_node hmap_node \<Rightarrow> shash_node hmap_node \<Rightarrow> int" where
  "shash_compare_nodes_by_name a b = strcmp (sh_name (hn_data a)) (sh_name (hn_data b))"

definition shash_sort :: "shash \<Rightarrow> shash_node hmap_node list option option" where
  "shash_sort sh =
     (if shash_is_empty sh then Some None
      else do {
        nodes \<leftarrow> hmap_for_each sh;
        if of_nat (length nodes) = shash_count sh
        then Some (Some (qsort shash_compare_nodes_by_name nodes)) else None
      })"

definition shash_equal_keys :: "shash \<Rightarrow> shash \<Rightarrow> bool option" where
  "shash_equal_keys a b =
     (if hmap_count a \<noteq> hmap_count b then Some False
      else do {
        nodes \<leftarrow> hmap_for_each a;
        Some (list_all (\<lambda>node. shash_find b (sh_name (hn_data node)) \<noteq> None) nodes)
      })"

definition shash_random_node :: "u32 \<Rightarrow> (nat \<Rightarrow> nat) \<Rightarrow> shash \<Rightarrow> shash_node hmap_node option" where
  "shash_random_node r rng sh = hmap_random_node r rng sh"

section \<open>What the operations do\<close>

abbreviation shash_wf :: "shash \<Rightarrow> bool" where
  "shash_wf \<equiv> dict_wf sh_name"

abbreviation shash_of :: "shash \<Rightarrow> str \<Rightarrow> addr option" where
  "shash_of \<equiv> dict_of sh_name sh_data"

lemma shash_find_len:
  assumes "shash_wf m" "str_ok name" "len \<le> length name"
  shows "shash_find_len m name len = Some nd \<longleftrightarrow> nd \<in> set (hmap_nodes m) \<and> sh_name (hn_data nd) = take len name"
    "map_option (\<lambda>nd. sh_data (hn_data nd)) (shash_find_len m name len) = shash_of m (take len name)"
  using dict_search_name [OF assms] by (simp_all add: shash_find_len_def shash_find0_def)

lemma shash_find_eq: "shash_find m name = shash_find_len m name (length name)"
  by (simp add: shash_find_def shash_find_len_def shash_hash_name_def)

lemma shash_find:
  assumes "shash_wf m" "str_ok name"
  shows "shash_find m name = Some nd \<longleftrightarrow> nd \<in> set (hmap_nodes m) \<and> sh_name (hn_data nd) = name"
    "map_option (\<lambda>nd. sh_data (hn_data nd)) (shash_find m name) = shash_of m name"
  using shash_find_len [OF assms order_refl] by (simp_all add: shash_find_eq)

lemma shash_find_cases:
  assumes "shash_wf m" "str_ok name"
  obtains "shash_find m name = None" "shash_of m name = None"
  | nd where "shash_find m name = Some nd" "nd \<in> set (hmap_nodes m)" "sh_name (hn_data nd) = name"
      "shash_of m name = Some (sh_data (hn_data nd))"
  using shash_find [OF assms] by (cases "shash_find m name") auto

lemma shash_add:
  assumes "shash_wf m" "str_ok name" "a \<notin> addrs m" "shash_of m name = None"
  shows "\<exists>m'. shash_add a m name v = Some m' \<and> shash_wf m' \<and> shash_of m' = (shash_of m)(name \<mapsto> v)
    \<and> addrs m' = insert a (addrs m)"
  using dict_add [where hf = name_hash and ok = str_ok and key = sh_name and val = sh_data and h = m
      and nd = "\<lparr>hn_addr = a, hn_hash = 0, hn_data = \<lparr>sh_name = name, sh_data = v\<rparr>\<rparr>"] assms
  by (simp add: shash_add_def shash_add_nocopy_def shash_add_nocopy0_def shash_hash_name_def) metis

lemma shash_replace:
  assumes "shash_wf m" "str_ok name" "a \<notin> addrs m"
  shows "\<exists>m'. shash_replace a m name v = Some (case shash_of m name of Some old \<Rightarrow> old | None \<Rightarrow> 0, m') \<and> shash_wf m'
    \<and> shash_of m' = (shash_of m)(name \<mapsto> v) \<and> addrs m' \<subseteq> insert a (addrs m)"
proof (cases rule: shash_find_cases [OF assms(1,2)])
  case 1
  then show ?thesis using shash_add [OF assms 1(2), of v]
    by (auto simp: shash_replace_def Let_def shash_find_def shash_add_def shash_add_nocopy_def)
next
  case (2 nd)
  then show ?thesis
    using dict_set(1,2) [OF assms(1) 2(2), of "\<lambda>d. d\<lparr>sh_data := v\<rparr>"]
      dict_set(3) [OF assms(1) 2(2), of "\<lambda>d. d\<lparr>sh_data := v\<rparr>" sh_data]
    by (auto simp: shash_replace_def Let_def shash_find_def)
qed

lemma shash_find_and_delete:
  assumes "shash_wf m" "str_ok name"
  shows "\<exists>m'. shash_find_and_delete m name = Some (case shash_of m name of Some old \<Rightarrow> old | None \<Rightarrow> 0, m') \<and> shash_wf m'
    \<and> shash_of m' = (shash_of m)(name := None) \<and> addrs m' \<subseteq> addrs m"
proof (cases rule: shash_find_cases [OF assms])
  case 1
  then show ?thesis using assms(1) by (auto simp: shash_find_and_delete_def)
next
  case (2 nd)
  obtain m' where "hmap_remove m nd = Some m'" "shash_wf m'" "shash_of m' = (shash_of m)(sh_name (hn_data nd) := None)"
    "addrs m' = addrs m - {hn_addr nd}"
    by (rule dict_del [OF assms(1) 2(2), where val = sh_data])
  then show ?thesis using 2 by (auto simp: shash_find_and_delete_def shash_delete_def shash_steal_def)
qed

interpretation shash: dictionary shash_wf shash_of addrs str_ok
  "\<lambda>a m k v. map_option snd (shash_replace a m k v)" "\<lambda>m k. map_option snd (shash_find_and_delete m k)"
proof
  fix m k a v
  assume "shash_wf m" "str_ok k" "a \<notin> addrs m"
  from shash_replace [OF this, of v] show "\<exists>m'. map_option snd (shash_replace a m k v) = Some m' \<and> shash_wf m'
      \<and> shash_of m' = (shash_of m)(k \<mapsto> v)" by auto
next
  fix m k
  assume "shash_wf m" "str_ok k"
  from shash_find_and_delete [OF this] show "\<exists>m'. map_option snd (shash_find_and_delete m k) = Some m' \<and> shash_wf m'
      \<and> shash_of m' = (shash_of m)(k := None)" by auto
qed

text \<open>Without duplicates the comparison of counts and one inclusion decide whether the keys are equal.\<close>

lemma shash_equal_keys:
  assumes "shash_wf a" "shash_wf b" "card (dom (shash_of a)) < 2 ^ 32" "card (dom (shash_of b)) < 2 ^ 32"
  shows "shash_equal_keys a b = Some (dom (shash_of a) = dom (shash_of b))"
proof -
  have wf: "hmap_wf a" using assms(1) by (simp add: dict_wf_def keyed_def)
  have find: "shash_find b (sh_name (hn_data nd)) \<noteq> None \<longleftrightarrow> sh_name (hn_data nd) \<in> dom (shash_of b)"
    if "nd \<in> set (hmap_nodes a)" for nd
  proof -
    have "str_ok (sh_name (hn_data nd))" using that assms(1) by (simp add: dict_wf_def keyed_def)
    from shash_find(2) [OF assms(2) this] show ?thesis by (metis domIff option.map_disc_iff)
  qed
  then have "list_all (\<lambda>nd. shash_find b (sh_name (hn_data nd)) \<noteq> None) (hmap_nodes a) \<longleftrightarrow> dom (shash_of a) \<subseteq> dom (shash_of b)"
    unfolding list_all_iff dict_dom [of sh_name sh_data a] by auto
  moreover have fin: "finite (dom (shash_of b))" by (simp add: dict_dom)
  have "card (dom (shash_of a)) = card (dom (shash_of b)) \<and> dom (shash_of a) \<subseteq> dom (shash_of b)
      \<longleftrightarrow> dom (shash_of a) = dom (shash_of b)"
    using card_subset_eq [OF fin, of "dom (shash_of a)"] by (metis order_refl)
  ultimately show ?thesis
    using dict_count_eq [OF assms] hmap_for_each_eq [OF wf]
    by (simp add: shash_equal_keys_def) metis
qed

end
