(* ===== verification/Ovs_Csum.thy ===== *)
theory Ovs_Csum
  imports Sdpa_Prelude
begin

text \<open>
  The Internet checksum of \<^verbatim>\<open>lib/csum.c\<close>: the sum over a buffer, and the incremental update of a checksum
  when a field of the packet changes.  A value in network byte order is read as the host
  reads it, low byte first; the one's complement sum does not depend on the byte order.
\<close>

section \<open>Operations\<close>

definition get_unaligned_be16 :: "u8 \<Rightarrow> u8 \<Rightarrow> u16" where
  "get_unaligned_be16 a b = ucast a + 256 * ucast b"

definition csum_add16 :: "u32 \<Rightarrow> u16 \<Rightarrow> u32" where
  "csum_add16 partial new = partial + ucast new"

definition csum_add32 :: "u32 \<Rightarrow> u32 \<Rightarrow> u32" where
  "csum_add32 partial new = partial + drop_bit 16 new + (new AND 0xffff)"

fun csum_continue :: "u32 \<Rightarrow> u8 list \<Rightarrow> u32" where
  "csum_continue partial (a # b # data) = csum_continue (csum_add16 partial (get_unaligned_be16 a b)) data"
| "csum_continue partial [a] = partial + ucast a"
| "csum_continue partial [] = partial"

text \<open>The loop of \<^verbatim>\<open>csum_finish\<close>.\<close>

lemma unat_low_high: "unat (p AND 0xffff :: u32) = unat p mod 65536" "unat (drop_bit 16 p :: u32) = unat p div 65536"
proof -
  have "p AND 0xffff = take_bit 16 p" by (simp add: take_bit_eq_mask mask_eq_exp_minus_1)
  then show "unat (p AND 0xffff) = unat p mod 65536" by (simp add: take_bit_eq_mod unat_mod)
  show "unat (drop_bit 16 p) = unat p div 65536" by (simp add: drop_bit_eq_div unat_div)
qed

lemma fold_step: "unat ((p AND 0xffff) + drop_bit 16 p :: u32) = unat p mod 65536 + unat p div 65536"
proof -
  have "unat p < 2 ^ 32" using unsigned_less [of p] by simp
  then have "unat p div 65536 < 65536" by (simp add: div_less_iff_less_mult)
  moreover have "unat p mod 65536 < 65536" by simp
  ultimately have "unat (p AND 0xffff) + unat (drop_bit 16 p) < 2 ^ 32" unfolding unat_low_high by simp
  then show ?thesis by (simp add: unat_add_small unat_low_high)
qed

function csum_fold :: "u32 \<Rightarrow> u32" where
  "csum_fold partial = (if drop_bit 16 partial \<noteq> 0 then csum_fold ((partial AND 0xffff) + drop_bit 16 partial) else partial)"
  by pat_completeness auto
termination
proof (relation "measure unat")
  fix p :: u32
  assume "drop_bit 16 p \<noteq> 0"
  then have "unat p div 65536 \<noteq> 0" using unat_low_high(2) [of p] by (metis unat_eq_zero)
  then have "unat p mod 65536 + unat p div 65536 < unat p"
    using div_mult_mod_eq [of "unat p" 65536] by linarith
  then show "((p AND 0xffff) + drop_bit 16 p, p) \<in> measure unat" by (simp add: fold_step)
qed simp

declare csum_fold.simps [simp del]

definition csum_finish :: "u32 \<Rightarrow> u16" where
  "csum_finish partial = ucast (NOT (csum_fold partial))"

definition csum :: "u8 list \<Rightarrow> u16" where
  "csum data = csum_finish (csum_continue 0 data)"

definition recalc_csum16 :: "u16 \<Rightarrow> u16 \<Rightarrow> u16 \<Rightarrow> u16" where
  "recalc_csum16 old_csum old_u16 new_u16 =
     (let hc_complement = NOT old_csum;
          m_complement = NOT old_u16;
          m_prime = new_u16;
          sum = ucast hc_complement + ucast m_complement + ucast m_prime
      in csum_finish sum)"

definition recalc_csum32 :: "u16 \<Rightarrow> u32 \<Rightarrow> u32 \<Rightarrow> u16" where
  "recalc_csum32 old_csum old_u32 new_u32 =
     recalc_csum16 (recalc_csum16 old_csum (ucast old_u32) (ucast new_u32))
       (ucast (drop_bit 16 old_u32)) (ucast (drop_bit 16 new_u32))"

definition recalc_csum128 :: "u16 \<Rightarrow> u32 list \<Rightarrow> u32 list \<Rightarrow> u16" where
  "recalc_csum128 old_csum old_u32 new_u32 =
     fold (\<lambda>i new_csum. recalc_csum32 new_csum (old_u32 ! i) (new_u32 ! i)) [0..<4] old_csum"

section \<open>The one's complement sum\<close>

lemma csum_fold_nat:
  "unat (csum_fold p) < 65536 \<and> unat (csum_fold p) mod 65535 = unat p mod 65535 \<and> (csum_fold p = 0 \<longleftrightarrow> p = 0)"
proof (induction p rule: csum_fold.induct)
  case (1 p)
  show ?case
  proof (cases "drop_bit 16 p = 0")
    case True
    then have "unat p div 65536 = 0" using unat_low_high(2) [of p] by simp
    then show ?thesis using True by (subst (1 2 3) csum_fold.simps) (simp add: div_eq_0_iff)
  next
    case False
    let ?q = "(p AND 0xffff) + drop_bit 16 p"
    have eq: "csum_fold p = csum_fold ?q" using False by (subst csum_fold.simps) simp
    have "unat p = 65535 * (unat p div 65536) + (unat p div 65536 + unat p mod 65536)"
      using div_mult_mod_eq [of "unat p" 65536] by linarith
    then have m: "unat p mod 65535 = unat ?q mod 65535" unfolding fold_step by (metis add.commute mod_mult_self2)
    have "unat p div 65536 \<noteq> 0" using False unat_low_high(2) [of p] by (metis unat_eq_zero)
    then have "?q \<noteq> 0" "p \<noteq> 0" using fold_step [of p] by auto
    then show ?thesis using 1 [OF False] eq m by simp
  qed
qed

lemma csum_fold_eq:
  assumes "unat p mod 65535 = unat q mod 65535" "p = 0 \<longleftrightarrow> q = 0"
  shows "csum_fold p = csum_fold q"
proof -
  have rep: "x = y" if "x < 65536" "y < 65536" "x mod 65535 = y mod 65535" "x = 0 \<longleftrightarrow> y = 0" for x y :: nat
  proof -
    have "x = 65535 \<or> x < 65535" "y = 65535 \<or> y < 65535" using that(1,2) by auto
    then show ?thesis using that(3,4) by auto
  qed
  have z: "unat (csum_fold p) = 0 \<longleftrightarrow> unat (csum_fold q) = 0"
    using csum_fold_nat assms(2) unfolding unat_eq_zero by blast
  have "unat (csum_fold p) mod 65535 = unat (csum_fold q) mod 65535" using csum_fold_nat assms(1) by metis
  from rep [OF _ _ this z] have "unat (csum_fold p) = unat (csum_fold q)" using csum_fold_nat by blast
  then show ?thesis by (simp add: word_unat_eq_iff)
qed

lemma csum_finish_not: "unat (NOT (csum_finish p)) = unat (csum_fold p)"
proof -
  have "NOT (csum_finish p) = ucast (csum_fold p)" by (rule bit_word_eqI) (simp add: csum_finish_def bit_not_iff bit_ucast_iff)
  then show ?thesis using csum_fold_nat [of p] by (simp add: unsigned_ucast_eq take_bit_nat_eq_self)
qed

lemma unat_not16: "unat (NOT m :: u16) = 65535 - unat m"
proof -
  have "NOT m = - 1 - m" by (simp add: not_eq_complement)
  moreover have "unat (- 1 :: u16) = 65535" by (simp add: unsigned_minus_1_eq_mask mask_eq_exp_minus_1)
  moreover have "unat m < 65536" using unsigned_less [of m] by simp
  ultimately show ?thesis by (simp only: unat_sub_if') simp
qed

text \<open>\<open>dsum data\<close> is the sum of the 16-bit words of the data, an odd byte at the end counting as a word.\<close>

fun dsum :: "u8 list \<Rightarrow> nat" where
  "dsum (a # b # data) = unat a + 256 * unat b + dsum data"
| "dsum [a] = unat a"
| "dsum [] = 0"

lemma unat_u8: "unat (a :: u8) \<le> 255"
proof -
  have "unat a < 256" using unsigned_less [of a] by simp
  then show ?thesis by simp
qed

lemma unat_be16: "unat (get_unaligned_be16 a b) = unat a + 256 * unat b"
proof -
  have e: "get_unaligned_be16 a b = of_nat (unat a + 256 * unat b)" by (simp add: get_unaligned_be16_def)
  show ?thesis unfolding e unat_of_nat using unat_u8 [of a] unat_u8 [of b] by simp
qed

lemma csum_continue_dsum: "csum_continue p data = p + of_nat (dsum data)"
proof (induction p data rule: csum_continue.induct)
  case (1 p a b data)
  have "csum_add16 p (get_unaligned_be16 a b) = p + of_nat (unat a + 256 * unat b)"
    unfolding unat_be16 [symmetric] by (simp add: csum_add16_def)
  then show ?case using 1 by (simp add: add.assoc)
qed simp_all

lemma dsum_bound: "dsum data \<le> 65535 * length data"
proof (induction data rule: dsum.induct)
  case (1 a b data)
  then show ?case using unat_u8 [of a] unat_u8 [of b] by simp
next
  case (2 a)
  then show ?case using unat_u8 [of a] by simp
qed simp

lemma dsum_append: "even (length xs) \<Longrightarrow> dsum (xs @ ys) = dsum xs + dsum ys"
  by (induction xs rule: dsum.induct) auto

definition small :: "u8 list \<Rightarrow> bool" where
  "small data \<longleftrightarrow> length data \<le> 65537"

lemma csum_sum: "small data \<Longrightarrow> unat (csum_continue 0 data) = dsum data"
  using dsum_bound [of data] by (simp add: csum_continue_dsum unat_of_nat small_def)

section \<open>Incremental update\<close>

text \<open>\<open>hc\<close> is a checksum of data with the sum \<open>k\<close>; zero has two representations.\<close>

definition csum_for :: "u16 \<Rightarrow> nat \<Rightarrow> bool" where
  "csum_for hc k \<longleftrightarrow> unat (NOT hc) mod 65535 = k mod 65535"

lemma recalc_sum:
  defines "p hc m m' \<equiv> (ucast (NOT hc :: u16) + ucast (NOT m :: u16) + ucast (m' :: u16) :: u32)"
  shows "recalc_csum16 hc m m' = csum_finish (p hc m m')"
    "unat (p hc m m') = unat (NOT hc) + (65535 - unat m) + unat m'"
proof -
  show "recalc_csum16 hc m m' = csum_finish (p hc m m')" by (simp add: recalc_csum16_def p_def Let_def)
  have e: "p hc m m' = of_nat (unat (NOT hc) + unat (NOT m) + unat m')" by (simp add: p_def)
  have "unat (NOT hc) < 65536" "unat (NOT m) < 65536" "unat m' < 65536"
    using unsigned_less [of "NOT hc"] unsigned_less [of "NOT m"] unsigned_less [of m'] by simp_all
  then have "unat (p hc m m') = unat (NOT hc) + unat (NOT m) + unat m'" unfolding e unat_of_nat by simp
  then show "unat (p hc m m') = unat (NOT hc) + (65535 - unat m) + unat m'" by (simp add: unat_not16)
qed

lemma recalc_csum16_for:
  assumes "csum_for hc k" "unat m \<le> k"
  shows "csum_for (recalc_csum16 hc m m') (k - unat m + unat m')"
    "NOT hc \<noteq> 0 \<or> m \<noteq> 0xffff \<or> m' \<noteq> 0 \<Longrightarrow> NOT (recalc_csum16 hc m m') \<noteq> 0"
proof -
  obtain p where p: "recalc_csum16 hc m m' = csum_finish p" "unat p = unat (NOT hc) + (65535 - unat m) + unat m'"
    using recalc_sum by blast
  have m: "unat m \<le> 65535" using unat_not16 [of "NOT m"] by simp
  have "unat p mod 65535 = (unat (NOT hc) + (65535 - unat m + unat m')) mod 65535" unfolding p(2) add.assoc ..
  also have "\<dots> = (k + (65535 - unat m + unat m')) mod 65535"
    using assms(1) unfolding csum_for_def by (intro mod_add_cong) simp_all
  also have "k + (65535 - unat m + unat m') = (k - unat m + unat m') + 65535" using assms(2) m by simp
  finally have "unat p mod 65535 = (k - unat m + unat m') mod 65535" by (simp only: mod_add_self2)
  then show "csum_for (recalc_csum16 hc m m') (k - unat m + unat m')"
    using csum_fold_nat [of p] unfolding csum_for_def p(1) csum_finish_not by simp
  assume nz: "NOT hc \<noteq> 0 \<or> m \<noteq> 0xffff \<or> m' \<noteq> 0"
  have "unat p \<noteq> 0"
  proof
    assume "unat p = 0"
    then have "unat (NOT hc) = 0" "unat m = 65535" "unat m' = 0" using p(2) m by auto
    moreover have "m = 0xffff" using \<open>unat m = 65535\<close> by (intro word_unat_eq_iff [THEN iffD2]) simp
    ultimately show False using nz by (simp only: unat_eq_zero) simp
  qed
  then have "unat (csum_fold p) \<noteq> 0" using csum_fold_nat [of p] by (simp add: unat_eq_zero)
  then show "NOT (recalc_csum16 hc m m') \<noteq> 0"
    unfolding p(1) csum_finish_not [symmetric] by (metis unat_0)
qed

lemma csum_for_csum: "small data \<Longrightarrow> csum_for (csum data) (dsum data)" "small data \<Longrightarrow> NOT (csum data) = 0 \<longleftrightarrow> dsum data = 0"
proof -
  assume s: "small data"
  show "csum_for (csum data) (dsum data)"
    using csum_fold_nat [of "csum_continue 0 data"] csum_sum [OF s] by (simp add: csum_for_def csum_def csum_finish_not)
  have "NOT (csum data) = 0 \<longleftrightarrow> unat (csum_fold (csum_continue 0 data)) = 0"
    unfolding csum_finish_not [symmetric] csum_def by (metis unat_0 unat_eq_zero)
  also have "\<dots> \<longleftrightarrow> unat (csum_continue 0 data) = 0"
    using csum_fold_nat [of "csum_continue 0 data"] by (simp add: unat_eq_zero)
  finally show "NOT (csum data) = 0 \<longleftrightarrow> dsum data = 0" using csum_sum [OF s] by simp
qed

text \<open>A checksum whose complement is not zero is determined by the sum.\<close>

lemma csum_for_unique:
  assumes "csum_for hc k" "csum_for hc' k" "NOT hc \<noteq> 0" "NOT hc' \<noteq> 0"
  shows "hc = hc'"
proof -
  have b: "unat (NOT hc) \<le> 65535" "unat (NOT hc') \<le> 65535" using unat_not16 [of hc] unat_not16 [of hc'] by simp_all
  have z: "unat (NOT hc) \<noteq> 0" "unat (NOT hc') \<noteq> 0" using assms(3,4) by (simp_all add: unat_eq_zero)
  have "unat (NOT hc) mod 65535 = unat (NOT hc') mod 65535" using assms(1,2) by (simp add: csum_for_def)
  moreover have "unat (NOT hc) = 65535 \<or> unat (NOT hc) < 65535" "unat (NOT hc') = 65535 \<or> unat (NOT hc') < 65535"
    using b by auto
  ultimately have "unat (NOT hc) = unat (NOT hc')" using z by auto
  then have "NOT hc = NOT hc'" by (simp only: word_unat_eq_iff)
  then show ?thesis by (metis bit.double_compl)
qed

section \<open>Checksums of packets\<close>

text \<open>The bytes of a field in memory.\<close>

definition mem16 :: "u16 \<Rightarrow> u8 list" where
  "mem16 w = [ucast w, ucast (drop_bit 8 w)]"

definition mem32 :: "u32 \<Rightarrow> u8 list" where
  "mem32 w = mem16 (ucast w) @ mem16 (ucast (drop_bit 16 w))"

lemma dsum_mem16: "dsum (mem16 w) = unat w"
proof -
  have u8: "unat (ucast w :: u8) = unat w mod 256" for w :: u16
    by (simp add: unsigned_ucast_eq take_bit_eq_mod)
  have "unat w < 65536" using unsigned_less [of w] by simp
  then have "unat w div 256 mod 256 = unat w div 256" by simp
  moreover have "unat (drop_bit 8 w) = unat w div 256" by (simp add: drop_bit_eq_div unat_div)
  ultimately show ?thesis by (simp add: mem16_def u8)
qed

lemma mem_length [simp]: "length (mem16 w) = 2" "length (mem32 w') = 4"
  by (simp_all add: mem16_def mem32_def)

lemma dsum_field:
  assumes "even (length pre)"
  shows "dsum (pre @ mem16 m' @ post) = dsum (pre @ mem16 m @ post) - unat m + unat m'"
    "unat m \<le> dsum (pre @ mem16 m @ post)"
  using assms by (simp_all add: dsum_append dsum_mem16)

text \<open>\<open>hc\<close> is a checksum of the data, and not the representation of zero that is left to data of zeros only.\<close>

definition good_csum :: "u16 \<Rightarrow> u8 list \<Rightarrow> bool" where
  "good_csum hc data \<longleftrightarrow> csum_for hc (dsum data) \<and> (NOT hc = 0 \<longrightarrow> dsum data = 0)"

lemma good_csum_csum: "small data \<Longrightarrow> good_csum (csum data) data"
  using csum_for_csum [of data] by (simp add: good_csum_def)

lemma good_csum_eq:
  assumes "good_csum hc data" "small data" "dsum data \<noteq> 0"
  shows "hc = csum data"
  using assms csum_for_csum [of data] by (intro csum_for_unique [of _ "dsum data"]) (auto simp: good_csum_def)

lemma recalc_csum16_good:
  assumes "good_csum hc (pre @ mem16 m @ post)" "even (length pre)"
  shows "good_csum (recalc_csum16 hc m m') (pre @ mem16 m' @ post)"
proof -
  let ?k = "dsum (pre @ mem16 m @ post)"
  have for_k: "csum_for hc ?k" using assms(1) by (simp add: good_csum_def)
  have m: "unat m \<le> ?k" by (rule dsum_field(2) [OF assms(2)])
  have "NOT hc \<noteq> 0 \<or> m \<noteq> 0xffff"
  proof (cases "NOT hc = 0")
    case True
    then have "unat m = 0" using assms(1) m by (simp add: good_csum_def)
    then show ?thesis by auto
  qed simp
  then show ?thesis
    using recalc_csum16_for [OF for_k m, of m'] dsum_field(1) [OF assms(2), of m' post m] by (auto simp: good_csum_def)
qed

lemma recalc_csum32_good:
  assumes "good_csum hc (pre @ mem32 m @ post)" "even (length pre)"
  shows "good_csum (recalc_csum32 hc m m') (pre @ mem32 m' @ post)"
proof -
  let ?l = "ucast m :: u16" and ?l' = "ucast m' :: u16"
  let ?h = "ucast (drop_bit 16 m) :: u16" and ?h' = "ucast (drop_bit 16 m') :: u16"
  have "good_csum (recalc_csum16 hc ?l ?l') (pre @ mem16 ?l' @ (mem16 ?h @ post))"
    using assms by (intro recalc_csum16_good) (simp_all add: mem32_def)
  then have "good_csum (recalc_csum16 (recalc_csum16 hc ?l ?l') ?h ?h') ((pre @ mem16 ?l') @ mem16 ?h' @ post)"
    using assms(2) by (intro recalc_csum16_good) simp_all
  then show ?thesis by (simp add: recalc_csum32_def mem32_def)
qed

lemma recalc_csum128_good:
  assumes "good_csum hc (pre @ concat (map mem32 [a, b, c, d]) @ post)" "even (length pre)"
  shows "good_csum (recalc_csum128 hc [a, b, c, d] [a', b', c', d']) (pre @ concat (map mem32 [a', b', c', d']) @ post)"
proof -
  have e: "even (length (pre @ mem32 a'))" "even (length (pre @ mem32 a' @ mem32 b'))"
    "even (length (pre @ mem32 a' @ mem32 b' @ mem32 c'))" using assms(2) by simp_all
  let ?h1 = "recalc_csum32 hc a a'"
  let ?h2 = "recalc_csum32 ?h1 b b'"
  let ?h3 = "recalc_csum32 ?h2 c c'"
  have "good_csum ?h1 (pre @ mem32 a' @ (mem32 b @ mem32 c @ mem32 d @ post))"
    using assms by (intro recalc_csum32_good) simp_all
  then have "good_csum ?h2 ((pre @ mem32 a') @ mem32 b' @ (mem32 c @ mem32 d @ post))"
    by (intro recalc_csum32_good e) simp
  then have "good_csum ?h3 ((pre @ mem32 a' @ mem32 b') @ mem32 c' @ (mem32 d @ post))"
    by (intro recalc_csum32_good e) simp
  then have "good_csum (recalc_csum32 ?h3 d d') ((pre @ mem32 a' @ mem32 b' @ mem32 c') @ mem32 d' @ post)"
    by (intro recalc_csum32_good e) simp
  then show ?thesis by (simp add: recalc_csum128_def upt_rec)
qed

text \<open>
  C26.  A packet with its own checksum in a field that was zero sums to zero, whatever the data.
\<close>

theorem csum_inserted:
  assumes "even (length pre)" "small (pre @ mem16 0 @ post)"
  shows "csum (pre @ mem16 (csum (pre @ mem16 0 @ post)) @ post) = 0"
proof -
  let ?old = "pre @ mem16 0 @ post"
  let ?hc = "csum ?old"
  let ?new = "pre @ mem16 ?hc @ post"
  have small: "small ?new" using assms(2) by (simp add: small_def)
  have hc: "unat ?hc = 65535 - unat (NOT ?hc)" "unat (NOT ?hc) \<le> 65535"
    using unat_not16 [of "NOT ?hc"] unat_not16 [of ?hc] by simp_all
  have sum: "dsum ?new = dsum ?old + unat ?hc" using dsum_field(1) [OF assms(1), of ?hc post 0] by simp
  have "dsum ?old mod 65535 = unat (NOT ?hc) mod 65535" using csum_for_csum(1) [OF assms(2)] by (simp add: csum_for_def)
  then have "dsum ?new mod 65535 = (unat (NOT ?hc) + unat ?hc) mod 65535" unfolding sum by (rule mod_add_cong) (rule refl)
  also have "\<dots> = 65535 mod 65535" using hc by simp
  finally have "csum_for 0 (dsum ?new)" unfolding csum_for_def unat_not16 by simp
  moreover have "dsum ?new \<noteq> 0"
  proof
    assume "dsum ?new = 0"
    then have "dsum ?old = 0" "unat ?hc = 0" using sum by auto
    then show False using csum_for_csum(2) [OF assms(2)] hc by (auto simp: unat_eq_zero)
  qed
  ultimately show ?thesis using good_csum_eq [of 0 ?new] small by (simp add: good_csum_def)
qed

section \<open>Properties\<close>

text \<open>
  C25.  The incremental update of a checksum after a 16-bit field changed gives the checksum that a
  computation over the changed packet would give, unless all of that packet is zero.
\<close>

theorem recalc_csum16_recompute:
  assumes "even (length pre)" "small (pre @ mem16 m @ post)" "dsum (pre @ mem16 m' @ post) \<noteq> 0"
  shows "recalc_csum16 (csum (pre @ mem16 m @ post)) m m' = csum (pre @ mem16 m' @ post)"
  using recalc_csum16_good [OF good_csum_csum [OF assms(2)] assms(1), of m'] assms(2,3)
  by (intro good_csum_eq) (simp_all add: small_def)

theorem recalc_csum16_recompute_witness:
  "recalc_csum16 (csum ([0x45, 0] @ mem16 0x2010 @ [0xff])) 0x2010 0x0100 = csum ([0x45, 0] @ mem16 0x0100 @ [0xff])"
  by (rule recalc_csum16_recompute) (simp_all add: small_def dsum_append)

text \<open>
  The same for a change of an IPv6 address, four updates of 32 bits.
\<close>

lemma recalc_csum128_recompute:
  assumes "even (length pre)" "small (pre @ concat (map mem32 [a, b, c, d]) @ post)"
    "dsum (pre @ concat (map mem32 [a', b', c', d']) @ post) \<noteq> 0"
  shows "recalc_csum128 (csum (pre @ concat (map mem32 [a, b, c, d]) @ post)) [a, b, c, d] [a', b', c', d']
    = csum (pre @ concat (map mem32 [a', b', c', d']) @ post)"
  using recalc_csum128_good [OF good_csum_csum [OF assms(2)] assms(1), of a' b' c' d'] assms(2,3)
  by (intro good_csum_eq) (simp_all add: small_def)

theorem csum_inserted_witness:
  "csum ([0x45, 0] @ mem16 (csum [0x45, 0, 0, 0, 7]) @ [7]) = 0"
  using csum_inserted [of "[0x45, 0]" "[7]"] by (simp add: mem16_def small_def)

end
