(* ===== verification/Ovs_Token_Bucket.thy ===== *)
theory Ovs_Token_Bucket
  imports C_Int
begin

text \<open>
  The rate limiter of \<^verbatim>\<open>lib/token-bucket.c\<close>.  The time that \<^verbatim>\<open>time_msec()\<close> returns is an argument.
\<close>

record token_bucket =
  tb_rate :: u32
  tb_burst :: u32
  tb_tokens :: u32
  tb_last_fill :: int

section \<open>Operations\<close>

definition token_bucket_init :: "u32 \<Rightarrow> u32 \<Rightarrow> token_bucket" where
  "token_bucket_init rate burst = \<lparr>tb_rate = rate, tb_burst = burst, tb_tokens = 0, tb_last_fill = LLONG_MIN\<rparr>"

definition token_bucket_set :: "token_bucket \<Rightarrow> u32 \<Rightarrow> u32 \<Rightarrow> token_bucket" where
  "token_bucket_set tb rate burst =
     (let tb = tb\<lparr>tb_rate := rate, tb_burst := burst\<rparr>
      in if burst > tb_tokens tb then tb\<lparr>tb_tokens := burst\<rparr> else tb)"

text \<open>Lines 67 to 77.\<close>

definition elapsed_since :: "int \<Rightarrow> int \<Rightarrow> u32" where
  "elapsed_since last_fill now =
     (let elapsed_ull = word_of_int now - word_of_int last_fill :: u64 in ucast (min 0xffffffff elapsed_ull))"

definition token_bucket_fill :: "token_bucket \<Rightarrow> int \<Rightarrow> token_bucket" where
  "token_bucket_fill tb now =
     (if now > tb_last_fill tb then
        let elapsed = elapsed_since (tb_last_fill tb) now;
            add = sat_mul (tb_rate tb) elapsed;
            tokens = sat_add (tb_tokens tb) add
        in tb\<lparr>tb_tokens := min tokens (tb_burst tb), tb_last_fill := now\<rparr>
      else tb)"

definition token_bucket_withdraw :: "token_bucket \<Rightarrow> int \<Rightarrow> u32 \<Rightarrow> bool \<times> token_bucket" where
  "token_bucket_withdraw tb now k =
     (let tb = (if tb_tokens tb < k then token_bucket_fill tb now else tb)
      in if tb_tokens tb < k then (False, tb) else (True, tb\<lparr>tb_tokens := tb_tokens tb - k\<rparr>))"

text \<open>What the poll loop is told; \<open>None\<close> is a division by zero or an overflow.\<close>

datatype wake = Immediate_wake | Wake_at int

definition token_bucket_wait :: "token_bucket \<Rightarrow> u32 \<Rightarrow> wake option" where
  "token_bucket_wait tb k =
     (if tb_tokens tb \<ge> k then Some Immediate_wake
      else
        let need = k - tb_tokens tb
        in if tb_rate tb = 0 then None
           else do {
             t \<leftarrow> c_ll (tb_last_fill tb + uint (need div tb_rate tb));
             t \<leftarrow> c_ll (t + 1);
             Some (Wake_at t)
           })"

section \<open>The limit\<close>

abbreviation tokens :: "token_bucket \<Rightarrow> nat" where
  "tokens tb \<equiv> unat (tb_tokens tb)"

abbreviation time_ok :: "int \<Rightarrow> bool" where
  "time_ok t \<equiv> LLONG_MIN \<le> t \<and> t \<le> LLONG_MAX"

text \<open>The milliseconds since the last fill, up to the largest \<^verbatim>\<open>unsigned int\<close>.\<close>

lemma elapsed_unat:
  assumes "time_ok now" "time_ok lf" "lf < now"
  shows "unat (elapsed_since lf now) = min 4294967295 (nat (now - lf))"
proof -
  let ?e = "word_of_int now - word_of_int lf :: u64"
  have e: "?e = word_of_int (now - lf)" by simp
  have "uint ?e = (now - lf) mod 18446744073709551616" unfolding e by (simp only: uint_word_of_int) simp
  also have "\<dots> = now - lf" using assms by simp
  finally have "unat ?e = nat (now - lf)" by (metis nat_uint_eq)
  then have "unat (min 0xffffffff ?e) = min 4294967295 (nat (now - lf))" by (simp add: min_def word_le_nat_alt)
  then show ?thesis unfolding elapsed_since_def Let_def by (simp add: unsigned_ucast_eq take_bit_nat_eq_self)
qed

lemma token_bucket_fill:
  assumes "time_ok now" "time_ok (tb_last_fill tb)" "tb_last_fill tb < now"
  shows "tokens (token_bucket_fill tb now) = min (unat (tb_burst tb))
      (min 4294967295 (tokens tb + min 4294967295 (unat (tb_rate tb) * min 4294967295 (nat (now - tb_last_fill tb)))))"
    "tb_last_fill (token_bucket_fill tb now) = now" "tb_rate (token_bucket_fill tb now) = tb_rate tb"
    "tb_burst (token_bucket_fill tb now) = tb_burst tb"
proof -
  let ?el = "elapsed_since (tb_last_fill tb) now"
  have um: "unat (min a b) = min (unat a) (unat b)" for a b :: u32 by (simp add: min_def word_le_nat_alt)
  have "tokens (token_bucket_fill tb now) = unat (min (sat_add (tb_tokens tb) (sat_mul (tb_rate tb) ?el)) (tb_burst tb))"
    using assms(3) by (simp add: token_bucket_fill_def Let_def)
  then show "tokens (token_bucket_fill tb now) = min (unat (tb_burst tb))
      (min 4294967295 (tokens tb + min 4294967295 (unat (tb_rate tb) * min 4294967295 (nat (now - tb_last_fill tb)))))"
    unfolding um sat_add_unat sat_mul_unat elapsed_unat [OF assms] by (simp only: min.commute)
qed (use assms(3) in \<open>simp_all add: token_bucket_fill_def Let_def\<close>)

text \<open>The tokens granted by a sequence of requests, each with its time.\<close>

fun granted :: "token_bucket \<Rightarrow> (int \<times> u32) list \<Rightarrow> nat" where
  "granted tb [] = 0"
| "granted tb ((now, k) # reqs) =
     (let (ok, tb) = token_bucket_withdraw tb now k in (if ok then unat k else 0) + granted tb reqs)"

definition tb_wf :: "token_bucket \<Rightarrow> bool" where
  "tb_wf tb \<longleftrightarrow> time_ok (tb_last_fill tb) \<and> tb_tokens tb \<le> tb_burst tb"

lemma token_bucket_withdraw_step:
  assumes wf: "tb_wf tb" "time_ok now" "tb_last_fill tb \<le> now" and r: "token_bucket_withdraw tb now k = (ok, tb')"
  shows "tb_wf tb'" "tb_last_fill tb \<le> tb_last_fill tb'" "tb_last_fill tb' \<le> now" "tb_rate tb' = tb_rate tb" "tb_burst tb' = tb_burst tb"
    "(if ok then unat k else 0) + tokens tb' \<le> tokens tb + unat (tb_rate tb) * nat (tb_last_fill tb' - tb_last_fill tb)"
proof -
  define f where "f = (if tb_tokens tb < k then token_bucket_fill tb now else tb)"
  have f: "tb_wf f \<and> tb_last_fill tb \<le> tb_last_fill f \<and> tb_last_fill f \<le> now \<and> tb_rate f = tb_rate tb \<and> tb_burst f = tb_burst tb
    \<and> tokens f \<le> tokens tb + unat (tb_rate tb) * nat (tb_last_fill f - tb_last_fill tb)"
  proof (cases "tb_tokens tb < k \<and> tb_last_fill tb < now")
    case True
    have lf: "time_ok (tb_last_fill tb)" using wf(1) by (simp add: tb_wf_def)
    have lt: "tb_last_fill tb < now" using True by simp
    note fill = token_bucket_fill [OF wf(2) lf lt]
    have "tokens f \<le> tokens tb + unat (tb_rate tb) * nat (now - tb_last_fill tb)"
    proof -
      have le: "min B (min C (x + min C y)) \<le> x + y" for B C x y :: nat by (auto simp: min_def)
      have "unat (tb_rate tb) * min 4294967295 (nat (now - tb_last_fill tb)) \<le> unat (tb_rate tb) * nat (now - tb_last_fill tb)"
        by (intro mult_le_mono2) simp
      moreover have "tokens f \<le> tokens tb + unat (tb_rate tb) * min 4294967295 (nat (now - tb_last_fill tb))"
        using True unfolding f_def by (simp only: if_True simp_thms fill(1) le)
      ultimately show ?thesis by linarith
    qed
    moreover have "tb_tokens f \<le> tb_burst f" using True unfolding f_def word_le_nat_alt by (simp only: if_True simp_thms fill min.cobounded1)
    moreover have "tb_last_fill f = now" "tb_rate f = tb_rate tb" "tb_burst f = tb_burst tb"
      using True unfolding f_def by (simp_all only: if_True simp_thms fill(2-4))
    ultimately show ?thesis using True wf by (simp add: tb_wf_def)
  next
    case False
    then have "f = tb" by (auto simp: f_def token_bucket_fill_def)
    then show ?thesis using wf by simp
  qed
  have tb': "tb' = (if tb_tokens f < k then f else f\<lparr>tb_tokens := tb_tokens f - k\<rparr>)" "ok \<longleftrightarrow> \<not> tb_tokens f < k"
    using r by (auto simp: token_bucket_withdraw_def f_def [symmetric] Let_def split: if_splits)
  have sub: "tokens (f\<lparr>tb_tokens := tb_tokens f - k\<rparr>) = tokens f - unat k" "unat k \<le> tokens f" if "\<not> tb_tokens f < k"
    using that by (simp_all add: not_less word_le_nat_alt unat_sub_if')
  show "tb_wf tb'" using f sub by (auto simp: tb' tb_wf_def word_le_nat_alt)
  show "tb_last_fill tb \<le> tb_last_fill tb'" "tb_last_fill tb' \<le> now" "tb_rate tb' = tb_rate tb" "tb_burst tb' = tb_burst tb"
    using f by (auto simp: tb')
  show "(if ok then unat k else 0) + tokens tb' \<le> tokens tb + unat (tb_rate tb) * nat (tb_last_fill tb' - tb_last_fill tb)"
    using f sub by (auto simp: tb')
qed

text \<open>
  C27.  However a client spaces its requests, the tokens it is granted up to a time are at most those in the bucket at the
  start and the rate times the milliseconds since the last fill.
\<close>

theorem granted_bound:
  assumes "tb_wf tb" "sorted (map fst reqs)" "\<forall>r \<in> set reqs. tb_last_fill tb \<le> fst r \<and> fst r \<le> t" "time_ok t"
  shows "granted tb reqs \<le> tokens tb + unat (tb_rate tb) * nat (t - tb_last_fill tb)"
  using assms
proof (induction reqs arbitrary: tb)
  case (Cons r reqs)
  obtain now k where r: "r = (now, k)" by (cases r)
  obtain ok tb' where w: "token_bucket_withdraw tb now k = (ok, tb')" by fastforce
  have now: "time_ok now" "tb_last_fill tb \<le> now" "now \<le> t"
    using Cons.prems(1,3,4) r by (auto simp: tb_wf_def)
  note s = token_bucket_withdraw_step [OF Cons.prems(1) now(1,2) w]
  have "\<forall>r \<in> set reqs. tb_last_fill tb' \<le> fst r \<and> fst r \<le> t" using Cons.prems(2,3) r s(3) by fastforce
  then have IH: "granted tb' reqs \<le> tokens tb' + unat (tb_rate tb) * nat (t - tb_last_fill tb')"
    using Cons.IH [of tb'] Cons.prems(2,4) s(1,4) by simp
  have "nat (tb_last_fill tb' - tb_last_fill tb) + nat (t - tb_last_fill tb') = nat (t - tb_last_fill tb)"
    using s(2,3) now(3) by simp
  then have "unat (tb_rate tb) * nat (tb_last_fill tb' - tb_last_fill tb) + unat (tb_rate tb) * nat (t - tb_last_fill tb')
      = unat (tb_rate tb) * nat (t - tb_last_fill tb)" by (metis add_mult_distrib2)
  then show ?case using IH s(6) r w by (simp del: of_nat_add)
qed simp

text \<open>Nothing but a rate of 0 keeps the first request from finding a full bucket.\<close>

lemma token_bucket_initially_full:
  assumes "time_ok now" "0 \<le> now" "k \<le> burst" "0 < k" "rate \<noteq> 0"
  shows "token_bucket_withdraw (token_bucket_init rate burst) now k
    = (True, \<lparr>tb_rate = rate, tb_burst = burst, tb_tokens = burst - k, tb_last_fill = now\<rparr>)"
proof -
  let ?tb = "token_bucket_init rate burst"
  have r: "1 \<le> unat rate" using assms(5) by (simp add: Suc_le_eq unat_gt_0)
  have lf: "time_ok (tb_last_fill ?tb)" "tb_last_fill ?tb < now" "tb_rate ?tb = rate" "tb_burst ?tb = burst" "tb_tokens ?tb = 0"
    using assms(2) by (simp_all add: token_bucket_init_def)
  note fill = token_bucket_fill [OF assms(1) lf(1,2)]
  have e: "4294967295 \<le> nat (now - tb_last_fill ?tb)" using assms(2) by (simp add: token_bucket_init_def)
  have "4294967295 \<le> unat rate * 4294967295" using r by simp
  moreover have "unat burst < 4294967296" using unsigned_less [of burst] by simp
  ultimately have "tokens (token_bucket_fill ?tb now) = unat burst"
    using e unfolding fill(1) lf(3-5) by (simp add: min_def)
  then have "token_bucket_fill ?tb now = \<lparr>tb_rate = rate, tb_burst = burst, tb_tokens = burst, tb_last_fill = now\<rparr>"
    using fill(2-4) lf(3,4) by (intro token_bucket.equality) (simp_all add: word_unat_eq_iff)
  then show ?thesis using assms(3,4) lf(5) by (simp add: token_bucket_withdraw_def Let_def not_less)
qed

text \<open>
  C28.  A client that waits until the time \<^verbatim>\<open>token_bucket_wait\<close> computes gets its tokens, if the bucket can hold them at all.
\<close>

theorem token_bucket_wait_enough:
  assumes "token_bucket_wait tb k = Some w" "k \<le> tb_burst tb" "time_ok (tb_last_fill tb)" "time_ok now"
    and "case w of Immediate_wake \<Rightarrow> True | Wake_at t \<Rightarrow> t \<le> now"
  shows "fst (token_bucket_withdraw tb now k)"
proof (cases "tb_tokens tb \<ge> k")
  case True
  then have "\<not> tb_tokens tb < k" by simp
  then show ?thesis by (simp add: token_bucket_withdraw_def Let_def)
next
  case False
  let ?need = "k - tb_tokens tb"
  have rate: "tb_rate tb \<noteq> 0" and w: "w = Wake_at (tb_last_fill tb + uint (?need div tb_rate tb) + 1)"
    using assms(1) False by (auto simp: token_bucket_wait_def Let_def c_ll_def bind_eq_Some_conv split: if_splits)
  let ?r = "unat (tb_rate tb)" and ?n = "unat ?need" and ?el = "nat (now - tb_last_fill tb)"
  have need: "tokens tb + ?n = unat k" using False by (simp add: word_le_nat_alt unat_sub_if')
  have "uint (?need div tb_rate tb) = int (?n div ?r)" by (simp add: uint_div zdiv_int)
  then have "tb_last_fill tb + int (?n div ?r) + 1 \<le> now" using assms(5) w by simp
  then have el: "?n div ?r + 1 \<le> ?el" and lt: "tb_last_fill tb < now" by linarith+
  have r: "0 < ?r" using rate by (simp add: unat_gt_0)
  have "?n < ?r * (?n div ?r + 1)" using r by (metis Suc_eq_plus1 dividend_less_times_div mult.commute mult_Suc_right add.commute)
  also have "\<dots> \<le> ?r * ?el" using el by (rule mult_le_mono2)
  finally have "?n \<le> ?r * min 4294967295 ?el"
  proof (cases "?el \<le> 4294967295")
    case False
    have "?n < 4294967296" using unsigned_less [of ?need] by simp
    moreover have "4294967295 * 1 \<le> ?r * 4294967295" using r by simp
    ultimately show ?thesis using False by (simp add: min_def)
  qed (simp add: min_def)
  moreover have "unat k < 4294967296" "unat k \<le> unat (tb_burst tb)"
    using unsigned_less [of k] assms(2) by (simp_all add: word_le_nat_alt)
  ultimately have "unat k \<le> tokens (token_bucket_fill tb now)"
    unfolding token_bucket_fill(1) [OF assms(4,3) lt] using need by (simp add: min_def)
  then show ?thesis using False by (simp add: token_bucket_withdraw_def Let_def word_le_nat_alt not_le [symmetric])
qed

section \<open>Properties\<close>

definition example_bucket :: token_bucket where
  "example_bucket = \<lparr>tb_rate = 2, tb_burst = 10, tb_tokens = 4, tb_last_fill = 100\<rparr>"

theorem granted_bound_witness:
  "granted example_bucket [(101, 3), (102, 3), (105, 9)] \<le> 14"
  using granted_bound [of example_bucket "[(101, 3), (102, 3), (105, 9)]" 105]
  by (simp add: example_bucket_def tb_wf_def)

theorem token_bucket_wait_enough_witness:
  "token_bucket_wait example_bucket 9 = Some (Wake_at 103) \<and> fst (token_bucket_withdraw example_bucket 103 9)"
proof -
  have "token_bucket_wait example_bucket 9 = Some (Wake_at 103)"
    by (simp add: token_bucket_wait_def example_bucket_def c_ll_def)
  then show ?thesis using token_bucket_wait_enough [of example_bucket 9 "Wake_at 103" 103] by (simp add: example_bucket_def)
qed

text \<open>
  Lowering the limit of a bucket leaves the tokens it has: a caller can still withdraw more than the
  new maximum.
\<close>

lemma token_bucket_set_exceeds:
  assumes "burst < tb_tokens tb"
  shows "burst < tb_tokens (token_bucket_set tb rate burst)"
    "fst (token_bucket_withdraw (token_bucket_set tb rate burst) now (tb_tokens tb))"
  using assms by (auto simp: token_bucket_set_def token_bucket_withdraw_def Let_def)

text \<open>Raising it fills the bucket at once.\<close>

lemma token_bucket_set_fills:
  assumes "tb_tokens tb < burst"
  shows "fst (token_bucket_withdraw (token_bucket_set tb rate burst) now burst)"
  using assms by (auto simp: token_bucket_set_def token_bucket_withdraw_def Let_def)

end
