(* ===== verification/Ovs_Bitwise.thy ===== *)
theory Ovs_Bitwise
  imports Sdpa_Prelude
begin

text \<open>
  The operations of \<^verbatim>\<open>lib/util.c\<close> on ranges of bits in a buffer, which the OpenFlow code uses for subfields.
  A pointer into a buffer is an index; it may leave the buffer by one, but an access
  outside is \<open>None\<close>.  Lengths, offsets and bit counts are natural numbers: they are far below \<open>2 ^ 32\<close>.
\<close>

section \<open>Operations\<close>

definition get_byte :: "u8 list \<Rightarrow> int \<Rightarrow> u8 option" where
  "get_byte buf p = (if 0 \<le> p \<and> p < int (length buf) then Some (buf ! nat p) else None)"

definition put_byte :: "u8 list \<Rightarrow> int \<Rightarrow> u8 \<Rightarrow> u8 list option" where
  "put_byte buf p b = (if 0 \<le> p \<and> p < int (length buf) then Some (buf[nat p := b]) else None)"

definition copy_bytes :: "u8 list \<Rightarrow> int \<Rightarrow> u8 list \<Rightarrow> int \<Rightarrow> nat \<Rightarrow> u8 list option" where
  "copy_bytes dst dp src sp k =
     (if 0 \<le> dp \<and> dp + int k \<le> int (length dst) \<and> 0 \<le> sp \<and> sp + int k \<le> int (length src)
      then Some (take (nat dp) dst @ take k (drop (nat sp) src) @ drop (nat dp + k) dst) else None)"

text \<open>\<^verbatim>\<open>((1 << chunk) - 1) << ofs\<close> as a byte.\<close>

definition byte_mask :: "nat \<Rightarrow> nat \<Rightarrow> u8" where
  "byte_mask chunk ofs = push_bit ofs (mask chunk)"

text \<open>Lines 981 to 1000.\<close>

partial_function (option) copy_loop ::
    "u8 list \<Rightarrow> int \<Rightarrow> nat \<Rightarrow> u8 list \<Rightarrow> int \<Rightarrow> nat \<Rightarrow> nat \<Rightarrow> u8 list option" where
  "copy_loop src sp src_ofs dst dp dst_ofs n_bits =
     (if n_bits > 0 then do {
        let max_copy = 8 - max src_ofs dst_ofs;
        let chunk = min n_bits max_copy;
        let m = byte_mask chunk dst_ofs;
        d \<leftarrow> get_byte dst dp;
        s \<leftarrow> get_byte src sp;
        dst \<leftarrow> put_byte dst dp ((d AND NOT m) OR (push_bit dst_ofs (drop_bit src_ofs s) AND m));
        let src_ofs = src_ofs + chunk;
        let (sp, src_ofs) = (if src_ofs = 8 then (sp - 1, 0) else (sp, src_ofs));
        let dst_ofs = dst_ofs + chunk;
        let (dp, dst_ofs) = (if dst_ofs = 8 then (dp - 1, 0) else (dp, dst_ofs));
        copy_loop src sp src_ofs dst dp dst_ofs (n_bits - chunk)
      } else Some dst)"

definition bitwise_copy :: "u8 list \<Rightarrow> nat \<Rightarrow> nat \<Rightarrow> u8 list \<Rightarrow> nat \<Rightarrow> nat \<Rightarrow> nat \<Rightarrow> u8 list option" where
  "bitwise_copy src src_len src_ofs dst dst_len dst_ofs n_bits = do {
     let sp = int src_len - (int (src_ofs div 8) + 1);
     let src_ofs = src_ofs mod 8;
     let dp = int dst_len - (int (dst_ofs div 8) + 1);
     let dst_ofs = dst_ofs mod 8;
     if src_ofs = 0 \<and> dst_ofs = 0 then do {
       let n_bytes = n_bits div 8;
       (dst, sp, dp, n_bits) \<leftarrow>
         (if n_bytes \<noteq> 0 then do {
            let dp = dp - (int n_bytes - 1);
            let sp = sp - (int n_bytes - 1);
            dst \<leftarrow> copy_bytes dst dp src sp n_bytes;
            Some (dst, sp - 1, dp - 1, n_bits mod 8)
          } else Some (dst, sp, dp, n_bits));
       if n_bits \<noteq> 0 then do {
         let m = mask n_bits;
         d \<leftarrow> get_byte dst dp;
         s \<leftarrow> get_byte src sp;
         put_byte dst dp ((d AND NOT m) OR (s AND m))
       } else Some dst
     } else copy_loop src sp src_ofs dst dp dst_ofs n_bits
   }"

text \<open>\<^verbatim>\<open>bitwise_zero\<close> and \<^verbatim>\<open>bitwise_one\<close> have the same control flow; \<open>v\<close> is the value of the bits.\<close>

definition set_masked :: "bool \<Rightarrow> u8 \<Rightarrow> u8 \<Rightarrow> u8" where
  "set_masked v m d = (if v then d OR m else d AND NOT m)"

fun fill_bytes :: "bool \<Rightarrow> u8 list \<Rightarrow> int \<Rightarrow> nat \<Rightarrow> (u8 list \<times> int \<times> nat) option" where
  "fill_bytes v dst dp n_bits =
     (if n_bits \<ge> 8 then do {
        dst \<leftarrow> put_byte dst dp (if v then 0xff else 0);
        fill_bytes v dst (dp - 1) (n_bits - 8)
      } else Some (dst, dp, n_bits))"

declare fill_bytes.simps [simp del]

text \<open>From a byte boundary on.\<close>

definition fill_aligned :: "bool \<Rightarrow> u8 list \<Rightarrow> int \<Rightarrow> nat \<Rightarrow> u8 list option" where
  "fill_aligned v dst dp n_bits = do {
     (dst, dp, n_bits) \<leftarrow> fill_bytes v dst dp n_bits;
     if n_bits \<noteq> 0 then do {
       d \<leftarrow> get_byte dst dp;
       put_byte dst dp (set_masked v (mask n_bits) d)
     } else Some dst
   }"

definition bitwise_fill :: "bool \<Rightarrow> u8 list \<Rightarrow> nat \<Rightarrow> nat \<Rightarrow> nat \<Rightarrow> u8 list option" where
  "bitwise_fill v dst dst_len dst_ofs n_bits =
     (if n_bits = 0 then Some dst
      else do {
        let dp = int dst_len - (int (dst_ofs div 8) + 1);
        let dst_ofs = dst_ofs mod 8;
        (dst, dp, n_bits, stop) \<leftarrow>
          (if dst_ofs \<noteq> 0 then do {
             let chunk = min n_bits (8 - dst_ofs);
             d \<leftarrow> get_byte dst dp;
             dst \<leftarrow> put_byte dst dp (set_masked v (byte_mask chunk dst_ofs) d);
             let n_bits = n_bits - chunk;
             Some (if n_bits = 0 then (dst, dp, n_bits, True) else (dst, dp - 1, n_bits, False))
           } else Some (dst, dp, n_bits, False));
        if stop then Some dst else fill_aligned v dst dp n_bits
      })"

definition bitwise_zero :: "u8 list \<Rightarrow> nat \<Rightarrow> nat \<Rightarrow> nat \<Rightarrow> u8 list option" where
  "bitwise_zero dst dst_len dst_ofs n_bits = bitwise_fill False dst dst_len dst_ofs n_bits"

definition bitwise_one :: "u8 list \<Rightarrow> nat \<Rightarrow> nat \<Rightarrow> nat \<Rightarrow> u8 list option" where
  "bitwise_one dst dst_len dst_ofs n_bits = bitwise_fill True dst dst_len dst_ofs n_bits"

text \<open>\<open>Inl\<close> is an early return.\<close>

fun zeros_bytes :: "u8 list \<Rightarrow> int \<Rightarrow> nat \<Rightarrow> (bool + int \<times> nat) option" where
  "zeros_bytes buf p n_bits =
     (if n_bits \<ge> 8 then do {
        b \<leftarrow> get_byte buf p;
        if b \<noteq> 0 then Some (Inl False) else zeros_bytes buf (p - 1) (n_bits - 8)
      } else Some (Inr (p, n_bits)))"

declare zeros_bytes.simps [simp del]

text \<open>From a byte boundary on.\<close>

definition zeros_aligned :: "u8 list \<Rightarrow> int \<Rightarrow> nat \<Rightarrow> bool option" where
  "zeros_aligned buf p n_bits = do {
     rest \<leftarrow> zeros_bytes buf p n_bits;
     case rest of
       Inl r \<Rightarrow> Some r
     | Inr (p, n_bits) \<Rightarrow>
         if n_bits \<noteq> 0 then do { b \<leftarrow> get_byte buf p; Some (b AND mask n_bits = 0) } else Some True
   }"

definition bitwise_is_all_zeros :: "u8 list \<Rightarrow> nat \<Rightarrow> nat \<Rightarrow> nat \<Rightarrow> bool option" where
  "bitwise_is_all_zeros buf len ofs n_bits =
     (if n_bits = 0 then Some True
      else do {
        let p = int len - (int (ofs div 8) + 1);
        let ofs = ofs mod 8;
        first \<leftarrow>
          (if ofs \<noteq> 0 then do {
             let chunk = min n_bits (8 - ofs);
             b \<leftarrow> get_byte buf p;
             if b AND byte_mask chunk ofs \<noteq> 0 then Some (Inl False)
             else let n_bits = n_bits - chunk in Some (if n_bits = 0 then Inl True else Inr (p - 1, n_bits))
           } else Some (Inr (p, n_bits)));
        case first of
          Inl r \<Rightarrow> Some r
        | Inr (p, n_bits) \<Rightarrow> zeros_aligned buf p n_bits
      })"

definition bitwise_put :: "u64 \<Rightarrow> u8 list \<Rightarrow> nat \<Rightarrow> nat \<Rightarrow> nat \<Rightarrow> u8 list option" where
  "bitwise_put val dst dst_len dst_ofs n_bits = bitwise_copy (be64 val) 8 0 dst dst_len dst_ofs n_bits"

definition bitwise_get :: "u8 list \<Rightarrow> nat \<Rightarrow> nat \<Rightarrow> nat \<Rightarrow> u64 option" where
  "bitwise_get src src_len src_ofs n_bits = do {
     val \<leftarrow> bitwise_copy src src_len src_ofs (be64 0) 8 0 n_bits;
     Some (be_word val)
   }"

fun is_all_zeros :: "u8 list \<Rightarrow> bool" where
  "is_all_zeros [] \<longleftrightarrow> True"
| "is_all_zeros (b # p) \<longleftrightarrow> (if b \<noteq> 0 then False else is_all_zeros p)"

fun is_all_ones :: "u8 list \<Rightarrow> bool" where
  "is_all_ones [] \<longleftrightarrow> True"
| "is_all_ones (b # p) \<longleftrightarrow> (if b \<noteq> 0xff then False else is_all_ones p)"

section \<open>A buffer as a sequence of bits\<close>

text \<open>Bit \<open>k\<close> is the bit with value \<open>2 ^ k\<close> of the buffer read as one integer in network byte order.\<close>

definition nbit :: "u8 list \<Rightarrow> nat \<Rightarrow> bool" where
  "nbit buf k = bit (buf ! (length buf - 1 - k div 8)) (k mod 8)"

abbreviation byte_ptr :: "u8 list \<Rightarrow> nat \<Rightarrow> int" where
  "byte_ptr buf k \<equiv> int (length buf) - (int (k div 8) + 1)"

lemma ptr_index:
  assumes "k < 8 * length buf"
  shows "0 \<le> byte_ptr buf k" "byte_ptr buf k < int (length buf)" "nat (byte_ptr buf k) = length buf - 1 - k div 8"
proof -
  have "k div 8 < length buf" using assms by (simp add: div_less_iff_less_mult mult.commute)
  then show "0 \<le> byte_ptr buf k" "byte_ptr buf k < int (length buf)" "nat (byte_ptr buf k) = length buf - 1 - k div 8"
    by auto
qed

lemma get_byte_nbit:
  assumes "k < 8 * length buf"
  obtains b where "get_byte buf (byte_ptr buf k) = Some b" "\<forall>j < 8. bit b j = nbit buf (8 * (k div 8) + j)"
proof
  show "get_byte buf (byte_ptr buf k) = Some (buf ! (length buf - 1 - k div 8))"
    using ptr_index [OF assms] by (simp add: get_byte_def)
  show "\<forall>j < 8. bit (buf ! (length buf - 1 - k div 8)) j = nbit buf (8 * (k div 8) + j)"
    by (simp add: nbit_def)
qed

text \<open>Writing the byte that has bit \<open>k\<close>.\<close>

lemma put_byte_nbit:
  assumes "k < 8 * length buf"
  obtains buf' where "put_byte buf (byte_ptr buf k) b = Some buf'" "length buf' = length buf"
    "\<forall>i < 8 * length buf. nbit buf' i = (if i div 8 = k div 8 then bit b (i mod 8) else nbit buf i)"
proof
  let ?p = "length buf - 1 - k div 8"
  show "put_byte buf (byte_ptr buf k) b = Some (buf[?p := b])"
    using ptr_index [OF assms] by (simp add: put_byte_def)
  show "\<forall>i < 8 * length buf. nbit (buf[?p := b]) i = (if i div 8 = k div 8 then bit b (i mod 8) else nbit buf i)"
  proof (intro allI impI)
    fix i
    assume "i < 8 * length buf"
    then have "i div 8 < length buf" "k div 8 < length buf" using assms by (simp_all add: div_less_iff_less_mult mult.commute)
    then have "?p = length buf - 1 - i div 8 \<longleftrightarrow> i div 8 = k div 8" "?p < length buf" by auto
    then show "nbit (buf[?p := b]) i = (if i div 8 = k div 8 then bit b (i mod 8) else nbit buf i)"
      by (auto simp: nbit_def nth_list_update)
  qed
qed simp

lemma within_byte:
  fixes k c :: nat
  assumes "k mod 8 + c < 8"
  shows "(k + c) div 8 = k div 8" "(k + c) mod 8 = k mod 8 + c"
proof -
  have e: "k + c = 8 * (k div 8) + (k mod 8 + c)" by (simp only: add.assoc [symmetric] mult_div_mod_eq)
  show "(k + c) div 8 = k div 8" "(k + c) mod 8 = k mod 8 + c"
    unfolding e using assms by (simp_all only: div_mult_self4 mod_mult_self4 div_less mod_less)
qed

lemma byte_ptr_next:
  "k mod 8 + c = 8 \<Longrightarrow> byte_ptr buf k - 1 = byte_ptr buf (k + c)" "k mod 8 + c = 8 \<Longrightarrow> (k + c) mod 8 = 0"
  "k mod 8 + c < 8 \<Longrightarrow> byte_ptr buf k = byte_ptr buf (k + c)" "k mod 8 + c < 8 \<Longrightarrow> (k + c) mod 8 = k mod 8 + c"
proof -
  assume c: "k mod 8 + c = 8"
  have "k + c = 8 * (k div 8) + (k mod 8 + c)" by (simp only: add.assoc [symmetric] mult_div_mod_eq)
  then have e: "k + c = 8 * (k div 8 + 1)" unfolding c by simp
  show "byte_ptr buf k - 1 = byte_ptr buf (k + c)" "(k + c) mod 8 = 0" unfolding e by simp_all
next
  assume c: "k mod 8 + c < 8"
  show "byte_ptr buf k = byte_ptr buf (k + c)" "(k + c) mod 8 = k mod 8 + c" using within_byte [OF c] by simp_all
qed

lemma same_byte:
  fixes i d :: nat
  assumes "i div 8 = d div 8"
  shows "i - d = i mod 8 - d mod 8"
proof -
  have "i - d = (8 * (i div 8) + i mod 8) - (8 * (d div 8) + d mod 8)" by (simp only: mult_div_mod_eq)
  then show ?thesis by (simp only: assms diff_cancel add_diff_cancel_left)
qed

lemma bit_byte_mask: "bit (byte_mask c o') j \<longleftrightarrow> o' \<le> j \<and> j < o' + c \<and> j < 8"
  by (auto simp: byte_mask_def bit_push_bit_iff bit_mask_iff)

section \<open>Copying\<close>

text \<open>The \<open>k\<close> bits from \<open>d\<close> on become those of \<open>f\<close>; the others stay.\<close>

definition updated :: "(nat \<Rightarrow> bool) \<Rightarrow> u8 list \<Rightarrow> nat \<Rightarrow> nat \<Rightarrow> u8 list \<Rightarrow> bool" where
  "updated f dst d k dst' \<longleftrightarrow> length dst' = length dst
     \<and> (\<forall>i < 8 * length dst. nbit dst' i = (if d \<le> i \<and> i < d + k then f (i - d) else nbit dst i))"

abbreviation copied :: "u8 list \<Rightarrow> nat \<Rightarrow> u8 list \<Rightarrow> nat \<Rightarrow> nat \<Rightarrow> u8 list \<Rightarrow> bool" where
  "copied src s \<equiv> updated (\<lambda>j. nbit src (s + j))"

lemma updated_none: "updated f dst d 0 dst"
  by (auto simp: updated_def)

lemma updated_step:
  assumes "updated f dst d c dst1" "updated (\<lambda>j. f (c + j)) dst1 (d + c) k dst2"
  shows "updated f dst d (c + k) dst2"
proof -
  have l: "length dst1 = length dst" "length dst2 = length dst" using assms by (simp_all add: updated_def)
  have "nbit dst2 i = (if d \<le> i \<and> i < d + (c + k) then f (i - d) else nbit dst i)" if "i < 8 * length dst" for i
  proof -
    have "c + (i - (d + c)) = i - d" if "d + c \<le> i" using that by simp
    then show ?thesis using assms that l unfolding updated_def by auto
  qed
  then show ?thesis using l by (simp add: updated_def)
qed

lemma copied_step:
  "copied src s dst d c dst1 \<Longrightarrow> copied src (s + c) dst1 (d + c) k dst2 \<Longrightarrow> copied src s dst d (c + k) dst2"
  using updated_step [of "\<lambda>j. nbit src (s + j)"] by (simp add: add.assoc)

text \<open>One store writes a chunk that stays within a byte.\<close>

lemma put_chunk:
  assumes d: "d + c \<le> 8 * length dst" "d mod 8 + c \<le> 8" and c: "0 < c"
    and x: "get_byte dst (byte_ptr dst d) = Some x"
    and b: "\<And>j. j < 8 \<Longrightarrow> bit b j = (if d mod 8 \<le> j \<and> j < d mod 8 + c then f (j - d mod 8) else bit x j)"
  obtains dst' where "put_byte dst (byte_ptr dst d) b = Some dst'" "updated f dst d c dst'"
proof -
  have x': "\<forall>j < 8. bit x j = nbit dst (8 * (d div 8) + j)"
    using get_byte_nbit [of d dst] x d c by auto
  obtain dst' where p: "put_byte dst (byte_ptr dst d) b = Some dst'" "length dst' = length dst"
    "\<forall>i < 8 * length dst. nbit dst' i = (if i div 8 = d div 8 then bit b (i mod 8) else nbit dst i)"
    using put_byte_nbit [of d dst b] d c by auto
  have "nbit dst' i = (if d \<le> i \<and> i < d + c then f (i - d) else nbit dst i)" if i: "i < 8 * length dst" for i
  proof (cases "i div 8 = d div 8")
    case True
    let ?j = "i mod 8"
    have ij: "i = 8 * (d div 8) + ?j" "?j < 8" using True by (metis mult_div_mod_eq) simp
    have dd: "d = 8 * (d div 8) + d mod 8" by simp
    have ran: "d \<le> i \<and> i < d + c \<longleftrightarrow> d mod 8 \<le> ?j \<and> ?j < d mod 8 + c" using ij dd by linarith
    have "bit x ?j = nbit dst i" using x' ij by metis
    then show ?thesis using p(3) i True b [OF ij(2)] ran same_byte [OF True] by auto
  next
    case False
    have "\<not> (d \<le> i \<and> i < d + c)"
    proof
      assume "d \<le> i \<and> i < d + c"
      then obtain e where "i = d + e" "e < c" by (metis le_Suc_ex nat_add_left_cancel_less)
      then have "i div 8 = d div 8" using d(2) within_byte(1) [of d e] by simp
      then show False using False by simp
    qed
    then show ?thesis using p(3) i False by auto
  qed
  then have "updated f dst d c dst'" using p(2) by (simp add: updated_def)
  then show thesis using that p(1) by blast
qed

lemma copy_chunk:
  assumes s: "s + c \<le> 8 * length src" "s mod 8 + c \<le> 8" and d: "d + c \<le> 8 * length dst" "d mod 8 + c \<le> 8" and c: "0 < c"
  obtains x y dst' where "get_byte dst (byte_ptr dst d) = Some x" "get_byte src (byte_ptr src s) = Some y"
    "put_byte dst (byte_ptr dst d) ((x AND NOT (byte_mask c (d mod 8)))
       OR (push_bit (d mod 8) (drop_bit (s mod 8) y) AND byte_mask c (d mod 8))) = Some dst'"
    "copied src s dst d c dst'"
proof -
  obtain x where x: "get_byte dst (byte_ptr dst d) = Some x"
    using get_byte_nbit [of d dst] d c by auto
  obtain y where y: "get_byte src (byte_ptr src s) = Some y" "\<forall>j < 8. bit y j = nbit src (8 * (s div 8) + j)"
    using get_byte_nbit [of s src] s c by auto
  let ?b = "(x AND NOT (byte_mask c (d mod 8))) OR (push_bit (d mod 8) (drop_bit (s mod 8) y) AND byte_mask c (d mod 8))"
  have "bit ?b j = (if d mod 8 \<le> j \<and> j < d mod 8 + c then nbit src (s + (j - d mod 8)) else bit x j)" if j: "j < 8" for j
  proof (cases "d mod 8 \<le> j \<and> j < d mod 8 + c")
    case True
    let ?t = "s mod 8 + (j - d mod 8)"
    have t: "?t < 8" using True s(2) by linarith
    have "bit ?b j = bit y ?t"
      using True j by (simp add: bit_or_iff bit_and_iff bit_not_iff bit_byte_mask bit_push_bit_iff bit_drop_bit_eq)
    also have "\<dots> = nbit src (8 * (s div 8) + ?t)" using y(2) t by blast
    also have "8 * (s div 8) + ?t = s + (j - d mod 8)" by (simp only: add.assoc [symmetric] mult_div_mod_eq)
    finally show ?thesis using True by simp
  next
    case False
    then show ?thesis using j by (auto simp: bit_or_iff bit_and_iff bit_not_iff bit_byte_mask)
  qed
  from put_chunk [OF d c x this] obtain dst' where
    "put_byte dst (byte_ptr dst d) ?b = Some dst'" "copied src s dst d c dst'" .
  then show thesis using that x(1) y(1) by blast
qed

lemma advance:
  assumes "k mod 8 + c \<le> 8"
  shows "(if k mod 8 + c = 8 then (byte_ptr buf k - 1, 0) else (byte_ptr buf k, k mod 8 + c)) = (byte_ptr buf (k + c), (k + c) mod 8)"
  using assms byte_ptr_next [of k c] by auto

lemma copy_loop:
  assumes "s + k \<le> 8 * length src" "d + k \<le> 8 * length dst"
  shows "\<exists>dst'. copy_loop src (byte_ptr src s) (s mod 8) dst (byte_ptr dst d) (d mod 8) k = Some dst' \<and> copied src s dst d k dst'"
  using assms
proof (induction k arbitrary: s d dst rule: less_induct)
  case (less k)
  show ?case
  proof (cases "k = 0")
    case True
    then show ?thesis by (auto simp: copy_loop.simps updated_def)
  next
    case False
    define c where "c = min k (8 - max (s mod 8) (d mod 8))"
    have "s mod 8 < 8" "d mod 8 < 8" by simp_all
    then have c: "0 < c" "c \<le> k" "s mod 8 + c \<le> 8" "d mod 8 + c \<le> 8" using False unfolding c_def by linarith+
    have sc: "s + c \<le> 8 * length src" "d + c \<le> 8 * length dst" using less.prems c(2) by linarith+
    obtain x y dst1 where e: "get_byte dst (byte_ptr dst d) = Some x" "get_byte src (byte_ptr src s) = Some y"
      "put_byte dst (byte_ptr dst d) ((x AND NOT (byte_mask c (d mod 8)))
         OR (push_bit (d mod 8) (drop_bit (s mod 8) y) AND byte_mask c (d mod 8))) = Some dst1"
      and cp: "copied src s dst d c dst1"
      by (rule copy_chunk [OF sc(1) c(3) sc(2) c(4) c(1)])
    have l: "length dst1 = length dst" using cp by (simp add: updated_def)
    obtain dst2 where IH: "copy_loop src (byte_ptr src (s + c)) ((s + c) mod 8) dst1 (byte_ptr dst1 (d + c)) ((d + c) mod 8) (k - c) = Some dst2"
      "copied src (s + c) dst1 (d + c) (k - c) dst2"
      using less.IH [of "k - c" "s + c" "d + c" dst1] less.prems c l by auto
    have "copy_loop src (byte_ptr src s) (s mod 8) dst (byte_ptr dst d) (d mod 8) k = Some dst2"
      using IH(1) False unfolding l
      by (subst copy_loop.simps) (simp only: Let_def c_def [symmetric] e Option.bind.simps advance [OF c(3)] advance [OF c(4)] prod.case if_True neq0_conv)
    then show ?thesis using copied_step [OF cp IH(2)] c(2) by simp
  qed
qed

text \<open>The aligned case: whole bytes by \<^verbatim>\<open>memcpy\<close>, then the rest of a byte.\<close>

lemma nth_overwrite:
  assumes "D + length ys \<le> length xs" "p < length xs"
  shows "(take D xs @ ys @ drop (D + length ys) xs) ! p = (if D \<le> p \<and> p < D + length ys then ys ! (p - D) else xs ! p)"
  using assms by (auto simp: nth_append)

lemma copy_bytes:
  assumes s: "s = 8 * sq" "s + 8 * m \<le> 8 * length src" and d: "d = 8 * dq" "d + 8 * m \<le> 8 * length dst"
  obtains dst' where "copy_bytes dst (byte_ptr dst d - (int m - 1)) src (byte_ptr src s - (int m - 1)) m = Some dst'"
    "copied src s dst d (8 * m) dst'"
proof -
  obtain S D where le: "length src = S + m + sq" "length dst = D + m + dq"
    using s d le_Suc_ex [of "sq + m" "length src"] le_Suc_ex [of "dq + m" "length dst"] by (auto simp: ac_simps)
  define r where "r = take D dst @ take m (drop S src) @ drop (D + m) dst"
  have ptr: "byte_ptr dst d - (int m - 1) = int D" "byte_ptr src s - (int m - 1) = int S" using s(1) d(1) le by simp_all
  have cb: "copy_bytes dst (byte_ptr dst d - (int m - 1)) src (byte_ptr src s - (int m - 1)) m = Some r"
    unfolding ptr using le by (simp add: copy_bytes_def r_def)
  have len: "length r = length dst" using le by (simp add: r_def)
  have "nbit r i = (if d \<le> i \<and> i < d + 8 * m then nbit src (s + (i - d)) else nbit dst i)" if i: "i < 8 * length dst" for i
  proof -
    define q where "q = i div 8"
    have q: "q < length dst" using i by (simp add: q_def div_less_iff_less_mult mult.commute)
    have ow: "r ! p = (if D \<le> p \<and> p < D + m then src ! (S + (p - D)) else dst ! p)" if "p < length dst" for p
      using nth_overwrite [of D "take m (drop S src)" dst p] le that by (auto simp: r_def)
    have ran: "d \<le> i \<and> i < d + 8 * m \<longleftrightarrow> dq \<le> q \<and> q < dq + m"
      using d(1) by (auto simp: q_def div_less_iff_less_mult less_eq_div_iff_mult_less_eq mult.commute)
    show ?thesis
    proof (cases "dq \<le> q \<and> q < dq + m")
      case True
      then obtain t where t: "i = 8 * dq + t" using ran d(1) le_Suc_ex by blast
      then have qt: "q = dq + t div 8" by (simp add: q_def)
      have "s + (i - d) = 8 * sq + t" using s(1) d(1) t by simp
      then have "nbit src (s + (i - d)) = bit (src ! (S + m - 1 - t div 8)) (t mod 8)"
        using le(1) by (simp add: nbit_def)
      also have "S + m - 1 - t div 8 = S + ((D + m - 1 - t div 8) - D)" using True qt by simp
      also have "src ! \<dots> = r ! (D + m - 1 - t div 8)" using ow [of "D + m - 1 - t div 8"] True qt le by auto
      finally show ?thesis using True ran le by (simp add: nbit_def len t)
    next
      case False
      then have "r ! (length dst - 1 - q) = dst ! (length dst - 1 - q)"
        using le(2) q ow [of "length dst - 1 - q"] by auto
      then show ?thesis using False ran by (auto simp: nbit_def len q_def)
    qed
  qed
  then have "copied src s dst d (8 * m) r" using len by (simp add: updated_def)
  then show thesis using cb that by blast
qed

lemma copy_rest:
  assumes "s mod 8 = 0" "d mod 8 = 0" "k < 8" "s + k \<le> 8 * length src" "d + k \<le> 8 * length dst"
  shows "\<exists>dst'. (if k \<noteq> 0 then do {
       x \<leftarrow> get_byte dst (byte_ptr dst d);
       y \<leftarrow> get_byte src (byte_ptr src s);
       put_byte dst (byte_ptr dst d) ((x AND NOT (mask k)) OR (y AND mask k))
     } else Some dst) = Some dst' \<and> copied src s dst d k dst'"
proof (cases "k = 0")
  case True
  then show ?thesis by (auto simp: updated_def)
next
  case False
  obtain x y dst' where "get_byte dst (byte_ptr dst d) = Some x" "get_byte src (byte_ptr src s) = Some y"
    "put_byte dst (byte_ptr dst d) ((x AND NOT (byte_mask k (d mod 8)))
       OR (push_bit (d mod 8) (drop_bit (s mod 8) y) AND byte_mask k (d mod 8))) = Some dst'"
    "copied src s dst d k dst'"
    using copy_chunk [of s k src d dst] assms False by auto
  then show ?thesis using False assms(1,2) by (auto simp: byte_mask_def)
qed

lemma bitwise_copy:
  assumes "s + k \<le> 8 * length src" "d + k \<le> 8 * length dst"
  obtains dst' where "bitwise_copy src (length src) s dst (length dst) d k = Some dst'" "copied src s dst d k dst'"
proof (cases "s mod 8 = 0 \<and> d mod 8 = 0")
  case False
  then show thesis using that copy_loop [OF assms] by (auto simp: bitwise_copy_def Let_def)
next
  case al: True
  then obtain sq dq where q: "s = 8 * sq" "d = 8 * dq" by (auto simp: mod_eq_0_iff_dvd elim!: dvdE)
  show thesis
  proof (cases "k div 8 = 0")
    case True
    then have "k < 8" by (simp add: div_eq_0_iff)
    then obtain dst2 where r: "(if k \<noteq> 0 then do {
       x \<leftarrow> get_byte dst (byte_ptr dst d);
       y \<leftarrow> get_byte src (byte_ptr src s);
       put_byte dst (byte_ptr dst d) ((x AND NOT (mask k)) OR (y AND mask k))
     } else Some dst) = Some dst2" "copied src s dst d k dst2"
      using copy_rest [of s d k src dst] assms al by fast
    have "bitwise_copy src (length src) s dst (length dst) d k = Some dst2"
      using al True r(1) unfolding bitwise_copy_def Let_def by (simp only: simp_thms if_True if_False Option.bind.simps prod.case)
    then show thesis using that r(2) by blast
  next
    case False
    let ?m = "k div 8"
    have k: "k = 8 * ?m + k mod 8" by simp
    have le: "s + 8 * ?m \<le> 8 * length src" "d + 8 * ?m \<le> 8 * length dst" using assms k by linarith+
    obtain dst1 where c: "copy_bytes dst (byte_ptr dst d - (int ?m - 1)) src (byte_ptr src s - (int ?m - 1)) ?m = Some dst1"
      and cp: "copied src s dst d (8 * ?m) dst1"
      by (rule copy_bytes [OF q(1) le(1) q(2) le(2)])
    have l: "length dst1 = length dst" using cp by (simp add: updated_def)
    have p: "byte_ptr dst d - (int ?m - 1) - 1 = byte_ptr dst1 (d + 8 * ?m)" "byte_ptr src s - (int ?m - 1) - 1 = byte_ptr src (s + 8 * ?m)"
      using q l by simp_all
    obtain dst2 where r: "(if k mod 8 \<noteq> 0 then do {
       x \<leftarrow> get_byte dst1 (byte_ptr dst1 (d + 8 * ?m));
       y \<leftarrow> get_byte src (byte_ptr src (s + 8 * ?m));
       put_byte dst1 (byte_ptr dst1 (d + 8 * ?m)) ((x AND NOT (mask (k mod 8))) OR (y AND mask (k mod 8)))
     } else Some dst1) = Some dst2" "copied src (s + 8 * ?m) dst1 (d + 8 * ?m) (k mod 8) dst2"
      using copy_rest [of "s + 8 * ?m" "d + 8 * ?m" "k mod 8" src dst1] assms k q l by fastforce
    have "bitwise_copy src (length src) s dst (length dst) d k = Some dst2"
      using al False r(1) unfolding bitwise_copy_def Let_def by (simp only: simp_thms if_True c Option.bind.simps prod.case p)
    then show thesis using that copied_step [OF cp r(2)] k by simp
  qed
qed

section \<open>Subfields as integers\<close>

lemma nbit_be64: "k < 64 \<Longrightarrow> nbit (be64 v) k = bit v k"
proof -
  assume k: "k < 64"
  then have "k div 8 < 8" by (simp add: div_less_iff_less_mult)
  then show ?thesis
    using rev_be_bytes_nth [of "k div 8" 8 v] k by (simp add: nbit_def rev_nth bit_ucast_iff bit_drop_bit_eq)
qed

lemma bit_be_word_nbit: "length bs = 8 \<Longrightarrow> k < 64 \<Longrightarrow> bit (be_word bs :: u64) k = nbit bs k"
  by (simp add: bit_be_word nbit_def rev_nth div_less_iff_less_mult)

lemma bitwise_put:
  assumes "d + k \<le> 8 * length dst" "k \<le> 64"
  obtains dst' where "bitwise_put v dst (length dst) d k = Some dst'" "updated (bit v) dst d k dst'"
proof -
  obtain dst' where p: "bitwise_copy (be64 v) (length (be64 v)) 0 dst (length dst) d k = Some dst'" "copied (be64 v) 0 dst d k dst'"
    by (rule bitwise_copy [of 0 k "be64 v" d dst]) (use assms in simp_all)
  moreover have "updated (bit v) dst d k dst'" using p(2) assms(2) by (auto simp: updated_def nbit_be64)
  ultimately show thesis using that by (simp add: bitwise_put_def)
qed

lemma bitwise_get:
  assumes "s + k \<le> 8 * length src" "k \<le> 64"
  obtains v where "bitwise_get src (length src) s k = Some v" "\<forall>j. bit v j \<longleftrightarrow> j < k \<and> nbit src (s + j)"
proof -
  obtain r where p: "bitwise_copy src (length src) s (be64 0) (length (be64 0)) 0 k = Some r" "copied src s (be64 0) 0 k r"
    by (rule bitwise_copy [of s k src 0 "be64 0"]) (use assms in simp_all)
  have "bit (be_word r :: u64) j \<longleftrightarrow> j < k \<and> nbit src (s + j)" for j
  proof (cases "j < 64")
    case True
    then show ?thesis using p(2) bit_be_word_nbit [of r j] nbit_be64 [of j 0] by (auto simp: updated_def)
  next
    case False
    then show ?thesis using assms(2) bit_imp_le_length [of "be_word r :: u64" j] by auto
  qed
  then show thesis using that p(1) by (simp add: bitwise_get_def)
qed

text \<open>
  C30.  Writing an integer to a subfield and reading it back gives its low-order bits, for any offset and any width up to 64.
\<close>

theorem bitwise_put_get:
  assumes "d + k \<le> 8 * length dst" "k \<le> 64"
  shows "bitwise_put v dst (length dst) d k \<bind> (\<lambda>dst'. bitwise_get dst' (length dst') d k) = Some (take_bit k v)"
proof -
  obtain dst' where p: "bitwise_put v dst (length dst) d k = Some dst'" "updated (bit v) dst d k dst'"
    by (rule bitwise_put [OF assms])
  then have l: "length dst' = length dst" by (simp add: updated_def)
  obtain w where w: "bitwise_get dst' (length dst') d k = Some w" "\<forall>j. bit w j \<longleftrightarrow> j < k \<and> nbit dst' (d + j)"
    by (rule bitwise_get [of d k dst']) (use assms l in simp_all)
  have "w = take_bit k v"
    using w(2) p(2) assms(1) by (auto simp: bit_eq_iff bit_take_bit_iff updated_def)
  then show ?thesis using p(1) w(1) by simp
qed

section \<open>Filling and testing\<close>

abbreviation filled :: "bool \<Rightarrow> u8 list \<Rightarrow> nat \<Rightarrow> nat \<Rightarrow> u8 list \<Rightarrow> bool" where
  "filled v \<equiv> updated (\<lambda>_. v)"

lemma fill_chunk:
  assumes d: "d + c \<le> 8 * length dst" "d mod 8 + c \<le> 8" and c: "0 < c"
  obtains x dst' where "get_byte dst (byte_ptr dst d) = Some x"
    "put_byte dst (byte_ptr dst d) (set_masked v (byte_mask c (d mod 8)) x) = Some dst'" "filled v dst d c dst'"
proof -
  obtain x where x: "get_byte dst (byte_ptr dst d) = Some x"
    using get_byte_nbit [of d dst] d c by auto
  have "bit (set_masked v (byte_mask c (d mod 8)) x) j = (if d mod 8 \<le> j \<and> j < d mod 8 + c then v else bit x j)" if "j < 8" for j
    using that by (auto simp: set_masked_def bit_or_iff bit_and_iff bit_not_iff bit_byte_mask)
  from put_chunk [OF d c x this] that x show thesis by blast
qed

lemma byte_mask_whole: "byte_mask 8 0 = - 1"
  by (simp add: bit_eq_iff bit_byte_mask)

lemma fill_bytes:
  assumes "d mod 8 = 0" "d + k \<le> 8 * length dst"
  shows "\<exists>dst'. fill_bytes v dst (byte_ptr dst d) k = Some (dst', byte_ptr dst' (d + 8 * (k div 8)), k mod 8)
    \<and> filled v dst d (8 * (k div 8)) dst'"
  using assms
proof (induction k arbitrary: d dst rule: less_induct)
  case (less k)
  show ?case
  proof (cases "k < 8")
    case True
    then show ?thesis by (simp add: fill_bytes.simps updated_none)
  next
    case False
    have d8: "d + 8 \<le> 8 * length dst" "d mod 8 + 8 \<le> 8" using less.prems False by simp_all
    obtain x dst1 where x: "get_byte dst (byte_ptr dst d) = Some x"
      "put_byte dst (byte_ptr dst d) (set_masked v (byte_mask 8 (d mod 8)) x) = Some dst1" "filled v dst d 8 dst1"
      by (rule fill_chunk [OF d8]) simp
    have b: "set_masked v (byte_mask 8 (d mod 8)) x = (if v then 0xff else 0)"
      unfolding less.prems(1) byte_mask_whole by (simp add: set_masked_def)
    have l: "length dst1 = length dst" using x(3) by (simp add: updated_def)
    obtain dst2 where IH: "fill_bytes v dst1 (byte_ptr dst1 (d + 8)) (k - 8) = Some (dst2, byte_ptr dst2 (d + 8 + 8 * ((k - 8) div 8)), (k - 8) mod 8)"
      "filled v dst1 (d + 8) (8 * ((k - 8) div 8)) dst2"
      using less.IH [of "k - 8" "d + 8" dst1] less.prems False l by auto
    have k: "8 * (k div 8) = 8 + 8 * ((k - 8) div 8)" "k mod 8 = (k - 8) mod 8" using False by (simp_all add: le_div_geq le_mod_geq)
    have np: "byte_ptr dst d - 1 = byte_ptr dst1 (d + 8)" using byte_ptr_next(1) [of d 8 dst] less.prems(1) l by simp
    have k8: "8 \<le> k \<longleftrightarrow> True" using False by simp
    have "fill_bytes v dst (byte_ptr dst d) k = Some (dst2, byte_ptr dst2 (d + 8 * (k div 8)), k mod 8)"
      using x(2) IH(1) unfolding b k
      by (subst fill_bytes.simps) (simp only: k8 if_True Option.bind.simps np add.assoc)
    then show ?thesis using updated_step [OF x(3) IH(2)] k(1) by auto
  qed
qed

text \<open>The last byte of \<open>bitwise_fill\<close>.\<close>

lemma fill_rest:
  assumes "d mod 8 = 0" "k < 8" "d + k \<le> 8 * length dst"
  shows "\<exists>dst'. (if k \<noteq> 0 then do {
       x \<leftarrow> get_byte dst (byte_ptr dst d);
       put_byte dst (byte_ptr dst d) (set_masked v (mask k) x)
     } else Some dst) = Some dst' \<and> filled v dst d k dst'"
proof (cases "k = 0")
  case True
  then show ?thesis by (simp add: updated_none)
next
  case False
  obtain x dst' where "get_byte dst (byte_ptr dst d) = Some x"
    "put_byte dst (byte_ptr dst d) (set_masked v (byte_mask k (d mod 8)) x) = Some dst'" "filled v dst d k dst'"
    using fill_chunk [of d k dst v] assms False by auto
  then show ?thesis using False assms(1) by (auto simp: byte_mask_def)
qed

lemma fill_aligned:
  assumes "d mod 8 = 0" "d + k \<le> 8 * length dst"
  shows "\<exists>dst'. fill_aligned v dst (byte_ptr dst d) k = Some dst' \<and> filled v dst d k dst'"
proof -
  obtain dst1 where f: "fill_bytes v dst (byte_ptr dst d) k = Some (dst1, byte_ptr dst1 (d + 8 * (k div 8)), k mod 8)"
    "filled v dst d (8 * (k div 8)) dst1"
    using fill_bytes [OF assms] by blast
  have l: "length dst1 = length dst" using f(2) by (simp add: updated_def)
  have k: "8 * (k div 8) + k mod 8 = k" by simp
  have "d + 8 * (k div 8) + k mod 8 \<le> 8 * length dst1" using assms(2) l k by linarith
  moreover have "(d + 8 * (k div 8)) mod 8 = 0" using assms(1) by simp
  ultimately obtain dst2 where r: "(if k mod 8 \<noteq> 0 then do {
       x \<leftarrow> get_byte dst1 (byte_ptr dst1 (d + 8 * (k div 8)));
       put_byte dst1 (byte_ptr dst1 (d + 8 * (k div 8))) (set_masked v (mask (k mod 8)) x)
     } else Some dst1) = Some dst2" "filled v dst1 (d + 8 * (k div 8)) (k mod 8) dst2"
    using fill_rest [of "d + 8 * (k div 8)" "k mod 8" dst1 v] by fastforce
  have "fill_aligned v dst (byte_ptr dst d) k = Some dst2"
    using f(1) r(1) by (simp only: fill_aligned_def Option.bind.simps prod.case)
  then show ?thesis using updated_step [OF f(2) r(2)] k by auto
qed

lemma bitwise_fill:
  assumes "d + k \<le> 8 * length dst"
  shows "\<exists>dst'. bitwise_fill v dst (length dst) d k = Some dst' \<and> filled v dst d k dst'"
proof (cases "k = 0 \<or> d mod 8 = 0")
  case True
  then show ?thesis using fill_aligned [of d k dst v] assms
    by (auto simp: bitwise_fill_def updated_none Let_def)
next
  case False
  define c where "c = min k (8 - d mod 8)"
  have "d mod 8 < 8" by simp
  then have c: "0 < c" "c \<le> k" "d mod 8 + c \<le> 8" "c = k \<or> d mod 8 + c = 8" using False unfolding c_def by linarith+
  have dc: "d + c \<le> 8 * length dst" using assms c(2) by linarith
  define P where "P = byte_ptr dst d"
  obtain x dst1 where x: "get_byte dst P = Some x"
    "put_byte dst P (set_masked v (byte_mask c (d mod 8)) x) = Some dst1" "filled v dst d c dst1"
    unfolding P_def by (rule fill_chunk [OF dc c(3) c(1)])
  have l: "length dst1 = length dst" using x(3) by (simp add: updated_def)
  show ?thesis
  proof (cases "c = k")
    case True
    then show ?thesis using False x by (simp add: bitwise_fill_def Let_def P_def [symmetric] c_def [symmetric])
  next
    case ne: False
    then have e: "d mod 8 + c = 8" using c by simp
    obtain dst2 where r: "fill_aligned v dst1 (byte_ptr dst1 (d + c)) (k - c) = Some dst2" "filled v dst1 (d + c) (k - c) dst2"
      using fill_aligned [of "d + c" "k - c" dst1 v] byte_ptr_next(2) [OF e] assms l c(2) by auto
    have P: "byte_ptr dst1 (d + c) = P - 1" unfolding P_def l using byte_ptr_next(1) [OF e, of dst] by simp
    have "bitwise_fill v dst (length dst) d k = Some dst2"
      unfolding bitwise_fill_def Let_def c_def [symmetric] P_def [symmetric]
      using r(1) [unfolded P] False ne c x by simp
    then show ?thesis using updated_step [OF x(3) r(2)] c(2) by simp
  qed
qed

definition zero_range :: "u8 list \<Rightarrow> nat \<Rightarrow> nat \<Rightarrow> bool" where
  "zero_range buf d k \<longleftrightarrow> (\<forall>e < k. \<not> nbit buf (d + e))"

lemma zero_range_add: "zero_range buf d (c + k) \<longleftrightarrow> zero_range buf d c \<and> zero_range buf (d + c) k"
proof -
  have "\<not> nbit buf (d + e)" if "zero_range buf d c" "zero_range buf (d + c) k" "e < c + k" for e
  proof (cases "e < c")
    case False
    then obtain f where "e = c + f" using le_Suc_ex by (metis not_less)
    then show ?thesis using that by (simp add: zero_range_def add.assoc)
  qed (use that in \<open>simp add: zero_range_def\<close>)
  then show ?thesis by (auto simp: zero_range_def add.assoc)
qed

lemma zero_chunk:
  assumes d: "d + c \<le> 8 * length buf" "d mod 8 + c \<le> 8" and c: "0 < c"
  obtains b where "get_byte buf (byte_ptr buf d) = Some b" "b AND byte_mask c (d mod 8) = 0 \<longleftrightarrow> zero_range buf d c"
proof -
  obtain b where b: "get_byte buf (byte_ptr buf d) = Some b" "\<forall>j < 8. bit b j = nbit buf (8 * (d div 8) + j)"
    using get_byte_nbit [of d buf] d c by auto
  have e: "bit b (d mod 8 + e) = nbit buf (d + e)" if "e < c" for e
  proof -
    have "bit b (d mod 8 + e) = nbit buf (8 * (d div 8) + (d mod 8 + e))" using b(2) that d(2) by simp
    then show ?thesis by (simp only: add.assoc [symmetric] mult_div_mod_eq)
  qed
  have "b AND byte_mask c (d mod 8) = 0 \<longleftrightarrow> (\<forall>j < 8. d mod 8 \<le> j \<and> j < d mod 8 + c \<longrightarrow> \<not> bit b j)"
    by (auto simp: bit_eq_iff bit_and_iff bit_byte_mask)
  also have "\<dots> \<longleftrightarrow> (\<forall>e < c. \<not> bit b (d mod 8 + e))"
  proof (intro iffI allI impI)
    fix e
    assume "\<forall>j < 8. d mod 8 \<le> j \<and> j < d mod 8 + c \<longrightarrow> \<not> bit b j" "e < c"
    then show "\<not> bit b (d mod 8 + e)" using d(2) by simp
  next
    fix j
    assume "\<forall>e < c. \<not> bit b (d mod 8 + e)" "d mod 8 \<le> j \<and> j < d mod 8 + c"
    then show "\<not> bit b j" using le_Suc_ex [of "d mod 8" j] by auto
  qed
  also have "\<dots> \<longleftrightarrow> zero_range buf d c" using e by (simp add: zero_range_def)
  finally show thesis using that b(1) by blast
qed

lemma zeros_bytes:
  assumes "d mod 8 = 0" "d + k \<le> 8 * length buf"
  shows "zeros_bytes buf (byte_ptr buf d) k
    = Some (if zero_range buf d (8 * (k div 8)) then Inr (byte_ptr buf (d + 8 * (k div 8)), k mod 8) else Inl False)"
  using assms
proof (induction k arbitrary: d rule: less_induct)
  case (less k)
  show ?case
  proof (cases "k < 8")
    case True
    then show ?thesis by (simp add: zeros_bytes.simps zero_range_def)
  next
    case False
    have d8: "d + 8 \<le> 8 * length buf" "d mod 8 + 8 \<le> 8" using less.prems False by simp_all
    obtain b where b: "get_byte buf (byte_ptr buf d) = Some b" "b AND byte_mask 8 (d mod 8) = 0 \<longleftrightarrow> zero_range buf d 8"
      by (rule zero_chunk [OF d8]) simp
    have z: "b = 0 \<longleftrightarrow> zero_range buf d 8" using b(2) unfolding less.prems(1) byte_mask_whole by simp
    have k: "8 * (k div 8) = 8 + 8 * ((k - 8) div 8)" "k mod 8 = (k - 8) mod 8" using False by (simp_all add: le_div_geq le_mod_geq)
    have np: "byte_ptr buf d - 1 = byte_ptr buf (d + 8)" using byte_ptr_next(1) [of d 8 buf] less.prems(1) by simp
    have IH: "zeros_bytes buf (byte_ptr buf (d + 8)) (k - 8) = Some (if zero_range buf (d + 8) (8 * ((k - 8) div 8))
        then Inr (byte_ptr buf (d + 8 + 8 * ((k - 8) div 8)), (k - 8) mod 8) else Inl False)"
      using less.IH [of "k - 8" "d + 8"] less.prems False by simp
    have k8: "8 \<le> k \<longleftrightarrow> True" using False by simp
    show ?thesis unfolding k zero_range_add
      by (subst zeros_bytes.simps) (simp only: k8 if_True b(1) Option.bind.simps np z IH add.assoc simp_thms split: if_split, blast)
  qed
qed

lemma zeros_aligned:
  assumes "d mod 8 = 0" "d + k \<le> 8 * length buf"
  shows "zeros_aligned buf (byte_ptr buf d) k = Some (zero_range buf d k)"
proof (cases "k mod 8 = 0")
  case True
  then have "8 * (k div 8) = k" by auto
  then show ?thesis using True zeros_bytes [OF assms] by (auto simp: zeros_aligned_def)
next
  case False
  let ?e = "d + 8 * (k div 8)"
  have k: "8 * (k div 8) + k mod 8 = k" by simp
  have e: "?e + k mod 8 \<le> 8 * length buf" "?e mod 8 + k mod 8 \<le> 8" "?e mod 8 = 0" using assms k by auto
  obtain b where b: "get_byte buf (byte_ptr buf ?e) = Some b" "b AND byte_mask (k mod 8) (?e mod 8) = 0 \<longleftrightarrow> zero_range buf ?e (k mod 8)"
    by (rule zero_chunk [OF e(1,2)]) (use False in simp)
  have "b AND mask (k mod 8) = 0 \<longleftrightarrow> zero_range buf ?e (k mod 8)" using b(2) unfolding e(3) by (simp add: byte_mask_def)
  moreover have "zero_range buf d k \<longleftrightarrow> zero_range buf d (8 * (k div 8)) \<and> zero_range buf ?e (k mod 8)"
    using zero_range_add [of buf d "8 * (k div 8)" "k mod 8"] unfolding k .
  ultimately show ?thesis
    using False b(1) zeros_bytes [OF assms] by (auto simp del: add_diff_eq diff_diff_eq2 simp: zeros_aligned_def)
qed

lemma bitwise_is_all_zeros:
  assumes "d + k \<le> 8 * length buf"
  shows "bitwise_is_all_zeros buf (length buf) d k = Some (zero_range buf d k)"
proof (cases "k = 0 \<or> d mod 8 = 0")
  case True
  then show ?thesis using zeros_aligned [of d k buf] assms
    by (auto simp: bitwise_is_all_zeros_def zero_range_def Let_def)
next
  case False
  define c where "c = min k (8 - d mod 8)"
  have "d mod 8 < 8" by simp
  then have c: "0 < c" "c \<le> k" "d mod 8 + c \<le> 8" "c = k \<or> d mod 8 + c = 8" using False unfolding c_def by linarith+
  have dc: "d + c \<le> 8 * length buf" using assms c(2) by linarith
  define P where "P = byte_ptr buf d"
  obtain b where b: "get_byte buf P = Some b" "b AND byte_mask c (d mod 8) = 0 \<longleftrightarrow> zero_range buf d c"
    unfolding P_def by (rule zero_chunk [OF dc c(3) c(1)])
  show ?thesis
  proof (cases "c = k")
    case True
    then show ?thesis using False b by (simp add: bitwise_is_all_zeros_def Let_def P_def [symmetric] c_def [symmetric])
  next
    case ne: False
    then have e: "d mod 8 + c = 8" using c by simp
    have P: "byte_ptr buf (d + c) = P - 1" unfolding P_def using byte_ptr_next(1) [OF e, of buf] by simp
    have r: "zeros_aligned buf (P - 1) (k - c) = Some (zero_range buf (d + c) (k - c))"
      using zeros_aligned [of "d + c" "k - c" buf] byte_ptr_next(2) [OF e] assms c(2) unfolding P by simp
    have "zero_range buf d k \<longleftrightarrow> zero_range buf d c \<and> zero_range buf (d + c) (k - c)"
      using zero_range_add [of buf d c "k - c"] c(2) by simp
    then show ?thesis
      unfolding bitwise_is_all_zeros_def Let_def c_def [symmetric] P_def [symmetric]
      using r False ne c b by simp
  qed
qed

lemma is_all_zeros: "is_all_zeros p \<longleftrightarrow> zero_range p 0 (8 * length p)"
proof -
  have "is_all_zeros p \<longleftrightarrow> (\<forall>b \<in> set p. b = 0)" by (induction p) auto
  also have "\<dots> \<longleftrightarrow> zero_range p 0 (8 * length p)"
  proof
    assume "\<forall>b \<in> set p. b = 0"
    then have "p ! (length p - 1 - e div 8) = 0" if "e < 8 * length p" for e
      using that by (metis diff_Suc_less diff_diff_left length_greater_0_conv list.size(3) mult_0_right not_less_zero nth_mem plus_1_eq_Suc)
    then show "zero_range p 0 (8 * length p)" by (simp add: zero_range_def nbit_def)
  next
    assume z: "zero_range p 0 (8 * length p)"
    have "p ! i = 0" if "i < length p" for i
    proof (rule bit_eqI)
      fix j
      assume "possible_bit TYPE(u8) j"
      then have "j < 8" by simp
      then have "\<not> nbit p (8 * (length p - 1 - i) + j)" using z that by (simp add: zero_range_def)
      then show "bit (p ! i) j = bit 0 j" using \<open>j < 8\<close> that by (simp add: nbit_def)
    qed
    then show "\<forall>b \<in> set p. b = 0" by (auto simp: in_set_conv_nth)
  qed
  finally show ?thesis .
qed

section \<open>Properties\<close>

text \<open>
  C29.  \<^verbatim>\<open>bitwise_copy\<close> stays within both buffers and copies exactly the bits of the range, for any alignment: bit \<open>i\<close> of the
  destination read as one integer becomes bit \<open>s + (i - d)\<close> of the source, and no other bit changes.
\<close>

theorem bitwise_copy_bits:
  assumes "s + k \<le> 8 * length src" "d + k \<le> 8 * length dst"
  shows "\<exists>dst'. bitwise_copy src (length src) s dst (length dst) d k = Some dst' \<and> length dst' = length dst
    \<and> (\<forall>i < 8 * length dst. nbit dst' i = (if d \<le> i \<and> i < d + k then nbit src (s + (i - d)) else nbit dst i))"
proof -
  obtain dst' where "bitwise_copy src (length src) s dst (length dst) d k = Some dst'" "copied src s dst d k dst'"
    by (rule bitwise_copy [OF assms])
  then show ?thesis unfolding updated_def by blast
qed

theorem bitwise_copy_bits_witness:
  "\<exists>dst'. bitwise_copy [0xab, 0xcd] 2 3 [0, 0, 0] 3 5 11 = Some dst' \<and> length dst' = 3 \<and> nbit dst' 5 = nbit [0xab, 0xcd] 3"
  using bitwise_copy_bits [of 3 11 "[0xab, 0xcd]" 5 "[0, 0, 0]"] by (auto simp: numeral_2_eq_2 numeral_3_eq_3)

theorem bitwise_put_get_witness:
  "bitwise_put 0x2bc [1, 2, 3] 3 7 10 \<bind> (\<lambda>dst'. bitwise_get dst' (length dst') 7 10) = Some 0x2bc"
  using bitwise_put_get [of 7 10 "[1, 2, 3]" "0x2bc"] by (simp add: numeral_3_eq_3)

end
