(* ===== verification/Ovs_Bits.thy ===== *)
theory Ovs_Bits
  imports Ovs_Hmap
begin

text \<open>
  The tests on single bits of \<^verbatim>\<open>lib/util.h\<close>.  For the functions with a variant per compiler or per
  word size these are the portable variants of \<^verbatim>\<open>lib/util.c\<close> and \<^verbatim>\<open>lib/util.h\<close>: the
  others are single instructions.  A count is an \<^verbatim>\<open>int\<close>.
\<close>

section \<open>Operations\<close>

definition ctz_step :: "nat \<Rightarrow> int \<times> u64 \<Rightarrow> int \<times> u64" where
  "ctz_step X s = (let k = push_bit X (snd s) in if k \<noteq> 0 then (fst s - int X, k) else s)"

definition raw_ctz :: "u64 \<Rightarrow> int" where
  "raw_ctz n = fst (ctz_step 1 (ctz_step 2 (ctz_step 4 (ctz_step 8 (ctz_step 16 (ctz_step 32 (63, n)))))))"

definition clz_step :: "nat \<Rightarrow> int \<times> u64 \<Rightarrow> int \<times> u64" where
  "clz_step X s = (let k = drop_bit X (snd s) in if k \<noteq> 0 then (fst s - int X, k) else s)"

definition raw_clz64 :: "u64 \<Rightarrow> int" where
  "raw_clz64 n = fst (clz_step 1 (clz_step 2 (clz_step 4 (clz_step 8 (clz_step 16 (clz_step 32 (63, n)))))))"

definition ctz32 :: "u32 \<Rightarrow> int" where
  "ctz32 n = (if n \<noteq> 0 then raw_ctz (ucast n) else 32)"

definition ctz64 :: "u64 \<Rightarrow> int" where
  "ctz64 n = (if n \<noteq> 0 then raw_ctz n else 64)"

definition clz32 :: "u32 \<Rightarrow> int" where
  "clz32 n = (if n \<noteq> 0 then raw_clz64 (ucast n) - 32 else 32)"

definition clz64 :: "u64 \<Rightarrow> int" where
  "clz64 n = (if n \<noteq> 0 then raw_clz64 n else 64)"

definition log_2_floor :: "u64 \<Rightarrow> int" where
  "log_2_floor n = 63 - raw_clz64 n"

definition log_2_ceil :: "u64 \<Rightarrow> int" where
  "log_2_ceil n = log_2_floor n + of_bool (\<not> is_pow2 n)"

text \<open>The table of the 32-bit build: \<open>init1\<close> is the macro that computes an element.\<close>

definition init1 :: "nat \<Rightarrow> nat" where
  "init1 x = of_bool (bit x 0) + of_bool (bit x 1) + of_bool (bit x 2) + of_bool (bit x 3)
     + of_bool (bit x 4) + of_bool (bit x 5) + of_bool (bit x 6) + of_bool (bit x 7)"

definition count_1bits_8 :: "nat list" where
  "count_1bits_8 = map init1 [0..<256]"

definition count_1bits_32 :: "u32 \<Rightarrow> nat" where
  "count_1bits_32 x = count_1bits_8 ! unat (x AND 0xff) + count_1bits_8 ! unat (drop_bit 8 x AND 0xff)
     + count_1bits_8 ! unat (drop_bit 16 x AND 0xff) + count_1bits_8 ! unat (drop_bit 24 x)"

definition count_1bits :: "u64 \<Rightarrow> nat" where
  "count_1bits x = count_1bits_32 (ucast x) + count_1bits_32 (ucast (drop_bit 32 x))"

text \<open>The variant of the 64-bit build.\<close>

definition count_1bits_64 :: "u64 \<Rightarrow> u64" where
  "count_1bits_64 x =
     (let h55 = 0x5555555555555555;
          h33 = 0x3333333333333333;
          h0F = 0x0F0F0F0F0F0F0F0F;
          h01 = 0x0101010101010101;
          x = x - (drop_bit 1 x AND h55);
          x = (x AND h33) + (drop_bit 2 x AND h33);
          x = (x + drop_bit 4 x) AND h0F
      in drop_bit 56 (x * h01))"

definition rightmost_1bit :: "u64 \<Rightarrow> u64" where
  "rightmost_1bit x = x AND - x"

definition zero_rightmost_1bit :: "u64 \<Rightarrow> u64" where
  "zero_rightmost_1bit x = x AND (x - 1)"

definition rightmost_1bit_idx :: "u32 \<Rightarrow> int" where
  "rightmost_1bit_idx x = ctz32 x"

definition leftmost_1bit_idx :: "u32 \<Rightarrow> int" where
  "leftmost_1bit_idx x = (if x \<noteq> 0 then log_2_floor (ucast x) else 32)"

section \<open>The lowest and the highest bit\<close>

text \<open>\<open>i\<close> is the index of the lowest, or of the highest, bit that is 1.\<close>

definition lowest :: "'a::len word \<Rightarrow> nat \<Rightarrow> bool" where
  "lowest x i \<longleftrightarrow> bit x i \<and> (\<forall>j < i. \<not> bit x j)"

definition highest :: "'a::len word \<Rightarrow> nat \<Rightarrow> bool" where
  "highest x i \<longleftrightarrow> bit x i \<and> (\<forall>j > i. \<not> bit x j)"

lemma lowest_exists: "x \<noteq> 0 \<Longrightarrow> \<exists>i. lowest x i"
proof -
  assume "x \<noteq> 0"
  then obtain i where "bit x i" by (auto simp: bit_eq_iff)
  then have "lowest x (LEAST i. bit x i)" unfolding lowest_def by (blast intro: LeastI dest: not_less_Least)
  then show ?thesis ..
qed

lemma highest_exists:
  fixes x :: "'a::len word"
  assumes "x \<noteq> 0"
  shows "\<exists>i. highest x i"
proof -
  let ?S = "{i. bit x i}"
  have "?S \<subseteq> {..<LENGTH('a)}" using bit_imp_le_length [of x] by auto
  then have fin: "finite ?S" by (rule finite_subset) simp
  have "?S \<noteq> {}" using assms by (auto simp: bit_eq_iff)
  with fin have "Max ?S \<in> ?S" by (rule Max_in)
  moreover have "j \<le> Max ?S" if "bit x j" for j using fin that by (intro Max_ge) simp_all
  ultimately show ?thesis unfolding highest_def by (metis mem_Collect_eq not_le)
qed

lemma lowest_unique: "lowest x i \<Longrightarrow> lowest x j \<Longrightarrow> i = j"
  unfolding lowest_def by (metis linorder_neqE_nat)

lemma highest_unique: "highest x i \<Longrightarrow> highest x j \<Longrightarrow> i = j"
  unfolding highest_def by (metis linorder_neqE_nat)

lemma lowest_less: "lowest (x :: u64) i \<Longrightarrow> i < 64"
  using bit_imp_le_length [of x i] by (simp add: lowest_def)

lemma highest_less: "highest (x :: u64) i \<Longrightarrow> i < 64"
  using bit_imp_le_length [of x i] by (simp add: highest_def)

text \<open>A step of the binary search keeps the sum of the count and the index.\<close>

lemma ctz_step:
  assumes "lowest n l" "64 - 2 * X \<le> l" "ctz_step X (c, n) = (c', n')"
  shows "\<exists>l'. lowest n' l' \<and> 64 - X \<le> l' \<and> c' + int l' = c + int l"
proof (cases "l + X < 64")
  case True
  then have low: "lowest (push_bit X n) (l + X)" using assms(1) by (auto simp: lowest_def bit_push_bit_iff)
  then have "push_bit X n \<noteq> 0" by (auto simp: lowest_def)
  then have "n' = push_bit X n" "c' = c - int X" using assms(3) by (auto simp: ctz_step_def Let_def)
  then show ?thesis using low assms(2) by (intro exI [of _ "l + X"]) auto
next
  case False
  have "push_bit X n = 0"
  proof (rule bit_eqI)
    fix i
    show "bit (push_bit X n) i = bit 0 i"
      using assms(1) False bit_imp_le_length [of "push_bit X n" i] by (auto simp: lowest_def bit_push_bit_iff)
  qed
  then have "n' = n" "c' = c" using assms(3) by (auto simp: ctz_step_def Let_def)
  then show ?thesis using assms(1) False by (intro exI [of _ l]) auto
qed

lemma raw_ctz_lowest:
  assumes "lowest n l"
  shows "raw_ctz n = int l"
proof -
  obtain c1 n1 where s1: "ctz_step 32 (63, n) = (c1, n1)" by fastforce
  obtain c2 n2 where s2: "ctz_step 16 (c1, n1) = (c2, n2)" by fastforce
  obtain c3 n3 where s3: "ctz_step 8 (c2, n2) = (c3, n3)" by fastforce
  obtain c4 n4 where s4: "ctz_step 4 (c3, n3) = (c4, n4)" by fastforce
  obtain c5 n5 where s5: "ctz_step 2 (c4, n4) = (c5, n5)" by fastforce
  obtain c6 n6 where s6: "ctz_step 1 (c5, n5) = (c6, n6)" by fastforce
  from ctz_step [OF assms _ s1] obtain l1 where l1: "lowest n1 l1" "32 \<le> l1" "c1 + int l1 = 63 + int l" by auto
  from ctz_step [OF l1(1) _ s2] l1 obtain l2 where l2: "lowest n2 l2" "48 \<le> l2" "c2 + int l2 = 63 + int l" by auto
  from ctz_step [OF l2(1) _ s3] l2 obtain l3 where l3: "lowest n3 l3" "56 \<le> l3" "c3 + int l3 = 63 + int l" by auto
  from ctz_step [OF l3(1) _ s4] l3 obtain l4 where l4: "lowest n4 l4" "60 \<le> l4" "c4 + int l4 = 63 + int l" by auto
  from ctz_step [OF l4(1) _ s5] l4 obtain l5 where l5: "lowest n5 l5" "62 \<le> l5" "c5 + int l5 = 63 + int l" by auto
  from ctz_step [OF l5(1) _ s6] l5 obtain l6 where l6: "lowest n6 l6" "63 \<le> l6" "c6 + int l6 = 63 + int l" by auto
  have "raw_ctz n = c6" by (simp only: raw_ctz_def s1 s2 s3 s4 s5 s6 fst_conv)
  then show ?thesis using l6 lowest_less [OF l6(1)] by simp
qed

lemma clz_step:
  assumes "highest n h" "h < 2 * X" "clz_step X (c, n) = (c', n')"
  shows "\<exists>h'. highest n' h' \<and> h' < X \<and> c' - int h' = c - int h"
proof (cases "X \<le> h")
  case True
  then have high: "highest (drop_bit X n) (h - X)" using assms(1) by (auto simp: highest_def bit_drop_bit_eq)
  then have "drop_bit X n \<noteq> 0" by (auto simp: highest_def)
  then have "n' = drop_bit X n" "c' = c - int X" using assms(3) by (auto simp: clz_step_def Let_def)
  then show ?thesis using high assms(2) True by (intro exI [of _ "h - X"]) auto
next
  case False
  have "drop_bit X n = 0" using assms(1) False by (auto simp: bit_eq_iff highest_def bit_drop_bit_eq)
  then have "n' = n" "c' = c" using assms(3) by (auto simp: clz_step_def Let_def)
  then show ?thesis using assms(1) False by (intro exI [of _ h]) auto
qed

lemma raw_clz64_highest:
  assumes "highest n h"
  shows "raw_clz64 n = 63 - int h"
proof -
  obtain c1 n1 where s1: "clz_step 32 (63, n) = (c1, n1)" by fastforce
  obtain c2 n2 where s2: "clz_step 16 (c1, n1) = (c2, n2)" by fastforce
  obtain c3 n3 where s3: "clz_step 8 (c2, n2) = (c3, n3)" by fastforce
  obtain c4 n4 where s4: "clz_step 4 (c3, n3) = (c4, n4)" by fastforce
  obtain c5 n5 where s5: "clz_step 2 (c4, n4) = (c5, n5)" by fastforce
  obtain c6 n6 where s6: "clz_step 1 (c5, n5) = (c6, n6)" by fastforce
  from clz_step [OF assms _ s1] highest_less [OF assms] obtain h1 where h1: "highest n1 h1" "h1 < 32" "c1 - int h1 = 63 - int h" by auto
  from clz_step [OF h1(1) _ s2] h1 obtain h2 where h2: "highest n2 h2" "h2 < 16" "c2 - int h2 = 63 - int h" by auto
  from clz_step [OF h2(1) _ s3] h2 obtain h3 where h3: "highest n3 h3" "h3 < 8" "c3 - int h3 = 63 - int h" by auto
  from clz_step [OF h3(1) _ s4] h3 obtain h4 where h4: "highest n4 h4" "h4 < 4" "c4 - int h4 = 63 - int h" by auto
  from clz_step [OF h4(1) _ s5] h4 obtain h5 where h5: "highest n5 h5" "h5 < 2" "c5 - int h5 = 63 - int h" by auto
  from clz_step [OF h5(1) _ s6] h5 obtain h6 where h6: "highest n6 h6" "h6 < 1" "c6 - int h6 = 63 - int h" by auto
  have "raw_clz64 n = c6" by (simp only: raw_clz64_def s1 s2 s3 s4 s5 s6 fst_conv)
  then show ?thesis using h6 by simp
qed

section \<open>Logarithms\<close>

lemma highest_bounds:
  fixes x :: "'a::len word"
  assumes "highest x h"
  shows "2 ^ h \<le> unat x" "unat x < 2 ^ Suc h"
proof -
  have b: "bit (unat x) h" "\<And>j. bit (unat x) j \<Longrightarrow> j \<le> h"
    using assms by (auto simp: highest_def bit_unsigned_iff not_less [symmetric])
  have "odd (unat x div 2 ^ h)" using b(1) by (simp add: bit_iff_odd)
  then have "unat x div 2 ^ h \<noteq> 0" by (metis even_zero)
  then show "2 ^ h \<le> unat x" by (simp add: div_eq_0_iff not_less)
  have "take_bit (Suc h) (unat x) = unat x"
    using b(2) by (auto simp: bit_eq_iff bit_take_bit_iff less_Suc_eq_le)
  then show "unat x < 2 ^ Suc h" using take_bit_nat_less_exp [of "Suc h" "unat x"] by simp
qed

lemma log_2_floor:
  assumes "n \<noteq> 0"
  obtains k where "log_2_floor n = int k" "k < 64" "2 ^ k \<le> unat n" "unat n < 2 ^ Suc k"
proof -
  obtain h where h: "highest n h" using highest_exists [OF assms] by blast
  have "log_2_floor n = int h" by (simp add: log_2_floor_def raw_clz64_highest [OF h])
  then show thesis using that highest_bounds [OF h] highest_less [OF h] by blast
qed

text \<open>The lowest bit splits a word into the bits above it, itself, and nothing.\<close>

lemma lowest_split:
  fixes x :: "'a::len word"
  assumes "lowest x l"
  defines "y \<equiv> unset_bit l x"
  shows "x = y + 2 ^ l" "x - 1 = y OR mask l" "y AND mask l = 0" "\<not> bit y l" "l < LENGTH('a)"
proof -
  show l: "l < LENGTH('a)" using assms bit_imp_le_length [of x l] by (simp add: lowest_def)
  show nb: "\<not> bit y l" by (simp add: y_def bit_unset_bit_iff)
  show z: "y AND mask l = 0" using assms by (auto simp: bit_eq_iff bit_and_iff bit_mask_iff y_def bit_unset_bit_iff lowest_def)
  have "x = y OR 2 ^ l"
    by (rule bit_word_eqI) (use assms l in \<open>auto simp: bit_or_iff y_def bit_unset_bit_iff bit_exp_iff lowest_def\<close>)
  also have "\<dots> = y + 2 ^ l"
    using nb by (intro disjunctive_add [symmetric]) (auto simp: bit_exp_iff)
  finally show x: "x = y + 2 ^ l" .
  have "y OR mask l = y + mask l"
    using z by (intro disjunctive_add [symmetric]) (auto simp: bit_eq_iff bit_and_iff dest: bit_imp_le_length)
  then show "x - 1 = y OR mask l" unfolding x by (simp add: mask_eq_exp_minus_1 algebra_simps)
qed

lemma zero_rightmost_1bit:
  assumes "lowest x l"
  shows "zero_rightmost_1bit x = unset_bit l x"
  unfolding zero_rightmost_1bit_def lowest_split(2) [OF assms]
  by (rule bit_word_eqI) (use assms in \<open>auto simp: bit_and_iff bit_or_iff bit_mask_iff bit_unset_bit_iff lowest_def\<close>)

lemma rightmost_1bit:
  assumes "lowest x l"
  shows "rightmost_1bit x = 2 ^ l"
proof -
  have "- x = NOT (x - 1)" by (simp add: not_eq_complement)
  then have "rightmost_1bit x = x AND NOT (unset_bit l x OR mask l)"
    by (simp add: rightmost_1bit_def lowest_split(2) [OF assms])
  also have "\<dots> = 2 ^ l"
    by (rule bit_word_eqI)
       (use assms in \<open>auto simp: bit_and_iff bit_or_iff bit_not_iff bit_mask_iff bit_unset_bit_iff lowest_def bit_exp_iff\<close>)
  finally show ?thesis .
qed

lemma is_pow2_highest:
  assumes "highest x h"
  shows "is_pow2 x \<longleftrightarrow> unat x = 2 ^ h"
proof -
  have nz: "x \<noteq> 0" using assms by (auto simp: highest_def)
  then obtain l where l: "lowest x l" using lowest_exists by blast
  have h64: "h < 64" using highest_less [OF assms] .
  have "is_pow2 x \<longleftrightarrow> unset_bit l x = 0"
    using nz zero_rightmost_1bit [OF l] by (simp add: is_pow2_def zero_rightmost_1bit_def)
  also have "\<dots> \<longleftrightarrow> x = 2 ^ l"
  proof
    assume "unset_bit l x = 0"
    then show "x = 2 ^ l" using lowest_split(1) [OF l] by simp
  next
    assume "x = 2 ^ l"
    then show "unset_bit l x = 0" using lowest_split(1) [OF l] by simp
  qed
  also have "\<dots> \<longleftrightarrow> x = 2 ^ h"
  proof
    assume "x = 2 ^ l"
    moreover have "l < 64" using lowest_less [OF l] .
    ultimately have "highest x l" by (auto simp: highest_def bit_exp_iff)
    then show "x = 2 ^ h" using highest_unique [OF assms] \<open>x = 2 ^ l\<close> by simp
  next
    assume "x = 2 ^ h"
    then have "lowest x h" using h64 by (auto simp: lowest_def bit_exp_iff)
    then show "x = 2 ^ l" using lowest_unique [OF l] \<open>x = 2 ^ h\<close> by simp
  qed
  also have "\<dots> \<longleftrightarrow> unat x = 2 ^ h"
  proof -
    have "(2 :: nat) ^ h < 2 ^ 64" using h64 by (intro power_strict_increasing) simp_all
    then have "unat (of_nat (2 ^ h) :: u64) = 2 ^ h" unfolding unat_of_nat by simp
    then show ?thesis by (simp add: word_unat_eq_iff)
  qed
  finally show ?thesis .
qed

lemma log_2_ceil:
  assumes "n \<noteq> 0"
  obtains c where "log_2_ceil n = int c" "unat n \<le> 2 ^ c" "c = 0 \<or> 2 ^ (c - 1) < unat n"
proof -
  obtain h where h: "highest n h" using highest_exists [OF assms] by blast
  have f: "log_2_floor n = int h" by (simp add: log_2_floor_def raw_clz64_highest [OF h])
  show thesis
  proof (cases "unat n = 2 ^ h")
    case True
    have "c = 0 \<or> 2 ^ (c - 1) < (2 :: nat) ^ c" for c by (cases c) simp_all
    then show thesis using True f is_pow2_highest [OF h] by (intro that [of h]) (simp_all add: log_2_ceil_def)
  next
    case False
    then show thesis using f is_pow2_highest [OF h] highest_bounds [OF h] by (intro that [of "Suc h"]) (simp_all add: log_2_ceil_def)
  qed
qed

section \<open>Counting bits\<close>

definition popcount :: "'a::len word \<Rightarrow> nat" where
  "popcount x = (\<Sum>i < LENGTH('a). of_bool (bit x i))"

lemma popcount_card: "popcount x = card {i. bit x i}"
proof -
  have "{i. bit x i} = {..<LENGTH('a)} \<inter> {i. bit x i}" for x :: "'a::len word" using bit_imp_le_length [of x] by auto
  then show ?thesis unfolding popcount_def by (simp add: of_bool_def sum.If_cases)
qed

lemma count_1bits_8_nth: "k < 256 \<Longrightarrow> count_1bits_8 ! k = init1 k"
  by (simp add: count_1bits_8_def del: upt_Suc)

lemma byte_lt: "unat (x AND 0xff :: u32) < 256" "unat (drop_bit 24 x :: u32) < 256"
proof -
  have "x AND 0xff = take_bit 8 x" by (simp add: take_bit_eq_mask mask_eq_exp_minus_1)
  then show "unat (x AND 0xff) < 256" using take_bit_nat_less_exp [of 8 "unat x"] by (simp add: unsigned_take_bit_eq)
  have "unat x < 4294967296" using unsigned_less [of x] by simp
  then show "unat (drop_bit 24 x) < 256" by (simp add: drop_bit_eq_div unat_div less_mult_imp_div_less)
qed

lemma sum_split: "(\<Sum>i < a + b. f i) = (\<Sum>i < a. f i) + (\<Sum>i < b. f (a + i))" for f :: "nat \<Rightarrow> nat"
  by (induction b) (simp_all add: add.assoc)

lemma init1_sum: "init1 k = (\<Sum>i < 8. of_bool (bit k i))"
  by (simp add: init1_def numeral_eq_Suc)

lemma byte_count:
  fixes x :: u32
  shows "init1 (unat (drop_bit s x AND 0xff)) = (\<Sum>i < 8. of_bool (bit x (s + i)))"
proof -
  have m: "(0xff :: u32) = mask 8" by (simp add: mask_eq_exp_minus_1)
  show ?thesis unfolding init1_sum m
    by (intro sum.cong) (simp_all add: bit_unsigned_iff bit_and_iff bit_drop_bit_eq bit_mask_iff)
qed

lemma count_1bits_32: "count_1bits_32 x = popcount x"
proof -
  have "x AND 0xff = drop_bit 0 x AND 0xff" by simp
  then have b0: "init1 (unat (x AND 0xff)) = (\<Sum>i < 8. of_bool (bit x (0 + i)))" using byte_count [of 0 x] by simp
  have m: "(0xff :: u32) = mask 8" by (simp add: mask_eq_exp_minus_1)
  have "drop_bit 24 x = drop_bit 24 x AND 0xff"
    unfolding m by (rule bit_word_eqI) (auto simp: bit_and_iff bit_drop_bit_eq bit_mask_iff dest: bit_imp_le_length)
  then have b3: "init1 (unat (drop_bit 24 x)) = (\<Sum>i < 8. of_bool (bit x (24 + i)))" using byte_count [of 24 x] by simp
  have "popcount x = (\<Sum>i < 8 + (8 + (8 + 8)). of_bool (bit x i))" by (simp add: popcount_def)
  also have "\<dots> = init1 (unat (x AND 0xff)) + init1 (unat (drop_bit 8 x AND 0xff))
      + init1 (unat (drop_bit 16 x AND 0xff)) + init1 (unat (drop_bit 24 x))"
    unfolding sum_split b0 b3 byte_count by simp
  finally show ?thesis by (simp add: count_1bits_32_def count_1bits_8_nth byte_lt)
qed

lemma count_1bits: "count_1bits x = popcount x"
proof -
  have "popcount x = (\<Sum>i < 32 + 32. of_bool (bit x i))" by (simp add: popcount_def)
  also have "\<dots> = (\<Sum>i < 32. of_bool (bit x i)) + (\<Sum>i < 32. of_bool (bit x (32 + i)))" by (rule sum_split)
  also have "\<dots> = popcount (ucast x :: u32) + popcount (ucast (drop_bit 32 x) :: u32)"
    by (simp add: popcount_def bit_ucast_iff bit_drop_bit_eq)
  finally show ?thesis by (simp add: count_1bits_def count_1bits_32)
qed

text \<open>
  The variant without a table adds neighbouring fields of the word in place.  \<open>field_sum d k n\<close> is the
  number whose \<open>n\<close> fields of \<open>k\<close> bits are \<open>d 0\<close>, \<open>d 1\<close>, and so on.
\<close>

definition field_sum :: "(nat \<Rightarrow> nat) \<Rightarrow> nat \<Rightarrow> nat \<Rightarrow> nat" where
  "field_sum d k n = (\<Sum>i < n. d i * 2 ^ (k * i))"

lemma digits_Suc: "field_sum d k (Suc n) = d 0 + 2 ^ k * field_sum (\<lambda>i. d (Suc i)) k n"
  unfolding field_sum_def sum.lessThan_Suc_shift by (simp add: sum_distrib_left power_add ac_simps)

lemma bit_low:
  fixes a :: nat
  assumes "a < 2 ^ k" "bit a j"
  shows "j < k"
  using assms by (metis bit_take_bit_iff take_bit_nat_eq_self)

lemma bit_field_cons:
  fixes a b :: nat
  assumes "a < 2 ^ k"
  shows "bit (a + 2 ^ k * b) j = (if j < k then bit a j else bit b (j - k))"
proof -
  have "a + 2 ^ k * b = a OR push_bit k b"
  proof -
    have "a + push_bit k b = a OR push_bit k b"
      by (rule disjunctive_add) (auto simp: bit_push_bit_iff dest!: bit_low [OF assms])
    then show ?thesis by (simp add: push_bit_eq_mult mult.commute)
  qed
  then show ?thesis using bit_low [OF assms, of j] by (auto simp: bit_or_iff bit_push_bit_iff)
qed

lemma bit_digits:
  assumes "0 < k"
  shows "(\<And>i. i < n \<Longrightarrow> d i < 2 ^ k) \<Longrightarrow> bit (field_sum d k n) j \<longleftrightarrow> j < k * n \<and> bit (d (j div k)) (j mod k)"
proof (induction n arbitrary: d j)
  case 0
  then show ?case by (simp add: field_sum_def)
next
  case (Suc n)
  have IH: "bit (field_sum (\<lambda>i. d (Suc i)) k n) (j - k) \<longleftrightarrow> j - k < k * n \<and> bit (d (Suc ((j - k) div k))) ((j - k) mod k)"
    using Suc.IH [of "\<lambda>i. d (Suc i)" "j - k"] Suc.prems by simp
  have d0: "d 0 < 2 ^ k" using Suc.prems by simp
  show ?case unfolding digits_Suc bit_field_cons [OF d0] using IH assms
    by (auto simp: le_div_geq le_mod_geq not_less)
qed

lemma digits_fields:
  assumes k: "0 < k" and d: "\<And>i. i < 2 * n \<Longrightarrow> d i < 2 ^ k"
  shows "field_sum d k (2 * n) AND field_sum (\<lambda>_. mask k) (2 * k) n = field_sum (\<lambda>i. d (2 * i)) (2 * k) n" (is ?even)
    "drop_bit k (field_sum d k (2 * n)) AND field_sum (\<lambda>_. mask k) (2 * k) n = field_sum (\<lambda>i. d (2 * i + 1)) (2 * k) n" (is ?odd)
proof -
  have k2: "0 < 2 * k" using k by simp
  have pow: "(2 :: nat) ^ k \<le> 2 ^ (2 * k)" by (intro power_increasing) simp_all
  have le: "d i < 2 ^ (2 * k)" if "i < 2 * n" for i using d [OF that] pow by (rule less_le_trans)
  have "mask k < (2 :: nat) ^ k" by (simp add: mask_eq_exp_minus_1)
  then have lm: "mask k < (2 :: nat) ^ (2 * k)" using pow by (rule less_le_trans)
  have b: "bit (field_sum d k (2 * n)) j \<longleftrightarrow> j < k * (2 * n) \<and> bit (d (j div k)) (j mod k)" for j
    using bit_digits [OF k, of "2 * n" d j] d by blast
  have m: "bit (field_sum (\<lambda>_. mask k) (2 * k) n) j \<longleftrightarrow> j < 2 * k * n \<and> j mod (2 * k) < k" for j
    using bit_digits [OF k2, of n "\<lambda>_. mask k" j] lm by (simp add: bit_mask_iff)
  have e: "bit (field_sum (\<lambda>i. d (2 * i + c)) (2 * k) n) j \<longleftrightarrow> j < 2 * k * n \<and> bit (d (2 * (j div (2 * k)) + c)) (j mod (2 * k))" if "c < 2" for c j
    using bit_digits [OF k2, of n "\<lambda>i. d (2 * i + c)" j] le that by fastforce
  have split: "j div k = 2 * (j div (2 * k))" "j mod k = j mod (2 * k)" "(j + k) div k = 2 * (j div (2 * k)) + 1" "(j + k) mod k = j mod (2 * k)"
    if "j mod (2 * k) < k" for j
  proof -
    have j: "j = k * (2 * (j div (2 * k))) + j mod (2 * k)" using mult_div_mod_eq [of "2 * k" j] by (simp add: ac_simps)
    show "j div k = 2 * (j div (2 * k))" "j mod k = j mod (2 * k)"
      using that k by (subst (1) j, simp)+
    then show "(j + k) div k = 2 * (j div (2 * k)) + 1" "(j + k) mod k = j mod (2 * k)" using k by (simp_all add: div_add_self2)
  qed
  have low: "j mod (2 * k) < k" if "bit (d (2 * (j div (2 * k)) + c)) (j mod (2 * k))" "j < 2 * k * n" "c < 2" for j c
  proof -
    have "j div (2 * k) < n" using that(2) k by (simp add: less_mult_imp_div_less mult.commute)
    then have "d (2 * (j div (2 * k)) + c) < 2 ^ k" using that(3) by (intro d) linarith
    then show ?thesis using bit_low that(1) by blast
  qed
  have n2: "k * (2 * n) = 2 * k * n" by simp
  show ?even
    by (rule bit_eqI) (use split low [of _ 0] e [of 0] in \<open>auto simp: bit_and_iff b m n2\<close>)
  have lt: "k + j < 2 * k * n" if "j < 2 * k * n" "j mod (2 * k) < k" for j
  proof -
    have j: "j = 2 * k * (j div (2 * k)) + j mod (2 * k)" by simp
    have "j div (2 * k) < n" using that(1) k by (simp add: less_mult_imp_div_less mult.commute)
    then have "2 * k * Suc (j div (2 * k)) \<le> 2 * k * n" by (intro mult_le_mono2) simp
    then show ?thesis using j that(2) unfolding mult_Suc_right by linarith
  qed
  show ?odd
    by (rule bit_eqI) (use split low [of _ 1] e [of 1] lt in \<open>auto simp: bit_and_iff bit_drop_bit_eq b m n2 add.commute [of k]\<close>)
qed

lemma sum_pairs: "(\<Sum>i < 2 * n. f i) = (\<Sum>i < n. f (2 * i) + f (2 * i + 1))" for f :: "nat \<Rightarrow> nat"
  by (induction n) simp_all

lemma digits_pairs: "field_sum d k (2 * n) = field_sum (\<lambda>i. d (2 * i)) (2 * k) n + 2 ^ k * field_sum (\<lambda>i. d (2 * i + 1)) (2 * k) n"
  unfolding field_sum_def sum_pairs by (simp add: sum.distrib sum_distrib_left power_add algebra_simps)

lemma digits_add: "field_sum d k n + field_sum e k n = field_sum (\<lambda>i. d i + e i) k n"
  by (simp add: field_sum_def sum.distrib algebra_simps)

lemma digits_less: "(\<And>i. i < n \<Longrightarrow> d i < 2 ^ k) \<Longrightarrow> field_sum d k n < 2 ^ (k * n)"
proof (induction n arbitrary: d)
  case (Suc n)
  have "d 0 < 2 ^ k" "field_sum (\<lambda>i. d (Suc i)) k n < 2 ^ (k * n)" using Suc by simp_all
  then have "d 0 + 2 ^ k * field_sum (\<lambda>i. d (Suc i)) k n < 2 ^ k * Suc (field_sum (\<lambda>i. d (Suc i)) k n)" by simp
  also have "\<dots> \<le> 2 ^ k * 2 ^ (k * n)" using \<open>field_sum (\<lambda>i. d (Suc i)) k n < 2 ^ (k * n)\<close> by (intro mult_le_mono2) simp
  finally show ?case by (simp add: digits_Suc power_add)
qed (simp add: field_sum_def)

lemma digits_cong: "(\<And>i. i < n \<Longrightarrow> d i = e i) \<Longrightarrow> field_sum d k n = field_sum e k n"
  by (simp add: field_sum_def)

lemma digits_const: "field_sum (\<lambda>_. c) k n * 2 ^ k + c = field_sum (\<lambda>_. c) k n + c * 2 ^ (k * n)"
  by (induction n) (simp_all add: field_sum_def algebra_simps power_add)

lemma masks: "field_sum (\<lambda>_. mask 1) (2 * 1) 32 = 0x5555555555555555" "field_sum (\<lambda>_. mask 2) (2 * 2) 16 = 0x3333333333333333"
  "field_sum (\<lambda>_. mask 4) (2 * 4) 8 = 0x0F0F0F0F0F0F0F0F"
  using digits_const [of "mask 1" 2 32] digits_const [of "mask 2" 4 16] digits_const [of "mask 4" 8 8]
  by (simp_all add: mask_eq_exp_minus_1)

text \<open>The steps, on the number the word stands for.\<close>

lemma pairs_step:
  assumes "\<And>i. i < 2 * 32 \<Longrightarrow> b i < 2 ^ 1"
  shows "field_sum b 1 (2 * 32) - (drop_bit 1 (field_sum b 1 (2 * 32)) AND 0x5555555555555555)
    = field_sum (\<lambda>i. b (2 * i) + b (2 * i + 1)) (2 * 1) 32"
proof -
  have "drop_bit 1 (field_sum b 1 (2 * 32)) AND 0x5555555555555555 = field_sum (\<lambda>i. b (2 * i + 1)) (2 * 1) 32"
    unfolding masks [symmetric] by (rule digits_fields(2)) (use assms in simp_all)
  then show ?thesis unfolding digits_add [symmetric] using digits_pairs [of b 1 32] by simp
qed

lemma fields_step:
  assumes "\<And>i. i < 2 * 16 \<Longrightarrow> c i < 2 ^ 2"
  shows "(field_sum c 2 (2 * 16) AND 0x3333333333333333) + (drop_bit 2 (field_sum c 2 (2 * 16)) AND 0x3333333333333333)
    = field_sum (\<lambda>i. c (2 * i) + c (2 * i + 1)) (2 * 2) 16"
  unfolding digits_add [symmetric] masks [symmetric] using digits_fields [of 2 16 c] assms by simp

lemma bytes_step:
  assumes "\<And>i. i < 16 \<Longrightarrow> e i \<le> 4"
  shows "(field_sum e 4 16 + drop_bit 4 (field_sum e 4 16)) AND 0x0F0F0F0F0F0F0F0F = field_sum (\<lambda>i. e (2 * i) + e (2 * i + 1)) 8 8"
    "field_sum e 4 16 + drop_bit 4 (field_sum e 4 16) < 2 ^ 64"
proof -
  let ?s = "\<lambda>i. if i < 15 then e (Suc i) else 0"
  have "field_sum e 4 (Suc 15) = e 0 + 2 ^ 4 * field_sum (\<lambda>i. e (Suc i)) 4 15" by (rule digits_Suc)
  moreover have "e 0 < 16" using assms [of 0] by simp
  ultimately have "drop_bit 4 (field_sum e 4 16) = field_sum (\<lambda>i. e (Suc i)) 4 15" by (simp add: drop_bit_eq_div)
  also have "\<dots> = field_sum ?s 4 15" by (rule digits_cong) simp
  also have "\<dots> = field_sum ?s 4 (Suc 15)" unfolding field_sum_def sum.lessThan_Suc by simp
  finally have sum: "field_sum e 4 16 + drop_bit 4 (field_sum e 4 16) = field_sum (\<lambda>i. e i + ?s i) 4 (2 * 8)"
    by (simp add: digits_add)
  have lt: "e i + ?s i < 2 ^ 4" if "i < 2 * 8" for i using assms [of i] assms [of "Suc i"] that by auto
  then have "field_sum (\<lambda>i. e i + ?s i) 4 (2 * 8) < 2 ^ (4 * (2 * 8))" by (rule digits_less)
  then show "field_sum e 4 16 + drop_bit 4 (field_sum e 4 16) < 2 ^ 64" unfolding sum by simp
  have "field_sum (\<lambda>i. e i + ?s i) 4 (2 * 8) AND field_sum (\<lambda>_. mask 4) (2 * 4) 8 = field_sum (\<lambda>i. e (2 * i) + ?s (2 * i)) (2 * 4) 8"
    by (intro digits_fields(1) lt) simp_all
  also have "\<dots> = field_sum (\<lambda>i. e (2 * i) + e (2 * i + 1)) (2 * 4) 8" by (rule digits_cong) auto
  finally show "(field_sum e 4 16 + drop_bit 4 (field_sum e 4 16)) AND 0x0F0F0F0F0F0F0F0F = field_sum (\<lambda>i. e (2 * i) + e (2 * i + 1)) 8 8"
    unfolding sum masks by simp
qed

text \<open>The product adds up the bytes in the highest one.\<close>

lemma middle_field: "P = Q * 2 ^ 64 + (S * 2 ^ 56 + R) \<Longrightarrow> R < 2 ^ 56 \<Longrightarrow> S * 2 ^ 56 + R < 2 ^ 64 \<Longrightarrow> P mod 2 ^ 64 div 2 ^ 56 = S"
  for P Q R S :: nat
  by simp

lemma product_step:
  assumes "\<And>i. i < 8 \<Longrightarrow> g i \<le> 8"
  shows "field_sum g 8 8 * 0x0101010101010101 mod 2 ^ 64 div 2 ^ 56 = (\<Sum>i < 8. g i)"
proof -
  obtain a b c d e f h k where g: "g 0 = a" "g 1 = b" "g 2 = c" "g 3 = d" "g 4 = e" "g 5 = f" "g 6 = h" "g 7 = k" by blast
  have le: "a \<le> 8" "b \<le> 8" "c \<le> 8" "d \<le> 8" "e \<le> 8" "f \<le> 8" "h \<le> 8" "k \<le> 8"
    using assms [of 0] assms [of 1] assms [of 2] assms [of 3] assms [of 4] assms [of 5] assms [of 6] assms [of 7] g by simp_all
  have set8: "{..<8 :: nat} = {0, 1, 2, 3, 4, 5, 6, 7}" by auto
  let ?S = "a + b + c + d + e + f + h + k"
  let ?R = "a + (a + b) * 2 ^ 8 + (a + b + c) * 2 ^ 16 + (a + b + c + d) * 2 ^ 24 + (a + b + c + d + e) * 2 ^ 32
    + (a + b + c + d + e + f) * 2 ^ 40 + (a + b + c + d + e + f + h) * 2 ^ 48"
  let ?Q = "(b + c + d + e + f + h + k) + (c + d + e + f + h + k) * 2 ^ 8 + (d + e + f + h + k) * 2 ^ 16 + (e + f + h + k) * 2 ^ 24
    + (f + h + k) * 2 ^ 32 + (h + k) * 2 ^ 40 + k * 2 ^ 48"
  have D: "field_sum g 8 8 = a + b * 2 ^ 8 + c * 2 ^ 16 + d * 2 ^ 24 + e * 2 ^ 32 + f * 2 ^ 40 + h * 2 ^ 48 + k * 2 ^ 56"
    unfolding field_sum_def set8 using g by simp
  have "field_sum g 8 8 * 0x0101010101010101 = ?Q * 2 ^ 64 + (?S * 2 ^ 56 + ?R)" unfolding D by simp
  moreover have "?R < 2 ^ 56" "?S * 2 ^ 56 + ?R < 2 ^ 64" using le by simp_all
  ultimately have "field_sum g 8 8 * 0x0101010101010101 mod 2 ^ 64 div 2 ^ 56 = ?S" by (rule middle_field)
  then show ?thesis unfolding set8 using g by simp
qed

lemma unat_digits: "unat (x :: u64) = field_sum (\<lambda>i. of_bool (bit x i)) 1 (2 * 32)"
proof (rule bit_eqI)
  fix j
  have "of_bool (bit x i) < (2 :: nat) ^ 1" for i by simp
  then have "bit (field_sum (\<lambda>i. of_bool (bit x i)) 1 (2 * 32)) j \<longleftrightarrow> j < 1 * (2 * 32) \<and> bit (of_bool (bit x (j div 1)) :: nat) (j mod 1)"
    by (intro bit_digits) simp_all
  then show "bit (unat x) j = bit (field_sum (\<lambda>i. of_bool (bit x i)) 1 (2 * 32)) j"
    by (auto simp: bit_unsigned_iff of_bool_def bit_0 dest: bit_imp_le_length)
qed

lemma and_le: "a AND b \<le> a" for a b :: nat
  using AND_upper1 [of "int a" "int b"] by (simp flip: of_nat_and_eq)

lemma count_1bits_64: "unat (count_1bits_64 x) = popcount x"
proof -
  define b :: "nat \<Rightarrow> nat" where "b = (\<lambda>i. of_bool (bit x i))"
  define c where "c = (\<lambda>i. b (2 * i) + b (2 * i + 1))"
  define e where "e = (\<lambda>i. c (2 * i) + c (2 * i + 1))"
  define g where "g = (\<lambda>i. e (2 * i) + e (2 * i + 1))"
  have le: "b i \<le> 1" "c i \<le> 2" "e i \<le> 4" "g i \<le> 8" for i
  proof -
    show b: "b i \<le> 1" for i by (simp add: b_def)
    show c: "c i \<le> 2" for i using b [of "2 * i"] b [of "2 * i + 1"] by (simp add: c_def)
    show e: "e i \<le> 4" for i using c [of "2 * i"] c [of "2 * i + 1"] by (simp add: e_def)
    show "g i \<le> 8" using e [of "2 * i"] e [of "2 * i + 1"] by (simp add: g_def)
  qed
  have lt: "b i < 2 ^ 1" "c i < 2 ^ 2" "e i < 2 ^ 4" for i using le [of i] by simp_all
  define x1 where "x1 = x - (drop_bit 1 x AND 0x5555555555555555)"
  define x2 where "x2 = (x1 AND 0x3333333333333333) + (drop_bit 2 x1 AND 0x3333333333333333)"
  define x3 where "x3 = (x2 + drop_bit 4 x2) AND 0x0F0F0F0F0F0F0F0F"
  have ud: "unat (drop_bit k y) = drop_bit k (unat y)" for k and y :: u64 by (rule unat_drop_bit_eq)
  have x: "unat x = field_sum b 1 (2 * 32)" unfolding b_def by (rule unat_digits)
  have "unat (drop_bit 1 x AND 0x5555555555555555) = drop_bit 1 (unat x) AND 0x5555555555555555" by (simp add: unsigned_and_eq ud)
  moreover have "drop_bit 1 (unat x) AND 0x5555555555555555 \<le> unat x"
    by (rule order_trans [OF and_le]) (simp add: drop_bit_eq_div)
  ultimately have "unat x1 = unat x - (drop_bit 1 (unat x) AND 0x5555555555555555)" by (simp add: x1_def unat_sub_if')
  also have "\<dots> = field_sum c (2 * 1) 32" unfolding x c_def by (rule pairs_step [OF lt(1)])
  finally have x1: "unat x1 = field_sum c 2 (2 * 16)" by simp
  have u2: "unat (x1 AND 0x3333333333333333) = unat x1 AND 0x3333333333333333"
    "unat (drop_bit 2 x1 AND 0x3333333333333333) = drop_bit 2 (unat x1) AND 0x3333333333333333" by (simp_all add: unsigned_and_eq ud)
  have s2: "(unat x1 AND 0x3333333333333333) + (drop_bit 2 (unat x1) AND 0x3333333333333333) = field_sum e (2 * 2) 16"
    unfolding x1 e_def by (rule fields_step [OF lt(2)])
  have "field_sum e 4 16 < 2 ^ (4 * 16)" by (rule digits_less [OF lt(3)])
  then have x2: "unat x2 = field_sum e 4 16" using s2 by (simp add: x2_def unat_word_ariths u2)
  note b3 = bytes_step [of e, OF le(3)]
  have "unat (x2 + drop_bit 4 x2) = field_sum e 4 16 + drop_bit 4 (field_sum e 4 16)"
    using b3(2) by (simp add: unat_word_ariths ud x2)
  then have x3: "unat x3 = field_sum g 8 8" using b3(1) by (simp add: x3_def unsigned_and_eq g_def)
  have "count_1bits_64 x = drop_bit 56 (x3 * 0x0101010101010101)" by (simp add: count_1bits_64_def x1_def x2_def x3_def Let_def)
  then have "unat (count_1bits_64 x) = field_sum g 8 8 * 0x0101010101010101 mod 2 ^ 64 div 2 ^ 56"
    by (simp add: ud drop_bit_eq_div unat_word_ariths x3)
  also have "\<dots> = (\<Sum>i < 8. g i)" by (rule product_step [OF le(4)])
  also have "\<dots> = (\<Sum>i < 2 * (2 * (2 * 8)). b i)" unfolding sum_pairs g_def e_def c_def ..
  also have "\<dots> = popcount x" by (simp add: popcount_def b_def)
  finally show ?thesis .
qed

section \<open>Properties\<close>

text \<open>
  C36.  The two ways to count the 1-bits of a 64-bit word agree: the sums of fields of doubling width,
  with the final multiplication that wraps around modulo \<open>2 ^ 64\<close>, and the table of the counts of bytes.
\<close>

theorem count_1bits_variants: "unat (count_1bits_64 x) = count_1bits x"
  by (simp add: count_1bits count_1bits_64)

end
