(* ===== verification/Ovs_Bitmap.thy ===== *)
theory Ovs_Bitmap
  imports Ovs_Bits
begin

text \<open>
  The bitmaps of \<^verbatim>\<open>lib/bitmap.h\<close>, \<^verbatim>\<open>lib/bitmap.c\<close> and \<^verbatim>\<open>lib/vlan-bitmap.c\<close>: arrays of
  \<^verbatim>\<open>unsigned long\<close>, which has 32 bits.  Offsets and counts are natural numbers; a bitmap in memory has
  less than \<open>2 ^ 32\<close> bytes and its offsets do not wrap.  An access outside the array is \<open>None\<close>.
\<close>

type_synonym bitmap = "u32 list"

section \<open>Operations\<close>

text \<open>The index of the array element that \<^verbatim>\<open>bitmap_unit__\<close> points to.\<close>

definition bitmap_unit :: "bitmap \<Rightarrow> nat \<Rightarrow> nat option" where
  "bitmap_unit bitmap offset = (let i = offset div 32 in if i < length bitmap then Some i else None)"

definition bitmap_bit :: "nat \<Rightarrow> u32" where
  "bitmap_bit offset = push_bit (offset mod 32) 1"

definition bitmap_n_longs :: "nat \<Rightarrow> nat" where
  "bitmap_n_longs n_bits = (n_bits + (32 - 1)) div 32"

definition bitmap_n_bytes :: "nat \<Rightarrow> nat" where
  "bitmap_n_bytes n_bits = bitmap_n_longs n_bits * 4"

definition bitmap_allocate :: "nat \<Rightarrow> bitmap" where
  "bitmap_allocate n_bits = replicate (bitmap_n_bytes n_bits div 4) 0"

definition bitmap_allocate1 :: "nat \<Rightarrow> bitmap" where
  "bitmap_allocate1 n_bits =
     (let n_bytes = bitmap_n_bytes n_bits;
          n_longs = bitmap_n_longs n_bits;
          r_bits = n_bits mod 32;
          bitmap = replicate (n_bytes div 4) 0xffffffff
      in if r_bits \<noteq> 0 then bitmap[n_longs - 1 := push_bit r_bits 1 - 1] else bitmap)"

definition bitmap_clone :: "bitmap \<Rightarrow> nat \<Rightarrow> bitmap option" where
  "bitmap_clone bitmap n_bits =
     (let n = bitmap_n_bytes n_bits div 4 in if n \<le> length bitmap then Some (take n bitmap) else None)"

definition bitmap_is_set :: "bitmap \<Rightarrow> nat \<Rightarrow> bool option" where
  "bitmap_is_set bitmap offset = do {
     i \<leftarrow> bitmap_unit bitmap offset;
     Some (bitmap ! i AND bitmap_bit offset \<noteq> 0)
   }"

definition bitmap_set1 :: "bitmap \<Rightarrow> nat \<Rightarrow> bitmap option" where
  "bitmap_set1 bitmap offset = do {
     i \<leftarrow> bitmap_unit bitmap offset;
     Some (bitmap[i := bitmap ! i OR bitmap_bit offset])
   }"

definition bitmap_set0 :: "bitmap \<Rightarrow> nat \<Rightarrow> bitmap option" where
  "bitmap_set0 bitmap offset = do {
     i \<leftarrow> bitmap_unit bitmap offset;
     Some (bitmap[i := bitmap ! i AND NOT (bitmap_bit offset)])
   }"

definition bitmap_set :: "bitmap \<Rightarrow> nat \<Rightarrow> bool \<Rightarrow> bitmap option" where
  "bitmap_set bitmap offset val = (if val then bitmap_set1 bitmap offset else bitmap_set0 bitmap offset)"

text \<open>The three loops of \<^verbatim>\<open>bitmap_set_multiple\<close>.\<close>

fun set_until_aligned :: "bitmap \<Rightarrow> nat \<Rightarrow> nat \<Rightarrow> bool \<Rightarrow> (bitmap \<times> nat \<times> nat) option" where
  "set_until_aligned bitmap start cnt val =
     (if cnt \<noteq> 0 \<and> start mod 32 \<noteq> 0 then do {
        bitmap \<leftarrow> bitmap_set bitmap start val;
        set_until_aligned bitmap (start + 1) (cnt - 1) val
      } else Some (bitmap, start, cnt))"

fun set_units :: "bitmap \<Rightarrow> nat \<Rightarrow> nat \<Rightarrow> bool \<Rightarrow> (bitmap \<times> nat \<times> nat) option" where
  "set_units bitmap start cnt val =
     (if cnt \<ge> 32 then do {
        i \<leftarrow> bitmap_unit bitmap start;
        set_units (bitmap[i := - of_bool val]) (start + 32) (cnt - 32) val
      } else Some (bitmap, start, cnt))"

fun set_rest :: "bitmap \<Rightarrow> nat \<Rightarrow> nat \<Rightarrow> bool \<Rightarrow> bitmap option" where
  "set_rest bitmap start cnt val =
     (if cnt \<noteq> 0 then do {
        bitmap \<leftarrow> bitmap_set bitmap start val;
        set_rest bitmap (start + 1) (cnt - 1) val
      } else Some bitmap)"

declare set_until_aligned.simps [simp del] set_units.simps [simp del] set_rest.simps [simp del]

definition bitmap_set_multiple :: "bitmap \<Rightarrow> nat \<Rightarrow> nat \<Rightarrow> bool \<Rightarrow> bitmap option" where
  "bitmap_set_multiple bitmap start cnt val = do {
     (bitmap, start, cnt) \<leftarrow> set_until_aligned bitmap start cnt val;
     (bitmap, start, cnt) \<leftarrow> set_units bitmap start cnt val;
     set_rest bitmap start cnt val
   }"

function equal_loop :: "bitmap \<Rightarrow> bitmap \<Rightarrow> nat \<Rightarrow> nat \<Rightarrow> bool option" where
  "equal_loop a b i n =
     (if i < n then do {
        x \<leftarrow> bitmap_is_set a i;
        y \<leftarrow> bitmap_is_set b i;
        if x \<noteq> y then Some False else equal_loop a b (i + 1) n
      } else Some True)"
  by pat_completeness auto
termination
  by (relation "measure (\<lambda>(a, b, i, n). n - i)") auto

declare equal_loop.simps [simp del]

definition bitmap_equal :: "bitmap \<Rightarrow> bitmap \<Rightarrow> nat \<Rightarrow> bool option" where
  "bitmap_equal a b n =
     (let k = n div 32
      in if k \<le> length a \<and> k \<le> length b then
           if take k a \<noteq> take k b then Some False else equal_loop a b (n div 32 * 32) n
         else None)"

function bitmap_scan :: "bitmap \<Rightarrow> nat \<Rightarrow> nat \<Rightarrow> nat option" where
  "bitmap_scan bitmap i stop =
     (if i < stop then do {
        x \<leftarrow> bitmap_is_set bitmap i;
        if x then Some i else bitmap_scan bitmap (i + 1) stop
      } else Some i)"
  by pat_completeness auto
termination
  by (relation "measure (\<lambda>(b, i, e). e - i)") auto

declare bitmap_scan.simps [simp del]

definition bitmap_count1 :: "bitmap \<Rightarrow> nat \<Rightarrow> nat option" where
  "bitmap_count1 bitmap n =
     (let k = bitmap_n_longs n
      in if k \<le> length bitmap then Some (foldl (\<lambda>cnt w. cnt + count_1bits (ucast w)) 0 (take k bitmap)) else None)"

text \<open>\<^verbatim>\<open>BITMAP_FOR_EACH_1\<close>: the indices its body sees.\<close>

partial_function (option) for_each_1_loop :: "bitmap \<Rightarrow> nat \<Rightarrow> nat \<Rightarrow> nat list option" where
  "for_each_1_loop bitmap sz idx =
     (if idx < sz then do {
        nxt \<leftarrow> bitmap_scan bitmap (idx + 1) sz;
        rest \<leftarrow> for_each_1_loop bitmap sz nxt;
        Some (idx # rest)
      } else Some [])"

definition bitmap_for_each_1 :: "bitmap \<Rightarrow> nat \<Rightarrow> nat list option" where
  "bitmap_for_each_1 bitmap sz = do {
     idx \<leftarrow> bitmap_scan bitmap 0 sz;
     for_each_1_loop bitmap sz idx
   }"

section \<open>Operations on sets of VLANs\<close>

text \<open>A null pointer is \<open>None\<close>.\<close>

fun vlan_bitmap_from_array0 :: "int list \<Rightarrow> bitmap \<Rightarrow> int \<Rightarrow> (int \<times> bitmap) option" where
  "vlan_bitmap_from_array0 [] b n = Some (n, b)"
| "vlan_bitmap_from_array0 (vlan # vlans) b n =
     (if vlan \<ge> 0 \<and> vlan < 4096 then do {
        x \<leftarrow> bitmap_is_set b (nat vlan);
        if \<not> x then do {
          b \<leftarrow> bitmap_set1 b (nat vlan);
          vlan_bitmap_from_array0 vlans b (n + 1)
        } else vlan_bitmap_from_array0 vlans b n
      } else vlan_bitmap_from_array0 vlans b n)"

definition vlan_bitmap_from_array :: "int list \<Rightarrow> bitmap option option" where
  "vlan_bitmap_from_array vlans =
     (if vlans = [] then Some None
      else do {
        let b = bitmap_allocate 4096;
        (n, b) \<leftarrow> vlan_bitmap_from_array0 vlans b 0;
        Some (if n = 0 then None else Some b)
      })"

definition vlan_bitmap_equal :: "bitmap option \<Rightarrow> bitmap option \<Rightarrow> bool option" where
  "vlan_bitmap_equal a b =
     (case (a, b) of
        (None, None) \<Rightarrow> Some True
      | (Some a, Some b) \<Rightarrow> bitmap_equal a b 4096
      | _ \<Rightarrow> Some False)"

definition vlan_bitmap_clone :: "bitmap option \<Rightarrow> bitmap option option" where
  "vlan_bitmap_clone vlans = (case vlans of Some v \<Rightarrow> map_option Some (bitmap_clone v 4096) | None \<Rightarrow> Some None)"

section \<open>Bitmaps as sets\<close>

definition bm_bit :: "bitmap \<Rightarrow> nat \<Rightarrow> bool" where
  "bm_bit bm i \<longleftrightarrow> bit (bm ! (i div 32)) (i mod 32)"

text \<open>\<open>bm\<close> has room for \<open>n\<close> bits.\<close>

abbreviation bm_holds :: "bitmap \<Rightarrow> nat \<Rightarrow> bool" where
  "bm_holds bm n \<equiv> n \<le> 32 * length bm"

lemma unit_some: "i < 32 * length bm \<Longrightarrow> bitmap_unit bm i = Some (i div 32)" "i < 32 * length bm \<Longrightarrow> i div 32 < length bm"
  by (simp_all add: bitmap_unit_def less_mult_imp_div_less mult.commute)

lemma bit_bitmap_bit: "bit (bitmap_bit i) j \<longleftrightarrow> j = i mod 32"
proof -
  have "i mod 32 < 32" by simp
  then show ?thesis by (auto simp: bitmap_bit_def bit_exp_iff)
qed

lemma and_bitmap_bit: "w AND bitmap_bit i \<noteq> 0 \<longleftrightarrow> bit w (i mod 32)"
  using bit_eq_iff [of "w AND bitmap_bit i" 0] by (simp add: bit_and_iff bit_bitmap_bit)

lemma bitmap_is_set: "i < 32 * length bm \<Longrightarrow> bitmap_is_set bm i = Some (bm_bit bm i)"
  by (simp add: bitmap_is_set_def unit_some and_bitmap_bit bm_bit_def)

text \<open>The bits of \<open>bm'\<close> are those of \<open>bm\<close> except for the \<open>k\<close> bits from \<open>s\<close> on, which are \<open>v\<close>.\<close>

definition bm_set :: "bitmap \<Rightarrow> nat \<Rightarrow> nat \<Rightarrow> bool \<Rightarrow> bitmap \<Rightarrow> bool" where
  "bm_set bm s k v bm' \<longleftrightarrow> length bm' = length bm
     \<and> (\<forall>i < 32 * length bm. bm_bit bm' i = (if s \<le> i \<and> i < s + k then v else bm_bit bm i))"

lemma bm_set_none: "bm_set bm s 0 v bm"
  by (auto simp: bm_set_def)

lemma bm_set_trans: "bm_set bm s k v bm1 \<Longrightarrow> bm_set bm1 (s + k) l v bm2 \<Longrightarrow> bm_set bm s (k + l) v bm2"
  unfolding bm_set_def by auto

lemma same_unit: "i div 32 = j div 32 \<Longrightarrow> i mod 32 = j mod 32 \<longleftrightarrow> i = j" for i j :: nat
  by (metis mult_div_mod_eq)

lemma bitmap_set:
  assumes "s < 32 * length bm"
  shows "\<exists>bm'. bitmap_set bm s v = Some bm' \<and> bm_set bm s 1 v bm'"
proof -
  let ?u = "s div 32"
  let ?w = "if v then bm ! ?u OR bitmap_bit s else bm ! ?u AND NOT (bitmap_bit s)"
  have "bm_bit (bm[?u := ?w]) i = (if s \<le> i \<and> i < s + 1 then v else bm_bit bm i)" if "i < 32 * length bm" for i
  proof (cases "i div 32 = ?u")
    case True
    have "i = s \<longleftrightarrow> i mod 32 = s mod 32" using same_unit [OF True] by simp
    then show ?thesis using True unit_some(2) [OF assms]
      by (auto simp: bm_bit_def bit_bitmap_bit bit_or_iff bit_and_iff bit_not_iff)
  next
    case False
    then show ?thesis by (auto simp: bm_bit_def)
  qed
  then have "bm_set bm s 1 v (bm[?u := ?w])" by (simp add: bm_set_def)
  then show ?thesis using unit_some [OF assms] by (auto simp: bitmap_set_def bitmap_set1_def bitmap_set0_def)
qed

lemma set_until_aligned:
  "s + k \<le> 32 * length bm \<Longrightarrow> \<exists>bm' j. set_until_aligned bm s k v = Some (bm', s + j, k - j) \<and> j \<le> k
     \<and> bm_set bm s j v bm' \<and> (j < k \<longrightarrow> (s + j) mod 32 = 0)"
proof (induction k arbitrary: bm s)
  case 0
  show ?case using bm_set_none by (subst set_until_aligned.simps) auto
next
  case (Suc k)
  show ?case
  proof (cases "s mod 32 = 0")
    case True
    then show ?thesis using bm_set_none [of bm s v]
      by (subst set_until_aligned.simps) (auto intro!: exI [of _ bm] exI [of _ 0])
  next
    case False
    obtain bm1 where 1: "bitmap_set bm s v = Some bm1" "bm_set bm s 1 v bm1"
      using bitmap_set [of s bm v] Suc.prems by auto
    have "s + 1 + k \<le> 32 * length bm1" using 1 Suc.prems by (simp add: bm_set_def)
    from Suc.IH [OF this] obtain bm' j where 2: "set_until_aligned bm1 (s + 1) k v = Some (bm', s + 1 + j, k - j)"
      "j \<le> k" "bm_set bm1 (s + 1) j v bm'" "j < k \<longrightarrow> (s + 1 + j) mod 32 = 0" by (elim exE conjE)
    have "set_until_aligned bm s (Suc k) v = Some (bm', s + (1 + j), Suc k - (1 + j))"
      using False 1 2 by (subst set_until_aligned.simps) (simp add: add.assoc)
    moreover have "bm_set bm s (1 + j) v bm'" using bm_set_trans 1 2 by blast
    ultimately show ?thesis using 2 by (intro exI [of _ bm'] exI [of _ "1 + j"]) (simp add: add.assoc)
  qed
qed

lemma bm_set_unit:
  assumes "s mod 32 = 0" "s + 32 \<le> 32 * length bm"
  shows "bm_set bm s 32 v (bm[s div 32 := - of_bool v])"
proof -
  have "bm_bit (bm[s div 32 := - of_bool v]) i = (if s \<le> i \<and> i < s + 32 then v else bm_bit bm i)" if "i < 32 * length bm" for i
  proof -
    obtain q where q: "s = 32 * q" using assms(1) by (auto simp: mod_eq_0_iff_dvd elim: dvdE)
    have "i div 32 = q \<longleftrightarrow> 32 * q \<le> i \<and> i < 32 * q + 32" by linarith
    then have "s \<le> i \<and> i < s + 32 \<longleftrightarrow> i div 32 = s div 32" using q by simp
    moreover have "bit (- of_bool v :: u32) (i mod 32) = v" by (cases v) (simp_all add: bit_minus_1_iff)
    moreover have "s div 32 < length bm" using assms by (intro unit_some) simp
    ultimately show ?thesis by (auto simp: bm_bit_def)
  qed
  then show ?thesis by (simp add: bm_set_def)
qed

lemma set_units:
  "k \<ge> 32 \<longrightarrow> s mod 32 = 0 \<Longrightarrow> s + k \<le> 32 * length bm \<Longrightarrow> \<exists>bm'. set_units bm s k v = Some (bm', s + k div 32 * 32, k mod 32)
     \<and> bm_set bm s (k div 32 * 32) v bm'"
proof (induction k arbitrary: bm s rule: less_induct)
  case (less k)
  show ?case
  proof (cases "32 \<le> k")
    case False
    then show ?thesis using bm_set_none by (subst set_units.simps) auto
  next
    case True
    let ?b = "bm[s div 32 := - of_bool v]"
    have s: "s mod 32 = 0" "s < 32 * length bm" "s + 32 \<le> 32 * length bm" using less.prems True by auto
    have "(s + 32) mod 32 = 0" "s + 32 + (k - 32) \<le> 32 * length ?b" using s less.prems True by auto
    with less.IH [of "k - 32" "s + 32" ?b] True obtain bm' where
      "set_units ?b (s + 32) (k - 32) v = Some (bm', s + 32 + (k - 32) div 32 * 32, (k - 32) mod 32)"
      "bm_set ?b (s + 32) ((k - 32) div 32 * 32) v bm'" by auto
    moreover have "k div 32 * 32 = 32 + (k - 32) div 32 * 32" "(k - 32) mod 32 = k mod 32"
      using True by (auto simp: le_div_geq le_mod_geq)
    ultimately show ?thesis
      using True bm_set_trans [OF bm_set_unit [OF s(1,3)]] unit_some(1) [OF s(2)]
      by (subst set_units.simps) (simp add: add.assoc)
  qed
qed

lemma set_rest: "s + k \<le> 32 * length bm \<Longrightarrow> \<exists>bm'. set_rest bm s k v = Some bm' \<and> bm_set bm s k v bm'"
proof (induction k arbitrary: bm s)
  case 0
  show ?case using bm_set_none by (subst set_rest.simps) auto
next
  case (Suc k)
  obtain bm1 where 1: "bitmap_set bm s v = Some bm1" "bm_set bm s 1 v bm1"
    using bitmap_set [of s bm v] Suc.prems by auto
  have "s + 1 + k \<le> 32 * length bm1" using 1 Suc.prems by (simp add: bm_set_def)
  from Suc.IH [OF this] obtain bm' where "set_rest bm1 (s + 1) k v = Some bm'" "bm_set bm1 (s + 1) k v bm'" by blast
  then show ?case using 1 bm_set_trans [of bm s 1 v bm1 k bm'] by (subst set_rest.simps) auto
qed

lemma bitmap_set_multiple:
  assumes "s + k \<le> 32 * length bm"
  shows "\<exists>bm'. bitmap_set_multiple bm s k v = Some bm' \<and> bm_set bm s k v bm'"
proof -
  obtain bm1 j where 1: "set_until_aligned bm s k v = Some (bm1, s + j, k - j)" "j \<le> k" "bm_set bm s j v bm1"
    "j < k \<longrightarrow> (s + j) mod 32 = 0" using set_until_aligned [OF assms, of v] by (elim exE conjE)
  let ?k = "k - j"
  have len1: "length bm1 = length bm" using 1 by (simp add: bm_set_def)
  have "?k \<ge> 32 \<longrightarrow> (s + j) mod 32 = 0" "s + j + ?k \<le> 32 * length bm1" using 1 assms len1 by auto
  from set_units [OF this, of v] obtain bm2 where
    2: "set_units bm1 (s + j) ?k v = Some (bm2, s + j + ?k div 32 * 32, ?k mod 32)" "bm_set bm1 (s + j) (?k div 32 * 32) v bm2" by (elim exE conjE)
  have jk: "j + ?k div 32 * 32 + ?k mod 32 = k" using 1(2) by (simp add: add.assoc)
  then have "s + j + ?k div 32 * 32 + ?k mod 32 \<le> 32 * length bm2" using 2(2) len1 assms by (simp add: bm_set_def)
  from set_rest [OF this, of v] obtain bm3 where
    3: "set_rest bm2 (s + j + ?k div 32 * 32) (?k mod 32) v = Some bm3" "bm_set bm2 (s + j + ?k div 32 * 32) (?k mod 32) v bm3" by (elim exE conjE)
  have "bm_set bm s (j + ?k div 32 * 32) v bm2" by (rule bm_set_trans [OF 1(3) 2(2)])
  from bm_set_trans [OF this 3(2) [unfolded add.assoc [of s]]] have "bm_set bm s k v bm3" unfolding jk .
  then show ?thesis using 1 2 3 by (simp add: bitmap_set_multiple_def)
qed

section \<open>Allocation, comparison and iteration\<close>

lemma n_longs_holds: "n \<le> 32 * bitmap_n_longs n" "32 * bitmap_n_longs n < n + 32" "bitmap_n_bytes n div 4 = bitmap_n_longs n"
  unfolding bitmap_n_longs_def bitmap_n_bytes_def by simp_all

lemma bitmap_allocate:
  "length (bitmap_allocate n) = bitmap_n_longs n" "i < 32 * bitmap_n_longs n \<Longrightarrow> \<not> bm_bit (bitmap_allocate n) i"
  by (simp_all add: bitmap_allocate_def bm_bit_def n_longs_holds less_mult_imp_div_less mult.commute)

lemma length_bitmap_allocate1: "length (bitmap_allocate1 n) = bitmap_n_longs n"
  by (simp add: bitmap_allocate1_def Let_def n_longs_holds)

lemma bitmap_allocate1:
  assumes "i < 32 * bitmap_n_longs n"
  shows "bm_bit (bitmap_allocate1 n) i \<longleftrightarrow> i < n"
proof -
  let ?l = "bitmap_n_longs n"
  have i: "i div 32 < ?l" using assms by (simp add: less_mult_imp_div_less mult.commute)
  have ones: "(0xffffffff :: u32) = - 1" by simp
  have bits: "bit (push_bit k 1 - 1 :: u32) j \<longleftrightarrow> j < k" if "j < 32" for k j
  proof -
    have "push_bit k 1 - 1 = (mask k :: u32)" by (simp add: mask_eq_exp_minus_1)
    then show ?thesis using that by (simp add: bit_mask_iff)
  qed
  show ?thesis
  proof (cases "n mod 32 = 0")
    case True
    then have "?l = n div 32" using n_longs_holds(1,2) [of n] div_mult_mod_eq [of n 32] by linarith
    then have "32 * ?l = n" using True div_mult_mod_eq [of n 32] by linarith
    then show ?thesis using True i assms unfolding bitmap_allocate1_def Let_def ones
      by (simp add: bm_bit_def n_longs_holds bit_minus_1_iff)
  next
    case False
    then have l: "?l - 1 = n div 32"
      using n_longs_holds(1,2) [of n] div_mult_mod_eq [of n 32] mod_less_divisor [of 32 n] by linarith
    consider "i div 32 = n div 32" | "i div 32 < n div 32" using i l by linarith
    then show ?thesis
    proof cases
      case 1
      have "i mod 32 < n mod 32 \<longleftrightarrow> i < n" using 1 div_mult_mod_eq [of i 32] div_mult_mod_eq [of n 32] by linarith
      then show ?thesis using False i l 1 bits [of "i mod 32" "n mod 32"]
        by (simp add: bitmap_allocate1_def Let_def bm_bit_def n_longs_holds)
    next
      case 2
      then have "i < n" by (metis div_le_mono leD le_cases nat_less_le order_less_le_trans)
      then show ?thesis using False i l 2 unfolding bitmap_allocate1_def Let_def ones
        by (simp add: bm_bit_def n_longs_holds bit_minus_1_iff)
    qed
  qed
qed

lemma bitmap_clone:
  assumes "32 * bitmap_n_longs n \<le> 32 * length bm"
  shows "\<exists>bm'. bitmap_clone bm n = Some bm' \<and> length bm' = bitmap_n_longs n \<and> (\<forall>i < 32 * bitmap_n_longs n. bm_bit bm' i = bm_bit bm i)"
  using assms by (auto simp: bitmap_clone_def n_longs_holds bm_bit_def less_mult_imp_div_less mult.commute)

lemma equal_loop:
  "n \<le> 32 * length a \<Longrightarrow> n \<le> 32 * length b \<Longrightarrow> equal_loop a b i n = Some (\<forall>j. i \<le> j \<and> j < n \<longrightarrow> bm_bit a j = bm_bit b j)"
proof (induction a b i n rule: equal_loop.induct)
  case (1 a b i n)
  show ?case
  proof (cases "i < n")
    case True
    then have "bitmap_is_set a i = Some (bm_bit a i)" "bitmap_is_set b i = Some (bm_bit b i)"
      using 1 by (auto intro: bitmap_is_set)
    moreover have "(\<forall>j. i \<le> j \<and> j < n \<longrightarrow> bm_bit a j = bm_bit b j)
        \<longleftrightarrow> bm_bit a i = bm_bit b i \<and> (\<forall>j. i + 1 \<le> j \<and> j < n \<longrightarrow> bm_bit a j = bm_bit b j)"
      using True by (metis Suc_eq_plus1 Suc_leI le_eq_less_or_eq order_refl Suc_leD)
    ultimately show ?thesis using 1 True by (subst equal_loop.simps) simp
  qed (subst equal_loop.simps, auto)
qed

lemma take_equal_bits:
  assumes "k \<le> length a" "k \<le> length b"
  shows "take k a = take k b \<longleftrightarrow> (\<forall>j < k * 32. bm_bit a j = bm_bit b j)"
proof
  assume t: "take k a = take k b"
  show "\<forall>j < k * 32. bm_bit a j = bm_bit b j"
  proof (intro allI impI)
    fix j assume "j < k * 32"
    then have "j div 32 < k" by (simp add: less_mult_imp_div_less)
    then have "a ! (j div 32) = b ! (j div 32)" using t by (metis nth_take)
    then show "bm_bit a j = bm_bit b j" by (simp add: bm_bit_def)
  qed
next
  assume h: "\<forall>j < k * 32. bm_bit a j = bm_bit b j"
  have "a ! i = b ! i" if "i < k" for i
  proof (rule bit_word_eqI)
    fix m assume "m < LENGTH(32)"
    then show "bit (a ! i) m = bit (b ! i) m" using h [THEN spec, of "i * 32 + m"] that by (simp add: bm_bit_def)
  qed
  then show "take k a = take k b" using assms by (intro nth_equalityI) simp_all
qed

lemma bitmap_equal:
  assumes "n \<le> 32 * length a" "n \<le> 32 * length b"
  shows "bitmap_equal a b n = Some (\<forall>j < n. bm_bit a j = bm_bit b j)"
proof -
  let ?k = "n div 32"
  have k: "?k \<le> length a" "?k \<le> length b" "?k * 32 \<le> n" using assms by linarith+
  have "(\<forall>j < n. bm_bit a j = bm_bit b j)
      \<longleftrightarrow> (\<forall>j < ?k * 32. bm_bit a j = bm_bit b j) \<and> (\<forall>j. ?k * 32 \<le> j \<and> j < n \<longrightarrow> bm_bit a j = bm_bit b j)"
    using k(3) by (meson not_le order_less_le_trans)
  then show ?thesis unfolding bitmap_equal_def Let_def take_equal_bits [OF k(1,2)] equal_loop [OF assms]
    using k by (auto simp only: if_True split: if_split)
qed

lemma bitmap_scan:
  "e \<le> 32 * length bm \<Longrightarrow> i \<le> e \<Longrightarrow> bitmap_scan bm i e = Some (case filter (bm_bit bm) [i..<e] of [] \<Rightarrow> e | j # _ \<Rightarrow> j)"
proof (induction bm i e rule: bitmap_scan.induct)
  case (1 bm i e)
  show ?case
  proof (cases "i < e")
    case True
    then have "bitmap_is_set bm i = Some (bm_bit bm i)" using 1 by (auto intro: bitmap_is_set)
    then show ?thesis using 1 True by (subst bitmap_scan.simps) (auto simp: upt_conv_Cons)
  next
    case False
    then show ?thesis using 1 by (subst bitmap_scan.simps) simp
  qed
qed

lemma filter_upt_head:
  assumes "filter P [i..<e] = j # js"
  shows "i \<le> j \<and> j < e \<and> js = filter P [j + 1..<e]"
  using assms
proof (induction "e - i" arbitrary: i)
  case (Suc k)
  then have "[i..<e] = i # [i + 1..<e]" by (simp add: upt_conv_Cons)
  moreover have "k = e - (i + 1)" "i < e" using Suc.hyps(2) by simp_all
  ultimately show ?case using Suc.hyps(1) [of "i + 1"] Suc.prems by (auto split: if_splits)
qed simp

lemma for_each_1_loop:
  assumes "n \<le> 32 * length bm"
  shows "i \<le> n \<Longrightarrow> for_each_1_loop bm n (case filter (bm_bit bm) [i..<n] of [] \<Rightarrow> n | j # _ \<Rightarrow> j) = Some (filter (bm_bit bm) [i..<n])"
proof (induction "n - i" arbitrary: i rule: less_induct)
  case less
  show ?case
  proof (cases "filter (bm_bit bm) [i..<n]")
    case Nil
    then show ?thesis by (simp add: for_each_1_loop.simps)
  next
    case (Cons j js)
    note j = filter_upt_head [OF Cons]
    have "for_each_1_loop bm n (case filter (bm_bit bm) [j + 1..<n] of [] \<Rightarrow> n | j # _ \<Rightarrow> j) = Some (filter (bm_bit bm) [j + 1..<n])"
      using less j by (intro less) auto
    moreover have "bitmap_scan bm (j + 1) n = Some (case filter (bm_bit bm) [j + 1..<n] of [] \<Rightarrow> n | j # _ \<Rightarrow> j)"
      using j assms by (intro bitmap_scan) auto
    ultimately show ?thesis using Cons j by (simp add: for_each_1_loop.simps [of bm n j])
  qed
qed

lemma bitmap_for_each_1: "n \<le> 32 * length bm \<Longrightarrow> bitmap_for_each_1 bm n = Some (filter (bm_bit bm) [0..<n])"
  by (simp add: bitmap_for_each_1_def bitmap_scan for_each_1_loop)

lemma bit_u32_less: "bit (w :: u32) j \<Longrightarrow> j < 32"
  using bit_imp_le_length [of w j] by simp

lemma popcount_ucast: "popcount (ucast (w :: u32) :: u64) = popcount w"
  unfolding popcount_card by (rule arg_cong [where f = card]) (use bit_u32_less [of w] in \<open>fastforce simp: bit_ucast_iff\<close>)

lemma card_units: "card {i. i < 32 * k \<and> bm_bit bm i} = (\<Sum>u < k. popcount (bm ! u))"
proof (induction k)
  case (Suc k)
  have "x \<in> {i. i < 32 * Suc k \<and> bm_bit bm i}
      \<longleftrightarrow> x \<in> {i. i < 32 * k \<and> bm_bit bm i} \<union> (\<lambda>j. 32 * k + j) ` {j. j < 32 \<and> bit (bm ! k) j}" for x
  proof (cases "x < 32 * k")
    case False
    then obtain j where "x = 32 * k + j" by (metis le_iff_add not_less)
    then show ?thesis by (cases "j < 32") (auto simp: bm_bit_def image_iff)
  qed auto
  then have "{i. i < 32 * Suc k \<and> bm_bit bm i} = {i. i < 32 * k \<and> bm_bit bm i} \<union> (\<lambda>j. 32 * k + j) ` {j. j < 32 \<and> bit (bm ! k) j}"
    by (rule set_eqI)
  moreover have "{j. j < 32 \<and> bit (bm ! k) j} = {j. bit (bm ! k) j}" by (auto dest: bit_u32_less)
  moreover have "card ((\<lambda>j. 32 * k + j) ` {j. bit (bm ! k) j}) = popcount (bm ! k)"
    by (simp add: card_image inj_on_def popcount_card)
  moreover have "finite {j. bit (bm ! k) j}" by (rule finite_subset [of _ "{..< 32}"]) (auto dest: bit_u32_less)
  moreover have "{i. i < 32 * k \<and> bm_bit bm i} \<inter> (\<lambda>j. 32 * k + j) ` {j. bit (bm ! k) j} = {}" by auto
  ultimately show ?case using Suc by (simp add: card_Un_disjoint)
qed simp

lemma bitmap_count1:
  assumes "bitmap_n_longs n \<le> length bm"
  shows "bitmap_count1 bm n = Some (card {i. i < 32 * bitmap_n_longs n \<and> bm_bit bm i})"
proof -
  have "foldl (\<lambda>c w. c + count_1bits (ucast w)) a ws = a + sum_list (map popcount ws)" for a and ws :: bitmap
    by (induction ws arbitrary: a) (simp_all add: count_1bits popcount_ucast)
  moreover have "sum_list (map popcount (take k bm)) = (\<Sum>u < k. popcount (bm ! u))" if "k \<le> length bm" for k
    using that by (simp add: sum_list_sum_nth atLeast0LessThan)
  ultimately show ?thesis using assms by (simp add: bitmap_count1_def Let_def card_units)
qed

section \<open>Sets of VLANs\<close>

lemma vlan_from_array0:
  assumes "4096 \<le> 32 * length b"
  shows "\<exists>b' m. vlan_bitmap_from_array0 vs b n = Some (n + int m, b') \<and> length b' = length b
     \<and> (\<forall>i < 32 * length b. bm_bit b' i \<longleftrightarrow> bm_bit b i \<or> i < 4096 \<and> int i \<in> set vs)
     \<and> m = card {i. i < 4096 \<and> int i \<in> set vs \<and> \<not> bm_bit b i}"
  using assms
proof (induction vs arbitrary: b n)
  case Nil
  then show ?case by simp
next
  case (Cons v vs)
  show ?case
  proof (cases "0 \<le> v \<and> v < 4096 \<and> \<not> bm_bit b (nat v)")
    case True
    have len: "nat v < 32 * length b" using True Cons.prems by linarith
    obtain b1 where b1: "bitmap_set1 b (nat v) = Some b1" "bm_set b (nat v) 1 True b1"
      using bitmap_set [OF len, of True] by (auto simp: bitmap_set_def)
    have len1: "length b1 = length b" using b1 by (simp add: bm_set_def)
    have bits1: "bm_bit b1 i \<longleftrightarrow> bm_bit b i \<or> i = nat v" if "i < 32 * length b" for i
      using b1(2) that by (auto simp: bm_set_def)
    obtain b' m where IH: "vlan_bitmap_from_array0 vs b1 (n + 1) = Some (n + 1 + int m, b')" "length b' = length b1"
      "\<forall>i < 32 * length b1. bm_bit b' i \<longleftrightarrow> bm_bit b1 i \<or> i < 4096 \<and> int i \<in> set vs"
      "m = card {i. i < 4096 \<and> int i \<in> set vs \<and> \<not> bm_bit b1 i}"
      using Cons.IH [of b1 "n + 1"] Cons.prems len1 by auto
    have "{i. i < 4096 \<and> int i \<in> set (v # vs) \<and> \<not> bm_bit b i} = insert (nat v) {i. i < 4096 \<and> int i \<in> set vs \<and> \<not> bm_bit b1 i}"
      using True bits1 Cons.prems by auto
    moreover have "nat v \<notin> {i. i < 4096 \<and> int i \<in> set vs \<and> \<not> bm_bit b1 i}" using bits1 len by simp
    ultimately have "card {i. i < 4096 \<and> int i \<in> set (v # vs) \<and> \<not> bm_bit b i} = Suc m" by (simp add: IH(4))
    moreover have "bm_bit b' i \<longleftrightarrow> bm_bit b i \<or> i < 4096 \<and> int i \<in> set (v # vs)" if "i < 32 * length b" for i
      using IH(3) bits1 [OF that] len1 that True by auto
    ultimately show ?thesis using True b1 IH(1,2) len1 bitmap_is_set [OF len]
      by (intro exI [of _ b'] exI [of _ "Suc m"]) (simp add: algebra_simps)
  next
    case False
    have "int i = v \<Longrightarrow> i < 4096 \<Longrightarrow> bm_bit b i" for i using False by auto
    then have "{i. i < 4096 \<and> int i \<in> set (v # vs) \<and> \<not> bm_bit b i} = {i. i < 4096 \<and> int i \<in> set vs \<and> \<not> bm_bit b i}"
      "bm_bit b i \<or> i < 4096 \<and> int i \<in> set (v # vs) \<longleftrightarrow> bm_bit b i \<or> i < 4096 \<and> int i \<in> set vs" for i by auto
    moreover have "vlan_bitmap_from_array0 (v # vs) b n = vlan_bitmap_from_array0 vs b n"
      using False Cons.prems bitmap_is_set [of "nat v" b] by auto
    ultimately show ?thesis using Cons.IH [OF Cons.prems] by presburger
  qed
qed

lemma n_longs_4096: "bitmap_n_longs 4096 = 128"
  by (simp add: bitmap_n_longs_def)

lemma vlan_bitmap_from_array:
  "if {i. i < 4096 \<and> int i \<in> set vs} = {} then vlan_bitmap_from_array vs = Some None
   else \<exists>b. vlan_bitmap_from_array vs = Some (Some b) \<and> length b = 128 \<and> (\<forall>i < 4096. bm_bit b i \<longleftrightarrow> int i \<in> set vs)"
proof -
  let ?b = "bitmap_allocate 4096"
  have b: "length ?b = 128" "\<And>i. i < 4096 \<Longrightarrow> \<not> bm_bit ?b i"
    using bitmap_allocate [where n = 4096] by (simp_all add: n_longs_4096)
  then obtain b' m where v: "vlan_bitmap_from_array0 vs ?b 0 = Some (0 + int m, b')" "length b' = length ?b"
     "\<forall>i < 32 * length ?b. bm_bit b' i \<longleftrightarrow> bm_bit ?b i \<or> i < 4096 \<and> int i \<in> set vs"
     "m = card {i. i < 4096 \<and> int i \<in> set vs \<and> \<not> bm_bit ?b i}" using vlan_from_array0 [of ?b vs 0] by auto
  have "{i. i < 4096 \<and> int i \<in> set vs \<and> \<not> bm_bit ?b i} = {i. i < 4096 \<and> int i \<in> set vs}" using b by auto
  then have "m = 0 \<longleftrightarrow> {i. i < 4096 \<and> int i \<in> set vs} = {}" using v(4) by auto
  then show ?thesis using v(1-3) b by (auto simp: vlan_bitmap_from_array_def)
qed

text \<open>The bitmap of a set of VLANs, and the sets that a pointer stands for.\<close>

definition vlan_bitmap_ok :: "bitmap option \<Rightarrow> bool" where
  "vlan_bitmap_ok v \<longleftrightarrow> (case v of None \<Rightarrow> True | Some b \<Rightarrow> length b = 128)"

lemma vlan_bitmap_equal:
  assumes "vlan_bitmap_ok a" "vlan_bitmap_ok b"
  shows "vlan_bitmap_equal a b = Some (a = b)"
proof -
  have "(\<forall>j < 4096. bm_bit x j = bm_bit y j) \<longleftrightarrow> x = y" if "length x = 128" "length y = 128" for x y
    using take_equal_bits [of 128 x y] that by simp
  then show ?thesis using assms by (auto simp: vlan_bitmap_equal_def vlan_bitmap_ok_def bitmap_equal split: option.splits)
qed

lemma vlan_bitmap_clone: "vlan_bitmap_ok a \<Longrightarrow> vlan_bitmap_clone a = Some a"
  by (auto simp: vlan_bitmap_clone_def vlan_bitmap_ok_def bitmap_clone_def n_longs_holds n_longs_4096 split: option.splits)

section \<open>Properties\<close>

text \<open>
  C34.  Reading a bit after \<^verbatim>\<open>bitmap_set_multiple\<close>, whose three loops write single bits up to an
  element boundary, whole elements, and single bits again: a bit of the range has the value that was
  written and every other bit of the array the one it had before, and no access leaves the array.
\<close>

theorem bitmap_set_multiple_reads:
  assumes "s + k \<le> 32 * length bm" "i < 32 * length bm"
  shows "Option.bind (bitmap_set_multiple bm s k v) (\<lambda>b. bitmap_is_set b i)
    = (if s \<le> i \<and> i < s + k then Some v else bitmap_is_set bm i)"
  using bitmap_set_multiple [OF assms(1), of v] assms(2) by (auto simp: bm_set_def bitmap_is_set)

theorem bitmap_set_multiple_reads_witness:
  "Option.bind (bitmap_set_multiple [0xF0F0F0F0, 1, 2, 3] 30 70 True) (\<lambda>b. bitmap_is_set b 99) = Some True
    \<and> Option.bind (bitmap_set_multiple [0xF0F0F0F0, 1, 2, 3] 30 70 True) (\<lambda>b. bitmap_is_set b 100) = bitmap_is_set [0xF0F0F0F0, 1, 2, 3] 100"
  using bitmap_set_multiple_reads [of 30 70 "[0xF0F0F0F0, 1, 2, 3]" 99 True]
    bitmap_set_multiple_reads [of 30 70 "[0xF0F0F0F0, 1, 2, 3]" 100 True] by simp_all

text \<open>
  C35.  Building a VLAN bitmap from the numbers of a configuration and walking over it with
  \<^verbatim>\<open>BITMAP_FOR_EACH_1\<close> gives the VLANs among those numbers, each once and in increasing order:
  duplicates and numbers that are no VLAN are dropped, and an array without a VLAN is the null pointer.
\<close>

theorem vlan_bitmap_members:
  "Option.bind (vlan_bitmap_from_array vs) (\<lambda>v. case v of None \<Rightarrow> Some [] | Some b \<Rightarrow> bitmap_for_each_1 b 4096)
    = Some (filter (\<lambda>i. int i \<in> set vs) [0..<4096])"
proof (cases "{i. i < 4096 \<and> int i \<in> set vs} = {}")
  case True
  then have "filter (\<lambda>i. int i \<in> set vs) [0..<4096] = []" by (auto simp: filter_empty_conv)
  then show ?thesis using vlan_bitmap_from_array [of vs] True by simp
next
  case False
  obtain b where b: "vlan_bitmap_from_array vs = Some (Some b)" "length b = 128"
    "\<forall>i < 4096. bm_bit b i \<longleftrightarrow> int i \<in> set vs"
    using vlan_bitmap_from_array [of vs, unfolded if_not_P [OF False]] by (elim exE conjE)
  have "filter (bm_bit b) [0..<4096] = filter (\<lambda>i. int i \<in> set vs) [0..<4096]"
    by (rule filter_cong) (use b(3) in \<open>auto simp del: upt_Suc\<close>)
  then show ?thesis using b bitmap_for_each_1 [of 4096 b] by simp
qed

end
