(* ===== verification/Ovs_Mac_Learning.thy ===== *)
theory Ovs_Mac_Learning
  imports Ovs_Hash Ovs_Keyed Ovs_List Ovs_Bitmap C_Int
begin

text \<open>
  The MAC learning table of \<^verbatim>\<open>lib/mac-learning.c\<close> and \<^verbatim>\<open>lib/mac-learning.h\<close>: a hash map of
  entries and a doubly linked list of the same entries in the order of their last use.

  An entry, its \<^verbatim>\<open>hmap_node\<close> and its \<^verbatim>\<open>lru_node\<close> have one address (\<^verbatim>\<open>CONTAINER_OF\<close> is the identity), and the
  entries in memory are the nodes of the table.  \<^verbatim>\<open>time_t\<close> has 32 bits; \<open>now\<close> is what \<^verbatim>\<open>time_now()\<close> returns
  during a call.  Locks and coverage counters are left out.
\<close>

section \<open>Data\<close>

record mac_entry =
  me_expires :: int
  me_grat_arp_lock :: int
  me_mac :: "u8 list"
  me_vlan :: u16
  me_port :: addr

record mac_learning =
  ml_table :: "mac_entry hmap"
  ml_lrus :: addr
  ml_store :: lmem
  ml_secret :: u32
  ml_flood_vlans :: "bitmap option"
  ml_idle_time :: u32
  ml_max_entries :: size_t
  ml_ref_cnt :: u32
  ml_need_revalidate :: bool

abbreviation TIME_MIN :: int where "TIME_MIN \<equiv> - 2147483648"

text \<open>The entry at an address, and an assignment to its members.\<close>

definition entry_at :: "mac_learning \<Rightarrow> addr \<Rightarrow> mac_entry hmap_node option" where
  "entry_at ml a = find (\<lambda>nd. hn_addr nd = a) (hmap_nodes (ml_table ml))"

definition put_entry :: "mac_learning \<Rightarrow> addr \<Rightarrow> (mac_entry \<Rightarrow> mac_entry) \<Rightarrow> mac_learning" where
  "put_entry ml a f = ml\<lparr>ml_table := hmap_put a (\<lambda>nd. nd\<lparr>hn_data := f (hn_data nd)\<rparr>) (ml_table ml)\<rparr>"

section \<open>Operations\<close>

definition mac_entry_set_grat_arp_lock :: "int \<Rightarrow> mac_entry \<Rightarrow> mac_entry option" where
  "mac_entry_set_grat_arp_lock now mac = do { t \<leftarrow> c_int (now + 5); Some (mac\<lparr>me_grat_arp_lock := t\<rparr>) }"

definition mac_entry_is_grat_arp_locked :: "int \<Rightarrow> mac_entry \<Rightarrow> bool" where
  "mac_entry_is_grat_arp_locked now mac \<longleftrightarrow> now < me_grat_arp_lock mac"

text \<open>The difference of an \<^verbatim>\<open>unsigned int\<close> and a \<^verbatim>\<open>time_t\<close> wraps around; converted to \<^verbatim>\<open>int\<close> it is signed.\<close>

definition mac_entry_age :: "int \<Rightarrow> mac_learning \<Rightarrow> mac_entry \<Rightarrow> int option" where
  "mac_entry_age now ml e = do {
     remaining \<leftarrow> c_int (me_expires e - now);
     Some (sint (ml_idle_time ml - word_of_int remaining))
   }"

text \<open>\<^verbatim>\<open>vlan << 16\<close> shifts an \<^verbatim>\<open>int\<close>; for VLANs from \<open>2 ^ 15\<close> on gcc, the compiler of the build, defines it to keep the bits.\<close>

definition mac_table_hash :: "u32 \<Rightarrow> u8 list \<Rightarrow> u16 \<Rightarrow> u32" where
  "mac_table_hash secret mac vlan =
     (let mac1 = le_word (take 4 mac);
          mac2 = le_word (take 2 (drop 4 mac))
      in hash_3words mac1 (mac2 OR push_bit 16 (ucast vlan)) secret)"

definition eth_addr_equals :: "u8 list \<Rightarrow> u8 list \<Rightarrow> bool" where
  "eth_addr_equals a b \<longleftrightarrow> take 6 a = take 6 b"

definition eth_addr_is_multicast :: "u8 list \<Rightarrow> bool" where
  "eth_addr_is_multicast ea \<longleftrightarrow> ea ! 0 AND 1 \<noteq> 0"

definition mac_entry_lookup :: "mac_learning \<Rightarrow> u8 list \<Rightarrow> u16 \<Rightarrow> mac_entry hmap_node option" where
  "mac_entry_lookup ml mac vlan =
     hmap_for_each_with_hash (\<lambda>e. me_vlan (hn_data e) = vlan \<and> eth_addr_equals (me_mac (hn_data e)) mac)
       (mac_table_hash (ml_secret ml) mac vlan) (ml_table ml)"

definition get_lru :: "mac_learning \<Rightarrow> addr option" where
  "get_lru ml =
     (if \<not> list_is_empty (ml_lrus ml) (ml_store ml) then Some (l_next (ml_store ml) (ml_lrus ml)) else None)"

definition normalize_idle_time :: "u32 \<Rightarrow> u32" where
  "normalize_idle_time idle_time = (if idle_time < 15 then 15 else if idle_time > 3600 then 3600 else idle_time)"

text \<open>\<open>lrus\<close> is the address of the new table's list head and \<open>secret\<close> what \<^verbatim>\<open>random_uint32\<close> returns.\<close>

definition mac_learning_create :: "addr \<Rightarrow> lmem \<Rightarrow> u32 \<Rightarrow> u32 \<Rightarrow> mac_learning" where
  "mac_learning_create lrus store secret idle_time =
     \<lparr>ml_table = hmap_init, ml_lrus = lrus, ml_store = list_init lrus store, ml_secret = secret, ml_flood_vlans = None,
      ml_idle_time = normalize_idle_time idle_time, ml_max_entries = 2048, ml_ref_cnt = 1, ml_need_revalidate = False\<rparr>"

text \<open>A null pointer is \<open>None\<close>.\<close>

definition mac_learning_ref :: "mac_learning option \<Rightarrow> mac_learning option option" where
  "mac_learning_ref mlp =
     (case mlp of
        None \<Rightarrow> Some None
      | Some ml \<Rightarrow>
          let orig = ml_ref_cnt ml; ml = ml\<lparr>ml_ref_cnt := ml_ref_cnt ml + 1\<rparr>
          in if 0 < sint orig then Some (Some ml) else None)"

text \<open>The result is \<open>Some None\<close> when the table has been freed, or the pointer was null.\<close>

definition mac_learning_unref :: "mac_learning option \<Rightarrow> mac_learning option option" where
  "mac_learning_unref mlp =
     (case mlp of
        None \<Rightarrow> Some None
      | Some ml \<Rightarrow>
          let orig = ml_ref_cnt ml; ml = ml\<lparr>ml_ref_cnt := ml_ref_cnt ml - 1\<rparr>
          in if \<not> 0 < sint orig then None
             else if orig = 1 then do { table \<leftarrow> hmap_remove_each (ml_table ml); Some None }
             else Some (Some ml))"

definition mac_learning_set_flood_vlans :: "mac_learning \<Rightarrow> bitmap option \<Rightarrow> (bool \<times> mac_learning) option" where
  "mac_learning_set_flood_vlans ml bitmap = do {
     eq \<leftarrow> vlan_bitmap_equal (ml_flood_vlans ml) bitmap;
     if eq then Some (False, ml)
     else do { v \<leftarrow> vlan_bitmap_clone bitmap; Some (True, ml\<lparr>ml_flood_vlans := v\<rparr>) }
   }"

partial_function (option) set_idle_time_loop :: "int \<Rightarrow> mac_learning \<Rightarrow> addr \<Rightarrow> mac_learning option" where
  "set_idle_time_loop delta ml e =
     (if e \<noteq> ml_lrus ml then do {
        nd \<leftarrow> entry_at ml e;
        expires \<leftarrow> c_int (me_expires (hn_data nd) + delta);
        let ml = put_entry ml e (\<lambda>d. d\<lparr>me_expires := expires\<rparr>);
        set_idle_time_loop delta ml (l_next (ml_store ml) e)
      } else Some ml)"

definition mac_learning_set_idle_time :: "mac_learning \<Rightarrow> u32 \<Rightarrow> mac_learning option" where
  "mac_learning_set_idle_time ml idle_time =
     (let idle_time = normalize_idle_time idle_time
      in if idle_time \<noteq> ml_idle_time ml then do {
           delta \<leftarrow> c_int (sint idle_time - sint (ml_idle_time ml));
           ml \<leftarrow> set_idle_time_loop delta ml (l_next (ml_store ml) (ml_lrus ml));
           Some (ml\<lparr>ml_idle_time := idle_time\<rparr>)
         } else Some ml)"

definition mac_learning_set_max_entries :: "mac_learning \<Rightarrow> size_t \<Rightarrow> mac_learning" where
  "mac_learning_set_max_entries ml max_entries =
     ml\<lparr>ml_max_entries := if max_entries < 10 then 10 else if max_entries > 1000 * 1000 then 1000 * 1000 else max_entries\<rparr>"

definition is_learning_vlan :: "mac_learning \<Rightarrow> u16 \<Rightarrow> bool option" where
  "is_learning_vlan ml vlan =
     (case ml_flood_vlans ml of None \<Rightarrow> Some True | Some b \<Rightarrow> map_option Not (bitmap_is_set b (unat vlan)))"

definition mac_learning_may_learn :: "mac_learning option \<Rightarrow> u8 list \<Rightarrow> u16 \<Rightarrow> bool option" where
  "mac_learning_may_learn mlp src_mac vlan =
     (case mlp of
        None \<Rightarrow> Some False
      | Some ml \<Rightarrow> do { x \<leftarrow> is_learning_vlan ml vlan; Some (x \<and> \<not> eth_addr_is_multicast src_mac) })"

definition mac_learning_expire :: "mac_learning \<Rightarrow> addr \<Rightarrow> mac_learning option" where
  "mac_learning_expire ml e = do {
     nd \<leftarrow> entry_at ml e;
     table \<leftarrow> hmap_remove (ml_table ml) nd;
     Some (ml\<lparr>ml_table := table, ml_store := snd (list_remove e (ml_store ml))\<rparr>)
   }"

text \<open>The part of \<^verbatim>\<open>mac_learning_insert\<close> that makes room in a full table.\<close>

definition mac_make_room :: "mac_learning \<Rightarrow> mac_learning option" where
  "mac_make_room ml =
     (if hmap_count (ml_table ml) \<ge> ml_max_entries ml
      then do { e \<leftarrow> get_lru ml; mac_learning_expire ml e } else Some ml)"

text \<open>\<open>a\<close> is the address that \<^verbatim>\<open>xmalloc\<close> returns for a new entry; the result is the entry's address.\<close>

definition mac_learning_insert :: "int \<Rightarrow> addr \<Rightarrow> mac_learning \<Rightarrow> u8 list \<Rightarrow> u16 \<Rightarrow> (addr \<times> mac_learning) option" where
  "mac_learning_insert now a ml src_mac vlan = do {
     (e, ml) \<leftarrow>
       (case mac_entry_lookup ml src_mac vlan of
          None \<Rightarrow> do {
            let hash = mac_table_hash (ml_secret ml) src_mac vlan;
            ml \<leftarrow> mac_make_room ml;
            let entry = \<lparr>me_expires = 0, me_grat_arp_lock = TIME_MIN, me_mac = take 6 src_mac, me_vlan = vlan, me_port = 0\<rparr>;
            table \<leftarrow> hmap_insert_at (ml_table ml) \<lparr>hn_addr = a, hn_hash = 0, hn_data = entry\<rparr> hash;
            Some (a, ml\<lparr>ml_table := table\<rparr>)
          }
        | Some nd \<Rightarrow> Some (hn_addr nd, ml\<lparr>ml_store := snd (list_remove (hn_addr nd) (ml_store ml))\<rparr>));
     let ml = ml\<lparr>ml_store := list_push_back (ml_lrus ml) e (ml_store ml)\<rparr>;
     let ml = put_entry ml e (\<lambda>d. d\<lparr>me_expires := sint (word_of_int now + ml_idle_time ml)\<rparr>);
     Some (e, ml)
   }"

definition mac_learning_changed :: "mac_learning \<Rightarrow> mac_learning" where
  "mac_learning_changed ml = ml\<lparr>ml_need_revalidate := True\<rparr>"

definition mac_learning_lookup :: "mac_learning \<Rightarrow> u8 list \<Rightarrow> u16 \<Rightarrow> mac_entry hmap_node option option" where
  "mac_learning_lookup ml dst vlan =
     (if eth_addr_is_multicast dst then Some None
      else do {
        learning \<leftarrow> is_learning_vlan ml vlan;
        if \<not> learning then Some None
        else let e = mac_entry_lookup ml dst vlan
             in case e of None \<Rightarrow> Some None | Some nd \<Rightarrow> if me_port (hn_data nd) \<noteq> 0 then Some e else None
      })"

partial_function (option) flush_loop :: "mac_learning \<Rightarrow> mac_learning option" where
  "flush_loop ml =
     (case get_lru ml of
        None \<Rightarrow> Some ml
      | Some e \<Rightarrow> do { ml \<leftarrow> mac_learning_expire (ml\<lparr>ml_need_revalidate := True\<rparr>) e; flush_loop ml })"

definition mac_learning_flush :: "mac_learning \<Rightarrow> mac_learning option" where
  "mac_learning_flush ml = do {
     ml \<leftarrow> flush_loop ml;
     table \<leftarrow> hmap_shrink_at (ml_table ml);
     Some (ml\<lparr>ml_table := table\<rparr>)
   }"

partial_function (option) run_loop :: "int \<Rightarrow> mac_learning \<Rightarrow> mac_learning option" where
  "run_loop now ml =
     (case get_lru ml of
        None \<Rightarrow> Some ml
      | Some e \<Rightarrow> do {
          nd \<leftarrow> entry_at ml e;
          if hmap_count (ml_table ml) > ml_max_entries ml \<or> now \<ge> me_expires (hn_data nd)
          then do { ml \<leftarrow> mac_learning_expire (ml\<lparr>ml_need_revalidate := True\<rparr>) e; run_loop now ml }
          else Some ml
        })"

definition mac_learning_run :: "int \<Rightarrow> mac_learning \<Rightarrow> (bool \<times> mac_learning) option" where
  "mac_learning_run now ml = do {
     ml \<leftarrow> run_loop now ml;
     Some (ml_need_revalidate ml, ml\<lparr>ml_need_revalidate := False\<rparr>)
   }"

text \<open>What \<^verbatim>\<open>mac_learning_wait\<close> asks the poll loop for.\<close>

datatype mac_wake = Wake_Immediate | Wake_At int | Wake_None

definition mac_learning_wait :: "mac_learning \<Rightarrow> mac_wake option" where
  "mac_learning_wait ml =
     (if hmap_count (ml_table ml) > ml_max_entries ml \<or> ml_need_revalidate ml then Some Wake_Immediate
      else if \<not> list_is_empty (ml_lrus ml) (ml_store ml) then do {
        nd \<leftarrow> entry_at ml (l_next (ml_store ml) (ml_lrus ml));
        t \<leftarrow> c_ll (me_expires (hn_data nd) * 1000);
        Some (Wake_At t)
      } else Some Wake_None)"

declare set_idle_time_loop.simps [code] flush_loop.simps [code] run_loop.simps [code]

section \<open>The table and the list hold the same entries\<close>

abbreviation mac_key :: "mac_entry \<Rightarrow> u8 list \<times> u16" where
  "mac_key e \<equiv> (me_mac e, me_vlan e)"

abbreviation mac_key_ok :: "u8 list \<times> u16 \<Rightarrow> bool" where
  "mac_key_ok k \<equiv> length (fst k) = 6"

abbreviation mac_key_hash :: "u32 \<Rightarrow> u8 list \<times> u16 \<Rightarrow> u32" where
  "mac_key_hash secret k \<equiv> mac_table_hash secret (fst k) (snd k)"

definition node_entry :: "mac_entry hmap_node \<Rightarrow> addr \<times> mac_entry" where
  "node_entry nd = (hn_addr nd, hn_data nd)"

text \<open>\<open>es\<close> are the entries with their addresses, the least recently used first.\<close>

definition mac_rep :: "mac_learning \<Rightarrow> (addr \<times> mac_entry) list \<Rightarrow> bool" where
  "mac_rep ml es \<longleftrightarrow>
     keyed_by (mac_key_hash (ml_secret ml)) mac_key_ok mac_key (ml_table ml)
     \<and> mset (map node_entry (hmap_nodes (ml_table ml))) = mset es
     \<and> distinct (map (mac_key \<circ> snd) es)
     \<and> is_list (ml_store ml) (ml_lrus ml) (map fst es)"

lemma rep_table:
  assumes "mac_rep ml es"
  shows "hmap_wf (ml_table ml)" "length (hmap_nodes (ml_table ml)) = length es"
    "node_entry ` set (hmap_nodes (ml_table ml)) = set es"
    "hm_n (ml_table ml) = of_nat (length es)" "addrs (ml_table ml) = fst ` set es"
    "dict_by (mac_key_hash (ml_secret ml)) mac_key_ok mac_key (ml_table ml)"
proof -
  have m: "mset (map node_entry (hmap_nodes (ml_table ml))) = mset es" using assms by (simp add: mac_rep_def)
  show wf: "hmap_wf (ml_table ml)" using assms by (simp add: mac_rep_def keyed_by_def)
  show len: "length (hmap_nodes (ml_table ml)) = length es" using mset_eq_length [OF m] by simp
  show s: "node_entry ` set (hmap_nodes (ml_table ml)) = set es" using mset_eq_setD [OF m] by simp
  show "hm_n (ml_table ml) = of_nat (length es)" using wf len by (simp add: hmap_wf_def)
  show "addrs (ml_table ml) = fst ` set es" unfolding s [symmetric] by (force simp: node_entry_def)
  have "mset (map (mac_key \<circ> snd) es) = mset (map (key_of mac_key) (hmap_nodes (ml_table ml)))"
    using m [symmetric] by (simp add: multiset.map_comp comp_def node_entry_def)
  then have "distinct (map (key_of mac_key) (hmap_nodes (ml_table ml)))"
    using assms mset_eq_imp_distinct_iff unfolding mac_rep_def by blast
  then show "dict_by (mac_key_hash (ml_secret ml)) mac_key_ok mac_key (ml_table ml)"
    using assms by (simp add: dict_by_def mac_rep_def)
qed

lemma rep_list:
  assumes "mac_rep ml es"
  shows "is_list (ml_store ml) (ml_lrus ml) (map fst es)" "distinct (map fst es)" "ml_lrus ml \<notin> fst ` set es"
    "distinct (map (mac_key \<circ> snd) es)"
  using assms by (auto simp: mac_rep_def is_list_def)

lemma rep_node:
  assumes "mac_rep ml es" "(a, e) \<in> set es"
  obtains nd where "nd \<in> set (hmap_nodes (ml_table ml))" "hn_addr nd = a" "hn_data nd = e" "entry_at ml a = Some nd"
proof -
  from assms rep_table(3) [OF assms(1)] obtain nd where nd: "nd \<in> set (hmap_nodes (ml_table ml))" "node_entry nd = (a, e)" by force
  then have a: "hn_addr nd = a" "hn_data nd = e" by (simp_all add: node_entry_def)
  have "entry_at ml a = Some nd"
  proof (cases "entry_at ml a")
    case None
    then show ?thesis using nd a by (auto simp: entry_at_def find_None_iff)
  next
    case (Some x)
    then have "x \<in> set (hmap_nodes (ml_table ml))" "hn_addr x = a" by (auto simp: entry_at_def find_Some_iff)
    then show ?thesis using Some nd(1) a hmap_addr_eq [OF rep_table(1) [OF assms(1)]] by metis
  qed
  then show thesis using that nd a by blast
qed

lemma rep_lru: "mac_rep ml es \<Longrightarrow> get_lru ml = (case es of [] \<Rightarrow> None | (a, _) # _ \<Rightarrow> Some a)"
  using is_list_front [OF rep_list(1), of ml es]
  by (auto simp: get_lru_def list_front_def split: list.splits if_splits)

lemma rep_count: "mac_rep ml es \<Longrightarrow> length es \<le> 1000000 \<Longrightarrow> unat (hmap_count (ml_table ml)) = length es"
  by (simp add: hmap_count_def rep_table unat_of_nat)

lemma key_unique:
  "mac_rep ml es \<Longrightarrow> (a, e) \<in> set es \<Longrightarrow> (b, f) \<in> set es \<Longrightarrow> mac_key e = mac_key f \<Longrightarrow> a = b \<and> e = f"
  using rep_list(4) [of ml es] by (force simp: distinct_map inj_on_def)

lemma rep_mem: "mac_rep ml es \<Longrightarrow> (a, e) \<in> set es \<longleftrightarrow> (\<exists>nd \<in> set (hmap_nodes (ml_table ml)). hn_addr nd = a \<and> hn_data nd = e)"
  by (subst rep_table(3) [symmetric]) (auto simp: node_entry_def)

lemma rep_lookup:
  assumes "mac_rep ml es" "length mac = 6"
  shows "(\<exists>nd. mac_entry_lookup ml mac vlan = Some nd \<and> hn_addr nd = a \<and> hn_data nd = e) \<longleftrightarrow> (a, e) \<in> set es \<and> mac_key e = (mac, vlan)"
    "mac_entry_lookup ml mac vlan = None \<longleftrightarrow> (mac, vlan) \<notin> (mac_key \<circ> snd) ` set es"
proof -
  let ?h = "ml_table ml"
  have "\<forall>nd \<in> set (hmap_nodes ?h). length (me_mac (hn_data nd)) = 6"
    using assms(1) by (simp add: mac_rep_def keyed_by_def)
  then have "\<forall>nd \<in> set (hmap_nodes ?h). (me_vlan (hn_data nd) = vlan \<and> eth_addr_equals (me_mac (hn_data nd)) mac) \<longleftrightarrow> key_of mac_key nd = (mac, vlan)"
    using assms(2) by (auto simp: eth_addr_equals_def)
  note s = dict_search(1) [OF rep_table(6) [OF assms(1)] this, simplified fst_conv snd_conv, folded mac_entry_lookup_def]
  show *: "(\<exists>nd. mac_entry_lookup ml mac vlan = Some nd \<and> hn_addr nd = a \<and> hn_data nd = e) \<longleftrightarrow> (a, e) \<in> set es \<and> mac_key e = (mac, vlan)" for a e
    unfolding s rep_mem [OF assms(1)] by auto
  show "mac_entry_lookup ml mac vlan = None \<longleftrightarrow> (mac, vlan) \<notin> (mac_key \<circ> snd) ` set es"
    using * by (cases "mac_entry_lookup ml mac vlan") force+
qed

section \<open>What the operations do to the sequence of entries\<close>

text \<open>Two tables that differ in settings only.\<close>

abbreviation same_settings :: "mac_learning \<Rightarrow> mac_learning \<Rightarrow> bool" where
  "same_settings ml ml' \<equiv> ml' = ml\<lparr>ml_table := ml_table ml', ml_store := ml_store ml'\<rparr>"

lemma rep_cong:
  "ml_table ml' = ml_table ml \<Longrightarrow> ml_store ml' = ml_store ml \<Longrightarrow> ml_lrus ml' = ml_lrus ml \<Longrightarrow> ml_secret ml' = ml_secret ml
   \<Longrightarrow> mac_rep ml' es = mac_rep ml es"
  by (simp add: mac_rep_def)

lemma rep_expire:
  assumes "mac_rep ml (xs @ (a, e) # ys)"
  shows "\<exists>ml'. mac_learning_expire ml a = Some ml' \<and> mac_rep ml' (xs @ ys) \<and> same_settings ml ml'"
proof -
  obtain nd where nd: "nd \<in> set (hmap_nodes (ml_table ml))" "hn_addr nd = a" "hn_data nd = e" "entry_at ml a = Some nd"
    by (rule rep_node [OF assms, of a e]) auto
  obtain h where h: "hmap_remove (ml_table ml) nd = Some h" "hmap_wf h" "mset (hmap_nodes (ml_table ml)) = add_mset nd (mset (hmap_nodes h))"
    by (rule hmap_remove [OF rep_table(1) [OF assms] nd(1)])
  have s: "set (hmap_nodes h) \<subseteq> set (hmap_nodes (ml_table ml))"
    using h(3) by (metis set_mset_add_mset_insert set_mset_mset subset_insertI)
  have k: "keyed_by (mac_key_hash (ml_secret ml)) mac_key_ok mac_key h" using assms s h(2) by (auto simp: mac_rep_def keyed_by_def)
  have "mset (map node_entry (hmap_nodes (ml_table ml))) = mset (xs @ (a, e) # ys)" using assms by (simp add: mac_rep_def)
  then have m: "mset (map node_entry (hmap_nodes h)) = mset (xs @ ys)" using h(3) nd by (simp add: node_entry_def)
  have l: "is_list (snd (list_remove a (ml_store ml))) (ml_lrus ml) (map fst (xs @ ys))"
    using is_list_remove(2) [of "ml_store ml" "ml_lrus ml" "map fst xs" a "map fst ys"] rep_list(1) [OF assms] by simp
  have "distinct (map (mac_key \<circ> snd) (xs @ ys))" using rep_list(4) [OF assms] by simp
  then show ?thesis using nd h k m l by (auto simp: mac_learning_expire_def mac_rep_def)
qed

lemma map_put_split:
  assumes "mset (map node_entry ns) = mset (xs @ (a, e) # ys)" "distinct (map fst (xs @ (a, e) # ys))"
  shows "mset (map node_entry (map (\<lambda>nd. if hn_addr nd = a then nd\<lparr>hn_data := f (hn_data nd)\<rparr> else nd) ns)) = mset (xs @ (a, f e) # ys)"
proof -
  let ?g = "\<lambda>(b, d). if b = a then (b, f d) else (b, d)"
  have "map node_entry (map (\<lambda>nd. if hn_addr nd = a then nd\<lparr>hn_data := f (hn_data nd)\<rparr> else nd) ns) = map ?g (map node_entry ns)"
    by (simp add: node_entry_def)
  then have "mset (map node_entry (map (\<lambda>nd. if hn_addr nd = a then nd\<lparr>hn_data := f (hn_data nd)\<rparr> else nd) ns))
      = mset (map ?g (map node_entry ns))" by (rule arg_cong)
  also have "\<dots> = image_mset ?g (mset (map node_entry ns))" by (rule mset_map)
  also have "\<dots> = mset (map ?g (xs @ (a, e) # ys))" unfolding assms(1) by simp
  also have "map ?g (xs @ (a, e) # ys) = xs @ (a, f e) # ys"
  proof -
    have "map ?g zs = zs" if "a \<notin> fst ` set zs" for zs using that by (induction zs) auto
    then show ?thesis using assms(2) by auto
  qed
  finally show ?thesis .
qed

lemma rep_put:
  assumes "mac_rep ml (xs @ (a, e) # ys)" "\<And>d. mac_key (f d) = mac_key d"
  shows "mac_rep (put_entry ml a f) (xs @ (a, f e) # ys)" "same_settings ml (put_entry ml a f)"
proof -
  let ?h = "hmap_put a (\<lambda>nd. nd\<lparr>hn_data := f (hn_data nd)\<rparr>) (ml_table ml)"
  have "hmap_wf ?h" by (rule hmap_put_wf [OF rep_table(1) [OF assms(1)]]) simp
  then have "keyed_by (mac_key_hash (ml_secret ml)) mac_key_ok mac_key ?h"
    using assms by (auto simp: mac_rep_def keyed_by_def hmap_put_nodes)
  moreover have "mset (map node_entry (hmap_nodes ?h)) = mset (xs @ (a, f e) # ys)"
    unfolding hmap_put_nodes using assms(1) rep_list(2) [OF assms(1)] by (intro map_put_split) (simp_all add: mac_rep_def)
  ultimately show "mac_rep (put_entry ml a f) (xs @ (a, f e) # ys)"
    using assms rep_list [OF assms(1)] by (simp add: mac_rep_def put_entry_def)
qed (simp add: put_entry_def)

lemma rep_add:
  assumes "mac_rep ml es" "a \<notin> fst ` set es" "a \<noteq> ml_lrus ml" "length (me_mac e) = 6" "mac_key e \<notin> (mac_key \<circ> snd) ` set es"
  shows "\<exists>h. hmap_insert_at (ml_table ml) \<lparr>hn_addr = a, hn_hash = 0, hn_data = e\<rparr> (mac_key_hash (ml_secret ml) (mac_key e)) = Some h
    \<and> mac_rep (ml\<lparr>ml_table := h, ml_store := list_push_back (ml_lrus ml) a (ml_store ml)\<rparr>) (es @ [(a, e)])"
proof -
  let ?nd = "\<lparr>hn_addr = a, hn_hash = 0, hn_data = e\<rparr> :: mac_entry hmap_node"
  have k: "keyed_by (mac_key_hash (ml_secret ml)) mac_key_ok mac_key (ml_table ml)" using assms(1) by (simp add: mac_rep_def)
  obtain h where h: "hmap_insert_at (ml_table ml) ?nd (mac_key_hash (ml_secret ml) (key_of mac_key ?nd)) = Some h"
    "keyed_by (mac_key_hash (ml_secret ml)) mac_key_ok mac_key h"
    "mset (hmap_nodes h) = add_mset (?nd\<lparr>hn_hash := mac_key_hash (ml_secret ml) (key_of mac_key ?nd)\<rparr>) (mset (hmap_nodes (ml_table ml)))"
    by (rule keyed_add [OF k, of ?nd]) (use assms(2,4) rep_table(5) [OF assms(1)] in auto)
  have "mset (map node_entry (hmap_nodes h)) = mset (es @ [(a, e)])"
    using h(3) assms(1) by (simp add: node_entry_def mac_rep_def)
  moreover have "is_list (list_push_back (ml_lrus ml) a (ml_store ml)) (ml_lrus ml) (map fst es @ [a])"
    using assms(2,3) by (intro is_list_push_back rep_list [OF assms(1)]) auto
  moreover have "distinct (map (mac_key \<circ> snd) (es @ [(a, e)]))" using rep_list(4) [OF assms(1)] assms(5) by auto
  ultimately show ?thesis using h by (auto simp: mac_rep_def)
qed

lemma rep_touch:
  assumes "mac_rep ml (xs @ (a, e) # ys)"
  shows "mac_rep (ml\<lparr>ml_store := list_push_back (ml_lrus ml) a (snd (list_remove a (ml_store ml)))\<rparr>) (xs @ ys @ [(a, e)])"
  using assms ovs_list.touch [of "ml_store ml" "ml_lrus ml" "map fst xs" a "map fst ys"] by (auto simp: mac_rep_def)

text \<open>The expiration time that \<^verbatim>\<open>mac_learning_insert\<close> writes.\<close>

lemma signed_time:
  assumes "0 \<le> now" "now + uint (idle :: u32) \<le> INT_MAX"
  shows "sint (word_of_int now + idle :: u32) = now + uint idle"
proof -
  have "(word_of_int now + idle :: u32) = word_of_int (now + uint idle)" by simp
  moreover have "0 \<le> now + uint idle" using assms(1) by simp
  then have "signed_take_bit 31 (now + uint idle) = now + uint idle"
    using assms(2) by (intro signed_take_bit_int_eq_self) simp_all
  ultimately show ?thesis by (simp add: signed_of_int del: of_int_add)
qed

text \<open>Making room in a table that has at least as many entries as it may have.\<close>

lemma rep_room:
  assumes "mac_rep ml es" "length es \<le> 1000000" "0 < unat (ml_max_entries ml)"
  shows "\<exists>ml'. mac_make_room ml = Some ml' \<and> same_settings ml ml'
    \<and> mac_rep ml' (if unat (ml_max_entries ml) \<le> length es then tl es else es)"
proof (cases "unat (ml_max_entries ml) \<le> length es")
  case True
  then obtain a e ys where es: "es = [] @ (a, e) # ys" using assms(3) by (cases es) auto
  have "hmap_count (ml_table ml) \<ge> ml_max_entries ml" using True rep_count [OF assms(1,2)] by (simp add: word_le_nat_alt)
  then show ?thesis using True rep_expire [OF assms(1) [unfolded es]] rep_lru [OF assms(1)]
    unfolding mac_make_room_def es by auto
next
  case False
  then have "\<not> hmap_count (ml_table ml) \<ge> ml_max_entries ml" using rep_count [OF assms(1,2)] by (simp add: word_le_nat_alt)
  then show ?thesis using False assms(1) by (simp add: mac_make_room_def)
qed

lemma rep_insert_old:
  assumes "mac_rep ml (xs @ (a, e) # ys)" "length mac = 6" "0 \<le> now" "now + uint (ml_idle_time ml) \<le> INT_MAX" "mac_key e = (mac, vlan)"
  shows "\<exists>ml'. mac_learning_insert now b ml mac vlan = Some (a, ml') \<and> same_settings ml ml'
    \<and> mac_rep ml' (xs @ ys @ [(a, e\<lparr>me_expires := now + uint (ml_idle_time ml)\<rparr>)])"
proof -
  let ?f = "\<lambda>d :: mac_entry. d\<lparr>me_expires := now + uint (ml_idle_time ml)\<rparr>"
  obtain nd where nd: "mac_entry_lookup ml mac vlan = Some nd" "hn_addr nd = a"
    using rep_lookup(1) [OF assms(1,2), of vlan a e] assms(5) by auto
  let ?m = "ml\<lparr>ml_store := list_push_back (ml_lrus ml) a (snd (list_remove a (ml_store ml)))\<rparr>"
  have "mac_rep (put_entry ?m a ?f) ((xs @ ys) @ (a, ?f e) # [])"
    by (rule rep_put) (use rep_touch [OF assms(1)] in simp_all)
  moreover have "mac_learning_insert now b ml mac vlan = Some (a, put_entry ?m a ?f)"
    unfolding mac_learning_insert_def nd(1) using nd(2) signed_time [OF assms(3,4)] by simp
  ultimately show ?thesis by (simp add: put_entry_def)
qed

definition new_entry :: "int \<Rightarrow> u8 list \<Rightarrow> u16 \<Rightarrow> mac_entry" where
  "new_entry t mac vlan = \<lparr>me_expires = t, me_grat_arp_lock = TIME_MIN, me_mac = mac, me_vlan = vlan, me_port = 0\<rparr>"

lemma rep_insert_new:
  assumes "mac_rep ml es" "length es \<le> 1000000" "0 < unat (ml_max_entries ml)" "length mac = 6"
    "0 \<le> now" "now + uint (ml_idle_time ml) \<le> INT_MAX"
    and new: "(mac, vlan) \<notin> (mac_key \<circ> snd) ` set es" and es': "es' = (if unat (ml_max_entries ml) \<le> length es then tl es else es)"
    and b: "b \<notin> fst ` set es'" "b \<noteq> ml_lrus ml"
  shows "\<exists>ml'. mac_learning_insert now b ml mac vlan = Some (b, ml') \<and> same_settings ml ml'
    \<and> mac_rep ml' (es' @ [(b, new_entry (now + uint (ml_idle_time ml)) mac vlan)])"
proof -
  let ?t = "now + uint (ml_idle_time ml)"
  let ?f = "\<lambda>d :: mac_entry. d\<lparr>me_expires := ?t\<rparr>"
  let ?e = "new_entry 0 mac vlan"
  have none: "mac_entry_lookup ml mac vlan = None" using rep_lookup(2) [OF assms(1,4)] new by simp
  obtain m1 where m1: "mac_make_room ml = Some m1" "same_settings ml m1" "mac_rep m1 es'"
    using rep_room [OF assms(1-3)] unfolding es' by blast
  have sel: "ml_secret m1 = ml_secret ml" "ml_lrus m1 = ml_lrus ml" "ml_idle_time m1 = ml_idle_time ml"
    by (subst m1(2), simp)+
  have "set es' \<subseteq> set es" unfolding es' by (auto dest: in_set_tlD)
  then have "mac_key ?e \<notin> (mac_key \<circ> snd) ` set es'" using new by (auto simp: new_entry_def)
  from rep_add [OF m1(3) b(1) _ _ this] obtain h where
    h: "hmap_insert_at (ml_table m1) \<lparr>hn_addr = b, hn_hash = 0, hn_data = ?e\<rparr> (mac_table_hash (ml_secret ml) mac vlan) = Some h"
      "mac_rep (m1\<lparr>ml_table := h, ml_store := list_push_back (ml_lrus m1) b (ml_store m1)\<rparr>) (es' @ [(b, ?e)])"
    using b(2) assms(4) by (auto simp: sel new_entry_def)
  let ?m = "m1\<lparr>ml_table := h, ml_store := list_push_back (ml_lrus m1) b (ml_store m1)\<rparr>"
  have "mac_rep (put_entry ?m b ?f) (es' @ (b, ?f ?e) # [])" by (rule rep_put) (use h(2) in simp_all)
  moreover have "mac_learning_insert now b ml mac vlan = Some (b, put_entry ?m b ?f)"
    unfolding mac_learning_insert_def none
    using m1(1) h(1) assms(4) signed_time [OF assms(5,6)] by (simp add: sel new_entry_def)
  moreover have "same_settings ml (put_entry ?m b ?f)" unfolding put_entry_def by (subst m1(2)) simp
  ultimately show ?thesis by (auto simp: new_entry_def)
qed

text \<open>The two loops that expire entries.\<close>

fun run_keep :: "int \<Rightarrow> nat \<Rightarrow> (addr \<times> mac_entry) list \<Rightarrow> (addr \<times> mac_entry) list" where
  "run_keep now mx [] = []"
| "run_keep now mx (x # es) = (if mx \<le> length es \<or> me_expires (snd x) \<le> now then run_keep now mx es else x # es)"

lemma rep_expire_front:
  assumes "mac_rep ml ((a, e) # es)"
  shows "\<exists>ml'. mac_learning_expire (ml\<lparr>ml_need_revalidate := True\<rparr>) a = Some ml' \<and> mac_rep ml' es
    \<and> same_settings (ml\<lparr>ml_need_revalidate := True\<rparr>) ml'"
  using rep_expire [of "ml\<lparr>ml_need_revalidate := True\<rparr>" "[]" a e es] assms by (simp add: mac_rep_def)

lemma rep_run_loop:
  "mac_rep ml es \<Longrightarrow> length es \<le> 1000000 \<Longrightarrow> es' = run_keep now (unat (ml_max_entries ml)) es \<Longrightarrow>
   \<exists>ml'. run_loop now ml = Some ml' \<and> mac_rep ml' es'
     \<and> same_settings (ml\<lparr>ml_need_revalidate := ml_need_revalidate ml \<or> es' \<noteq> es\<rparr>) ml'"
proof (induction es arbitrary: ml)
  case Nil
  then show ?case using rep_lru [OF Nil(1)] by (subst run_loop.simps) simp
next
  case (Cons x es)
  obtain a e where x: "x = (a, e)" by (cases x)
  have lru: "get_lru ml = Some a" using rep_lru [OF Cons.prems(1)] x by simp
  obtain nd where nd: "hn_data nd = e" "entry_at ml a = Some nd" by (rule rep_node [OF Cons.prems(1), of a e]) (auto simp: x)
  have c: "hmap_count (ml_table ml) > ml_max_entries ml \<longleftrightarrow> unat (ml_max_entries ml) \<le> length es"
    using rep_count [OF Cons.prems(1,2)] by (simp add: word_less_nat_alt less_Suc_eq_le)
  have short: "length (run_keep now k zs) \<le> length zs" for k zs by (induction zs) auto
  show ?case
  proof (cases "unat (ml_max_entries ml) \<le> length es \<or> me_expires e \<le> now")
    case True
    obtain m1 where m1: "mac_learning_expire (ml\<lparr>ml_need_revalidate := True\<rparr>) a = Some m1" "mac_rep m1 es"
      "same_settings (ml\<lparr>ml_need_revalidate := True\<rparr>) m1" using rep_expire_front Cons.prems(1) unfolding x by blast
    have max: "ml_max_entries m1 = ml_max_entries ml" "ml_need_revalidate m1 = True" by (subst m1(3), simp)+
    have es': "es' = run_keep now (unat (ml_max_entries m1)) es" using True x Cons.prems(3) max by simp
    obtain ml' where ml': "run_loop now m1 = Some ml'" "mac_rep ml' es'" "same_settings (m1\<lparr>ml_need_revalidate := True\<rparr>) ml'"
      using Cons.IH [OF m1(2) _ es'] Cons.prems(2) max by auto
    have "es' \<noteq> x # es" using short [of "unat (ml_max_entries m1)" es] es' by auto
    then have "same_settings (ml\<lparr>ml_need_revalidate := ml_need_revalidate ml \<or> es' \<noteq> x # es\<rparr>) ml'"
      using ml'(3) by (subst ml'(3)) (subst m1(3), simp)
    then show ?thesis using True lru nd c m1(1) ml' by (subst run_loop.simps) simp
  next
    case False
    then show ?thesis using lru nd c x Cons.prems by (subst run_loop.simps) simp
  qed
qed

lemma rep_flush_loop:
  "mac_rep ml es \<Longrightarrow> \<exists>ml'. flush_loop ml = Some ml' \<and> mac_rep ml' []
     \<and> same_settings (ml\<lparr>ml_need_revalidate := ml_need_revalidate ml \<or> es \<noteq> []\<rparr>) ml'"
proof (induction es arbitrary: ml)
  case Nil
  then show ?case using rep_lru [OF Nil(1)] by (subst flush_loop.simps) simp
next
  case (Cons x es)
  obtain a e where x: "x = (a, e)" by (cases x)
  have lru: "get_lru ml = Some a" using rep_lru [OF Cons.prems] x by simp
  obtain m1 where m1: "mac_learning_expire (ml\<lparr>ml_need_revalidate := True\<rparr>) a = Some m1" "mac_rep m1 es"
    "same_settings (ml\<lparr>ml_need_revalidate := True\<rparr>) m1" using rep_expire_front Cons.prems(1) unfolding x by blast
  have "ml_need_revalidate m1 = True" by (subst m1(3), simp)
  then obtain ml' where ml': "flush_loop m1 = Some ml'" "mac_rep ml' []" "same_settings (m1\<lparr>ml_need_revalidate := True\<rparr>) ml'"
    using Cons.IH [OF m1(2)] by auto
  have "same_settings (ml\<lparr>ml_need_revalidate := ml_need_revalidate ml \<or> x # es \<noteq> []\<rparr>) ml'"
    using ml'(3) by (subst ml'(3)) (subst m1(3), simp)
  then show ?case using lru m1(1) ml' by (subst flush_loop.simps) simp
qed

lemma rep_flush:
  assumes "mac_rep ml es"
  shows "\<exists>ml'. mac_learning_flush ml = Some ml' \<and> mac_rep ml' []
    \<and> same_settings (ml\<lparr>ml_need_revalidate := ml_need_revalidate ml \<or> es \<noteq> []\<rparr>) ml'"
proof -
  obtain m1 where m1: "flush_loop ml = Some m1" "mac_rep m1 []"
    "same_settings (ml\<lparr>ml_need_revalidate := ml_need_revalidate ml \<or> es \<noteq> []\<rparr>) m1" using rep_flush_loop [OF assms] by blast
  obtain h where h: "hmap_shrink_at (ml_table m1) = Some h" "hmap_wf h" "mset (hmap_nodes h) = mset (hmap_nodes (ml_table m1))"
    by (rule hmap_shrink [OF rep_table(1) [OF m1(2)]])
  have "mac_rep (m1\<lparr>ml_table := h\<rparr>) []" using m1(2) h(2,3) by (simp add: mac_rep_def keyed_by_def)
  moreover have "same_settings (ml\<lparr>ml_need_revalidate := ml_need_revalidate ml \<or> es \<noteq> []\<rparr>) (m1\<lparr>ml_table := h\<rparr>)"
    by (subst m1(3)) simp
  ultimately show ?thesis using m1(1) h(1) by (simp add: mac_learning_flush_def)
qed

text \<open>The loop over the list that moves the expiration times.\<close>

lemma is_list_next_of:
  assumes "is_list m l (xs @ a # ys)"
  shows "l_next m a = hd (ys @ [l])"
proof -
  have "linked m ((l # xs) @ a # ys @ [l])" using assms by (simp add: is_list_def)
  then have "linked m (a # ys @ [l])" using linked_append [of m "l # xs" a "ys @ [l]"] by blast
  then show ?thesis by (cases ys) auto
qed

abbreviation later :: "int \<Rightarrow> addr \<times> mac_entry \<Rightarrow> addr \<times> mac_entry" where
  "later delta x \<equiv> (fst x, (snd x)\<lparr>me_expires := me_expires (snd x) + delta\<rparr>)"

lemma rep_idle_loop:
  "mac_rep ml (xs @ ys) \<Longrightarrow> \<forall>x \<in> set ys. c_int (me_expires (snd x) + delta) = Some (me_expires (snd x) + delta) \<Longrightarrow>
   \<exists>ml'. set_idle_time_loop delta ml (hd (map fst ys @ [ml_lrus ml])) = Some ml'
     \<and> mac_rep ml' (xs @ map (later delta) ys) \<and> same_settings ml ml'"
proof (induction ys arbitrary: ml xs)
  case Nil
  then show ?case by (subst set_idle_time_loop.simps) simp
next
  case (Cons x ys)
  obtain a e where x: "x = (a, e)" by (cases x)
  have r: "mac_rep ml (xs @ (a, e) # ys)" using Cons.prems(1) x by simp
  obtain nd where nd: "hn_data nd = e" "entry_at ml a = Some nd" by (rule rep_node [OF r, of a e]) auto
  let ?t = "me_expires e + delta"
  let ?m = "put_entry ml a (\<lambda>d. d\<lparr>me_expires := ?t\<rparr>)"
  have m: "mac_rep ?m ((xs @ [later delta x]) @ ys)" "same_settings ml ?m"
    using rep_put [OF r, of "\<lambda>d. d\<lparr>me_expires := ?t\<rparr>"] by (simp_all add: x)
  have sel: "ml_lrus ?m = ml_lrus ml" "ml_store ?m = ml_store ml" by (simp_all add: put_entry_def)
  have "a \<noteq> ml_lrus ml" using rep_list(3) [OF r] by auto
  moreover have "l_next (ml_store ml) a = hd (map fst ys @ [ml_lrus ml])"
    using rep_list(1) [OF r] is_list_next_of [of "ml_store ml" "ml_lrus ml" "map fst xs" a "map fst ys"] by simp
  ultimately have "set_idle_time_loop delta ml (hd (map fst (x # ys) @ [ml_lrus ml])) = set_idle_time_loop delta ?m (hd (map fst ys @ [ml_lrus ?m]))"
    using Cons.prems(2) nd x by (subst set_idle_time_loop.simps) (simp add: sel)
  moreover obtain ml' where "set_idle_time_loop delta ?m (hd (map fst ys @ [ml_lrus ?m])) = Some ml'"
    "mac_rep ml' ((xs @ [later delta x]) @ map (later delta) ys)" "same_settings ?m ml'"
    using Cons.IH [OF m(1)] Cons.prems(2) by auto
  ultimately show ?case using m(2) by (auto simp: put_entry_def)
qed

section \<open>References and the next wake-up\<close>

lemma mac_unref_last: "mac_rep ml es \<Longrightarrow> ml_ref_cnt ml = 1 \<Longrightarrow> mac_learning_unref (Some ml) = Some None"
  using hmap_remove_each [OF rep_table(1), of ml es] by (auto simp: mac_learning_unref_def)

lemma mac_ref_unref:
  assumes "0 < sint (ml_ref_cnt ml)" "sint (ml_ref_cnt ml) < INT_MAX"
  shows "Option.bind (mac_learning_ref (Some ml)) mac_learning_unref = Some (Some ml)"
proof -
  have "ml_ref_cnt ml \<noteq> 0" using assms(1) by auto
  moreover have "sint (ml_ref_cnt ml + 1) = sint (ml_ref_cnt ml) + 1"
    using assms by (simp add: sint_word_ariths signed_take_bit_int_eq_self)
  ultimately show ?thesis using assms(1) by (simp add: mac_learning_ref_def mac_learning_unref_def)
qed

text \<open>A table with nothing to revalidate sleeps until its least recently used entry expires.\<close>

lemma mac_wait_oldest:
  assumes "mac_rep ml ((a, e) # es)" "length es < 1000000" "length es < unat (ml_max_entries ml)" "\<not> ml_need_revalidate ml"
    "TIME_MIN \<le> me_expires e" "me_expires e \<le> INT_MAX"
  shows "mac_learning_wait ml = Some (Wake_At (me_expires e * 1000))"
proof -
  obtain nd where nd: "hn_data nd = e" "entry_at ml a = Some nd" by (rule rep_node [OF assms(1), of a e]) auto
  have "\<not> hmap_count (ml_table ml) > ml_max_entries ml" using rep_count [OF assms(1)] assms(2,3) by (simp add: word_less_nat_alt)
  moreover have "l_next (ml_store ml) (ml_lrus ml) = a" "\<not> list_is_empty (ml_lrus ml) (ml_store ml)"
    using is_list_next [OF rep_list(1) [OF assms(1)]] is_list_is_empty [OF rep_list(1) [OF assms(1)]] by simp_all
  moreover have "c_ll (me_expires e * 1000) = Some (me_expires e * 1000)" using assms(5,6) by (intro c_ll_some) linarith+
  ultimately show ?thesis using nd assms(4) by (simp add: mac_learning_wait_def)
qed

end
