(* ===== verification/Ovs_Mac_Refine.thy ===== *)
theory Ovs_Mac_Refine
  imports Ovs_Mac_Learning Machine
begin

text \<open>
  What the operations of the MAC learning table do to the ages of its entries: a specification on sequences of ages
  and the proof that the table refines it, under any sequence of calls.
\<close>

section \<open>The table as a sequence of ages\<close>

text \<open>
  What a client sees of an entry: its key, the time of its last use, the end of its gratuitous ARP lock and its port.
  The specification keeps the entries in the order of their last use; changing the idle time leaves them alone.
\<close>

type_synonym mac_age = "(u8 list \<times> u16) \<times> int \<times> int \<times> addr"

record mac_spec =
  ms_now :: int
  ms_idle :: u32
  ms_max :: size_t
  ms_flood :: "bitmap option"
  ms_need :: bool
  ms_entries :: "mac_age list"

definition age_of :: "u32 \<Rightarrow> mac_entry \<Rightarrow> mac_age" where
  "age_of idle e = (mac_key e, me_expires e - uint idle, me_grat_arp_lock e, me_port e)"

fun lru_walk :: "nat \<Rightarrow> lmem \<Rightarrow> addr \<Rightarrow> addr list" where
  "lru_walk 0 m a = []"
| "lru_walk (Suc n) m a = a # lru_walk n m (l_next m a)"

definition lru_entries :: "mac_learning \<Rightarrow> mac_entry list" where
  "lru_entries ml =
     map (\<lambda>a. hn_data (the (entry_at ml a)))
       (lru_walk (length (hmap_nodes (ml_table ml))) (ml_store ml) (l_next (ml_store ml) (ml_lrus ml)))"

definition mac_abs :: "int \<times> mac_learning \<Rightarrow> mac_spec" where
  "mac_abs = (\<lambda>(now, ml). \<lparr>ms_now = now, ms_idle = ml_idle_time ml, ms_max = ml_max_entries ml, ms_flood = ml_flood_vlans ml,
     ms_need = ml_need_revalidate ml, ms_entries = map (age_of (ml_idle_time ml)) (lru_entries ml)\<rparr>)"

datatype mac_op =
    Mac_Tick int | Mac_Insert addr "u8 list" u16 | Mac_Port "u8 list" u16 addr | Mac_Lock "u8 list" u16
  | Mac_Expire "u8 list" u16 | Mac_Changed | Mac_Idle u32 | Mac_Max size_t | Mac_Flood "bitmap option" | Mac_Run | Mac_Flush

fun mac_step :: "mac_op \<Rightarrow> int \<times> mac_learning \<Rightarrow> (int \<times> mac_learning) option" where
  "mac_step (Mac_Tick d) (now, ml) = Some (now + d, ml)"
| "mac_step (Mac_Insert a mac vlan) (now, ml) = map_option (\<lambda>(e, ml). (now, ml)) (mac_learning_insert now a ml mac vlan)"
| "mac_step (Mac_Port mac vlan p) (now, ml) = do {
     nd \<leftarrow> mac_entry_lookup ml mac vlan;
     Some (now, put_entry ml (hn_addr nd) (\<lambda>d. d\<lparr>me_port := p\<rparr>))
   }"
| "mac_step (Mac_Lock mac vlan) (now, ml) = do {
     nd \<leftarrow> mac_entry_lookup ml mac vlan;
     e \<leftarrow> mac_entry_set_grat_arp_lock now (hn_data nd);
     Some (now, put_entry ml (hn_addr nd) (\<lambda>d. d\<lparr>me_grat_arp_lock := me_grat_arp_lock e\<rparr>))
   }"
| "mac_step (Mac_Expire mac vlan) (now, ml) = do {
     nd \<leftarrow> mac_entry_lookup ml mac vlan;
     ml \<leftarrow> mac_learning_expire ml (hn_addr nd);
     Some (now, ml)
   }"
| "mac_step Mac_Changed (now, ml) = Some (now, mac_learning_changed ml)"
| "mac_step (Mac_Idle t) (now, ml) = map_option (Pair now) (mac_learning_set_idle_time ml t)"
| "mac_step (Mac_Max n) (now, ml) = Some (now, mac_learning_set_max_entries ml n)"
| "mac_step (Mac_Flood b) (now, ml) = map_option (\<lambda>(changed, ml). (now, ml)) (mac_learning_set_flood_vlans ml b)"
| "mac_step Mac_Run (now, ml) = map_option (\<lambda>(need, ml). (now, ml)) (mac_learning_run now ml)"
| "mac_step Mac_Flush (now, ml) = map_option (Pair now) (mac_learning_flush ml)"

text \<open>What the callers guarantee: a clock that does not run out, addresses of six bytes, and an allocator that gives out free memory.\<close>

fun mac_ok :: "int \<times> mac_learning \<Rightarrow> mac_op \<Rightarrow> bool" where
  "mac_ok (now, ml) (Mac_Tick d) \<longleftrightarrow> 0 \<le> d \<and> now + d \<le> INT_MAX - 3600"
| "mac_ok (now, ml) (Mac_Insert a mac vlan) \<longleftrightarrow> length mac = 6 \<and> a \<noteq> ml_lrus ml
     \<and> (mac_entry_lookup ml mac vlan = None \<longrightarrow> (case mac_make_room ml of None \<Rightarrow> True | Some ml \<Rightarrow> a \<notin> addrs (ml_table ml)))"
| "mac_ok (now, ml) (Mac_Port mac vlan p) \<longleftrightarrow> length mac = 6 \<and> mac_entry_lookup ml mac vlan \<noteq> None"
| "mac_ok (now, ml) (Mac_Lock mac vlan) \<longleftrightarrow> length mac = 6 \<and> mac_entry_lookup ml mac vlan \<noteq> None"
| "mac_ok (now, ml) (Mac_Expire mac vlan) \<longleftrightarrow> length mac = 6 \<and> mac_entry_lookup ml mac vlan \<noteq> None"
| "mac_ok (now, ml) (Mac_Flood b) \<longleftrightarrow> vlan_bitmap_ok b"
| "mac_ok (now, ml) _ \<longleftrightarrow> True"

abbreviation on_key :: "u8 list \<times> u16 \<Rightarrow> (int \<times> int \<times> addr \<Rightarrow> int \<times> int \<times> addr) \<Rightarrow> mac_spec \<Rightarrow> mac_spec" where
  "on_key k f s \<equiv> s\<lparr>ms_entries := map (\<lambda>(k', d). (k', if k' = k then f d else d)) (ms_entries s)\<rparr>"

fun mac_spec_op :: "mac_op \<Rightarrow> mac_spec \<Rightarrow> mac_spec" where
  "mac_spec_op (Mac_Tick d) s = s\<lparr>ms_now := ms_now s + d\<rparr>"
| "mac_spec_op (Mac_Insert a mac vlan) s =
     s\<lparr>ms_entries :=
       (case map_of (ms_entries s) (mac, vlan) of
          Some (used, lock, port) \<Rightarrow> filter (\<lambda>x. fst x \<noteq> (mac, vlan)) (ms_entries s) @ [((mac, vlan), ms_now s, lock, port)]
        | None \<Rightarrow> (if unat (ms_max s) \<le> length (ms_entries s) then tl (ms_entries s) else ms_entries s)
            @ [((mac, vlan), ms_now s, TIME_MIN, 0)])\<rparr>"
| "mac_spec_op (Mac_Port mac vlan p) s = on_key (mac, vlan) (\<lambda>(used, lock, port). (used, lock, p)) s"
| "mac_spec_op (Mac_Lock mac vlan) s = on_key (mac, vlan) (\<lambda>(used, lock, port). (used, ms_now s + 5, port)) s"
| "mac_spec_op (Mac_Expire mac vlan) s = s\<lparr>ms_entries := filter (\<lambda>x. fst x \<noteq> (mac, vlan)) (ms_entries s)\<rparr>"
| "mac_spec_op Mac_Changed s = s\<lparr>ms_need := True\<rparr>"
| "mac_spec_op (Mac_Idle t) s = s\<lparr>ms_idle := max 15 (min 3600 t)\<rparr>"
| "mac_spec_op (Mac_Max n) s = s\<lparr>ms_max := max 10 (min 1000000 n)\<rparr>"
| "mac_spec_op (Mac_Flood b) s = s\<lparr>ms_flood := b\<rparr>"
| "mac_spec_op Mac_Run s =
     s\<lparr>ms_need := False,
       ms_entries := filter (\<lambda>(k, used, d). ms_now s < used + uint (ms_idle s))
         (drop (length (ms_entries s) - unat (ms_max s)) (ms_entries s))\<rparr>"
| "mac_spec_op Mac_Flush s = s\<lparr>ms_need := ms_need s \<or> ms_entries s \<noteq> [], ms_entries := []\<rparr>"

section \<open>The operations refine the specification\<close>

definition mac_times :: "int \<Rightarrow> mac_learning \<Rightarrow> (addr \<times> mac_entry) list \<Rightarrow> bool" where
  "mac_times now ml es \<longleftrightarrow> 0 \<le> now \<and> now \<le> INT_MAX - 3600
     \<and> (\<forall>x \<in> set es. 0 \<le> me_expires (snd x) - uint (ml_idle_time ml) \<and> me_expires (snd x) - uint (ml_idle_time ml) \<le> now)
     \<and> sorted (map (me_expires \<circ> snd) es)"

definition mac_limits :: "mac_learning \<Rightarrow> (addr \<times> mac_entry) list \<Rightarrow> bool" where
  "mac_limits ml es \<longleftrightarrow> length es \<le> 1000000 \<and> 15 \<le> ml_idle_time ml \<and> ml_idle_time ml \<le> 3600
     \<and> 10 \<le> ml_max_entries ml \<and> ml_max_entries ml \<le> 1000000 \<and> vlan_bitmap_ok (ml_flood_vlans ml)"

definition mac_inv :: "int \<times> mac_learning \<Rightarrow> bool" where
  "mac_inv = (\<lambda>(now, ml). \<exists>es. mac_rep ml es \<and> mac_times now ml es \<and> mac_limits ml es)"

lemma lru_walk_linked: "linked m (e # xs @ [l]) \<Longrightarrow> lru_walk (length xs) m (hd (xs @ [l])) = xs"
proof (induction xs arbitrary: e)
  case (Cons x xs)
  have "l_next m x = hd (xs @ [l])" using Cons.prems by (cases xs) auto
  then show ?case using Cons.IH [of x] Cons.prems by simp
qed simp

lemma rep_entries:
  assumes "mac_rep ml es"
  shows "lru_entries ml = map snd es"
proof -
  have "lru_walk (length (map fst es)) (ml_store ml) (hd (map fst es @ [ml_lrus ml])) = map fst es"
    by (rule lru_walk_linked [where e = "ml_lrus ml"]) (use rep_list(1) [OF assms] in \<open>simp add: is_list_def\<close>)
  then have "lru_entries ml = map (\<lambda>a. hn_data (the (entry_at ml a))) (map fst es)"
    using rep_table(2) [OF assms] is_list_next [OF rep_list(1) [OF assms]] by (simp add: lru_entries_def)
  also have "\<dots> = map snd es"
  proof -
    have "hn_data (the (entry_at ml (fst x))) = snd x" if "x \<in> set es" for x
    proof -
      have "(fst x, snd x) \<in> set es" using that by simp
      from rep_node [OF assms this] show ?thesis by (metis option.sel)
    qed
    then show ?thesis by simp
  qed
  finally show ?thesis .
qed

abbreviation ages :: "mac_learning \<Rightarrow> (addr \<times> mac_entry) list \<Rightarrow> mac_age list" where
  "ages ml es \<equiv> map (age_of (ml_idle_time ml) \<circ> snd) es"

lemma rep_abs:
  "mac_rep ml es \<Longrightarrow> mac_abs (now, ml) = \<lparr>ms_now = now, ms_idle = ml_idle_time ml, ms_max = ml_max_entries ml,
     ms_flood = ml_flood_vlans ml, ms_need = ml_need_revalidate ml, ms_entries = ages ml es\<rparr>"
  by (simp add: mac_abs_def rep_entries)

lemma mac_stepI:
  assumes "mac_rep ml es" "mac_step op (now, ml) = Some (now', ml')" "mac_rep ml' es'" "mac_times now' ml' es'" "mac_limits ml' es'"
    "mac_spec_op op \<lparr>ms_now = now, ms_idle = ml_idle_time ml, ms_max = ml_max_entries ml,
       ms_flood = ml_flood_vlans ml, ms_need = ml_need_revalidate ml, ms_entries = ages ml es\<rparr>
     = \<lparr>ms_now = now', ms_idle = ml_idle_time ml', ms_max = ml_max_entries ml',
       ms_flood = ml_flood_vlans ml', ms_need = ml_need_revalidate ml', ms_entries = ages ml' es'\<rparr>"
  shows "\<exists>s'. mac_step op (now, ml) = Some s' \<and> mac_inv s' \<and> mac_abs s' = mac_spec_op op (mac_abs (now, ml))"
proof -
  have "mac_abs (now', ml') = mac_spec_op op (mac_abs (now, ml))"
    using rep_abs [OF assms(1)] rep_abs [OF assms(3)] assms(6) by simp
  moreover have "mac_inv (now', ml')" using assms(3-5) by (auto simp: mac_inv_def)
  ultimately show ?thesis using assms(2) by blast
qed

lemma same_sel:
  assumes "same_settings ml ml'"
  shows "ml_idle_time ml' = ml_idle_time ml" "ml_max_entries ml' = ml_max_entries ml" "ml_flood_vlans ml' = ml_flood_vlans ml"
    "ml_need_revalidate ml' = ml_need_revalidate ml" "ml_lrus ml' = ml_lrus ml"
  by (subst assms, simp)+

lemma limits_same:
  assumes "same_settings ml ml'" "length es' \<le> 1000000" "mac_limits ml es"
  shows "mac_limits ml' es'"
  using assms(2,3) unfolding mac_limits_def same_sel [OF assms(1)] by simp

lemma times_same:
  assumes "same_settings ml ml'"
  shows "mac_times now ml' es = mac_times now ml es"
  unfolding mac_times_def same_sel [OF assms] by simp

lemma times_middle: "mac_times now ml (xs @ x # ys) \<Longrightarrow> mac_times now ml (xs @ ys)"
  by (auto simp: mac_times_def sorted_append)

lemma times_put: "mac_times now ml (xs @ (a, e) # ys) \<Longrightarrow> me_expires e' = me_expires e \<Longrightarrow> mac_times now ml (xs @ (a, e') # ys)"
  by (auto simp: mac_times_def)

lemma times_snoc:
  assumes "mac_times now ml es" "me_expires e = now + uint (ml_idle_time ml)"
  shows "mac_times now ml (es @ [(a, e)])"
  using assms by (force simp: mac_times_def sorted_append)

text \<open>The entry with a key, and what filtering and looking up by its key give.\<close>

lemma key_split:
  assumes "mac_rep ml es" "mac_entry_lookup ml mac vlan = Some nd" "length mac = 6"
  obtains xs e ys where "es = xs @ (hn_addr nd, e) # ys" "hn_data nd = e" "mac_key e = (mac, vlan)"
    "filter (\<lambda>x. fst x \<noteq> (mac, vlan)) (ages ml es) = ages ml (xs @ ys)"
    "map_of (ages ml es) (mac, vlan) = Some (me_expires e - uint (ml_idle_time ml), me_grat_arp_lock e, me_port e)"
    "\<And>f. map (\<lambda>(k', d). (k', if k' = (mac, vlan) then f d else d)) (ages ml es)
       = ages ml xs @ (mac_key e, f (me_expires e - uint (ml_idle_time ml), me_grat_arp_lock e, me_port e)) # ages ml ys"
proof -
  have e: "(hn_addr nd, hn_data nd) \<in> set es" "mac_key (hn_data nd) = (mac, vlan)"
    using rep_lookup(1) [OF assms(1,3), of vlan "hn_addr nd" "hn_data nd"] assms(2) by auto
  obtain xs ys where es: "es = xs @ (hn_addr nd, hn_data nd) # ys" using split_list [OF e(1)] by blast
  have k: "mac_key (snd x) \<noteq> (mac, vlan)" if "x \<in> set (xs @ ys)" for x
    using rep_list(4) [OF assms(1)] that e(2) unfolding es by (auto simp: image_iff)
  have fst_age: "fst (age_of i d) = mac_key d" for i d by (simp add: age_of_def)
  have other: "filter (\<lambda>x. fst x \<noteq> (mac, vlan)) (ages ml zs) = ages ml zs" "(mac, vlan) \<notin> fst ` set (ages ml zs)"
    "map (\<lambda>(k', d). (k', if k' = (mac, vlan) then f d else d)) (ages ml zs) = ages ml zs"
    if "set zs \<subseteq> set (xs @ ys)" for zs f
  proof -
    have z: "\<forall>x \<in> set zs. mac_key (snd x) \<noteq> (mac, vlan)" using that k by blast
    then show "filter (\<lambda>x. fst x \<noteq> (mac, vlan)) (ages ml zs) = ages ml zs" "(mac, vlan) \<notin> fst ` set (ages ml zs)"
      by (auto simp: fst_age)
    show "map (\<lambda>(k', d). (k', if k' = (mac, vlan) then f d else d)) (ages ml zs) = ages ml zs"
      using z by (auto simp: age_of_def)
  qed
  have "map_of (ages ml xs) (mac, vlan) = None" using other(2) [of xs] by (simp add: map_of_eq_None_iff)
  then show thesis
    using that [OF es refl e(2)] other(1,3) [of xs] other(1,3) [of ys] e(2)
    by (simp add: es map_add_def age_of_def)
qed

abbreviation mac_refines :: "mac_op \<Rightarrow> int \<times> mac_learning \<Rightarrow> bool" where
  "mac_refines op s \<equiv> \<exists>s'. mac_step op s = Some s' \<and> mac_inv s' \<and> mac_abs s' = mac_spec_op op (mac_abs s)"

lemma limits_nums:
  assumes "mac_limits ml es"
  shows "length es \<le> 1000000" "15 \<le> uint (ml_idle_time ml)" "uint (ml_idle_time ml) \<le> 3600"
    "10 \<le> unat (ml_max_entries ml)" "unat (ml_max_entries ml) \<le> 1000000"
proof -
  have l: "length es \<le> 1000000" "15 \<le> ml_idle_time ml" "ml_idle_time ml \<le> 3600" "10 \<le> ml_max_entries ml" "ml_max_entries ml \<le> 1000000"
    using assms by (simp_all add: mac_limits_def)
  show "length es \<le> 1000000" by (rule l(1))
  show "15 \<le> uint (ml_idle_time ml)" "uint (ml_idle_time ml) \<le> 3600" using l(2,3) by (simp_all add: word_le_def)
  show "10 \<le> unat (ml_max_entries ml)" "unat (ml_max_entries ml) \<le> 1000000" using l(4,5) by (simp_all add: word_le_nat_alt)
qed

lemma refines_tick:
  assumes "mac_rep ml es" "mac_times now ml es" "mac_limits ml es" "mac_ok (now, ml) (Mac_Tick d)"
  shows "mac_refines (Mac_Tick d) (now, ml)"
  using assms by (intro mac_stepI [OF assms(1), of _ _ "now + d" ml es]) (auto simp: mac_times_def)

lemma refines_insert_old:
  assumes "mac_rep ml es" "mac_times now ml es" "mac_limits ml es" "length mac = 6" "mac_entry_lookup ml mac vlan = Some nd"
  shows "mac_refines (Mac_Insert a mac vlan) (now, ml)"
proof -
  obtain xs e ys where es: "es = xs @ (hn_addr nd, e) # ys" "mac_key e = (mac, vlan)"
    "filter (\<lambda>x. fst x \<noteq> (mac, vlan)) (ages ml es) = ages ml (xs @ ys)"
    "map_of (ages ml es) (mac, vlan) = Some (me_expires e - uint (ml_idle_time ml), me_grat_arp_lock e, me_port e)"
    by (rule key_split [OF assms(1,5,4)])
  have t: "0 \<le> now" "now + uint (ml_idle_time ml) \<le> INT_MAX"
    using assms(2) limits_nums(3) [OF assms(3)] by (auto simp: mac_times_def)
  let ?e = "e\<lparr>me_expires := now + uint (ml_idle_time ml)\<rparr>"
  obtain ml' where ml': "mac_learning_insert now a ml mac vlan = Some (hn_addr nd, ml')" "same_settings ml ml'"
    "mac_rep ml' (xs @ ys @ [(hn_addr nd, ?e)])"
    using rep_insert_old [OF assms(1) [unfolded es(1)] assms(4) t es(2)] by blast
  have tm: "mac_times now ml ((xs @ ys) @ [(hn_addr nd, ?e)])"
    by (rule times_snoc [OF times_middle]) (use assms(2) es(1) in simp_all)
  note sel = same_sel [OF ml'(2)]
  show ?thesis
  proof (rule mac_stepI [OF assms(1) _ ml'(3)])
    show "mac_times now ml' (xs @ ys @ [(hn_addr nd, ?e)])" unfolding times_same [OF ml'(2)] using tm by simp
    show "mac_limits ml' (xs @ ys @ [(hn_addr nd, ?e)])"
      by (rule limits_same [OF ml'(2) _ assms(3)]) (use limits_nums(1) [OF assms(3)] es(1) in simp)
  qed (use ml'(1) es(2-4) sel in \<open>simp_all add: age_of_def\<close>)
qed

lemma refines_insert_new:
  assumes "mac_rep ml es" "mac_times now ml es" "mac_limits ml es" "mac_ok (now, ml) (Mac_Insert a mac vlan)"
    "mac_entry_lookup ml mac vlan = None"
  shows "mac_refines (Mac_Insert a mac vlan) (now, ml)"
proof -
  note num = limits_nums [OF assms(3)]
  have t: "0 \<le> now" "now + uint (ml_idle_time ml) \<le> INT_MAX" using assms(2) num(3) by (auto simp: mac_times_def)
  have mac: "length mac = 6" "a \<noteq> ml_lrus ml" using assms(4) by simp_all
  define es' where "es' = (if unat (ml_max_entries ml) \<le> length es then tl es else es)"
  have mx: "0 < unat (ml_max_entries ml)" using num(4) by simp
  obtain m1 where m1: "mac_make_room ml = Some m1" "mac_rep m1 es'"
    using rep_room [OF assms(1) num(1) mx] unfolding es'_def by blast
  have fresh: "a \<notin> fst ` set es'" using assms(4,5) m1 rep_table(5) [OF m1(2)] by simp
  have new: "(mac, vlan) \<notin> (mac_key \<circ> snd) ` set es" using rep_lookup(2) [OF assms(1) mac(1)] assms(5) by simp
  let ?e = "new_entry (now + uint (ml_idle_time ml)) mac vlan"
  obtain ml' where ml': "mac_learning_insert now a ml mac vlan = Some (a, ml')" "same_settings ml ml'" "mac_rep ml' (es' @ [(a, ?e)])"
    using rep_insert_new [OF assms(1) num(1) mx mac(1) t new es'_def fresh mac(2)] by blast
  have "(mac, vlan) \<notin> fst ` set (ages ml es)" using new by (auto simp: age_of_def image_iff)
  then have none: "map_of (ages ml es) (mac, vlan) = None" by (simp add: map_of_eq_None_iff)
  have tm: "mac_times now ml es'" using assms(2) times_middle [of now ml "[]" "hd es" "tl es"] by (cases es) (auto simp: es'_def)
  have len: "length es' < 1000000" using num(1,4,5) by (auto simp: es'_def)
  show ?thesis
  proof (rule mac_stepI [OF assms(1) _ ml'(3)])
    show "mac_times now ml' (es' @ [(a, ?e)])"
      unfolding times_same [OF ml'(2)] by (rule times_snoc [OF tm]) (simp add: new_entry_def)
    show "mac_limits ml' (es' @ [(a, ?e)])" by (rule limits_same [OF ml'(2) _ assms(3)]) (use len in simp)
  qed (use ml'(1) same_sel [OF ml'(2)] none in \<open>simp_all add: age_of_def new_entry_def es'_def map_tl\<close>)
qed

lemma refines_put:
  assumes "mac_rep ml es" "mac_times now ml es" "mac_limits ml es" "length mac = 6" "mac_entry_lookup ml mac vlan = Some nd"
    and op: "mac_step op (now, ml) = Some (now, put_entry ml (hn_addr nd) f)"
    and f: "\<And>d. mac_key (f d) = mac_key d \<and> me_expires (f d) = me_expires d"
    and spec: "\<And>s. ms_now s = now \<Longrightarrow> mac_spec_op op s = on_key (mac, vlan) g s"
      "age_of (ml_idle_time ml) (f (hn_data nd))
       = (mac_key (hn_data nd), g (me_expires (hn_data nd) - uint (ml_idle_time ml), me_grat_arp_lock (hn_data nd), me_port (hn_data nd)))"
  shows "mac_refines op (now, ml)"
proof -
  obtain xs e ys where es: "es = xs @ (hn_addr nd, e) # ys" "hn_data nd = e"
    "\<And>f. map (\<lambda>(k', d). (k', if k' = (mac, vlan) then f d else d)) (ages ml es)
       = ages ml xs @ (mac_key e, f (me_expires e - uint (ml_idle_time ml), me_grat_arp_lock e, me_port e)) # ages ml ys"
    by (rule key_split [OF assms(1,5,4)]) blast
  note put = rep_put [OF assms(1) [unfolded es(1)], of f]
  have r: "mac_rep (put_entry ml (hn_addr nd) f) (xs @ (hn_addr nd, f e) # ys)" using put f by blast
  have same: "same_settings ml (put_entry ml (hn_addr nd) f)" using put f by blast
  show ?thesis
  proof (rule mac_stepI [OF assms(1) op r])
    show "mac_times now (put_entry ml (hn_addr nd) f) (xs @ (hn_addr nd, f e) # ys)"
      unfolding times_same [OF same] by (rule times_put) (use assms(2) es(1) f in auto)
    show "mac_limits (put_entry ml (hn_addr nd) f) (xs @ (hn_addr nd, f e) # ys)"
      by (rule limits_same [OF same _ assms(3)]) (use limits_nums(1) [OF assms(3)] es(1) in simp)
  qed (use same_sel [OF same] es(2,3) spec in simp)
qed

lemma refines_port:
  assumes "mac_rep ml es" "mac_times now ml es" "mac_limits ml es" "length mac = 6" "mac_entry_lookup ml mac vlan = Some nd"
  shows "mac_refines (Mac_Port mac vlan p) (now, ml)"
  by (rule refines_put [OF assms, where g = "\<lambda>(used, lock, port). (used, lock, p)" and f = "\<lambda>d. d\<lparr>me_port := p\<rparr>"])
    (use assms(5) in \<open>auto simp: age_of_def\<close>)

lemma refines_lock:
  assumes "mac_rep ml es" "mac_times now ml es" "mac_limits ml es" "length mac = 6" "mac_entry_lookup ml mac vlan = Some nd"
  shows "mac_refines (Mac_Lock mac vlan) (now, ml)"
proof -
  have "c_int (now + 5) = Some (now + 5)" using assms(2) by (simp add: mac_times_def c_int_def)
  then show ?thesis
    by (intro refines_put [OF assms, where g = "\<lambda>(used, lock, port). (used, now + 5, port)" and f = "\<lambda>d. d\<lparr>me_grat_arp_lock := now + 5\<rparr>"])
      (use assms(5) in \<open>auto simp: age_of_def mac_entry_set_grat_arp_lock_def\<close>)
qed

lemma refines_expire:
  assumes "mac_rep ml es" "mac_times now ml es" "mac_limits ml es" "length mac = 6" "mac_entry_lookup ml mac vlan = Some nd"
  shows "mac_refines (Mac_Expire mac vlan) (now, ml)"
proof -
  obtain xs e ys where es: "es = xs @ (hn_addr nd, e) # ys" "filter (\<lambda>x. fst x \<noteq> (mac, vlan)) (ages ml es) = ages ml (xs @ ys)"
    by (rule key_split [OF assms(1,5,4)])
  obtain ml' where ml': "mac_learning_expire ml (hn_addr nd) = Some ml'" "mac_rep ml' (xs @ ys)" "same_settings ml ml'"
    using rep_expire [OF assms(1) [unfolded es(1)]] by blast
  show ?thesis
  proof (rule mac_stepI [OF assms(1) _ ml'(2)])
    show "mac_times now ml' (xs @ ys)"
      unfolding times_same [OF ml'(3)] by (rule times_middle) (use assms(2) es(1) in simp)
    show "mac_limits ml' (xs @ ys)"
      by (rule limits_same [OF ml'(3) _ assms(3)]) (use limits_nums(1) [OF assms(3)] es(1) in simp)
  qed (use ml'(1) assms(5) es(2) same_sel [OF ml'(3)] in simp_all)
qed

lemma refines_settings:
  assumes "mac_rep ml es" "mac_times now ml es" "mac_limits ml es"
    and op: "mac_step op (now, ml) = Some (now, ml')" and same: "ml_table ml' = ml_table ml" "ml_store ml' = ml_store ml"
      "ml_lrus ml' = ml_lrus ml" "ml_secret ml' = ml_secret ml" "ml_idle_time ml' = ml_idle_time ml"
    and limits: "10 \<le> ml_max_entries ml'" "ml_max_entries ml' \<le> 1000000" "vlan_bitmap_ok (ml_flood_vlans ml')"
    and spec: "\<And>s. ms_max s = ml_max_entries ml \<Longrightarrow> ms_flood s = ml_flood_vlans ml \<Longrightarrow> ms_need s = ml_need_revalidate ml \<Longrightarrow>
      mac_spec_op op s = s\<lparr>ms_max := ml_max_entries ml', ms_flood := ml_flood_vlans ml', ms_need := ml_need_revalidate ml'\<rparr>"
  shows "mac_refines op (now, ml)"
proof (rule mac_stepI [OF assms(1) op])
  show "mac_rep ml' es" using rep_cong [OF same(1-4)] assms(1) by simp
  show "mac_times now ml' es" using assms(2) same(5) by (simp add: mac_times_def)
  show "mac_limits ml' es" using assms(3) limits same(5) by (simp add: mac_limits_def)
qed (simp add: spec same(5))

lemma refines_changed:
  assumes "mac_rep ml es" "mac_times now ml es" "mac_limits ml es"
  shows "mac_refines Mac_Changed (now, ml)"
  by (rule refines_settings [OF assms, of _ "mac_learning_changed ml"])
    (use assms(3) in \<open>simp_all add: mac_learning_changed_def mac_limits_def\<close>)

lemma refines_max:
  assumes "mac_rep ml es" "mac_times now ml es" "mac_limits ml es"
  shows "mac_refines (Mac_Max n) (now, ml)"
  by (rule refines_settings [OF assms, of _ "mac_learning_set_max_entries ml n"])
    (use assms(3) in \<open>auto simp: mac_learning_set_max_entries_def mac_limits_def max_def min_def not_less\<close>)

lemma refines_flood:
  assumes "mac_rep ml es" "mac_times now ml es" "mac_limits ml es" "vlan_bitmap_ok b"
  shows "mac_refines (Mac_Flood b) (now, ml)"
  by (rule refines_settings [OF assms(1-3), of _ "ml\<lparr>ml_flood_vlans := b\<rparr>"])
    (use assms(3,4) in \<open>auto simp: mac_learning_set_flood_vlans_def mac_limits_def vlan_bitmap_equal vlan_bitmap_clone\<close>)

lemma normalize_idle_time: "normalize_idle_time t = max 15 (min 3600 t)" "15 \<le> normalize_idle_time t" "normalize_idle_time t \<le> 3600"
  by (auto simp: normalize_idle_time_def max_def min_def word_le_nat_alt word_less_nat_alt word_unat_eq_iff)

lemma sint_small: "uint (x :: u32) \<le> 3600 \<Longrightarrow> sint x = uint x"
  using signed_time [of 0 x] by simp

lemma refines_idle:
  assumes "mac_rep ml es" "mac_times now ml es" "mac_limits ml es"
  shows "mac_refines (Mac_Idle t) (now, ml)"
proof (cases "normalize_idle_time t = ml_idle_time ml")
  case True
  then show ?thesis using assms
    by (intro mac_stepI [OF assms(1), of _ _ now ml es])
      (auto simp: mac_learning_set_idle_time_def normalize_idle_time(1) [symmetric])
next
  case False
  let ?t = "normalize_idle_time t"
  let ?d = "uint ?t - uint (ml_idle_time ml)"
  note num = limits_nums [OF assms(3)]
  have t: "15 \<le> uint ?t" "uint ?t \<le> 3600" using normalize_idle_time(2,3) [of t] by (simp_all add: word_le_def)
  then have d: "c_int (sint ?t - sint (ml_idle_time ml)) = Some ?d" using num by (simp add: sint_small c_int_def)
  have x: "0 \<le> me_expires (snd x) - uint (ml_idle_time ml)" "me_expires (snd x) - uint (ml_idle_time ml) \<le> now" if "x \<in> set es" for x
    using assms(2) that by (auto simp: mac_times_def)
  have now: "now \<le> INT_MAX - 3600" using assms(2) by (simp add: mac_times_def)
  have "\<forall>x \<in> set es. c_int (me_expires (snd x) + ?d) = Some (me_expires (snd x) + ?d)"
  proof
    fix x assume "x \<in> set es"
    from x [OF this] show "c_int (me_expires (snd x) + ?d) = Some (me_expires (snd x) + ?d)" using t now by (simp add: c_int_def)
  qed
  with rep_idle_loop [of ml "[]" es ?d] assms(1) obtain m1 where
    m1: "set_idle_time_loop ?d ml (hd (map fst es @ [ml_lrus ml])) = Some m1" "mac_rep m1 (map (later ?d) es)" "same_settings ml m1" by auto
  let ?m = "m1\<lparr>ml_idle_time := ?t\<rparr>"
  have "l_next (ml_store ml) (ml_lrus ml) = hd (map fst es @ [ml_lrus ml])" by (rule is_list_next [OF rep_list(1) [OF assms(1)]])
  then have step: "mac_step (Mac_Idle t) (now, ml) = Some (now, ?m)"
    using False d m1(1) by (simp add: mac_learning_set_idle_time_def)
  have rep: "mac_rep ?m (map (later ?d) es)" using m1(2) by (simp add: mac_rep_def)
  show ?thesis
  proof (rule mac_stepI [OF assms(1) step rep])
    have "sorted (map (\<lambda>x. me_expires (snd x) + ?d) es)" using assms(2) by (simp add: mac_times_def sorted_map comp_def)
    then show "mac_times now ?m (map (later ?d) es)" using assms(2) by (simp add: mac_times_def comp_def)
    show "mac_limits ?m (map (later ?d) es)"
      using assms(3) normalize_idle_time(2,3) [of t] same_sel [OF m1(3)] by (simp add: mac_limits_def)
  qed (use same_sel [OF m1(3)] in \<open>simp add: normalize_idle_time(1) [symmetric] age_of_def comp_def\<close>)
qed

lemma run_keep_filter:
  "sorted (map (me_expires \<circ> snd) es) \<Longrightarrow>
   run_keep now mx es = filter (\<lambda>x. now < me_expires (snd x)) (drop (length es - mx) es)"
proof (induction es)
  case (Cons x es)
  show ?case
  proof (cases "mx \<le> length es")
    case True
    then show ?thesis using Cons by (simp add: Suc_diff_le)
  next
    case False
    then have "filter (\<lambda>x. now < me_expires (snd x)) es = es" if "now < me_expires (snd x)"
      using that Cons.prems by (fastforce simp: filter_id_conv)
    then show ?thesis using Cons False by auto
  qed
qed simp

lemma rep_run:
  assumes "mac_rep ml es" "mac_times now ml es" "mac_limits ml es"
  defines "es' \<equiv> filter (\<lambda>x. now < me_expires (snd x)) (drop (length es - unat (ml_max_entries ml)) es)"
  obtains ml' where "mac_learning_run now ml = Some (ml_need_revalidate ml \<or> es' \<noteq> es, ml')" "mac_rep ml' es'" "mac_times now ml' es'"
    "mac_limits ml' es'" "ml_idle_time ml' = ml_idle_time ml" "ml_max_entries ml' = ml_max_entries ml"
    "ml_flood_vlans ml' = ml_flood_vlans ml" "\<not> ml_need_revalidate ml'"
proof -
  let ?mx = "unat (ml_max_entries ml)"
  have keep: "run_keep now ?mx es = es'"
    unfolding es'_def using assms(2) by (intro run_keep_filter) (simp add: mac_times_def)
  obtain m1 where m1: "run_loop now ml = Some m1" "mac_rep m1 es'"
    "same_settings (ml\<lparr>ml_need_revalidate := ml_need_revalidate ml \<or> es' \<noteq> es\<rparr>) m1"
    using rep_run_loop [OF assms(1) limits_nums(1) [OF assms(3)] refl, of now] unfolding keep by blast
  let ?m = "m1\<lparr>ml_need_revalidate := False\<rparr>"
  have sel: "ml_idle_time ?m = ml_idle_time ml" "ml_max_entries ?m = ml_max_entries ml" "ml_flood_vlans ?m = ml_flood_vlans ml"
    using same_sel [OF m1(3)] by simp_all
  have "set es' \<subseteq> set es" "sorted (map (me_expires \<circ> snd) es')" "length es' \<le> length es"
    unfolding es'_def using assms(2) length_filter_le [of "\<lambda>x. now < me_expires (snd x)" "drop (length es - ?mx) es"]
    by (auto simp: mac_times_def drop_map [symmetric] sorted_wrt_drop intro!: sorted_filter dest: in_set_dropD)
  then have "mac_times now ?m es'" "mac_limits ?m es'"
    using assms(2,3) unfolding mac_times_def mac_limits_def sel by (blast, linarith)
  moreover have "mac_learning_run now ml = Some (ml_need_revalidate ml \<or> es' \<noteq> es, ?m)"
    using m1(1) same_sel(4) [OF m1(3)] by (simp add: mac_learning_run_def)
  moreover have "mac_rep ?m es'" using m1(2) by (simp add: mac_rep_def)
  ultimately show thesis using that sel by simp
qed

lemma refines_run:
  assumes "mac_rep ml es" "mac_times now ml es" "mac_limits ml es"
  shows "mac_refines Mac_Run (now, ml)"
  by (rule rep_run [OF assms], rule mac_stepI [OF assms(1)])
    (auto simp: filter_map comp_def age_of_def drop_map)

lemma refines_flush:
  assumes "mac_rep ml es" "mac_times now ml es" "mac_limits ml es"
  shows "mac_refines Mac_Flush (now, ml)"
proof -
  obtain ml' where ml': "mac_learning_flush ml = Some ml'" "mac_rep ml' []"
    "same_settings (ml\<lparr>ml_need_revalidate := ml_need_revalidate ml \<or> es \<noteq> []\<rparr>) ml'" using rep_flush [OF assms(1)] by blast
  show ?thesis
    by (rule mac_stepI [OF assms(1) _ ml'(2), of _ now now])
      (use ml'(1) same_sel [OF ml'(3)] assms(2,3) in \<open>simp_all add: mac_times_def mac_limits_def\<close>)
qed

interpretation mac: refined_machine mac_inv mac_ok mac_step mac_abs mac_spec_op
proof
  fix s op
  assume "mac_inv s" "mac_ok s op"
  then obtain now ml es where s: "s = (now, ml)" "mac_rep ml es" "mac_times now ml es" "mac_limits ml es" "mac_ok (now, ml) op"
    by (cases s) (auto simp: mac_inv_def)
  note c = s(2-4)
  show "mac_refines op s"
  proof (cases op)
    case (Mac_Insert a mac vlan)
    show ?thesis using s(5) refines_insert_old [OF c] refines_insert_new [OF c]
      unfolding s(1) Mac_Insert by (cases "mac_entry_lookup ml mac vlan") auto
  qed (use s(5) refines_tick [OF c] refines_port [OF c] refines_lock [OF c] refines_expire [OF c] refines_changed [OF c]
      refines_max [OF c] refines_flood [OF c] refines_idle [OF c] refines_run [OF c] refines_flush [OF c]
     in \<open>auto simp only: s(1) mac_ok.simps\<close>)
qed

section \<open>Properties\<close>

lemma mac_create_inv:
  assumes "0 \<le> now" "now \<le> INT_MAX - 3600"
  shows "mac_inv (now, mac_learning_create lrus store secret idle)"
    "mac_abs (now, mac_learning_create lrus store secret idle)
     = \<lparr>ms_now = now, ms_idle = max 15 (min 3600 idle), ms_max = 2048, ms_flood = None, ms_need = False, ms_entries = []\<rparr>"
proof -
  let ?ml = "mac_learning_create lrus store secret idle"
  have rep: "mac_rep ?ml []"
    by (simp add: mac_rep_def mac_learning_create_def is_list_init keyed_by_def)
  then show "mac_inv (now, ?ml)"
    using assms normalize_idle_time(2,3) [of idle]
    by (auto simp: mac_inv_def mac_times_def mac_limits_def mac_learning_create_def vlan_bitmap_ok_def intro!: exI [of _ "[]"])
  show "mac_abs (now, ?ml) = \<lparr>ms_now = now, ms_idle = max 15 (min 3600 idle), ms_max = 2048, ms_flood = None, ms_need = False, ms_entries = []\<rparr>"
    using rep_abs [OF rep, of now] by (simp add: mac_learning_create_def normalize_idle_time(1))
qed

lemma sint_of_int:
  assumes "0 \<le> x" "x \<le> INT_MAX"
  shows "sint (word_of_int x :: u32) = x"
  using signed_time [of x 0] assms by simp

lemma age_used:
  assumes "mac_times now ml es" "mac_limits ml es" "x \<in> set es"
  shows "mac_entry_age now ml (snd x) = Some (now - (me_expires (snd x) - uint (ml_idle_time ml)))"
proof -
  let ?u = "me_expires (snd x) - uint (ml_idle_time ml)"
  have t: "0 \<le> ?u" "?u \<le> now" "now \<le> INT_MAX - 3600" using assms(1,3) by (auto simp: mac_times_def)
  have "15 \<le> uint (ml_idle_time ml)" "uint (ml_idle_time ml) \<le> 3600" using limits_nums(2,3) [OF assms(2)] .
  then have "c_int (me_expires (snd x) - now) = Some (me_expires (snd x) - now)" using t by (simp add: c_int_def)
  moreover have "ml_idle_time ml - word_of_int (me_expires (snd x) - now) = word_of_int (now - ?u)" by simp
  moreover have "sint (word_of_int (now - ?u) :: u32) = now - ?u" using t by (intro sint_of_int) linarith+
  ultimately show ?thesis by (simp only: mac_entry_age_def Option.bind.simps)
qed

lemma sorted_filter_drop: "sorted (map f es) \<Longrightarrow> \<exists>k \<le> length es. filter (\<lambda>x. c < f x) es = drop k es" for c :: int
proof (induction es)
  case (Cons x es)
  show ?case
  proof (cases "c < f x")
    case True
    then have "filter (\<lambda>x. c < f x) (x # es) = x # es" using Cons.prems by (fastforce simp: filter_id_conv)
    then show ?thesis by (intro exI [of _ 0]) simp
  next
    case False
    then show ?thesis using Cons by (auto intro: exI [of _ "Suc k" for k])
  qed
qed simp

text \<open>
  C31.  The MAC learning table as a sequence of ages.  From a new table on, any sequence of learning, port
  assignment, ARP locks, expiry, configuration changes, periodic runs and flushes, with time passing in between,
  has a defined result, keeps the hash map and the list of least recent use consistent, and does to the entries
  what the specification says: an entry that is used again becomes the most recent one, a full table drops
  its least recently used entry, a run drops what is idle or in excess, and a new idle time leaves every entry's age alone.
\<close>

theorem mac_run_refines:
  assumes "0 \<le> now" "now \<le> INT_MAX - 3600"
    and "oks mac_ok mac_step ops (now, mac_learning_create lrus store secret idle)"
  shows "\<exists>s. run_steps mac_step ops (now, mac_learning_create lrus store secret idle) = Some s \<and> mac_inv s
    \<and> mac_abs s = fold mac_spec_op ops
        \<lparr>ms_now = now, ms_idle = max 15 (min 3600 idle), ms_max = 2048, ms_flood = None, ms_need = False, ms_entries = []\<rparr>"
  using mac.run_refines [OF mac_create_inv(1) [OF assms(1,2)] assms(3)] unfolding mac_create_inv(2) [OF assms(1,2)] .

abbreviation example_ops :: "mac_op list" where
  "example_ops \<equiv> [Mac_Insert 8 [0, 1, 2, 3, 4, 5] 7, Mac_Port [0, 1, 2, 3, 4, 5] 7 3, Mac_Changed, Mac_Tick 10,
     Mac_Insert 16 [0, 1, 2, 3, 4, 6] 7, Mac_Idle 20, Mac_Tick 15, Mac_Run]"

theorem mac_run_refines_witness:
  "\<exists>s. run_steps mac_step example_ops (1000, mac_learning_create 4 \<lparr>l_prev = id, l_next = id\<rparr> 5 300) = Some s
    \<and> ms_entries (mac_abs s) = [(([0, 1, 2, 3, 4, 6], 7), 1010, TIME_MIN, 0)]"
proof -
  have "oks mac_ok mac_step example_ops (1000, mac_learning_create 4 \<lparr>l_prev = id, l_next = id\<rparr> 5 300)" by code_simp
  then obtain s where s: "run_steps mac_step example_ops (1000, mac_learning_create 4 \<lparr>l_prev = id, l_next = id\<rparr> 5 300) = Some s"
    "mac_abs s = fold mac_spec_op example_ops
       \<lparr>ms_now = 1000, ms_idle = max 15 (min 3600 300), ms_max = 2048, ms_flood = None, ms_need = False, ms_entries = []\<rparr>"
    using mac_run_refines [of 1000 example_ops 4 "\<lparr>l_prev = id, l_next = id\<rparr>" 5 300] by auto
  have "ms_entries (fold mac_spec_op example_ops
      \<lparr>ms_now = 1000, ms_idle = max 15 (min 3600 300), ms_max = 2048, ms_flood = None, ms_need = False, ms_entries = []\<rparr>)
    = [(([0, 1, 2, 3, 4, 6], 7), 1010, TIME_MIN, 0)]" by code_simp
  then show ?thesis using s by auto
qed

text \<open>
  C32.  \<^verbatim>\<open>mac_learning_run\<close> ends, and it leaves a consistent table with at most as many entries as the
  configuration allows, each with an age below the idle time; it only drops entries, the least recently used ones; and it
  returns true if and only if something had been marked as changed before or an entry was dropped.
\<close>

theorem mac_learning_run_expires:
  assumes "mac_inv (now, ml)"
  shows "\<exists>need ml' k. mac_learning_run now ml = Some (need, ml') \<and> mac_inv (now, ml')
    \<and> hmap_count (ml_table ml') \<le> ml_max_entries ml'
    \<and> lru_entries ml' = drop k (lru_entries ml)
    \<and> (\<forall>e \<in> set (lru_entries ml'). \<exists>age. mac_entry_age now ml' e = Some age \<and> 0 \<le> age \<and> age < uint (ml_idle_time ml'))
    \<and> (need \<longleftrightarrow> ml_need_revalidate ml \<or> lru_entries ml' \<noteq> lru_entries ml)"
proof -
  obtain es where es: "mac_rep ml es" "mac_times now ml es" "mac_limits ml es" using assms by (auto simp: mac_inv_def)
  let ?es = "drop (length es - unat (ml_max_entries ml)) es"
  define es' where "es' = filter (\<lambda>x. now < me_expires (snd x)) ?es"
  obtain ml' where ml': "mac_learning_run now ml = Some (ml_need_revalidate ml \<or> es' \<noteq> es, ml')" "mac_rep ml' es'" "mac_times now ml' es'"
    "mac_limits ml' es'" "ml_max_entries ml' = ml_max_entries ml" by (rule rep_run [OF es, folded es'_def])
  have "sorted (map (me_expires \<circ> snd) ?es)" using es(2) by (simp add: mac_times_def drop_map [symmetric] sorted_wrt_drop)
  from sorted_filter_drop [OF this] obtain j where "es' = drop j ?es" unfolding es'_def by auto
  then obtain k where k: "es' = drop k es" by simp
  have "length es' \<le> unat (ml_max_entries ml)" unfolding es'_def by (rule order_trans [OF length_filter_le]) simp
  then have "hmap_count (ml_table ml') \<le> ml_max_entries ml'"
    using rep_count [OF ml'(2)] limits_nums(5) [OF es(3)] unfolding ml'(5) word_le_nat_alt by simp
  moreover have "\<exists>age. mac_entry_age now ml' e = Some age \<and> 0 \<le> age \<and> age < uint (ml_idle_time ml')" if e: "e \<in> set (lru_entries ml')" for e
  proof -
    obtain x where x: "x \<in> set es'" "e = snd x" using e rep_entries [OF ml'(2)] by auto
    then have "now < me_expires e" unfolding es'_def by auto
    then show ?thesis using age_used [OF ml'(3,4) x(1)] ml'(3) x by (auto simp: mac_times_def)
  qed
  moreover have "lru_entries ml' = drop k (lru_entries ml)" using rep_entries [OF ml'(2)] rep_entries [OF es(1)] k by (simp add: drop_map)
  moreover have "es' \<noteq> es \<longleftrightarrow> lru_entries ml' \<noteq> lru_entries ml"
    unfolding rep_entries [OF ml'(2)] rep_entries [OF es(1)]
    by (metis k append_self_conv2 append_take_drop_id length_map length_append length_0_conv add_cancel_left_left)
  moreover have "mac_inv (now, ml')" using ml' by (auto simp: mac_inv_def)
  ultimately show ?thesis using ml'(1) by blast
qed

abbreviation example_table :: mac_learning where
  "example_table \<equiv> mac_learning_create 4 \<lparr>l_prev = id, l_next = id\<rparr> 5 300"

text \<open>A table with one entry, learned 400 seconds ago on port 3.\<close>

lemma example_idle:
  "\<exists>now ml. run_steps mac_step [Mac_Insert 8 [0, 1, 2, 3, 4, 5] 7, Mac_Port [0, 1, 2, 3, 4, 5] 7 3, Mac_Tick 400] (1000, example_table) = Some (now, ml)
    \<and> mac_inv (now, ml) \<and> ml_flood_vlans ml = None \<and> ms_entries (mac_abs (now, ml)) = [(([0, 1, 2, 3, 4, 5], 7), 1000, TIME_MIN, 3)]"
proof -
  let ?ops = "[Mac_Insert 8 [0, 1, 2, 3, 4, 5] 7, Mac_Port [0, 1, 2, 3, 4, 5] 7 3, Mac_Tick 400]"
  have inv: "mac_inv (1000, example_table)" by (rule mac_create_inv(1)) simp_all
  have abs0: "mac_abs (1000, example_table)
      = \<lparr>ms_now = 1000, ms_idle = max 15 (min 3600 300), ms_max = 2048, ms_flood = None, ms_need = False, ms_entries = []\<rparr>"
    by (rule mac_create_inv(2)) simp_all
  have "oks mac_ok mac_step ?ops (1000, example_table)" by code_simp
  then obtain s where s: "run_steps mac_step ?ops (1000, example_table) = Some s" "mac_inv s"
    "mac_abs s = fold mac_spec_op ?ops (mac_abs (1000, example_table))" using mac.run_refines [OF inv] by blast
  have "ms_entries (mac_abs s) = [(([0, 1, 2, 3, 4, 5], 7), 1000, TIME_MIN, 3)]" "ms_flood (mac_abs s) = None"
    unfolding s(3) abs0 by simp_all
  then show ?thesis using s by (cases s) (auto simp: mac_abs_def)
qed

theorem mac_learning_run_expires_witness:
  "\<exists>now ml need ml'. mac_inv (now, ml) \<and> length (lru_entries ml) = 1 \<and> mac_learning_run now ml = Some (need, ml')
    \<and> hmap_count (ml_table ml') \<le> ml_max_entries ml' \<and> (need \<longleftrightarrow> ml_need_revalidate ml \<or> lru_entries ml' \<noteq> lru_entries ml)"
proof -
  obtain now ml where ml: "mac_inv (now, ml)" "ms_entries (mac_abs (now, ml)) = [(([0, 1, 2, 3, 4, 5], 7), 1000, TIME_MIN, 3)]"
    using example_idle by blast
  have "length (lru_entries ml) = length (ms_entries (mac_abs (now, ml)))" by (simp add: mac_abs_def)
  then have "length (lru_entries ml) = 1" using ml(2) by simp
  then show ?thesis using ml(1) mac_learning_run_expires [OF ml(1)] by blast
qed

text \<open>
  C33.  \<^verbatim>\<open>mac_learning_lookup\<close> gives the port of the entry for the address and VLAN: none for a multicast
  address or a VLAN that is flooded, and otherwise the one that was assigned last, if there is an entry.  The callers
  have to give every new entry a port; an entry without one fails the assertion.
\<close>

theorem mac_lookup_refines:
  assumes "mac_inv (now, ml)" "length dst = 6" "unat vlan < 4096"
    and "\<forall>(k, used, lock, port) \<in> set (ms_entries (mac_abs (now, ml))). port \<noteq> 0"
  shows "map_option (map_option (\<lambda>nd. me_port (hn_data nd))) (mac_learning_lookup ml dst vlan)
    = Some (if eth_addr_is_multicast dst \<or> (case ml_flood_vlans ml of None \<Rightarrow> False | Some b \<Rightarrow> bm_bit b (unat vlan)) then None
        else map_option (snd \<circ> snd) (map_of (ms_entries (mac_abs (now, ml))) (dst, vlan)))"
proof -
  obtain es where es: "mac_rep ml es" "mac_limits ml es" using assms(1) by (auto simp: mac_inv_def)
  let ?flood = "case ml_flood_vlans ml of None \<Rightarrow> False | Some b \<Rightarrow> bm_bit b (unat vlan)"
  have learning: "is_learning_vlan ml vlan = Some (\<not> ?flood)"
    using es(2) assms(3) by (auto simp: is_learning_vlan_def mac_limits_def vlan_bitmap_ok_def bitmap_is_set split: option.splits)
  have entries: "ms_entries (mac_abs (now, ml)) = ages ml es" using rep_abs [OF es(1)] by simp
  show ?thesis
  proof (cases "mac_entry_lookup ml dst vlan")
    case None
    then have "(dst, vlan) \<notin> fst ` set (ages ml es)" using rep_lookup(2) [OF es(1) assms(2), of vlan] by (auto simp: age_of_def image_iff)
    then have "map_of (ages ml es) (dst, vlan) = None" by (simp add: map_of_eq_None_iff)
    then show ?thesis using None learning unfolding entries by (simp add: mac_learning_lookup_def)
  next
    case (Some nd)
    obtain xs e ys where e: "es = xs @ (hn_addr nd, e) # ys" "hn_data nd = e"
      "map_of (ages ml es) (dst, vlan) = Some (me_expires e - uint (ml_idle_time ml), me_grat_arp_lock e, me_port e)"
      by (rule key_split [OF es(1) Some assms(2)])
    have "age_of (ml_idle_time ml) e \<in> set (ages ml es)" using e(1) by simp
    then have "me_port e \<noteq> 0" using assms(4) unfolding entries by (auto simp: age_of_def)
    then show ?thesis using Some learning e(2,3) unfolding entries by (simp add: mac_learning_lookup_def)
  qed
qed

theorem mac_lookup_refines_witness:
  "\<exists>now ml. mac_inv (now, ml) \<and> map_option (map_option (\<lambda>nd. me_port (hn_data nd))) (mac_learning_lookup ml [0, 1, 2, 3, 4, 5] 7) = Some (Some 3)"
proof -
  obtain now ml where ml: "mac_inv (now, ml)" "ml_flood_vlans ml = None"
    "ms_entries (mac_abs (now, ml)) = [(([0, 1, 2, 3, 4, 5], 7), 1000, TIME_MIN, 3)]" using example_idle by blast
  then show ?thesis using mac_lookup_refines [OF ml(1), of "[0, 1, 2, 3, 4, 5]" 7] by (auto simp: eth_addr_is_multicast_def)
qed

end
