(* ===== verification/Ovs_Miniflow.thy ===== *)
theory Ovs_Miniflow
  imports Ovs_Bits Ovs_Hash
begin

text \<open>
  Flows, wildcards and their compressed forms: \<^verbatim>\<open>lib/flow.c\<close>, \<^verbatim>\<open>lib/flow.h\<close> and the functions on
  \<^verbatim>\<open>struct minimatch\<close> of \<^verbatim>\<open>lib/match.c\<close>.

  A \<^verbatim>\<open>struct flow\<close> is the array of its 32-bit words, which is how these functions use it; on i686 it has 44.
  A miniflow holds the words for the 1-bits of its map, in increasing order.  The array \<^verbatim>\<open>values\<close> has one
  element for each of them, inside the struct or in allocated memory; where it is makes no difference here.
\<close>

section \<open>Data\<close>

abbreviation FLOW_U32S :: nat where "FLOW_U32S \<equiv> 44"

type_synonym uflow = "u32 list"

record miniflow =
  mf_map :: u64
  mf_values :: "u32 list"

type_synonym minimask = miniflow

record minimatch =
  mt_flow :: miniflow
  mt_mask :: minimask

record match_rec =
  ma_flow :: uflow
  ma_wc :: uflow

text \<open>The values of \<^verbatim>\<open>raw_ctz(map)\<close> in the loop \<^verbatim>\<open>for (; map; map = zero_rightmost_1bit(map))\<close>.\<close>

function for_map :: "u64 \<Rightarrow> nat list" where
  "for_map mp = (if mp \<noteq> 0 then nat (raw_ctz mp) # for_map (zero_rightmost_1bit mp) else [])"
  by pat_completeness auto

lemma lowest_ctz: "x \<noteq> 0 \<Longrightarrow> lowest x (nat (raw_ctz x))"
  using lowest_exists [of x] raw_ctz_lowest [of x] by auto

termination for_map
proof (relation "measure popcount")
  fix x :: u64 assume "x \<noteq> 0"
  then obtain l where l: "lowest x l" using lowest_exists by blast
  have "{i. bit (zero_rightmost_1bit x) i} = {i. bit x i} - {l}"
    unfolding zero_rightmost_1bit [OF l] by (auto simp: bit_unset_bit_iff)
  moreover have "l \<in> {i. bit x i}" using l by (simp add: lowest_def)
  moreover have "finite {i. bit x i}" by (rule finite_subset [of _ "{..< 64}"]) (use bit_imp_le_length [of x] in auto)
  ultimately have "card {i. bit (zero_rightmost_1bit x) i} < card {i. bit x i}" by (intro psubset_card_mono) auto
  then show "(zero_rightmost_1bit x, x) \<in> measure popcount" by (simp add: popcount_card)
qed simp

declare for_map.simps [simp del]

text \<open>The same loop with a pointer into the values that advances in every round.\<close>

abbreviation for_values :: "u64 \<Rightarrow> u32 list \<Rightarrow> (nat \<times> u32) list" where
  "for_values mp p \<equiv> zip (for_map mp) p"

section \<open>Wildcards\<close>

definition flow_zero_wildcards :: "uflow \<Rightarrow> uflow \<Rightarrow> uflow" where
  "flow_zero_wildcards flow wc = map2 (AND) flow wc"

definition flow_wildcards_init_catchall :: uflow where
  "flow_wildcards_init_catchall = replicate FLOW_U32S 0"

definition flow_wildcards_is_catchall :: "uflow \<Rightarrow> bool" where
  "flow_wildcards_is_catchall wc \<longleftrightarrow> list_all (\<lambda>w. w = 0) wc"

definition flow_wildcards_and :: "uflow \<Rightarrow> uflow \<Rightarrow> uflow" where
  "flow_wildcards_and src1 src2 = map2 (AND) src1 src2"

definition flow_wildcards_or :: "uflow \<Rightarrow> uflow \<Rightarrow> uflow" where
  "flow_wildcards_or src1 src2 = map2 (OR) src1 src2"

definition flow_union_with_miniflow :: "uflow \<Rightarrow> miniflow \<Rightarrow> uflow" where
  "flow_union_with_miniflow dst src = foldl (\<lambda>dst (i, v). dst[i := dst ! i OR v]) dst (for_values (mf_map src) (mf_values src))"

definition flow_wildcards_fold_minimask :: "uflow \<Rightarrow> minimask \<Rightarrow> uflow" where
  "flow_wildcards_fold_minimask wc mk = flow_union_with_miniflow wc mk"

text \<open>The result is the map and the number of values to skip.\<close>

definition miniflow_get_map_in_range :: "miniflow \<Rightarrow> nat \<Rightarrow> nat \<Rightarrow> u64 \<times> nat" where
  "miniflow_get_map_in_range miniflow start end0 =
     (let mp = mf_map miniflow;
          msk = push_bit start 1 - 1;
          (offset, mp) = (if start > 0 then (count_1bits (mp AND msk), mp AND NOT msk) else (0, mp));
          msk = push_bit end0 1 - 1;
          mp = (if end0 < FLOW_U32S then mp AND msk else mp)
      in (mp, offset))"

definition flow_wildcards_fold_minimask_range :: "uflow \<Rightarrow> minimask \<Rightarrow> nat \<Rightarrow> nat \<Rightarrow> uflow" where
  "flow_wildcards_fold_minimask_range wc mk start end0 =
     (let (mp, offset) = miniflow_get_map_in_range mk start end0
      in foldl (\<lambda>dst (i, v). dst[i := dst ! i OR v]) wc (for_values mp (drop offset (mf_values mk))))"

definition flow_wildcards_hash :: "uflow \<Rightarrow> u32 \<Rightarrow> u32" where
  "flow_wildcards_hash wc basis = hash_words wc basis"

definition flow_wildcards_equal :: "uflow \<Rightarrow> uflow \<Rightarrow> bool" where
  "flow_wildcards_equal a b \<longleftrightarrow> a = b"

definition flow_wildcards_has_extra :: "uflow \<Rightarrow> uflow \<Rightarrow> bool" where
  "flow_wildcards_has_extra a b \<longleftrightarrow> list_ex (\<lambda>(a, b). a AND b \<noteq> b) (zip a b)"

definition flow_equal_except :: "uflow \<Rightarrow> uflow \<Rightarrow> uflow \<Rightarrow> bool" where
  "flow_equal_except a b wc \<longleftrightarrow> \<not> list_ex (\<lambda>(a, b, w). (a XOR b) AND w \<noteq> 0) (zip a (zip b wc))"

definition flow_hash_in_wildcards :: "uflow \<Rightarrow> uflow \<Rightarrow> u32 \<Rightarrow> u32" where
  "flow_hash_in_wildcards flow wc basis =
     mhash_finish (foldl (\<lambda>hash (f, w). mhash_add hash (f AND w)) basis (zip flow wc)) (4 * of_nat FLOW_U32S)"

section \<open>Miniflows\<close>

definition miniflow_n_values :: "miniflow \<Rightarrow> nat" where
  "miniflow_n_values flow = count_1bits (mf_map flow)"

definition miniflow_init0 :: "u64 \<Rightarrow> uflow \<Rightarrow> miniflow" where
  "miniflow_init0 mp src = \<lparr>mf_map = mp, mf_values = map (\<lambda>i. src ! i) (for_map mp)\<rparr>"

definition miniflow_init :: "uflow \<Rightarrow> miniflow" where
  "miniflow_init src =
     (let mp = foldl (\<lambda>mp i. if src ! i \<noteq> 0 then mp OR push_bit i 1 else mp) 0 [0..<FLOW_U32S]
      in miniflow_init0 mp src)"

definition miniflow_init_with_minimask :: "uflow \<Rightarrow> minimask \<Rightarrow> miniflow" where
  "miniflow_init_with_minimask src mk = miniflow_init0 (mf_map mk) src"

definition miniflow_clone :: "miniflow \<Rightarrow> miniflow" where
  "miniflow_clone src =
     (let n = miniflow_n_values src in \<lparr>mf_map = mf_map src, mf_values = take n (mf_values src)\<rparr>)"

definition miniflow_expand :: "miniflow \<Rightarrow> uflow" where
  "miniflow_expand src = flow_union_with_miniflow (replicate FLOW_U32S 0) src"

definition miniflow_get :: "miniflow \<Rightarrow> nat \<Rightarrow> u32" where
  "miniflow_get flow u32_ofs =
     (if mf_map flow AND push_bit u32_ofs 1 = 0 then 0
      else mf_values flow ! count_1bits (mf_map flow AND (push_bit u32_ofs 1 - 1)))"

text \<open>A 16-bit member in the byte order of the network, and the VLAN of \<^verbatim>\<open>vlan_tci\<close>, which is at byte 86.\<close>

definition miniflow_get_be16 :: "miniflow \<Rightarrow> nat \<Rightarrow> u16" where
  "miniflow_get_be16 flow u8_ofs =
     (let w = miniflow_get flow (u8_ofs div 4); h = (if u8_ofs mod 4 \<noteq> 0 then drop_bit 16 w else w)
      in push_bit 8 (ucast h) OR drop_bit 8 (ucast h))"

definition miniflow_get_vid :: "miniflow \<Rightarrow> u16" where
  "miniflow_get_vid flow = miniflow_get_be16 flow 86 AND 0xfff"

fun equal_values :: "u64 \<Rightarrow> u64 \<Rightarrow> nat list \<Rightarrow> u32 list \<Rightarrow> u32 list \<Rightarrow> bool" where
  "equal_values a_map b_map [] ap bp \<longleftrightarrow> True"
| "equal_values a_map b_map (i # is) ap bp \<longleftrightarrow>
     (let (a_value, ap) = (if a_map AND push_bit i 1 \<noteq> 0 then (hd ap, tl ap) else (0, ap));
          (b_value, bp) = (if b_map AND push_bit i 1 \<noteq> 0 then (hd bp, tl bp) else (0, bp))
      in a_value = b_value \<and> equal_values a_map b_map is ap bp)"

definition miniflow_equal :: "miniflow \<Rightarrow> miniflow \<Rightarrow> bool" where
  "miniflow_equal a b \<longleftrightarrow>
     (let a_map = mf_map a; b_map = mf_map b
      in if a_map = b_map then list_all (\<lambda>(i, x, y). x = y) (zip (for_map a_map) (zip (mf_values a) (mf_values b)))
         else equal_values a_map b_map (for_map (a_map OR b_map)) (mf_values a) (mf_values b))"

definition miniflow_equal_in_minimask :: "miniflow \<Rightarrow> miniflow \<Rightarrow> minimask \<Rightarrow> bool" where
  "miniflow_equal_in_minimask a b mk \<longleftrightarrow>
     \<not> list_ex (\<lambda>(ofs, p). (miniflow_get a ofs XOR miniflow_get b ofs) AND p \<noteq> 0) (for_values (mf_map mk) (mf_values mk))"

definition miniflow_equal_flow_in_minimask :: "miniflow \<Rightarrow> uflow \<Rightarrow> minimask \<Rightarrow> bool" where
  "miniflow_equal_flow_in_minimask a b mk \<longleftrightarrow>
     \<not> list_ex (\<lambda>(ofs, p). (miniflow_get a ofs XOR b ! ofs) AND p \<noteq> 0) (for_values (mf_map mk) (mf_values mk))"

definition miniflow_hash :: "miniflow \<Rightarrow> u32 \<Rightarrow> u32" where
  "miniflow_hash flow basis =
     (let (hash, hash_map) = foldl (\<lambda>(hash, hash_map) (i, p). if p \<noteq> 0 then (mhash_add hash p, hash_map OR push_bit i 1) else (hash, hash_map))
            (basis, 0 :: u64) (for_values (mf_map flow) (mf_values flow));
          hash = mhash_add hash (ucast hash_map);
          hash = mhash_add hash (ucast (drop_bit 32 hash_map))
      in mhash_finish hash (of_nat (length (for_map (mf_map flow)))))"

definition miniflow_hash_in_minimask :: "miniflow \<Rightarrow> minimask \<Rightarrow> u32 \<Rightarrow> u32" where
  "miniflow_hash_in_minimask flow mk basis =
     mhash_finish (foldl (\<lambda>hash (i, p). mhash_add hash (miniflow_get flow i AND p)) basis (for_values (mf_map mk) (mf_values mk)))
       (of_nat (length (for_map (mf_map mk))) * 4)"

definition flow_hash_in_minimask :: "uflow \<Rightarrow> minimask \<Rightarrow> u32 \<Rightarrow> u32" where
  "flow_hash_in_minimask flow mk basis =
     mhash_finish (foldl (\<lambda>hash (i, p). mhash_add hash (flow ! i AND p)) basis (for_values (mf_map mk) (mf_values mk)))
       (of_nat (length (for_map (mf_map mk))) * 4)"

text \<open>The hash, and the unfinished value from which a later range continues.\<close>

definition flow_hash_in_minimask_range :: "uflow \<Rightarrow> minimask \<Rightarrow> nat \<Rightarrow> nat \<Rightarrow> u32 \<Rightarrow> u32 \<times> u32" where
  "flow_hash_in_minimask_range flow mk start end0 basis =
     (let (mp, offset) = miniflow_get_map_in_range mk start end0;
          hash = foldl (\<lambda>hash (i, p). mhash_add hash (flow ! i AND p)) basis (for_values mp (drop offset (mf_values mk)))
      in (mhash_finish hash (of_nat (offset + length (for_map mp)) * 4), hash))"

section \<open>Minimasks\<close>

definition minimask_init :: "uflow \<Rightarrow> minimask" where
  "minimask_init wc = miniflow_init wc"

definition minimask_clone :: "minimask \<Rightarrow> minimask" where
  "minimask_clone src = miniflow_clone src"

definition minimask_combine :: "minimask \<Rightarrow> minimask \<Rightarrow> minimask" where
  "minimask_combine a b =
     foldl (\<lambda>dst ofs. let mk = miniflow_get a ofs AND miniflow_get b ofs
                      in if mk \<noteq> 0 then \<lparr>mf_map = mf_map dst OR push_bit ofs 1, mf_values = mf_values dst @ [mk]\<rparr> else dst)
       \<lparr>mf_map = 0, mf_values = []\<rparr> (for_map (mf_map a AND mf_map b))"

definition minimask_expand :: "minimask \<Rightarrow> uflow" where
  "minimask_expand mk = miniflow_expand mk"

definition minimask_get :: "minimask \<Rightarrow> nat \<Rightarrow> u32" where
  "minimask_get mk u32_ofs = miniflow_get mk u32_ofs"

definition minimask_get_vid_mask :: "minimask \<Rightarrow> u16" where
  "minimask_get_vid_mask mk = miniflow_get_vid mk"

definition minimask_equal :: "minimask \<Rightarrow> minimask \<Rightarrow> bool" where
  "minimask_equal a b \<longleftrightarrow> miniflow_equal a b"

definition minimask_hash :: "minimask \<Rightarrow> u32 \<Rightarrow> u32" where
  "minimask_hash mk basis = miniflow_hash mk basis"

definition minimask_has_extra :: "minimask \<Rightarrow> minimask \<Rightarrow> bool" where
  "minimask_has_extra a b \<longleftrightarrow>
     list_ex (\<lambda>ofs. miniflow_get a ofs AND miniflow_get b ofs \<noteq> miniflow_get b ofs) (for_map (mf_map a OR mf_map b))"

definition minimask_is_catchall :: "minimask \<Rightarrow> bool" where
  "minimask_is_catchall mk \<longleftrightarrow> list_all (\<lambda>(i, p). p = 0) (for_values (mf_map mk) (mf_values mk))"

text \<open>The bytes of \<^verbatim>\<open>metadata\<close>, which is at words 5 and 6, as the integer in the byte order of the host.\<close>

definition miniflow_get_metadata :: "miniflow \<Rightarrow> u64" where
  "miniflow_get_metadata flow = (let hi = miniflow_get flow 5; lo = miniflow_get flow 6 in push_bit 32 (ucast lo) OR ucast hi)"

definition minimask_get_metadata_mask :: "minimask \<Rightarrow> u64" where
  "minimask_get_metadata_mask mk = miniflow_get_metadata mk"

section \<open>Minimatches\<close>

definition minimatch_init :: "match_rec \<Rightarrow> minimatch" where
  "minimatch_init src =
     (let mk = minimask_init (ma_wc src) in \<lparr>mt_flow = miniflow_init_with_minimask (ma_flow src) mk, mt_mask = mk\<rparr>)"

definition minimatch_clone :: "minimatch \<Rightarrow> minimatch" where
  "minimatch_clone src = \<lparr>mt_flow = miniflow_clone (mt_flow src), mt_mask = minimask_clone (mt_mask src)\<rparr>"

definition minimatch_expand :: "minimatch \<Rightarrow> match_rec" where
  "minimatch_expand src = \<lparr>ma_flow = miniflow_expand (mt_flow src), ma_wc = minimask_expand (mt_mask src)\<rparr>"

definition minimatch_equal :: "minimatch \<Rightarrow> minimatch \<Rightarrow> bool" where
  "minimatch_equal a b \<longleftrightarrow> miniflow_equal (mt_flow a) (mt_flow b) \<and> minimask_equal (mt_mask a) (mt_mask b)"

definition minimatch_hash :: "minimatch \<Rightarrow> u32 \<Rightarrow> u32" where
  "minimatch_hash match basis = miniflow_hash (mt_flow match) (minimask_hash (mt_mask match) basis)"

definition minimatch_matches_flow :: "minimatch \<Rightarrow> uflow \<Rightarrow> bool" where
  "minimatch_matches_flow match target \<longleftrightarrow>
     \<not> list_ex (\<lambda>(i, f, m). (f XOR target ! i) AND m \<noteq> 0)
       (zip (for_map (mf_map (mt_flow match))) (zip (mf_values (mt_flow match)) (mf_values (mt_mask match))))"

definition minimatch_hash_range :: "minimatch \<Rightarrow> nat \<Rightarrow> nat \<Rightarrow> u32 \<Rightarrow> u32 \<times> u32" where
  "minimatch_hash_range match start end0 basis =
     (let (mp, offset) = miniflow_get_map_in_range (mt_mask match) start end0;
          n = count_1bits mp;
          q = drop offset (mf_values (mt_mask match));
          p = drop offset (mf_values (mt_flow match));
          hash = foldl (\<lambda>hash i. mhash_add hash (p ! i AND q ! i)) basis [0..<n]
      in (mhash_finish hash (of_nat (offset + n) * 4), hash))"

section \<open>The loop over the map\<close>

lemma set_for_map: "set (for_map m) = {i. bit m i}"
proof (induction m rule: for_map.induct)
  case (1 m)
  show ?case
  proof (cases "m = 0")
    case False
    then have l: "lowest m (nat (raw_ctz m))" by (rule lowest_ctz)
    have "set (for_map m) = insert (nat (raw_ctz m)) {i. bit (unset_bit (nat (raw_ctz m)) m) i}"
      using 1 [OF False] False zero_rightmost_1bit [OF l] by (subst for_map.simps) simp
    then show ?thesis using l by (auto simp: bit_unset_bit_iff lowest_def)
  qed (simp add: for_map.simps)
qed

lemma sorted_for_map: "sorted_wrt (<) (for_map m)"
proof (induction m rule: for_map.induct)
  case (1 m)
  show ?case
  proof (cases "m = 0")
    case False
    then have l: "lowest m (nat (raw_ctz m))" by (rule lowest_ctz)
    have "nat (raw_ctz m) < i" if "i \<in> set (for_map (zero_rightmost_1bit m))" for i
      using l that unfolding set_for_map zero_rightmost_1bit [OF l]
      by (auto simp: bit_unset_bit_iff lowest_def) (metis linorder_neqE_nat)
    then show ?thesis using 1 [OF False] False by (subst for_map.simps) simp
  qed (simp add: for_map.simps)
qed

lemma bit_u64_less: "bit (x :: u64) i \<Longrightarrow> i < 64"
  using bit_imp_le_length [of x i] by simp

lemma for_map_filter: "for_map m = filter (bit m) [0..<64]"
proof (rule sorted_distinct_set_unique)
  show "sorted (for_map m)" "distinct (for_map m)"
    using sorted_for_map [of m] by (auto simp: strict_sorted_iff)
  show "set (for_map m) = set (filter (bit m) [0..<64])" by (auto simp: set_for_map bit_u64_less)
qed (simp_all add: sorted_wrt_filter)

lemma distinct_for_map: "distinct (for_map m)"
  using sorted_for_map [of m] by (simp add: strict_sorted_iff)

definition map_idx :: "u64 \<Rightarrow> nat \<Rightarrow> nat" where
  "map_idx m i = length (filter (bit m) [0..<i])"

lemma low_mask: "push_bit i (1 :: u64) - 1 = mask i"
  by (simp add: mask_eq_exp_minus_1)

lemma popcount_filter: "popcount (x :: u64) = length (filter (bit x) [0..<64])"
  using distinct_card [OF distinct_for_map, of x] unfolding popcount_card set_for_map by (simp add: for_map_filter)

lemma count_below:
  assumes "i \<le> 64"
  shows "count_1bits (m AND (push_bit i 1 - 1)) = map_idx m i"
proof -
  have "[0..<64] = [0..<i] @ [i..<64]" using assms upt_add_eq_append [of 0 i "64 - i"] by simp
  moreover have "filter (bit (m AND mask i)) [0..<i] = filter (bit m) [0..<i]"
    by (rule filter_cong) (use assms in \<open>auto simp: bit_and_iff bit_mask_iff\<close>)
  moreover have "filter (bit (m AND mask i)) [i..<64] = []" by (auto simp: filter_empty_conv bit_and_iff bit_mask_iff)
  ultimately show ?thesis unfolding count_1bits low_mask popcount_filter map_idx_def by simp
qed

lemma for_map_split:
  assumes "i \<le> 64"
  shows "for_map m = filter (bit m) [0..<i] @ filter (bit m) [i..<64]"
proof -
  have "[0..<64] = [0..<i] @ [i..<64]" using assms upt_add_eq_append [of 0 i "64 - i"] by simp
  then show ?thesis unfolding for_map_filter by (metis filter_append)
qed

lemma for_map_idx:
  assumes "bit m i"
  shows "map_idx m i < length (for_map m)" "for_map m ! map_idx m i = i"
proof -
  have i: "i < 64" using assms by (rule bit_u64_less)
  then have "for_map m = filter (bit m) [0..<i] @ i # filter (bit m) [Suc i..<64]"
    using for_map_split [of i m] assms by (simp add: upt_conv_Cons)
  then show "map_idx m i < length (for_map m)" "for_map m ! map_idx m i = i" by (simp_all add: map_idx_def nth_append)
qed

lemma and_bit_zero: "(m :: u64) AND push_bit i 1 = 0 \<longleftrightarrow> \<not> bit m i"
proof -
  have b: "bit (m AND push_bit i 1) j \<longleftrightarrow> bit m i \<and> j = i" for j
    using bit_u64_less [of m i] by (auto simp: bit_and_iff bit_exp_iff)
  show ?thesis
  proof
    assume "m AND push_bit i 1 = 0"
    then show "\<not> bit m i" using b [of i] by simp
  next
    assume "\<not> bit m i"
    then show "m AND push_bit i 1 = 0" by (intro bit_word_eqI) (use b in simp)
  qed
qed

section \<open>What the functions compute\<close>

definition miniflow_wf :: "miniflow \<Rightarrow> bool" where
  "miniflow_wf mf \<longleftrightarrow> length (mf_values mf) = length (for_map (mf_map mf)) \<and> (\<forall>i. bit (mf_map mf) i \<longrightarrow> i < FLOW_U32S)"

definition minimask_wf :: "minimask \<Rightarrow> bool" where
  "minimask_wf mk \<longleftrightarrow> miniflow_wf mk \<and> 0 \<notin> set (mf_values mk)"

definition minimatch_wf :: "minimatch \<Rightarrow> bool" where
  "minimatch_wf mt \<longleftrightarrow> minimask_wf (mt_mask mt) \<and> miniflow_wf (mt_flow mt) \<and> mf_map (mt_flow mt) = mf_map (mt_mask mt)"

lemma miniflow_get_idx:
  "miniflow_get mf i = (if bit (mf_map mf) i then mf_values mf ! map_idx (mf_map mf) i else 0)"
  using count_below [of i "mf_map mf"] bit_u64_less [of "mf_map mf" i]
  unfolding miniflow_get_def and_bit_zero by auto

lemma for_values_get:
  assumes "miniflow_wf mf"
  shows "for_values (mf_map mf) (mf_values mf) = map (\<lambda>i. (i, miniflow_get mf i)) (for_map (mf_map mf))"
proof (rule nth_equalityI)
  fix k assume k: "k < length (for_values (mf_map mf) (mf_values mf))"
  let ?i = "for_map (mf_map mf) ! k"
  have b: "bit (mf_map mf) ?i" using k set_for_map [of "mf_map mf"] nth_mem by fastforce
  have "map_idx (mf_map mf) ?i = k"
    using for_map_idx [OF b] k distinct_for_map [of "mf_map mf"] by (simp add: nth_eq_iff_index_eq)
  then show "for_values (mf_map mf) (mf_values mf) ! k = map (\<lambda>i. (i, miniflow_get mf i)) (for_map (mf_map mf)) ! k"
    using k b by (simp add: miniflow_get_idx)
qed (use assms in \<open>simp add: miniflow_wf_def\<close>)

lemma values_get: "miniflow_wf mf \<Longrightarrow> mf_values mf = map (miniflow_get mf) (for_map (mf_map mf))"
  using arg_cong [OF for_values_get, of mf "map snd"] by (simp add: miniflow_wf_def comp_def)

lemma get_out: "miniflow_wf mf \<Longrightarrow> FLOW_U32S \<le> i \<Longrightarrow> miniflow_get mf i = 0" "\<not> bit (mf_map mf) i \<Longrightarrow> miniflow_get mf i = 0"
  by (auto simp: miniflow_get_idx miniflow_wf_def)

lemma mask_get_nonzero: "minimask_wf mk \<Longrightarrow> miniflow_get mk i \<noteq> 0 \<longleftrightarrow> bit (mf_map mk) i"
  using values_get [of mk] set_for_map [of "mf_map mk"] get_out(2) [of mk i] by (auto simp: minimask_wf_def)

lemma foldl_or:
  "distinct is \<Longrightarrow> \<forall>i \<in> set is. i < length d \<Longrightarrow>
   foldl (\<lambda>d (i, v). d[i := d ! i OR v]) d (map (\<lambda>i. (i, g i)) is) = map (\<lambda>i. if i \<in> set is then d ! i OR g i else d ! i) [0..<length d]"
  for d :: uflow
proof (induction "is" arbitrary: d)
  case Nil
  then show ?case by (simp add: map_nth)
next
  case (Cons i "is")
  then show ?case by (auto intro!: nth_equalityI simp: nth_list_update)
qed

lemma union_get:
  assumes "miniflow_wf mf" "length d = FLOW_U32S"
  shows "flow_union_with_miniflow d mf = map (\<lambda>i. d ! i OR miniflow_get mf i) [0..<FLOW_U32S]"
proof -
  have "flow_union_with_miniflow d mf = map (\<lambda>i. if i \<in> set (for_map (mf_map mf)) then d ! i OR miniflow_get mf i else d ! i) [0..<length d]"
    unfolding flow_union_with_miniflow_def for_values_get [OF assms(1)]
    by (rule foldl_or) (use assms in \<open>auto simp: set_for_map miniflow_wf_def distinct_for_map\<close>)
  then show ?thesis using assms(2) get_out(2) [of mf] by (auto simp: set_for_map intro!: map_cong)
qed

lemma expand_get: "miniflow_wf mf \<Longrightarrow> miniflow_expand mf = map (miniflow_get mf) [0..<FLOW_U32S]"
  by (simp add: miniflow_expand_def union_get)

lemma init0_get:
  assumes "\<forall>i. bit m i \<longrightarrow> i < FLOW_U32S"
  shows "miniflow_wf (miniflow_init0 m f)" "miniflow_get (miniflow_init0 m f) i = (if bit m i then f ! i else 0)"
  using assms for_map_idx [of m i] by (simp_all add: miniflow_wf_def miniflow_init0_def miniflow_get_idx)

lemma foldl_map_bits: "bit (foldl (\<lambda>m i. if P i then m OR push_bit i 1 else m) (m0 :: u64) is) j \<longleftrightarrow> bit m0 j \<or> j \<in> set is \<and> P j \<and> j < 64"
  by (induction "is" arbitrary: m0) (auto simp: bit_or_iff bit_exp_iff)

lemma init_get:
  assumes "length f = FLOW_U32S"
  shows "minimask_wf (miniflow_init f)" "i < FLOW_U32S \<Longrightarrow> miniflow_get (miniflow_init f) i = f ! i"
proof -
  define m where "m = foldl (\<lambda>m i. if f ! i \<noteq> 0 then m OR push_bit i 1 else m) (0 :: u64) [0..<FLOW_U32S]"
  have b: "bit m j \<longleftrightarrow> j < FLOW_U32S \<and> f ! j \<noteq> 0" for j unfolding m_def foldl_map_bits by auto
  have init: "miniflow_init f = miniflow_init0 m f" by (simp add: miniflow_init_def m_def)
  have wf: "miniflow_wf (miniflow_init0 m f)" by (rule init0_get) (simp add: b)
  show get: "i < FLOW_U32S \<Longrightarrow> miniflow_get (miniflow_init f) i = f ! i" for i
    unfolding init by (subst init0_get) (auto simp: b)
  have "0 \<notin> set (mf_values (miniflow_init0 m f))" by (auto simp: miniflow_init0_def set_for_map b)
  then show "minimask_wf (miniflow_init f)" using wf by (simp add: minimask_wf_def init)
qed

lemma clone_id: "miniflow_wf mf \<Longrightarrow> miniflow_clone mf = mf"
  by (simp add: miniflow_clone_def miniflow_n_values_def count_1bits popcount_filter for_map_filter [symmetric] miniflow_wf_def)

lemma equal_values_get:
  "equal_values am bm is (map ga (filter (bit am) is)) (map gb (filter (bit bm) is))
   \<longleftrightarrow> (\<forall>i \<in> set is. (if bit am i then ga i else 0) = (if bit bm i then gb i else 0))"
  by (induction "is") (auto simp: and_bit_zero [simplified])

lemma miniflow_equal:
  assumes "miniflow_wf a" "miniflow_wf b"
  shows "miniflow_equal a b \<longleftrightarrow> (\<forall>i. miniflow_get a i = miniflow_get b i)"
proof (cases "mf_map a = mf_map b")
  case True
  have "miniflow_equal a b \<longleftrightarrow> (\<forall>i \<in> set (for_map (mf_map a)). miniflow_get a i = miniflow_get b i)"
    using True values_get [OF assms(1)] values_get [OF assms(2)]
    by (simp add: miniflow_equal_def zip_map1 zip_map2 zip_same_conv_map list_all_iff)
  then show ?thesis unfolding set_for_map using get_out(2) True by (metis mem_Collect_eq)
next
  case False
  let ?m = "mf_map a OR mf_map b"
  have f: "filter (bit (mf_map a)) (for_map ?m) = for_map (mf_map a)" "filter (bit (mf_map b)) (for_map ?m) = for_map (mf_map b)"
    unfolding for_map_filter filter_filter by (rule filter_cong; auto simp: bit_or_iff)+
  have "(if bit (mf_map x) i then miniflow_get x i else 0) = miniflow_get x i" for x i using get_out(2) [of x i] by simp
  note eq = equal_values_get [of "mf_map a" "mf_map b" "for_map ?m" "miniflow_get a" "miniflow_get b", unfolded f this]
  have "miniflow_equal a b \<longleftrightarrow> (\<forall>i \<in> set (for_map ?m). miniflow_get a i = miniflow_get b i)"
    unfolding eq [symmetric] values_get [OF assms(1), symmetric] values_get [OF assms(2), symmetric] miniflow_equal_def Let_def
    using False by simp
  then show ?thesis unfolding set_for_map bit_or_iff using get_out(2) by (metis mem_Collect_eq)
qed

lemma equal_in_minimask:
  assumes "miniflow_wf mk"
  shows "miniflow_equal_in_minimask a b mk \<longleftrightarrow> (\<forall>i. (miniflow_get a i XOR miniflow_get b i) AND miniflow_get mk i = 0)"
    "miniflow_equal_flow_in_minimask a f mk \<longleftrightarrow> (\<forall>i < FLOW_U32S. (miniflow_get a i XOR f ! i) AND miniflow_get mk i = 0)"
proof -
  have m: "bit (mf_map mk) i \<Longrightarrow> i < FLOW_U32S" "\<not> bit (mf_map mk) i \<Longrightarrow> miniflow_get mk i = 0" for i
    using assms get_out(2) by (auto simp: miniflow_wf_def)
  show "miniflow_equal_in_minimask a b mk \<longleftrightarrow> (\<forall>i. (miniflow_get a i XOR miniflow_get b i) AND miniflow_get mk i = 0)"
    unfolding miniflow_equal_in_minimask_def for_values_get [OF assms] list_ex_iff
    by (auto simp: set_for_map) (metis m(2) and_zero_eq)
  show "miniflow_equal_flow_in_minimask a f mk \<longleftrightarrow> (\<forall>i < FLOW_U32S. (miniflow_get a i XOR f ! i) AND miniflow_get mk i = 0)"
    unfolding miniflow_equal_flow_in_minimask_def for_values_get [OF assms] list_ex_iff
    using m by (auto simp: set_for_map) (metis m(2) and_zero_eq)
qed

lemma matches_flow:
  assumes "minimatch_wf mt"
  shows "minimatch_matches_flow mt f \<longleftrightarrow> (\<forall>i < FLOW_U32S. (miniflow_get (mt_flow mt) i XOR f ! i) AND miniflow_get (mt_mask mt) i = 0)"
proof -
  let ?m = "mf_map (mt_mask mt)"
  have wf: "miniflow_wf (mt_flow mt)" "miniflow_wf (mt_mask mt)" "mf_map (mt_flow mt) = ?m"
    using assms by (auto simp: minimatch_wf_def minimask_wf_def)
  have m: "bit ?m i \<Longrightarrow> i < FLOW_U32S" "\<not> bit ?m i \<Longrightarrow> miniflow_get (mt_mask mt) i = 0" for i
    using wf get_out(2) by (auto simp: miniflow_wf_def)
  have z: "zip (for_map ?m) (zip (mf_values (mt_flow mt)) (mf_values (mt_mask mt)))
      = map (\<lambda>i. (i, miniflow_get (mt_flow mt) i, miniflow_get (mt_mask mt) i)) (for_map ?m)"
    unfolding values_get [OF wf(1)] values_get [OF wf(2)] wf(3)
    by (simp add: zip_map1 zip_map2 zip_same_conv_map comp_def)
  have "minimatch_matches_flow mt f \<longleftrightarrow> (\<forall>i. bit ?m i \<longrightarrow> (miniflow_get (mt_flow mt) i XOR f ! i) AND miniflow_get (mt_mask mt) i = 0)"
    unfolding minimatch_matches_flow_def wf(3) z by (simp add: list_ex_iff set_for_map)
  moreover have "(miniflow_get (mt_flow mt) i XOR f ! i) AND miniflow_get (mt_mask mt) i = 0" if "\<not> bit ?m i" for i
    using m(2) [OF that] by simp
  ultimately show ?thesis using m(1) by metis
qed

text \<open>The documented equivalence of the two ways to match.\<close>

lemma matches_flow_minimask:
  "minimatch_wf mt \<Longrightarrow> minimatch_matches_flow mt f \<longleftrightarrow> miniflow_equal_flow_in_minimask (mt_flow mt) f (mt_mask mt)"
  by (simp add: matches_flow equal_in_minimask minimatch_wf_def minimask_wf_def)

section \<open>Ranges and hashes\<close>

definition mask_range :: "minimask \<Rightarrow> nat \<Rightarrow> nat \<Rightarrow> nat list" where
  "mask_range mk s e = filter (bit (mf_map mk)) [s..<e]"

lemma map_in_range:
  assumes "miniflow_wf mk" "s \<le> e" "e \<le> FLOW_U32S"
  shows "\<exists>m. miniflow_get_map_in_range mk s e = (m, map_idx (mf_map mk) s) \<and> for_map m = mask_range mk s e"
proof -
  let ?m1 = "if s > 0 then mf_map mk AND NOT (mask s) else mf_map mk"
  let ?m2 = "if e < FLOW_U32S then ?m1 AND mask e else ?m1"
  have "count_1bits (mf_map mk AND (push_bit s 1 - 1)) = map_idx (mf_map mk) s" by (rule count_below) (use assms in simp)
  then have "miniflow_get_map_in_range mk s e = (?m2, map_idx (mf_map mk) s)"
    unfolding miniflow_get_map_in_range_def low_mask by (auto simp: Let_def map_idx_def)
  moreover have b: "bit ?m2 i \<longleftrightarrow> bit (mf_map mk) i \<and> s \<le> i \<and> i < e" for i
    using assms bit_u64_less [of "mf_map mk" i]
    by (auto simp: bit_and_iff bit_not_iff bit_mask_iff miniflow_wf_def)
  have "for_map ?m2 = mask_range mk s e"
  proof (rule sorted_distinct_set_unique)
    show "sorted (for_map ?m2)" "distinct (for_map ?m2)" using sorted_for_map [of ?m2] by (auto simp: strict_sorted_iff)
    show "set (for_map ?m2) = set (mask_range mk s e)" using b by (auto simp: set_for_map mask_range_def)
  qed (simp_all add: mask_range_def sorted_wrt_filter)
  ultimately show ?thesis by blast
qed

lemma for_map_range:
  assumes "miniflow_wf mk" "s \<le> e" "e \<le> FLOW_U32S"
  shows "for_map (mf_map mk) = filter (bit (mf_map mk)) [0..<s] @ mask_range mk s e @ filter (bit (mf_map mk)) [e..<64]"
proof -
  have "[0..<64] = [0..<s] @ [s..<e] @ [e..<64]"
    using assms upt_add_eq_append [of 0 s "64 - s"] upt_add_eq_append [of s e "64 - e"] by simp
  then show ?thesis unfolding for_map_filter mask_range_def by (metis filter_append)
qed

lemma idx_range: "s \<le> e \<Longrightarrow> map_idx (mf_map mk) s + length (mask_range mk s e) = map_idx (mf_map mk) e"
  using upt_add_eq_append [of 0 s "e - s"] by (simp add: map_idx_def mask_range_def flip: length_append filter_append)

lemma drop_values:
  assumes "miniflow_wf mf" "miniflow_wf mk" "mf_map mf = mf_map mk" "s \<le> e" "e \<le> FLOW_U32S"
  shows "take (length (mask_range mk s e)) (drop (map_idx (mf_map mk) s) (mf_values mf)) = map (miniflow_get mf) (mask_range mk s e)"
  using values_get [OF assms(1)] for_map_range [OF assms(2,4,5)] unfolding assms(3) by (simp add: map_idx_def)

lemma for_values_range:
  assumes "miniflow_wf mk" "s \<le> e" "e \<le> FLOW_U32S"
  shows "zip (mask_range mk s e) (drop (map_idx (mf_map mk) s) (mf_values mk)) = map (\<lambda>i. (i, miniflow_get mk i)) (mask_range mk s e)"
proof -
  let ?r = "mask_range mk s e"
  let ?v = "drop (map_idx (mf_map mk) s) (mf_values mk)"
  have "zip ?r ?v = take (length ?r) (zip ?r ?v)" by simp
  also have "\<dots> = zip ?r (take (length ?r) ?v)" unfolding take_zip by simp
  also have "\<dots> = map (\<lambda>i. (i, miniflow_get mk i)) ?r"
    unfolding drop_values [OF assms(1) assms(1) refl assms(2,3)] by (simp add: zip_map2 zip_same_conv_map)
  finally show ?thesis .
qed

text \<open>The hash of the masked words at some positions, before it is finished.\<close>

abbreviation mhash_fold :: "(nat \<Rightarrow> u32) \<Rightarrow> u32 \<Rightarrow> nat list \<Rightarrow> u32" where
  "mhash_fold f basis is \<equiv> foldl (\<lambda>hash i. mhash_add hash (f i)) basis is"

lemma foldl_map_pair: "foldl (\<lambda>h (i, p). mhash_add h (f i AND p)) b (map (\<lambda>i. (i, g i)) is) = mhash_fold (\<lambda>i. f i AND g i) b is"
  by (induction "is" arbitrary: b) simp_all

lemma hash_in_minimask:
  assumes "miniflow_wf mk"
  shows "flow_hash_in_minimask f mk b
      = mhash_finish (mhash_fold (\<lambda>i. f ! i AND miniflow_get mk i) b (for_map (mf_map mk))) (of_nat (length (for_map (mf_map mk))) * 4)"
    "miniflow_hash_in_minimask mf mk b
      = mhash_finish (mhash_fold (\<lambda>i. miniflow_get mf i AND miniflow_get mk i) b (for_map (mf_map mk))) (of_nat (length (for_map (mf_map mk))) * 4)"
  unfolding flow_hash_in_minimask_def miniflow_hash_in_minimask_def for_values_get [OF assms] foldl_map_pair by simp_all

lemma flow_hash_range:
  assumes "miniflow_wf mk" "s \<le> e" "e \<le> FLOW_U32S"
  shows "flow_hash_in_minimask_range f mk s e b
    = (let h = mhash_fold (\<lambda>i. f ! i AND miniflow_get mk i) b (mask_range mk s e)
       in (mhash_finish h (of_nat (map_idx (mf_map mk) e) * 4), h))"
proof -
  obtain m where m: "miniflow_get_map_in_range mk s e = (m, map_idx (mf_map mk) s)" "for_map m = mask_range mk s e"
    using map_in_range [OF assms] by blast
  show ?thesis
    unfolding flow_hash_in_minimask_range_def m(1) Let_def prod.case m(2) for_values_range [OF assms] foldl_map_pair
    using idx_range [OF assms(2), of mk] by simp
qed

lemma minimatch_hash_range:
  assumes "minimatch_wf mt" "s \<le> e" "e \<le> FLOW_U32S"
  shows "minimatch_hash_range mt s e b
    = (let h = mhash_fold (\<lambda>i. miniflow_get (mt_flow mt) i AND miniflow_get (mt_mask mt) i) b (mask_range (mt_mask mt) s e)
       in (mhash_finish h (of_nat (map_idx (mf_map (mt_mask mt)) e) * 4), h))"
proof -
  let ?mk = "mt_mask mt"
  let ?r = "mask_range ?mk s e"
  have wf: "miniflow_wf (mt_flow mt)" "miniflow_wf ?mk" "mf_map (mt_flow mt) = mf_map ?mk"
    using assms(1) by (auto simp: minimatch_wf_def minimask_wf_def)
  obtain m where m: "miniflow_get_map_in_range ?mk s e = (m, map_idx (mf_map ?mk) s)" "for_map m = ?r"
    using map_in_range [OF wf(2) assms(2,3)] by blast
  have n: "count_1bits m = length ?r" unfolding count_1bits popcount_filter for_map_filter [symmetric] m(2) ..
  have nth: "drop (map_idx (mf_map ?mk) s) (mf_values x) ! i = miniflow_get x (?r ! i)"
    if "i < length ?r" "miniflow_wf x" "mf_map x = mf_map ?mk" for i x
    using arg_cong [OF drop_values [OF that(2) wf(2) that(3) assms(2,3)], of "\<lambda>l. l ! i"] that(1) by simp
  have "foldl (\<lambda>h i. mhash_add h (p i AND q i)) b [0..<length ?r] = mhash_fold (\<lambda>i. f i AND g i) b ?r"
    if "\<And>i. i < length ?r \<Longrightarrow> p i = f (?r ! i) \<and> q i = g (?r ! i)" for p q f g
  proof -
    have "mhash_fold (\<lambda>i. f i AND g i) b ?r = mhash_fold (\<lambda>i. f (?r ! i) AND g (?r ! i)) b [0..<length ?r]"
      by (subst (1) map_nth [symmetric, of ?r]) (simp only: foldl_map)
    also have "\<dots> = foldl (\<lambda>h i. mhash_add h (p i AND q i)) b [0..<length ?r]"
      by (rule foldl_cong) (use that in auto)
    finally show ?thesis by simp
  qed
  then show ?thesis
    unfolding minimatch_hash_range_def m(1) Let_def prod.case n
    using nth wf idx_range [OF assms(2), of ?mk] by simp
qed

text \<open>The hash of a range depends on the masked words only, and continued to the end it is the hash of the whole.\<close>

lemma xor_and_zero: "(x XOR y) AND (m :: u32) = 0 \<longleftrightarrow> x AND m = y AND m"
proof
  assume z: "(x XOR y) AND m = 0"
  show "x AND m = y AND m"
  proof (rule bit_word_eqI)
    fix n assume "n < LENGTH(32)"
    then show "bit (x AND m) n = bit (y AND m) n"
      using arg_cong [OF z, of "\<lambda>w. bit w n"] by (auto simp: bit_and_iff bit_xor_iff)
  qed
next
  assume e: "x AND m = y AND m"
  show "(x XOR y) AND m = 0"
  proof (rule bit_word_eqI)
    fix n assume "n < LENGTH(32)"
    then show "bit ((x XOR y) AND m) n = bit (0 :: u32) n"
      using arg_cong [OF e, of "\<lambda>w. bit w n"] by (auto simp: bit_and_iff bit_xor_iff)
  qed
qed

lemma minimatch_hash_same:
  assumes "minimatch_wf mt" "s \<le> e" "e \<le> FLOW_U32S" "minimatch_matches_flow mt f"
  shows "minimatch_hash_range mt s e b = flow_hash_in_minimask_range f (mt_mask mt) s e b"
proof -
  have wf: "miniflow_wf (mt_mask mt)" using assms(1) by (simp add: minimatch_wf_def minimask_wf_def)
  have eq: "miniflow_get (mt_flow mt) i AND miniflow_get (mt_mask mt) i = f ! i AND miniflow_get (mt_mask mt) i" if "i < FLOW_U32S" for i
  proof -
    have "(miniflow_get (mt_flow mt) i XOR f ! i) AND miniflow_get (mt_mask mt) i = 0"
      using assms(4) that by (simp add: matches_flow [OF assms(1)])
    then show ?thesis by (simp add: xor_and_zero)
  qed
  have "mhash_fold (\<lambda>i. miniflow_get (mt_flow mt) i AND miniflow_get (mt_mask mt) i) b (mask_range (mt_mask mt) s e)
      = mhash_fold (\<lambda>i. f ! i AND miniflow_get (mt_mask mt) i) b (mask_range (mt_mask mt) s e)"
    by (rule foldl_cong) (use eq assms(3) in \<open>auto simp: mask_range_def\<close>)
  then show ?thesis unfolding minimatch_hash_range [OF assms(1-3)] flow_hash_range [OF wf assms(2,3)] Let_def by simp
qed

lemma mask_range_append: "s \<le> e \<Longrightarrow> e \<le> t \<Longrightarrow> mask_range mk s t = mask_range mk s e @ mask_range mk e t"
  using upt_add_eq_append [of s e "t - e"] by (simp add: mask_range_def flip: filter_append)

lemma mask_range_all:
  assumes "miniflow_wf mk"
  shows "mask_range mk 0 FLOW_U32S = for_map (mf_map mk)" "map_idx (mf_map mk) FLOW_U32S = length (for_map (mf_map mk))"
proof -
  have "filter (bit (mf_map mk)) [FLOW_U32S..<64] = []" using assms by (force simp: filter_empty_conv miniflow_wf_def)
  then show 1: "mask_range mk 0 FLOW_U32S = for_map (mf_map mk)" using for_map_range [OF assms, of 0 FLOW_U32S] by simp
  show "map_idx (mf_map mk) FLOW_U32S = length (for_map (mf_map mk))" using 1 by (simp add: map_idx_def mask_range_def)
qed

lemma hash_range_whole:
  assumes "miniflow_wf mk"
  shows "fst (flow_hash_in_minimask_range f mk 0 FLOW_U32S b) = flow_hash_in_minimask f mk b"
  using flow_hash_range [OF assms, of 0 FLOW_U32S f b] hash_in_minimask(1) [OF assms, of f b]
  by (simp add: mask_range_all [OF assms] Let_def)

lemma hash_range_continue:
  assumes "miniflow_wf mk" "s \<le> e" "e \<le> t" "t \<le> FLOW_U32S"
  shows "flow_hash_in_minimask_range f mk e t (snd (flow_hash_in_minimask_range f mk s e b)) = flow_hash_in_minimask_range f mk s t b"
proof -
  have 1: "s \<le> t" "e \<le> FLOW_U32S" using assms(2-4) by simp_all
  show ?thesis
    unfolding flow_hash_range [OF assms(1,2) 1(2)] flow_hash_range [OF assms(1,3,4)] flow_hash_range [OF assms(1) 1(1) assms(4)]
      mask_range_append [OF assms(2,3)]
    by (simp add: Let_def)
qed

section \<open>Masks\<close>

lemma fold_minimask_range:
  assumes "miniflow_wf mk" "s \<le> e" "e \<le> FLOW_U32S" "length wc = FLOW_U32S"
  shows "flow_wildcards_fold_minimask_range wc mk s e
    = map (\<lambda>i. if s \<le> i \<and> i < e then wc ! i OR miniflow_get mk i else wc ! i) [0..<FLOW_U32S]"
proof -
  obtain m where m: "miniflow_get_map_in_range mk s e = (m, map_idx (mf_map mk) s)" "for_map m = mask_range mk s e"
    using map_in_range [OF assms(1-3)] by blast
  have "flow_wildcards_fold_minimask_range wc mk s e
      = map (\<lambda>i. if i \<in> set (mask_range mk s e) then wc ! i OR miniflow_get mk i else wc ! i) [0..<length wc]"
    unfolding flow_wildcards_fold_minimask_range_def m(1) Let_def prod.case m(2) for_values_range [OF assms(1-3)]
    by (rule foldl_or) (use assms in \<open>auto simp: mask_range_def\<close>)
  then show ?thesis using assms(4) get_out(2) [of mk] by (auto simp: mask_range_def intro!: map_cong)
qed

lemma combine_fold:
  assumes "sorted_wrt (<) is" "\<forall>i \<in> set is. i < FLOW_U32S" "minimask_wf dst" "\<forall>i j. bit (mf_map dst) i \<longrightarrow> j \<in> set is \<longrightarrow> i < j"
  shows "let r = foldl (\<lambda>dst ofs. let mk = g ofs in if mk \<noteq> 0 then \<lparr>mf_map = mf_map dst OR push_bit ofs 1, mf_values = mf_values dst @ [mk]\<rparr> else dst) dst is
    in minimask_wf r \<and> (\<forall>i. miniflow_get r i = (if i \<in> set is then g i else miniflow_get dst i))"
  using assms
proof (induction "is" arbitrary: dst)
  case (Cons x xs)
  let ?d = "\<lparr>mf_map = mf_map dst OR push_bit x 1, mf_values = mf_values dst @ [g x]\<rparr>"
  have x: "x < FLOW_U32S" "\<not> bit (mf_map dst) x" "\<forall>i. bit (mf_map dst) i \<longrightarrow> i < x" using Cons.prems by auto
  have b: "bit (mf_map ?d) i \<longleftrightarrow> bit (mf_map dst) i \<or> i = x" for i using x by (auto simp: bit_or_iff bit_exp_iff)
  have "filter (bit (mf_map ?d)) [0..<i] = filter (bit (mf_map dst)) [0..<i]" if "i \<le> x" for i
    by (rule filter_cong) (use b that in auto)
  then have idx: "map_idx (mf_map ?d) i = map_idx (mf_map dst) i" if "i \<le> x" for i using that unfolding map_idx_def by simp
  have n: "length (for_map (mf_map dst)) = map_idx (mf_map dst) x"
    using for_map_split [of x "mf_map dst"] x by (auto simp: map_idx_def filter_empty_conv)
  have n': "length (for_map (mf_map ?d)) = Suc (map_idx (mf_map dst) x)"
  proof -
    have "filter (bit (mf_map ?d)) [Suc x..<64] = []" using b x(3) by (force simp: filter_empty_conv)
    then have "for_map (mf_map ?d) = filter (bit (mf_map ?d)) [0..<x] @ [x]"
      using for_map_split [of x "mf_map ?d"] x(1) b by (simp add: upt_conv_Cons)
    then show ?thesis using idx [of x] by (simp add: map_idx_def)
  qed
  have len: "length (mf_values dst) = map_idx (mf_map dst) x" using Cons.prems(3) n by (simp add: minimask_wf_def miniflow_wf_def)
  have wf: "minimask_wf ?d" if "g x \<noteq> 0"
    using Cons.prems(3) that n' len b x(1) by (auto simp: minimask_wf_def miniflow_wf_def)
  have get: "miniflow_get ?d i = (if i = x then g x else miniflow_get dst i)" for i
  proof (cases "bit (mf_map dst) i")
    case True
    then have "map_idx (mf_map dst) i < map_idx (mf_map dst) x" using for_map_idx(1) [OF True] n by simp
    then show ?thesis using True x idx [of i] len b by (auto simp: miniflow_get_idx nth_append)
  next
    case False
    then show ?thesis using x idx [of x] len b by (auto simp: miniflow_get_idx nth_append)
  qed
  have zero: "miniflow_get dst x = 0" using x(2) by (rule get_out)
  show ?case
  proof (cases "g x = 0")
    case True
    then show ?thesis using Cons.IH [of dst] Cons.prems zero by (auto simp: Let_def)
  next
    case False
    have "\<forall>i j. bit (mf_map ?d) i \<longrightarrow> j \<in> set xs \<longrightarrow> i < j" using b Cons.prems(1,4) by auto
    then show ?thesis using Cons.IH [of ?d] Cons.prems(1,2) wf [OF False] get False by (auto simp: Let_def)
  qed
qed simp

lemma minimask_combine:
  assumes "miniflow_wf a" "miniflow_wf b"
  shows "minimask_wf (minimask_combine a b)" "miniflow_get (minimask_combine a b) i = miniflow_get a i AND miniflow_get b i"
proof -
  let ?z = "\<lparr>mf_map = 0, mf_values = []\<rparr> :: miniflow"
  have z: "minimask_wf ?z" "\<not> bit (mf_map ?z) i" "miniflow_get ?z i = 0" for i
    by (simp_all add: minimask_wf_def miniflow_wf_def for_map.simps miniflow_get_idx)
  have s: "\<forall>i \<in> set (for_map (mf_map a AND mf_map b)). i < FLOW_U32S" using assms by (auto simp: set_for_map bit_and_iff miniflow_wf_def)
  note c = combine_fold [OF sorted_for_map s z(1), of "\<lambda>i. miniflow_get a i AND miniflow_get b i", folded minimask_combine_def, unfolded Let_def]
  show "minimask_wf (minimask_combine a b)" "miniflow_get (minimask_combine a b) i = miniflow_get a i AND miniflow_get b i"
    using c z get_out(2) [of a i] get_out(2) [of b i] by (auto simp: minimask_combine_def Let_def set_for_map bit_and_iff)
qed

lemma has_extra: "minimask_has_extra a b \<longleftrightarrow> (\<exists>i. miniflow_get a i AND miniflow_get b i \<noteq> miniflow_get b i)"
proof -
  have "bit (mf_map b) i" if "miniflow_get a i AND miniflow_get b i \<noteq> miniflow_get b i" for i
    using that get_out(2) [of b i] by (cases "bit (mf_map b) i") simp_all
  then show ?thesis by (auto simp: minimask_has_extra_def list_ex_iff set_for_map bit_or_iff)
qed

lemma is_catchall: "miniflow_wf mk \<Longrightarrow> minimask_is_catchall mk \<longleftrightarrow> (\<forall>i. miniflow_get mk i = 0)"
  using get_out(2) [of mk] by (auto simp: minimask_is_catchall_def for_values_get list_all_iff set_for_map)

lemma minimask_unique:
  assumes "minimask_wf a" "minimask_wf b" "\<forall>i. miniflow_get a i = miniflow_get b i"
  shows "a = b"
proof -
  have "mf_map a = mf_map b"
    by (rule bit_word_eqI) (use assms mask_get_nonzero in metis)
  moreover have "mf_values a = mf_values b"
    using assms values_get [of a] values_get [of b] \<open>mf_map a = mf_map b\<close> by (simp add: minimask_wf_def)
  ultimately show ?thesis by simp
qed

lemma minimatch_unique:
  assumes "minimatch_wf a" "minimatch_wf b" "minimatch_equal a b"
  shows "a = b"
proof -
  have wf: "minimask_wf (mt_mask a)" "minimask_wf (mt_mask b)" "miniflow_wf (mt_mask a)" "miniflow_wf (mt_mask b)"
    "miniflow_wf (mt_flow a)" "miniflow_wf (mt_flow b)" using assms(1,2) by (auto simp: minimatch_wf_def minimask_wf_def)
  have m: "mt_mask a = mt_mask b"
    using assms(3) miniflow_equal [OF wf(3,4)] minimask_unique [OF wf(1,2)] by (simp add: minimatch_equal_def minimask_equal_def)
  have "mf_map (mt_flow a) = mf_map (mt_flow b)" using assms(1,2) m by (simp add: minimatch_wf_def)
  moreover have "mf_values (mt_flow a) = mf_values (mt_flow b)"
    using assms(3) miniflow_equal [OF wf(5,6)] values_get [OF wf(5)] values_get [OF wf(6)] calculation by (simp add: minimatch_equal_def)
  ultimately show ?thesis using m by simp
qed

text \<open>A match compressed and expanded is the match with the wildcarded words zeroed, and compares like it.\<close>

lemma minimatch_init_wf:
  assumes "length (ma_wc m) = FLOW_U32S"
  shows "minimatch_wf (minimatch_init m)"
proof -
  note i = init_get [OF assms]
  have "\<forall>i. bit (mf_map (miniflow_init (ma_wc m))) i \<longrightarrow> i < FLOW_U32S" using i(1) by (simp add: minimask_wf_def miniflow_wf_def)
  then show ?thesis using i(1) init0_get(1)
    by (simp add: minimatch_init_def minimask_init_def miniflow_init_with_minimask_def minimatch_wf_def Let_def) (simp add: miniflow_init0_def)
qed

lemma minimatch_init_get:
  assumes "length (ma_wc m) = FLOW_U32S" "i < FLOW_U32S"
  shows "miniflow_get (mt_mask (minimatch_init m)) i = ma_wc m ! i"
    "miniflow_get (mt_flow (minimatch_init m)) i = (if ma_wc m ! i = 0 then 0 else ma_flow m ! i)"
proof -
  note g = init_get [OF assms(1)]
  have m: "mt_mask (minimatch_init m) = miniflow_init (ma_wc m)"
    "mt_flow (minimatch_init m) = miniflow_init0 (mf_map (miniflow_init (ma_wc m))) (ma_flow m)"
    by (simp_all add: minimatch_init_def minimask_init_def miniflow_init_with_minimask_def Let_def)
  show "miniflow_get (mt_mask (minimatch_init m)) i = ma_wc m ! i" unfolding m using g(2) assms(2) by simp
  have b: "\<forall>i. bit (mf_map (miniflow_init (ma_wc m))) i \<longrightarrow> i < FLOW_U32S" using g(1) by (simp add: minimask_wf_def miniflow_wf_def)
  show "miniflow_get (mt_flow (minimatch_init m)) i = (if ma_wc m ! i = 0 then 0 else ma_flow m ! i)"
    unfolding m init0_get(2) [OF b] using mask_get_nonzero [OF g(1), of i] g(2) [of i] assms(2) by auto
qed

text \<open>
  \<^verbatim>\<open>miniflow_hash\<close> skips zero values, so that miniflows that compare equal would hash alike, but it finishes with the
  number of all values: two equal miniflows hash differently when one of them stores a zero.
\<close>

lemma miniflow_hash_counts_zeros:
  "miniflow_equal \<lparr>mf_map = 1, mf_values = [0]\<rparr> \<lparr>mf_map = 0, mf_values = []\<rparr>
   \<and> miniflow_hash \<lparr>mf_map = 1, mf_values = [0]\<rparr> 0 \<noteq> miniflow_hash \<lparr>mf_map = 0, mf_values = []\<rparr> 0"
  by code_simp

lemma flow_equal_except_iff:
  assumes "length a = FLOW_U32S" "length b = FLOW_U32S" "length wc = FLOW_U32S"
  shows "flow_equal_except a b wc \<longleftrightarrow> (\<forall>i < FLOW_U32S. (a ! i XOR b ! i) AND wc ! i = 0)"
  using assms by (auto simp: flow_equal_except_def list_ex_length)

section \<open>Properties\<close>

text \<open>
  C37. A match that is compressed by \<^verbatim>\<open>minimatch_init\<close> matches the same flows as before: \<^verbatim>\<open>minimatch_matches_flow\<close>
  on the result agrees with \<^verbatim>\<open>flow_equal_except\<close> on the flow and the wildcards of the match, and so does the
  comparison of the miniflow under the minimask, \<^verbatim>\<open>miniflow_equal_flow_in_minimask\<close>.
\<close>

theorem minimatch_init_matches:
  assumes "length (ma_flow m) = FLOW_U32S" "length (ma_wc m) = FLOW_U32S" "length f = FLOW_U32S"
  shows "minimatch_matches_flow (minimatch_init m) f = flow_equal_except (ma_flow m) f (ma_wc m)
    \<and> miniflow_equal_flow_in_minimask (mt_flow (minimatch_init m)) f (mt_mask (minimatch_init m)) = flow_equal_except (ma_flow m) f (ma_wc m)"
proof -
  note wf = minimatch_init_wf [OF assms(2)]
  have "minimatch_matches_flow (minimatch_init m) f = flow_equal_except (ma_flow m) f (ma_wc m)"
    unfolding matches_flow [OF wf] flow_equal_except_iff [OF assms(1,3,2)]
    by (intro all_cong) (use minimatch_init_get [OF assms(2)] in \<open>simp split: if_splits\<close>)
  then show ?thesis using matches_flow_minimask [OF wf] by simp
qed

theorem minimatch_init_matches_witness:
  "minimatch_matches_flow (minimatch_init \<lparr>ma_flow = replicate FLOW_U32S 0x1234, ma_wc = (replicate FLOW_U32S 0)[3 := 0xff00, 40 := 1]\<rparr>)
     ((replicate FLOW_U32S 7)[3 := 0xab0012ff, 40 := 0x10])"
proof -
  let ?m = "\<lparr>ma_flow = replicate FLOW_U32S 0x1234, ma_wc = (replicate FLOW_U32S 0)[3 := 0xff00, 40 := 1]\<rparr>"
  let ?f = "(replicate FLOW_U32S 7)[3 := 0xab0012ff :: u32, 40 := 0x10]"
  have "flow_equal_except (ma_flow ?m) ?f (ma_wc ?m)" by code_simp
  then show ?thesis using minimatch_init_matches [of ?m ?f] by simp
qed

text \<open>
  C38. Hashing in stages is hashing at once.  \<^verbatim>\<open>flow_hash_in_minimask_range\<close> continued from the basis that an
  earlier range left gives the hash of the joined range, a range over the whole flow gives \<^verbatim>\<open>flow_hash_in_minimask\<close>,
  a rule's \<^verbatim>\<open>minimatch_hash_range\<close> equals the range hash of every flow that it matches, and the hash of a miniflow under
  a minimask is that of the flow it expands to.
\<close>

theorem staged_hash_agrees:
  assumes "minimatch_wf mt" "miniflow_wf mf" "s \<le> e" "e \<le> t" "t \<le> FLOW_U32S" "minimatch_matches_flow mt f"
  shows "flow_hash_in_minimask_range f (mt_mask mt) e t (snd (flow_hash_in_minimask_range f (mt_mask mt) s e b))
      = flow_hash_in_minimask_range f (mt_mask mt) s t b
    \<and> fst (flow_hash_in_minimask_range f (mt_mask mt) 0 FLOW_U32S b) = flow_hash_in_minimask f (mt_mask mt) b
    \<and> minimatch_hash_range mt s t b = flow_hash_in_minimask_range f (mt_mask mt) s t b
    \<and> miniflow_hash_in_minimask mf (mt_mask mt) b = flow_hash_in_minimask (miniflow_expand mf) (mt_mask mt) b"
proof -
  have wf: "miniflow_wf (mt_mask mt)" using assms(1) by (simp add: minimatch_wf_def minimask_wf_def)
  have "\<forall>i \<in> set (for_map (mf_map (mt_mask mt))). i < FLOW_U32S" using wf by (simp add: set_for_map miniflow_wf_def)
  then have "miniflow_hash_in_minimask mf (mt_mask mt) b = flow_hash_in_minimask (miniflow_expand mf) (mt_mask mt) b"
    unfolding hash_in_minimask [OF wf] expand_get [OF assms(2)]
    by (intro arg_cong2 [of _ _ _ _ mhash_finish] foldl_cong) auto
  then show ?thesis
    using hash_range_continue [OF wf assms(3-5)] hash_range_whole [OF wf] minimatch_hash_same [OF assms(1) _ assms(5,6), of s] assms(3,4) by simp
qed

theorem staged_hash_agrees_witness:
  "\<exists>mt f. minimatch_wf mt \<and> minimatch_matches_flow mt f \<and> minimatch_hash_range mt 3 FLOW_U32S 5 = flow_hash_in_minimask_range f (mt_mask mt) 3 FLOW_U32S 5"
proof -
  let ?m = "\<lparr>ma_flow = replicate FLOW_U32S 0x1234, ma_wc = (replicate FLOW_U32S 0)[3 := 0xff00, 40 := 1]\<rparr>"
  let ?f = "(replicate FLOW_U32S 7)[3 := 0xab0012ff :: u32, 40 := 0x10]"
  have wf: "minimatch_wf (minimatch_init ?m)" by (rule minimatch_init_wf) simp
  have m: "minimatch_matches_flow (minimatch_init ?m) ?f" by code_simp
  have mf: "miniflow_wf (mt_flow (minimatch_init ?m))" using wf by (simp only: minimatch_wf_def)
  have le: "(3 :: nat) \<le> 19" "(19 :: nat) \<le> FLOW_U32S" "FLOW_U32S \<le> FLOW_U32S" by simp_all
  note h = staged_hash_agrees [OF wf mf le m, of 5, THEN conjunct2, THEN conjunct2, THEN conjunct1]
  show ?thesis by (rule exI, rule exI, rule conjI [OF wf], rule conjI [OF m], rule h)
qed

end
