(* ===== verification/Ovs_Tag.thy ===== *)
theory Ovs_Tag
  imports Ovs_Bits "HOL-Library.Multiset"
begin

text \<open>
  Tags, \<^verbatim>\<open>lib/tag.c\<close> and \<^verbatim>\<open>lib/tag.h\<close>: words with two 1-bits that are combined by bitwise or, and the tracker
  that counts, for every bit, the tags that have it.
\<close>

section \<open>Operations\<close>

definition TAG_ALL :: u32 where "TAG_ALL = 0xffffffff"

definition TAG_ARBITRARY :: u32 where "TAG_ARBITRARY = 3"

definition tag_intersects :: "u32 \<Rightarrow> u32 \<Rightarrow> bool" where
  "tag_intersects a b \<longleftrightarrow> (let x = a AND b in x AND (x - 1) \<noteq> 0)"

definition tag_create_deterministic :: "u32 \<Rightarrow> u32" where
  "tag_create_deterministic seed =
     (let x = unat (seed AND 31);
          y = unat (drop_bit 5 seed mod 31);
          y = y + of_bool (y \<ge> x)
      in push_bit x 1 OR push_bit y 1)"

text \<open>The tracker is the array \<^verbatim>\<open>counts\<close>.\<close>

type_synonym tag_tracker = "u32 list"

definition tag_tracker_init :: tag_tracker where
  "tag_tracker_init = replicate 32 0"

text \<open>The loops over the 1-bits; \<^verbatim>\<open>zero_rightmost_1bit\<close> works on \<^verbatim>\<open>uintmax_t\<close>.\<close>

abbreviation drop_lowest :: "u32 \<Rightarrow> u32" where
  "drop_lowest x \<equiv> ucast (zero_rightmost_1bit (ucast x))"

lemma lowest_ucast: "lowest (ucast (x :: u32) :: u64) i \<longleftrightarrow> lowest x i"
  using bit_imp_le_length [of x] by (force simp: lowest_def bit_ucast_iff)

lemma drop_lowest: "lowest x l \<Longrightarrow> drop_lowest x = unset_bit l x"
  using zero_rightmost_1bit [of "ucast x" l]
  by (intro bit_word_eqI) (auto simp: lowest_ucast bit_ucast_iff bit_unset_bit_iff)

lemma rightmost_idx: "lowest x l \<Longrightarrow> rightmost_1bit_idx x = int l"
  using raw_ctz_lowest [of "ucast x" l] by (auto simp: rightmost_1bit_idx_def ctz32_def lowest_ucast) (auto simp: lowest_def)

lemma popcount_unset:
  fixes x :: "'a::len word"
  assumes "bit x l"
  shows "popcount x = Suc (popcount (unset_bit l x))"
proof -
  have "finite {i. bit x i}" by (rule finite_subset [of _ "{..< LENGTH('a)}"]) (use bit_imp_le_length [of x] in auto)
  moreover have "{i. bit (unset_bit l x) i} = {i. bit x i} - {l}" by (auto simp: bit_unset_bit_iff)
  ultimately show ?thesis using assms card_Suc_Diff1 [of "{i. bit x i}" l] unfolding popcount_card by simp
qed

lemma drop_lowest_less: "x \<noteq> 0 \<Longrightarrow> popcount (drop_lowest x) < popcount x"
  using lowest_exists [of x] by (auto simp: drop_lowest popcount_unset lowest_def)

function tag_tracker_add_loop :: "u32 \<Rightarrow> tag_tracker \<Rightarrow> tag_tracker" where
  "tag_tracker_add_loop add counts =
     (if add \<noteq> 0
      then let i = nat (rightmost_1bit_idx add)
           in tag_tracker_add_loop (drop_lowest add) (counts[i := counts ! i + 1])
      else counts)"
  by pat_completeness auto
termination by (relation "measure (\<lambda>(add, _). popcount add)") (use drop_lowest_less in auto)

definition tag_tracker_add :: "tag_tracker \<Rightarrow> u32 \<Rightarrow> u32 \<Rightarrow> tag_tracker \<times> u32" where
  "tag_tracker_add tracker tags add = (tag_tracker_add_loop add tracker, tags OR add)"

function tag_tracker_subtract :: "tag_tracker \<Rightarrow> u32 \<Rightarrow> u32 \<Rightarrow> tag_tracker \<times> u32" where
  "tag_tracker_subtract counts tags sub =
     (if sub \<noteq> 0
      then let i = nat (rightmost_1bit_idx sub);
               counts = counts[i := counts ! i - 1];
               tags = (if counts ! i = 0 then tags AND ucast (NOT (rightmost_1bit (ucast sub))) else tags)
           in tag_tracker_subtract counts tags (drop_lowest sub)
      else (counts, tags))"
  by pat_completeness auto
termination by (relation "measure (\<lambda>(_, _, sub). popcount sub)") (use drop_lowest_less in auto)

declare tag_tracker_add_loop.simps [simp del] tag_tracker_subtract.simps [simp del]

section \<open>Tags\<close>

lemma popcount_ge2: "x AND (x - 1) \<noteq> 0 \<longleftrightarrow> 2 \<le> popcount x" for x :: u32
proof (cases "x = 0")
  case False
  then obtain l where l: "lowest x l" using lowest_exists by blast
  have 1: "x AND (x - 1) = unset_bit l x"
    unfolding lowest_split(2) [OF l]
    by (rule bit_word_eqI) (use l in \<open>auto simp: bit_and_iff bit_or_iff bit_mask_iff bit_unset_bit_iff lowest_def\<close>)
  have 2: "popcount x = Suc (popcount (unset_bit l x))" using l popcount_unset [of x l] by (simp add: lowest_def)
  have 3: "popcount y = 0 \<longleftrightarrow> y = 0" for y :: u32
    using lowest_exists [of y] popcount_unset [of y] by (cases "y = 0") (auto simp: lowest_def popcount_def)
  show ?thesis unfolding 1 2 using 3 [of "unset_bit l x"] by linarith
qed (simp add: popcount_def)

lemma popcount_mono: "(\<And>i. bit x i \<Longrightarrow> bit y i) \<Longrightarrow> popcount x \<le> popcount y" for x y :: "'a::len word"
  unfolding popcount_card by (rule card_mono, rule finite_subset [of _ "{..< LENGTH('a)}"]) (use bit_imp_le_length [of y] in auto)

text \<open>A tag that is one of those combined in \<open>tags\<close> intersects them, and so does every tag with a subset of at least two bits.\<close>

lemma tag_intersects_sub: "2 \<le> popcount a \<Longrightarrow> (\<And>i. bit a i \<Longrightarrow> bit b i \<and> bit c i) \<Longrightarrow> tag_intersects b c"
  for a :: u32
  unfolding tag_intersects_def Let_def popcount_ge2
  using popcount_mono [of a "b AND c"] by (auto simp: bit_and_iff)

lemma tag_create_popcount: "popcount (tag_create_deterministic seed) = 2"
proof -
  define x where "x = unat (seed AND 31)"
  define y where "y = unat (drop_bit 5 seed mod 31)"
  let ?z = "y + of_bool (y \<ge> x)"
  have "seed AND 31 = take_bit 5 seed" by (simp add: take_bit_eq_mask mask_eq_exp_minus_1)
  then have x: "x < 32" using take_bit_nat_less_exp [of 5 "unat seed"] by (simp add: x_def unsigned_take_bit_eq)
  have y: "y < 31" by (simp add: y_def unat_mod)
  then have z: "?z < 32" "?z \<noteq> x" by auto
  have "tag_create_deterministic seed = push_bit x 1 OR push_bit ?z 1"
    unfolding tag_create_deterministic_def Let_def x_def y_def ..
  then have "{i. bit (tag_create_deterministic seed) i} = {x, ?z}" using x z(1) by (auto simp: bit_or_iff bit_exp_iff)
  then show ?thesis using z(2) by (simp add: popcount_card)
qed

section \<open>The tracker\<close>

text \<open>\<open>T\<close> are the tags that have been added and not subtracted again.\<close>

definition tracks :: "tag_tracker \<Rightarrow> u32 \<Rightarrow> u32 multiset \<Rightarrow> bool" where
  "tracks counts tags T \<longleftrightarrow>
     length counts = 32 \<and> size T < 2 ^ 32
     \<and> (\<forall>i < 32. counts ! i = of_nat (size (filter_mset (\<lambda>t. bit t i) T)) \<and> (bit tags i \<longleftrightarrow> (\<exists>t \<in># T. bit t i)))"

lemma add_loop:
  "length counts = 32 \<Longrightarrow>
   tag_tracker_add_loop add counts = map (\<lambda>i. if bit add i then counts ! i + 1 else counts ! i) [0..<32]"
proof (induction add counts rule: tag_tracker_add_loop.induct)
  case (1 add counts)
  show ?case
  proof (cases "add = 0")
    case True
    then show ?thesis using 1(2) by (auto simp: tag_tracker_add_loop.simps intro: nth_equalityI)
  next
    case False
    then obtain l where l: "lowest add l" using lowest_exists by blast
    then have b: "bit add l" "l < 32" using bit_imp_le_length [of add l] by (auto simp: lowest_def)
    note IH = 1(1) [OF False refl, unfolded rightmost_idx [OF l] drop_lowest [OF l] nat_int]
    show ?thesis
      using IH 1(2) False b
      by (subst tag_tracker_add_loop.simps)
        (auto simp: Let_def rightmost_idx [OF l] drop_lowest [OF l] bit_unset_bit_iff nth_list_update intro!: nth_equalityI)
  qed
qed

lemma tag_tracker_add:
  assumes "tracks counts tags T" "size T < 2 ^ 32 - 1" "tag_tracker_add counts tags t = (counts', tags')"
  shows "tracks counts' tags' (add_mset t T)"
  using assms by (auto simp: tracks_def tag_tracker_add_def add_loop bit_or_iff)

lemma subtract_loop:
  "length counts = 32 \<Longrightarrow> tag_tracker_subtract counts tags sub = (counts', tags') \<Longrightarrow>
   counts' = map (\<lambda>i. if bit sub i then counts ! i - 1 else counts ! i) [0..<32]
   \<and> (\<forall>i. bit tags' i \<longleftrightarrow> bit tags i \<and> \<not> (bit sub i \<and> counts ! i - 1 = 0))"
proof (induction counts tags sub rule: tag_tracker_subtract.induct)
  case (1 counts tags sub)
  show ?case
  proof (cases "sub = 0")
    case True
    then show ?thesis using 1(2,3) by (auto simp: tag_tracker_subtract.simps intro: nth_equalityI)
  next
    case False
    then obtain l where l: "lowest sub l" using lowest_exists by blast
    then have b: "bit sub l" "l < 32" using bit_imp_le_length [of sub l] by (auto simp: lowest_def)
    let ?c = "counts[l := counts ! l - 1]"
    let ?t = "if counts ! l - 1 = 0 then tags AND ucast (NOT (2 ^ l :: u64)) else tags"
    have t: "bit ?t i \<longleftrightarrow> bit tags i \<and> \<not> (i = l \<and> counts ! l - 1 = 0)" for i
      using bit_imp_le_length [of tags i] by (auto simp: bit_and_iff bit_ucast_iff bit_not_iff bit_exp_iff)
    have r: "rightmost_1bit (ucast sub) = 2 ^ l" by (rule rightmost_1bit) (simp add: lowest_ucast l)
    have nth: "?c ! l = counts ! l - 1" using 1(2) b by simp
    note IH = 1(1) [OF False refl refl refl, unfolded rightmost_idx [OF l] drop_lowest [OF l] nat_int r nth]
    have "tag_tracker_subtract ?c ?t (unset_bit l sub) = (counts', tags')"
      using 1(3) [unfolded tag_tracker_subtract.simps [of counts tags sub] Let_def rightmost_idx [OF l] drop_lowest [OF l] nat_int r nth] False
      by simp
    then have "counts' = map (\<lambda>i. if bit (unset_bit l sub) i then ?c ! i - 1 else ?c ! i) [0..<32]"
      "bit tags' i \<longleftrightarrow> bit ?t i \<and> \<not> (bit (unset_bit l sub) i \<and> ?c ! i - 1 = 0)" for i
      using IH 1(2) by simp_all
    then show ?thesis using b 1(2) unfolding t
      by (auto simp: bit_unset_bit_iff nth_list_update intro!: nth_equalityI split: if_splits)
  qed
qed

lemma tag_tracker_subtract:
  assumes "tracks counts tags (add_mset t T)" "tag_tracker_subtract counts tags t = (counts', tags')"
  shows "tracks counts' tags' T"
proof -
  have len: "length counts = 32" and size: "size T < 2 ^ 32 - 1" using assms(1) by (auto simp: tracks_def)
  note s = subtract_loop [OF len assms(2)]
  have "counts' ! i = of_nat (size (filter_mset (\<lambda>t. bit t i) T)) \<and> (bit tags' i \<longleftrightarrow> (\<exists>t \<in># T. bit t i))" if "i < 32" for i
  proof -
    let ?F = "filter_mset (\<lambda>t. bit t i) T"
    have c: "counts ! i = of_nat (size ?F + of_bool (bit t i))" and tg: "bit tags i \<longleftrightarrow> bit t i \<or> ?F \<noteq> {#}"
      using assms(1) that by (auto simp: tracks_def)
    have "size ?F \<le> size T" by (rule size_mset_mono) simp
    then have "size ?F < 2 ^ 32 - 1" using size by (rule le_less_trans)
    then have "unat (of_nat (size ?F) :: u32) = size ?F" by (simp add: unat_of_nat take_bit_nat_eq_self_iff)
    then have z: "of_nat (size ?F) = (0 :: u32) \<longleftrightarrow> size ?F = 0" 
      using unsigned_eq_0_iff [of "of_nat (size ?F) :: u32", where ?'a = nat] by simp
    have "bit tags' i \<longleftrightarrow> ?F \<noteq> {#}" using s c tg z by (cases "bit t i") (auto simp del: filter_mset_eq_mempty_iff)
    moreover have "(\<exists>t \<in># T. bit t i) \<longleftrightarrow> ?F \<noteq> {#}" by auto
    ultimately show ?thesis using s c that by auto
  qed
  then show ?thesis using size s by (auto simp: tracks_def)
qed

lemma tracks_init: "tracks tag_tracker_init 0 {#}"
  by (simp add: tracks_def tag_tracker_init_def)

lemma tracks_empty: "tracks counts tags T \<Longrightarrow> 0 \<notin># T \<Longrightarrow> tags = 0 \<longleftrightarrow> T = {#}"
proof
  assume t: "tracks counts tags T" "0 \<notin># T" "tags = 0"
  show "T = {#}"
  proof (rule ccontr)
    assume "T \<noteq> {#}"
    then obtain x where x: "x \<in># T" by blast
    then have "x \<noteq> 0" using t(2) by auto
    then obtain i where i: "bit x i" by (auto simp: bit_eq_iff)
    then have "i < 32" using bit_imp_le_length [of x i] by simp
    then show False using t i x by (auto simp: tracks_def)
  qed
next
  assume "tracks counts tags T" "T = {#}"
  then show "tags = 0" by (intro bit_word_eqI) (simp add: tracks_def)
qed

lemma tracks_bit: "tracks counts tags T \<Longrightarrow> t \<in># T \<Longrightarrow> bit t i \<Longrightarrow> bit tags i"
  using bit_imp_le_length [of t i] by (auto simp: tracks_def)

end
