(* ===== verification/Ovs_Hindex.thy ===== *)
theory Ovs_Hindex
  imports Ovs_Hmap
begin

text \<open>
  The hash index of \<^verbatim>\<open>lib/hindex.c\<close> and \<^verbatim>\<open>lib/hindex.h\<close>, a hash table that keeps the nodes with one hash
  together.  Nodes are cells of a memory, linked by the pointers \<^verbatim>\<open>d\<close> and \<^verbatim>\<open>s\<close>; the null pointer is 0.
  The inline bucket \<^verbatim>\<open>one\<close>, used while \<open>mask = 0\<close>, is the single element of the buckets, so \<^verbatim>\<open>hindex_moved\<close> has
  nothing to do.  Coverage counters are left out.
\<close>

section \<open>Operations\<close>

record hindex_node =
  hx_hash :: size_t
  hx_d :: addr
  hx_s :: addr

type_synonym hx_mem = "addr \<Rightarrow> hindex_node"

record hindex =
  hx_buckets :: "addr list"
  hx_mask :: size_t
  hx_n_unique :: size_t

text \<open>Assignments to members of a node.\<close>

definition put_hash :: "addr \<Rightarrow> size_t \<Rightarrow> hx_mem \<Rightarrow> hx_mem" where "put_hash a v m = m(a := (m a)\<lparr>hx_hash := v\<rparr>)"
definition put_d :: "addr \<Rightarrow> addr \<Rightarrow> hx_mem \<Rightarrow> hx_mem" where "put_d a v m = m(a := (m a)\<lparr>hx_d := v\<rparr>)"
definition put_s :: "addr \<Rightarrow> addr \<Rightarrow> hx_mem \<Rightarrow> hx_mem" where "put_s a v m = m(a := (m a)\<lparr>hx_s := v\<rparr>)"

lemma put_apply [simp]:
  "put_hash a h m x = (if x = a then (m a)\<lparr>hx_hash := h\<rparr> else m x)"
  "put_d a v m x = (if x = a then (m a)\<lparr>hx_d := v\<rparr> else m x)"
  "put_s a v m x = (if x = a then (m a)\<lparr>hx_s := v\<rparr> else m x)"
  by (simp_all add: put_hash_def put_d_def put_s_def)

definition hindex_init :: hindex where
  "hindex_init = \<lparr>hx_buckets = [0], hx_mask = 0, hx_n_unique = 0\<rparr>"

definition hindex_clear :: "hindex \<Rightarrow> hindex" where
  "hindex_clear hx =
     (if hx_n_unique hx > 0 then hx\<lparr>hx_n_unique := 0, hx_buckets := replicate (unat (hx_mask hx) + 1) 0\<rparr> else hx)"

definition hindex_swap :: "hindex \<Rightarrow> hindex \<Rightarrow> hindex \<times> hindex" where
  "hindex_swap a b = (b, a)"

definition hindex_is_empty :: "hindex \<Rightarrow> bool" where
  "hindex_is_empty hx \<longleftrightarrow> hx_n_unique hx = 0"

definition hindex_calc_mask :: "size_t \<Rightarrow> size_t" where
  "hindex_calc_mask capacity =
     (let mask = capacity div 2;
          mask = mask OR drop_bit 1 mask;
          mask = mask OR drop_bit 2 mask;
          mask = mask OR drop_bit 4 mask;
          mask = mask OR drop_bit 8 mask;
          mask = mask OR drop_bit 16 mask;
          mask = mask OR push_bit 1 (mask AND 1)
      in mask)"

abbreviation hx_bucket :: "hindex \<Rightarrow> size_t \<Rightarrow> nat" where
  "hx_bucket hx hash \<equiv> unat (hash AND hx_mask hx)"

text \<open>The inner loop of \<^verbatim>\<open>hindex_resize\<close>: the head nodes of a bucket move to the buckets of \<open>tmp\<close>.\<close>

partial_function (option) hindex_resize_loop :: "size_t \<Rightarrow> addr \<Rightarrow> addr list \<times> hx_mem \<Rightarrow> (addr list \<times> hx_mem) option" where
  "hindex_resize_loop tmp_mask node st =
     (if node \<noteq> 0
      then let (buckets, m) = st;
               head = unat (hx_hash (m node) AND tmp_mask);
               next = hx_d (m node);
               m = put_d node (buckets ! head) m;
               buckets = buckets[head := node]
           in hindex_resize_loop tmp_mask next (buckets, m)
      else Some st)"

fun hindex_resize_all :: "size_t \<Rightarrow> addr list \<Rightarrow> addr list \<times> hx_mem \<Rightarrow> (addr list \<times> hx_mem) option" where
  "hindex_resize_all tmp_mask [] st = Some st"
| "hindex_resize_all tmp_mask (b # bs) st = do { st \<leftarrow> hindex_resize_loop tmp_mask b st; hindex_resize_all tmp_mask bs st }"

text \<open>\<open>None\<close> is a failed assertion, or a write beyond an array whose size wraps.\<close>

definition hindex_resize :: "hindex \<Rightarrow> size_t \<Rightarrow> hx_mem \<Rightarrow> (hindex \<times> hx_mem) option" where
  "hindex_resize hx new_mask m =
     (if is_pow2 (ucast (new_mask + 1)) \<and> new_mask \<noteq> 0xffffffff \<and> (new_mask \<noteq> 0 \<longrightarrow> buckets_fit new_mask)
      then
        let tmp = hindex_init;
            tmp = (if new_mask \<noteq> 0 then tmp\<lparr>hx_buckets := replicate (unat new_mask + 1) 0, hx_mask := new_mask\<rparr> else tmp)
        in do {
          (buckets, m) \<leftarrow> hindex_resize_all (hx_mask tmp) (take (unat (hx_mask hx) + 1) (hx_buckets hx)) (hx_buckets tmp, m);
          let tmp = tmp\<lparr>hx_buckets := buckets, hx_n_unique := hx_n_unique hx\<rparr>;
          Some (fst (hindex_swap hx tmp), m)
        }
      else None)"

definition hindex_expand :: "hindex \<Rightarrow> hx_mem \<Rightarrow> (hindex \<times> hx_mem) option" where
  "hindex_expand hx m =
     (let new_mask = hindex_calc_mask (hx_n_unique hx)
      in if new_mask > hx_mask hx then hindex_resize hx new_mask m else Some (hx, m))"

definition hindex_shrink :: "hindex \<Rightarrow> hx_mem \<Rightarrow> (hindex \<times> hx_mem) option" where
  "hindex_shrink hx m =
     (let new_mask = hindex_calc_mask (hx_n_unique hx)
      in if new_mask < hx_mask hx then hindex_resize hx new_mask m else Some (hx, m))"

definition hindex_reserve :: "hindex \<Rightarrow> size_t \<Rightarrow> hx_mem \<Rightarrow> (hindex \<times> hx_mem) option" where
  "hindex_reserve hx n m =
     (let new_mask = hindex_calc_mask n
      in if new_mask > hx_mask hx then hindex_resize hx new_mask m else Some (hx, m))"

text \<open>The search follows the \<^verbatim>\<open>d\<close> pointers; the result 0 is the null pointer.\<close>

partial_function (option) hindex_find_loop :: "hx_mem \<Rightarrow> size_t \<Rightarrow> addr \<Rightarrow> addr option" where
  "hindex_find_loop m hash node =
     (if node \<noteq> 0 \<and> hx_hash (m node) \<noteq> hash then hindex_find_loop m hash (hx_d (m node)) else Some node)"

definition hindex_node_with_hash :: "hindex \<Rightarrow> size_t \<Rightarrow> hx_mem \<Rightarrow> addr option" where
  "hindex_node_with_hash hx hash m = hindex_find_loop m hash (hx_buckets hx ! hx_bucket hx hash)"

definition hindex_insert_fast :: "hindex \<Rightarrow> addr \<Rightarrow> size_t \<Rightarrow> hx_mem \<Rightarrow> (hindex \<times> hx_mem) option" where
  "hindex_insert_fast hx node hash m = do {
     head \<leftarrow> hindex_node_with_hash hx hash m;
     if head \<noteq> 0
     then let m = put_s node (hx_s (m head)) m;
              m = put_d node head m;
              m = (if hx_s (m node) \<noteq> 0 then put_d (hx_s (m node)) node m else m);
              m = put_s head node m
          in Some (hx, put_hash node hash m)
     else let i = hx_bucket hx hash;
              m = put_s node 0 m;
              m = put_d node (hx_buckets hx ! i) m;
              hx = hx\<lparr>hx_buckets := (hx_buckets hx)[i := node], hx_n_unique := hx_n_unique hx + 1\<rparr>
          in Some (hx, put_hash node hash m)
   }"

definition hindex_insert :: "hindex \<Rightarrow> addr \<Rightarrow> size_t \<Rightarrow> hx_mem \<Rightarrow> (hindex \<times> hx_mem) option" where
  "hindex_insert hx node hash m = do {
     (hx, m) \<leftarrow> hindex_insert_fast hx node hash m;
     if hx_n_unique hx div 2 > hx_mask hx then hindex_expand hx m else Some (hx, m)
   }"

definition hindex_node_is_body :: "hx_mem \<Rightarrow> addr \<Rightarrow> bool" where
  "hindex_node_is_body m node \<longleftrightarrow> hx_d (m node) \<noteq> 0 \<and> hx_hash (m (hx_d (m node))) = hx_hash (m node)"

definition hindex_node_is_head :: "hx_mem \<Rightarrow> addr \<Rightarrow> bool" where
  "hindex_node_is_head m node \<longleftrightarrow> \<not> hindex_node_is_body m node"

text \<open>The pointer to a pointer that \<^verbatim>\<open>hindex_remove\<close> walks with: to a bucket or to the \<^verbatim>\<open>d\<close> of a node.\<close>

datatype hindex_link = Bucket nat | D_of addr

fun read_link :: "hindex \<Rightarrow> hx_mem \<Rightarrow> hindex_link \<Rightarrow> addr" where
  "read_link hx m (Bucket i) = hx_buckets hx ! i"
| "read_link hx m (D_of a) = hx_d (m a)"

fun write_link :: "addr \<Rightarrow> hindex_link \<Rightarrow> hindex \<times> hx_mem \<Rightarrow> hindex \<times> hx_mem" where
  "write_link v (Bucket i) (hx, m) = (hx\<lparr>hx_buckets := (hx_buckets hx)[i := v]\<rparr>, m)"
| "write_link v (D_of a) (hx, m) = (hx, put_d a v m)"

text \<open>The walk dereferences a null pointer when no head has the hash.\<close>

partial_function (option) hindex_link_loop :: "hindex \<Rightarrow> hx_mem \<Rightarrow> size_t \<Rightarrow> hindex_link \<Rightarrow> hindex_link option" where
  "hindex_link_loop hx m hash head =
     (let node = read_link hx m head
      in if node = 0 then None
         else if hx_hash (m node) \<noteq> hash then hindex_link_loop hx m hash (D_of node)
         else Some head)"

definition hindex_remove :: "hindex \<Rightarrow> addr \<Rightarrow> hx_mem \<Rightarrow> (hindex \<times> hx_mem) option" where
  "hindex_remove hx node m =
     (if \<not> hindex_node_is_head m node
      then let m = put_s (hx_d (m node)) (hx_s (m node)) m;
               m = (if hx_s (m node) \<noteq> 0 then put_d (hx_s (m node)) (hx_d (m node)) m else m)
           in Some (hx, m)
      else do {
        head \<leftarrow> hindex_link_loop hx m (hx_hash (m node)) (Bucket (hx_bucket hx (hx_hash (m node))));
        if hx_s (m node) \<noteq> 0
        then let (hx, m) = write_link (hx_s (m node)) head (hx, m)
             in Some (hx, put_d (hx_s (m node)) (hx_d (m node)) m)
        else let (hx, m) = write_link (hx_d (m node)) head (hx, m)
             in Some (hx\<lparr>hx_n_unique := hx_n_unique hx - 1\<rparr>, m)
      })"

subsection \<open>Iteration\<close>

partial_function (option) hindex_head_node_loop :: "hx_mem \<Rightarrow> size_t \<Rightarrow> addr \<Rightarrow> addr option" where
  "hindex_head_node_loop m hash node =
     (if node = 0 then None
      else if hx_hash (m node) \<noteq> hash then hindex_head_node_loop m hash (hx_d (m node)) else Some node)"

definition hindex_head_node :: "hindex \<Rightarrow> size_t \<Rightarrow> hx_mem \<Rightarrow> addr option" where
  "hindex_head_node hx hash m = hindex_head_node_loop m hash (hx_buckets hx ! hx_bucket hx hash)"

text \<open>\<^verbatim>\<open>hindex_next__\<close>.\<close>

definition hindex_next0 :: "hindex \<Rightarrow> nat \<Rightarrow> addr" where
  "hindex_next0 hx start =
     (case dropWhile (\<lambda>b. b = 0) (drop start (take (unat (hx_mask hx) + 1) (hx_buckets hx))) of [] \<Rightarrow> 0 | b # _ \<Rightarrow> b)"

definition hindex_first :: "hindex \<Rightarrow> addr" where
  "hindex_first hx = hindex_next0 hx 0"

definition hindex_next :: "hindex \<Rightarrow> addr \<Rightarrow> hx_mem \<Rightarrow> addr option" where
  "hindex_next hx node m =
     (if hx_s (m node) \<noteq> 0 then Some (hx_s (m node))
      else do {
        head \<leftarrow> hindex_head_node hx (hx_hash (m node)) m;
        if hx_d (m head) \<noteq> 0 then Some (hx_d (m head))
        else Some (hindex_next0 hx (unat ((hx_hash (m node) AND hx_mask hx) + 1)))
      })"

text \<open>The nodes that \<^verbatim>\<open>HINDEX_FOR_EACH\<close> and \<^verbatim>\<open>HINDEX_FOR_EACH_WITH_HASH\<close> visit, in order.\<close>

partial_function (option) hindex_for_each_loop :: "hindex \<Rightarrow> hx_mem \<Rightarrow> addr \<Rightarrow> addr list \<Rightarrow> addr list option" where
  "hindex_for_each_loop hx m node acc =
     (if node \<noteq> 0 then do { n \<leftarrow> hindex_next hx node m; hindex_for_each_loop hx m n (acc @ [node]) } else Some acc)"

definition hindex_for_each :: "hindex \<Rightarrow> hx_mem \<Rightarrow> addr list option" where
  "hindex_for_each hx m = hindex_for_each_loop hx m (hindex_first hx) []"

partial_function (option) hindex_same_loop :: "hx_mem \<Rightarrow> addr \<Rightarrow> addr list \<Rightarrow> addr list option" where
  "hindex_same_loop m node acc = (if node \<noteq> 0 then hindex_same_loop m (hx_s (m node)) (acc @ [node]) else Some acc)"

definition hindex_for_each_with_hash :: "hindex \<Rightarrow> size_t \<Rightarrow> hx_mem \<Rightarrow> addr list option" where
  "hindex_for_each_with_hash hx hash m = do { node \<leftarrow> hindex_node_with_hash hx hash m; hindex_same_loop m node [] }"

declare hindex_resize_loop.simps [code] hindex_find_loop.simps [code] hindex_link_loop.simps [code]
  hindex_head_node_loop.simps [code] hindex_for_each_loop.simps [code] hindex_same_loop.simps [code]

section \<open>Chains\<close>

text \<open>The nodes of a group have one hash; the first is the head, and the \<^verbatim>\<open>d\<close> of the others points back.\<close>

type_synonym hx_group = "size_t \<times> addr list"

fun body_seg :: "hx_mem \<Rightarrow> size_t \<Rightarrow> addr \<Rightarrow> addr list \<Rightarrow> bool" where
  "body_seg m h p [] \<longleftrightarrow> True"
| "body_seg m h p (a # as) \<longleftrightarrow> hx_s (m p) = a \<and> a \<noteq> 0 \<and> hx_hash (m a) = h \<and> hx_d (m a) = p \<and> body_seg m h a as"

definition group_ok :: "hx_mem \<Rightarrow> hx_group \<Rightarrow> bool" where
  "group_ok m g \<longleftrightarrow>
     snd g \<noteq> [] \<and> hd (snd g) \<noteq> 0 \<and> hx_hash (m (hd (snd g))) = fst g
     \<and> body_seg m (fst g) (hd (snd g)) (tl (snd g)) \<and> hx_s (m (last (snd g))) = 0"

fun heads :: "hx_mem \<Rightarrow> addr \<Rightarrow> hx_group list \<Rightarrow> addr \<Rightarrow> bool" where
  "heads m p [] q \<longleftrightarrow> p = q"
| "heads m p (g # gs) q \<longleftrightarrow> group_ok m g \<and> p = hd (snd g) \<and> heads m (hx_d (m p)) gs q"

abbreviation group_addrs :: "hx_group list \<Rightarrow> addr list" where
  "group_addrs gs \<equiv> concat (map snd gs)"

lemma body_seg_append: "body_seg m h p (xs @ ys) \<longleftrightarrow> body_seg m h p xs \<and> body_seg m h (last (p # xs)) ys"
  by (induction xs arbitrary: p) auto

lemma body_seg_frame:
  "body_seg m h p as \<Longrightarrow> \<forall>a \<in> set (butlast (p # as)). hx_s (m' a) = hx_s (m a) \<Longrightarrow>
   \<forall>a \<in> set as. hx_hash (m' a) = hx_hash (m a) \<and> hx_d (m' a) = hx_d (m a) \<Longrightarrow> body_seg m' h p as"
  by (induction as arbitrary: p) auto

lemma body_seg_hash: "body_seg m h p as \<Longrightarrow> a \<in> set as \<Longrightarrow> hx_hash (m a) = h \<and> a \<noteq> 0"
  by (induction as arbitrary: p) auto

lemma group_hash: "group_ok m g \<Longrightarrow> a \<in> set (snd g) \<Longrightarrow> hx_hash (m a) = fst g \<and> a \<noteq> 0"
  using body_seg_hash [of m "fst g" "hd (snd g)" "tl (snd g)" a] by (cases "snd g") (auto simp: group_ok_def)

lemma group_frame:
  assumes "group_ok m g" "\<forall>a \<in> set (snd g). hx_s (m' a) = hx_s (m a) \<and> hx_hash (m' a) = hx_hash (m a)"
    "\<forall>a \<in> set (tl (snd g)). hx_d (m' a) = hx_d (m a)"
  shows "group_ok m' g"
proof -
  obtain h a as where g: "g = (h, a # as)" using assms(1) by (cases g; cases "snd g") (auto simp: group_ok_def)
  have "body_seg m h a as" using assms(1) g by (simp add: group_ok_def)
  then have "body_seg m' h a as" by (rule body_seg_frame) (use assms(2,3) g in \<open>auto dest: in_set_butlastD\<close>)
  moreover have "last (a # as) \<in> set (a # as)" by (rule last_in_set) simp
  ultimately show ?thesis using assms g by (auto simp: group_ok_def simp del: last.simps)
qed

lemma heads_append: "heads m p (xs @ ys) q \<longleftrightarrow> (\<exists>r. heads m p xs r \<and> heads m r ys q)"
  by (induction xs arbitrary: p) auto

lemma heads_frame:
  "heads m p gs q \<Longrightarrow> \<forall>a \<in> set (group_addrs gs). m' a = m a \<Longrightarrow> heads m' p gs q"
proof (induction gs arbitrary: p)
  case (Cons g gs)
  then have g: "group_ok m g" "p = hd (snd g)" by simp_all
  then have "p \<in> set (snd g)" by (auto simp: group_ok_def)
  moreover have "group_ok m' g" using g(1) by (rule group_frame) (use Cons.prems(2) in \<open>auto dest: in_set_tlD\<close>)
  ultimately show ?case using Cons g by auto
qed simp

lemma heads_groups: "heads m p gs q \<Longrightarrow> g \<in> set gs \<Longrightarrow> group_ok m g"
  by (induction gs arbitrary: p) auto

lemma heads_null: "heads m p gs q \<Longrightarrow> p = 0 \<Longrightarrow> gs = []"
  by (cases gs) (auto simp: group_ok_def)

text \<open>A new end: the \<^verbatim>\<open>d\<close> of the last head is set.\<close>

lemma heads_redirect:
  assumes "heads m p gs q" "gs \<noteq> []" "distinct (group_addrs gs)"
  shows "heads (put_d (hd (snd (last gs))) r m) p gs r"
  using assms
proof (induction gs arbitrary: p)
  case (Cons g gs)
  let ?l = "hd (snd (last (g # gs)))"
  let ?m = "put_d ?l r m"
  have g: "group_ok m g" "p = hd (snd g)" "heads m (hx_d (m p)) gs q" using Cons.prems(1) by auto
  have ne: "snd x \<noteq> []" if "x \<in> set (g # gs)" for x using that g(1) heads_groups [OF g(3)] unfolding group_ok_def by fastforce
  have l: "?l \<in> set (snd (last (g # gs)))" using ne [of "last (g # gs)"] by simp
  show ?case
  proof (cases "gs = []")
    case True
    obtain h a as where ga: "g = (h, a # as)" using ne [of g] by (cases g; cases "snd g") auto
    then have "a \<notin> set as" using Cons.prems(3) by simp
    then have "group_ok ?m g" using g(1) by (rule_tac group_frame [of m]) (auto simp: True ga)
    moreover have "hx_d (?m p) = r" using True g(2) by simp
    ultimately show ?thesis using True g(2) by (simp only: heads.simps simp_thms last.simps if_True)
  next
    case False
    then have "?l \<in> set (group_addrs gs)" using l by (auto simp: intro!: bexI [of _ "last gs"])
    moreover have "set (snd g) \<inter> set (group_addrs gs) = {}" using Cons.prems(3) by simp
    ultimately have "?l \<notin> set (snd g)" by blast
    moreover from this have "group_ok ?m g" using g(1) by (rule_tac group_frame [of m]) (auto dest: in_set_tlD)
    moreover have "p \<in> set (snd g)" using ne [of g] g(2) by simp
    ultimately have "hx_d (?m p) = hx_d (m p)" "group_ok ?m g" by auto
    moreover have "distinct (group_addrs gs)" using Cons.prems(3) by simp
    note Cons.IH [OF g(3) False this]
    then have "heads ?m (hx_d (m p)) gs r" using False by (simp only: last.simps if_False)
    ultimately show ?thesis using g(2) by (simp only: heads.simps simp_thms)
  qed
qed simp

section \<open>Well-formed indexes\<close>

text \<open>\<open>bs\<close> are the groups, bucket by bucket.\<close>

definition hx_rep :: "hindex \<Rightarrow> hx_mem \<Rightarrow> hx_group list list \<Rightarrow> bool" where
  "hx_rep hx m bs \<longleftrightarrow>
     is_pow2 (ucast (hx_mask hx + 1)) \<and> length bs = unat (hx_mask hx) + 1
     \<and> list_all2 (\<lambda>p gs. heads m p gs 0) (hx_buckets hx) bs
     \<and> (\<forall>i < length bs. \<forall>g \<in> set (bs ! i). hx_bucket hx (fst g) = i)
     \<and> distinct (map fst (concat bs)) \<and> distinct (group_addrs (concat bs))
     \<and> hx_n_unique hx = of_nat (length (concat bs))"

lemma rep_bucket:
  assumes "hx_rep hx m bs"
  shows "hx_bucket hx h < length bs" "hx_bucket hx h < length (hx_buckets hx)" "i < length bs \<Longrightarrow> heads m (hx_buckets hx ! i) (bs ! i) 0"
    "g \<in> set (concat bs) \<Longrightarrow> g \<in> set (bs ! hx_bucket hx (fst g))"
proof -
  have "list_all2 (\<lambda>p gs. heads m p gs 0) (hx_buckets hx) bs" using assms by (simp only: hx_rep_def)
  then have "length (hx_buckets hx) = length bs" by (rule list_all2_lengthD)
  then show l: "hx_bucket hx h < length bs" "hx_bucket hx h < length (hx_buckets hx)"
    using assms word_and_le1 [of h "hx_mask hx"] by (simp_all add: hx_rep_def word_le_nat_alt less_Suc_eq_le)
  show "i < length bs \<Longrightarrow> heads m (hx_buckets hx ! i) (bs ! i) 0"
    using assms by (auto simp: hx_rep_def list_all2_conv_all_nth)
  show "g \<in> set (concat bs) \<Longrightarrow> g \<in> set (bs ! hx_bucket hx (fst g))"
    using assms by (auto simp: hx_rep_def in_set_conv_nth [of _ bs])
qed

lemma rep_group: "hx_rep hx m bs \<Longrightarrow> g \<in> set (concat bs) \<Longrightarrow> group_ok m g"
  using rep_bucket(3) rep_bucket(4) rep_bucket(1) heads_groups by metis

text \<open>One bucket changes.\<close>

lemma rep_update:
  assumes "hx_rep hx m (bs1 @ gs # bs2)" "heads m' p gs' 0" "\<forall>a \<in> set (group_addrs (concat bs1 @ concat bs2)). m' a = m a"
    "\<forall>g \<in> set gs'. hx_bucket hx (fst g) = length bs1"
    "distinct (map fst (concat bs1 @ gs' @ concat bs2))" "distinct (group_addrs (concat bs1 @ gs' @ concat bs2))"
    "n = of_nat (length (concat bs1 @ gs' @ concat bs2))"
  shows "hx_rep (hx\<lparr>hx_buckets := (hx_buckets hx)[length bs1 := p], hx_n_unique := n\<rparr>) m' (bs1 @ gs' # bs2)"
proof -
  have la: "list_all2 (\<lambda>p gs. heads m p gs 0) (hx_buckets hx) (bs1 @ gs # bs2)" using assms(1) by (simp add: hx_rep_def)
  then obtain ps1 q ps2 where ps: "hx_buckets hx = ps1 @ q # ps2" "length ps1 = length bs1"
      "list_all2 (\<lambda>p gs. heads m p gs 0) ps1 bs1" "list_all2 (\<lambda>p gs. heads m p gs 0) ps2 bs2"
    by (auto simp: list_all2_append2 list_all2_Cons2)
  have "list_all2 (\<lambda>p gs. heads m' p gs 0) ps1 bs1" using ps(3)
    by (rule list.rel_mono_strong) (rule heads_frame [of m], use assms(3) in auto)
  moreover have "list_all2 (\<lambda>p gs. heads m' p gs 0) ps2 bs2" using ps(4)
    by (rule list.rel_mono_strong) (rule heads_frame [of m], use assms(3) in auto)
  ultimately have la': "list_all2 (\<lambda>p gs. heads m' p gs 0) ((hx_buckets hx)[length bs1 := p]) (bs1 @ gs' # bs2)"
    using ps assms(2) by (simp add: list_all2_append list_update_append flip: ps(2))
  have "hx_bucket hx (fst g) = i" if "i < length (bs1 @ gs' # bs2)" "g \<in> set ((bs1 @ gs' # bs2) ! i)" for i g
  proof (cases "i = length bs1")
    case True
    then show ?thesis using that assms(4) by simp
  next
    case False
    then have "(bs1 @ gs' # bs2) ! i = (bs1 @ gs # bs2) ! i" by (simp add: nth_append nth_Cons split: nat.splits)
    then show ?thesis using that assms(1) by (simp add: hx_rep_def)
  qed
  moreover have "is_pow2 (ucast (hx_mask hx + 1))" "length (bs1 @ gs' # bs2) = unat (hx_mask hx) + 1"
    using assms(1) by (simp_all add: hx_rep_def)
  ultimately show ?thesis using la' assms(5-7) unfolding hx_rep_def by simp
qed

lemma rep_split:
  assumes "hx_rep hx m bs"
  obtains bs1 gs bs2 where "bs = bs1 @ gs # bs2" "length bs1 = hx_bucket hx h" "heads m (hx_buckets hx ! hx_bucket hx h) gs 0"
proof -
  let ?i = "hx_bucket hx h"
  have "?i < length bs" by (rule rep_bucket(1) [OF assms])
  then have "bs = take ?i bs @ bs ! ?i # drop (Suc ?i) bs" "length (take ?i bs) = ?i" by (simp_all add: id_take_nth_drop)
  then show thesis using that rep_bucket(3) [OF assms \<open>?i < length bs\<close>] by blast
qed

lemma find_loop:
  "heads m p gs 0 \<Longrightarrow> hindex_find_loop m h p = Some (case find (\<lambda>g. fst g = h) gs of None \<Rightarrow> 0 | Some g \<Rightarrow> hd (snd g))"
proof (induction gs arbitrary: p)
  case Nil
  then show ?case by (simp add: hindex_find_loop.simps)
next
  case (Cons g gs)
  then have "p \<noteq> 0" "hx_hash (m p) = fst g" by (auto simp: group_ok_def)
  then show ?case using Cons by (subst hindex_find_loop.simps) auto
qed

text \<open>The nodes of an index with their hashes.\<close>

definition hx_nodes :: "hx_group list list \<Rightarrow> (addr \<times> size_t) set" where
  "hx_nodes bs = {(a, fst g) | a g. g \<in> set (concat bs) \<and> a \<in> set (snd g)}"

lemma hx_nodes_addrs: "fst ` hx_nodes bs = set (group_addrs (concat bs))"
  by (force simp: hx_nodes_def)

lemma find_SomeD: "find P xs = Some x \<Longrightarrow> x \<in> set xs \<and> P x"
  by (auto simp: find_Some_iff)

lemma distinct_fst_find:
  "distinct (map fst gs) \<Longrightarrow> g \<in> set gs \<Longrightarrow> find (\<lambda>x. fst x = fst g) gs = Some g"
  by (induction gs) (auto simp: image_iff)

lemma rep_find:
  assumes "hx_rep hx m bs"
  shows "hindex_node_with_hash hx h m = Some (case find (\<lambda>g. fst g = h) (concat bs) of None \<Rightarrow> 0 | Some g \<Rightarrow> hd (snd g))"
proof -
  let ?gs = "bs ! hx_bucket hx h"
  have r: "hindex_node_with_hash hx h m = Some (case find (\<lambda>g. fst g = h) ?gs of None \<Rightarrow> 0 | Some g \<Rightarrow> hd (snd g))"
    unfolding hindex_node_with_hash_def by (rule find_loop, rule rep_bucket(3) [OF assms rep_bucket(1) [OF assms]])
  have "find (\<lambda>g. fst g = h) ?gs = find (\<lambda>g. fst g = h) (concat bs)"
  proof (cases "find (\<lambda>g. fst g = h) (concat bs)")
    case None
    then have "\<forall>g \<in> set (concat bs). fst g \<noteq> h" unfolding find_None_iff by blast
    moreover have "set ?gs \<subseteq> set (concat bs)" using nth_mem [OF rep_bucket(1) [OF assms, of h]] by auto
    ultimately have "find (\<lambda>g. fst g = h) ?gs = None" unfolding find_None_iff by blast
    then show ?thesis using None by simp
  next
    case (Some g)
    then have g: "g \<in> set (concat bs)" "fst g = h" using find_SomeD [OF Some] by blast+
    have "distinct (map fst (concat bs))" using assms by (simp only: hx_rep_def)
    then have "distinct (map fst ?gs)" using rep_bucket(1) [OF assms, of h] by (metis distinct_concat_map_in nth_mem)
    then show ?thesis using Some distinct_fst_find [of ?gs g] rep_bucket(4) [OF assms g(1)] g(2) by simp
  qed
  then show ?thesis using r by simp
qed

section \<open>Insertion\<close>

lemma group_insert:
  assumes "group_ok m (h, a # as)" "node \<notin> set (a # as)" "node \<noteq> 0" "distinct (a # as)"
  defines "m1 \<equiv> put_d node a (put_s node (hx_s (m a)) m)"
  defines "m2 \<equiv> put_hash node h (put_s a node (if hx_s (m1 node) \<noteq> 0 then put_d (hx_s (m1 node)) node m1 else m1))"
  shows "group_ok m2 (h, a # node # as)" "hx_d (m2 a) = hx_d (m a)" "\<And>x. x \<notin> set (node # a # as) \<Longrightarrow> m2 x = m x"
proof -
  have a: "a \<noteq> 0" "hx_hash (m a) = h" "node \<noteq> a" "a \<notin> set as" using assms(1,2,4) by (auto simp: group_ok_def)
  have s: "hx_s (m a) = (case as of [] \<Rightarrow> 0 | b # _ \<Rightarrow> b)" using assms(1) by (auto simp: group_ok_def split: list.splits)
  show "hx_d (m2 a) = hx_d (m a)" using a s by (auto simp: m2_def m1_def split: list.splits)
  show "\<And>x. x \<notin> set (node # a # as) \<Longrightarrow> m2 x = m x" using a s by (auto simp: m2_def m1_def split: list.splits)
  show "group_ok m2 (h, a # node # as)"
  proof (cases as)
    case Nil
    then show ?thesis using a s assms(3) by (simp add: group_ok_def m2_def m1_def)
  next
    case (Cons b bs)
    then have b: "hx_s (m a) = b" "b \<noteq> 0" "hx_hash (m b) = h" "body_seg m h b bs" "hx_s (m (last as)) = 0"
      "b \<noteq> node" "b \<noteq> a" "b \<notin> set bs" "node \<notin> set bs" "a \<notin> set bs"
      using assms(1,2,4) a by (auto simp: group_ok_def)
    have m2: "m2 x = m x" if "x \<in> set bs" for x
    proof -
      have "x \<noteq> node" "x \<noteq> a" "x \<noteq> b" using that b(8-) by auto
      then show ?thesis using b(1,2) by (simp add: m2_def m1_def)
    qed
    have eb: "hx_hash (m2 b) = h" "hx_d (m2 b) = node" "hx_s (m2 b) = hx_s (m b)" using a b by (simp_all add: m2_def m1_def)
    have "body_seg m2 h b bs" using b(4)
      by (rule body_seg_frame) (use m2 eb b(6-) in \<open>auto dest: in_set_butlastD split: if_splits\<close>)
    moreover have "hx_s (m2 (last as)) = 0"
      using b(5,6,7,8,9,10) eb(3) m2 [of "last bs"] Cons last_in_set [of bs] by (cases "bs = []") auto
    moreover have "hx_s (m2 node) = b" "hx_s (m2 a) = node" "hx_hash (m2 node) = h" "hx_d (m2 node) = a" "hx_hash (m2 a) = h"
      using a b by (simp_all add: m2_def m1_def)
    ultimately show ?thesis using Cons a b eb assms(3) by (simp add: group_ok_def)
  qed
qed

lemma heads_insert_body:
  assumes "heads m p (gs1 @ (h, a # as) # gs2) 0" "distinct (group_addrs (gs1 @ (h, a # as) # gs2))"
    "node \<notin> set (group_addrs (gs1 @ (h, a # as) # gs2))" "group_ok m' (h, a # node # as)" "hx_d (m' a) = hx_d (m a)"
    "\<And>x. x \<notin> set (node # a # as) \<Longrightarrow> m' x = m x"
  shows "heads m' p (gs1 @ (h, a # node # as) # gs2) 0"
proof -
  have h: "heads m p gs1 a" "heads m (hx_d (m a)) gs2 0" using assms(1) by (auto simp: heads_append)
  have f: "m' x = m x" if "x \<in> set (group_addrs gs1) \<union> set (group_addrs gs2)" for x
    using that assms(2,3) by (intro assms(6)) auto
  have "heads m' p gs1 a" "heads m' (hx_d (m a)) gs2 0" using h f by (auto intro: heads_frame)
  then show ?thesis using assms(4,5) by (auto simp: heads_append)
qed

lemma rep_parts:
  assumes "hx_rep hx m (bs1 @ gs # bs2)"
  shows "distinct (map fst (concat bs1 @ gs @ concat bs2))" "distinct (group_addrs (concat bs1 @ gs @ concat bs2))"
    "hx_n_unique hx = of_nat (length (concat bs1 @ gs @ concat bs2))" "\<forall>g \<in> set gs. hx_bucket hx (fst g) = length bs1"
  using assms by (auto simp: hx_rep_def)

lemma insert_fast_head:
  assumes rep: "hx_rep hx m bs" and node: "node \<noteq> 0" "node \<notin> fst ` hx_nodes bs"
    and bs: "bs = bs1 @ gs # bs2" "length bs1 = hx_bucket hx h" "heads m (hx_buckets hx ! hx_bucket hx h) gs 0"
    and None: "find (\<lambda>g. fst g = h) gs = None"
  shows "\<exists>hx' m' bs'. hindex_insert_fast hx node h m = Some (hx', m') \<and> hx_rep hx' m' bs' \<and> hx_nodes bs' = insert (node, h) (hx_nodes bs)"
proof -
  note d = rep_parts(1,2) [OF rep [unfolded bs(1)]] and n = rep_parts(3) [OF rep [unfolded bs(1)]]
    and place = rep_parts(4) [OF rep [unfolded bs(1)]]
  have new: "node \<notin> set (group_addrs (concat bs1 @ gs @ concat bs2))" using node(2) unfolding hx_nodes_addrs bs(1) by simp
  have find: "hindex_node_with_hash hx h m = Some (case find (\<lambda>g. fst g = h) gs of None \<Rightarrow> 0 | Some g \<Rightarrow> hd (snd g))"
    unfolding hindex_node_with_hash_def by (rule find_loop [OF bs(3)])
  let ?m = "put_hash node h (put_d node (hx_buckets hx ! hx_bucket hx h) (put_s node 0 m))"
  let ?hx = "hx\<lparr>hx_buckets := (hx_buckets hx)[length bs1 := node], hx_n_unique := hx_n_unique hx + 1\<rparr>"
  have f: "\<forall>x \<in> set (group_addrs (concat bs1 @ gs @ concat bs2)). ?m x = m x" using new by auto
  have nh: "h \<notin> fst ` set gs" using None by (auto simp: find_None_iff)
  have nh': "h \<notin> fst ` set (concat bs1 @ gs @ concat bs2)"
  proof
    assume "h \<in> fst ` set (concat bs1 @ gs @ concat bs2)"
    then obtain g where "g \<in> set (concat bs)" "fst g = h" unfolding bs(1) by auto
    then have "g \<in> set (bs ! hx_bucket hx h)" using rep_bucket(4) [OF rep] by blast
    then show False using \<open>fst g = h\<close> nh bs(1,2) by (auto simp: nth_append)
  qed
  have "heads ?m (hx_buckets hx ! hx_bucket hx h) gs 0" using bs(3) by (rule heads_frame) (use f in auto)
  then have hd: "heads ?m node ((h, [node]) # gs) 0" using node(1) by (simp add: group_ok_def)
  have "hx_rep ?hx ?m (bs1 @ ((h, [node]) # gs) # bs2)"
    by (rule rep_update [OF rep [unfolded bs(1)] hd]) (use f place bs(2) d new nh' n in auto)
  moreover have "hindex_insert_fast hx node h m = Some (?hx, ?m)"
    unfolding hindex_insert_fast_def find None by (simp add: bs(2) Let_def)
  moreover have "hx_nodes (bs1 @ ((h, [node]) # gs) # bs2) = insert (node, h) (hx_nodes bs)"
    unfolding bs(1) hx_nodes_def by auto
  ultimately show ?thesis by blast
qed

lemma insert_fast_body:
  assumes rep: "hx_rep hx m bs" and node: "node \<noteq> 0" "node \<notin> fst ` hx_nodes bs"
    and bs: "bs = bs1 @ gs # bs2" "length bs1 = hx_bucket hx h" "heads m (hx_buckets hx ! hx_bucket hx h) gs 0"
    and Some: "find (\<lambda>g. fst g = h) gs = Some g"
  shows "\<exists>hx' m' bs'. hindex_insert_fast hx node h m = Some (hx', m') \<and> hx_rep hx' m' bs' \<and> hx_nodes bs' = insert (node, h) (hx_nodes bs)"
proof -
  note d = rep_parts(1,2) [OF rep [unfolded bs(1)]] and n = rep_parts(3) [OF rep [unfolded bs(1)]]
    and place = rep_parts(4) [OF rep [unfolded bs(1)]]
  have new: "node \<notin> set (group_addrs (concat bs1 @ gs @ concat bs2))" using node(2) unfolding hx_nodes_addrs bs(1) by simp
  have find: "hindex_node_with_hash hx h m = Some (case find (\<lambda>g. fst g = h) gs of None \<Rightarrow> 0 | Some g \<Rightarrow> hd (snd g))"
    unfolding hindex_node_with_hash_def by (rule find_loop [OF bs(3)])
  obtain gs1 gs2 where gs: "gs = gs1 @ g # gs2" "fst g = h" using Some find_SomeD [OF Some] by (metis split_list)
  have "group_ok m g" using heads_groups [OF bs(3)] gs(1) by simp
  then obtain a as where g: "g = (h, a # as)" "a \<noteq> 0" using gs(2) by (cases g; cases "snd g") (auto simp: group_ok_def)
  have ds: "distinct (a # as)" "node \<notin> set (a # as)" using d(2) new unfolding gs g by auto
  let ?m1 = "put_d node a (put_s node (hx_s (m a)) m)"
  let ?m = "put_hash node h (put_s a node (if hx_s (?m1 node) \<noteq> 0 then put_d (hx_s (?m1 node)) node ?m1 else ?m1))"
  let ?gs = "gs1 @ (h, a # node # as) # gs2"
  note gi = group_insert [OF \<open>group_ok m g\<close> [unfolded g(1)] ds(2) node(1) ds(1)]
  have hd: "heads ?m (hx_buckets hx ! hx_bucket hx h) ?gs 0"
    by (rule heads_insert_body [OF bs(3) [unfolded gs(1) g(1)] _ _ gi]) (use d(2) new gs g in auto)
  have "distinct (group_addrs (concat bs1) @ group_addrs gs1 @ (a # as) @ group_addrs gs2 @ group_addrs (concat bs2))"
    "node \<notin> set (group_addrs (concat bs1)) \<union> set (group_addrs (concat bs2))" using d(2) new gs g by simp_all
  then have "x \<notin> set (node # a # as)" if "x \<in> set (group_addrs (concat bs1)) \<union> set (group_addrs (concat bs2))" for x
    using that by (auto simp del: set_concat)
  then have f: "\<forall>x \<in> set (group_addrs (concat bs1 @ concat bs2)). ?m x = m x" by (intro ballI gi(3)) simp
  have "hx_rep (hx\<lparr>hx_buckets := (hx_buckets hx)[length bs1 := hx_buckets hx ! hx_bucket hx h], hx_n_unique := hx_n_unique hx\<rparr>) ?m (bs1 @ ?gs # bs2)"
    by (rule rep_update [OF rep [unfolded bs(1)] hd f]) (use place d new n gs g in auto)
  then have "hx_rep hx ?m (bs1 @ ?gs # bs2)" using bs(2) by simp
  moreover have "hindex_insert_fast hx node h m = Some (hx, ?m)"
    unfolding hindex_insert_fast_def find Some using g by (simp add: Let_def)
  moreover have "hx_nodes (bs1 @ ?gs # bs2) = insert (node, h) (hx_nodes bs)"
    unfolding bs(1) gs(1) g(1) hx_nodes_def by auto
  ultimately show ?thesis by blast
qed

lemma insert_fast:
  assumes rep: "hx_rep hx m bs" and node: "node \<noteq> 0" "node \<notin> fst ` hx_nodes bs"
  shows "\<exists>hx' m' bs'. hindex_insert_fast hx node h m = Some (hx', m') \<and> hx_rep hx' m' bs' \<and> hx_nodes bs' = insert (node, h) (hx_nodes bs)"
proof -
  obtain bs1 gs bs2 where bs: "bs = bs1 @ gs # bs2" "length bs1 = hx_bucket hx h" "heads m (hx_buckets hx ! hx_bucket hx h) gs 0"
    using rep_split [OF rep] by blast
  show ?thesis using insert_fast_head [OF rep node bs] insert_fast_body [OF rep node bs] by (cases "find (\<lambda>g. fst g = h) gs") blast+
qed

section \<open>Resizing\<close>

abbreviation chains :: "hx_mem \<Rightarrow> addr list \<Rightarrow> hx_group list list \<Rightarrow> bool" where
  "chains m \<equiv> list_all2 (\<lambda>p gs. heads m p gs 0)"

definition put_group :: "size_t \<Rightarrow> hx_group \<Rightarrow> hx_group list list \<Rightarrow> hx_group list list" where
  "put_group mk g tb = (let i = unat (fst g AND mk) in tb[i := g # tb ! i])"

lemma chains_frame: "chains m ps bs \<Longrightarrow> \<forall>a \<in> set (group_addrs (concat bs)). m' a = m a \<Longrightarrow> chains m' ps bs"
  by (erule list.rel_mono_strong) (auto elim!: heads_frame)

lemma move_group:
  assumes "heads m p (g # gs) 0" "chains m B tb" "i < length B" "distinct (group_addrs (g # gs @ concat tb))"
  defines "m' \<equiv> put_d p (B ! i) m"
  shows "heads m' (hx_d (m p)) gs 0" "chains m' (B[i := p]) (tb[i := g # tb ! i])" "\<And>a. a \<notin> set (snd g) \<Longrightarrow> m' a = m a"
proof -
  have g: "group_ok m g" "p = hd (snd g)" "heads m (hx_d (m p)) gs 0" "snd g \<noteq> []" using assms(1) by (auto simp: group_ok_def)
  then have p: "p \<in> set (snd g)" by simp
  then show f: "\<And>a. a \<notin> set (snd g) \<Longrightarrow> m' a = m a" by (auto simp: m'_def)
  have dj: "set (snd g) \<inter> set (group_addrs gs) = {}" "set (snd g) \<inter> set (group_addrs (concat tb)) = {}" "distinct (snd g)"
    using assms(4) by (auto simp del: set_concat)
  show "heads m' (hx_d (m p)) gs 0" using g(3) by (rule heads_frame) (use f dj(1) in \<open>blast\<close>)
  have ch: "chains m' B tb" using assms(2) by (rule chains_frame) (use f dj(2) in \<open>blast\<close>)
  have "p \<notin> set (tl (snd g))" using dj(3) g(2,4) by (cases "snd g") auto
  then have "group_ok m' g" using g(1) by (rule_tac group_frame [of m]) (auto simp: m'_def)
  moreover have "heads m' (B ! i) (tb ! i) 0" using ch assms(3) by (simp add: list_all2_conv_all_nth)
  ultimately have "heads m' p (g # tb ! i) 0" using g(2) by (simp add: m'_def)
  then show "chains m' (B[i := p]) (tb[i := g # tb ! i])" using ch by (rule list_all2_update_cong [rotated])
qed

lemma put_group_concat:
  assumes "unat (fst g AND mk) < length tb"
  shows "mset (concat (put_group mk g tb)) = add_mset g (mset (concat tb))" "length (put_group mk g tb) = length tb"
proof -
  show "length (put_group mk g tb) = length tb" by (simp add: put_group_def Let_def)
  show "mset (concat (put_group mk g tb)) = add_mset g (mset (concat tb))"
    using concat_update_mset [OF assms, of "g # tb ! unat (fst g AND mk)"] by (simp add: put_group_def Let_def)
qed

lemma mset_group_addrs: "mset (group_addrs gs) = sum_mset (image_mset (mset \<circ> snd) (mset gs))"
  by (induction gs) auto

lemma same_groups: "mset gs = mset gs' \<Longrightarrow> distinct (map fst gs) = distinct (map fst gs') \<and> distinct (group_addrs gs) = distinct (group_addrs gs')"
  using mset_eq_imp_distinct_iff [of "group_addrs gs" "group_addrs gs'"] mset_eq_imp_distinct_iff [of "map fst gs" "map fst gs'"]
  by (simp add: mset_group_addrs del: distinct_concat_iff)

definition placed_by :: "size_t \<Rightarrow> hx_group list list \<Rightarrow> bool" where
  "placed_by mk tb \<longleftrightarrow> (\<forall>i < length tb. \<forall>g \<in> set (tb ! i). unat (fst g AND mk) = i)"

lemma fold_put_group:
  assumes "\<forall>h. unat (h AND mk) < length tb"
  shows "length (fold (put_group mk) gs tb) = length tb \<and> mset (concat (fold (put_group mk) gs tb)) = mset gs + mset (concat tb)
    \<and> (placed_by mk tb \<longrightarrow> placed_by mk (fold (put_group mk) gs tb))"
  using assms
proof (induction gs arbitrary: tb)
  case (Cons g gs)
  have l: "unat (fst g AND mk) < length tb" using Cons.prems by blast
  note p = put_group_concat [OF l]
  have "placed_by mk tb \<longrightarrow> placed_by mk (put_group mk g tb)"
    using l by (auto simp: placed_by_def put_group_def Let_def nth_list_update split: if_splits)
  moreover have "\<forall>h. unat (h AND mk) < length (put_group mk g tb)" using Cons.prems unfolding p(2) .
  ultimately show ?case using Cons.IH [of "put_group mk g tb"] unfolding p fold_simps by auto
qed simp

lemma resize_loop:
  assumes "heads m p gs 0" "chains m B tb" "\<forall>h. unat (h AND mk) < length tb" "distinct (group_addrs (gs @ concat tb))"
  shows "\<exists>B' m'. hindex_resize_loop mk p (B, m) = Some (B', m') \<and> chains m' B' (fold (put_group mk) gs tb)
    \<and> (\<forall>a. a \<notin> set (group_addrs gs) \<longrightarrow> m' a = m a)"
  using assms
proof (induction gs arbitrary: p m B tb)
  case Nil
  then show ?case by (auto simp: hindex_resize_loop.simps)
next
  case (Cons g gs)
  let ?i = "unat (fst g AND mk)"
  let ?m = "put_d p (B ! ?i) m"
  have p: "p \<noteq> 0" "hx_hash (m p) = fst g" using Cons.prems(1) by (auto simp: group_ok_def)
  have i: "?i < length B" "?i < length tb" using Cons.prems(2,3) list_all2_lengthD [OF Cons.prems(2)] by auto
  note mv = move_group [OF Cons.prems(1,2) i(1)] and pg = put_group_concat [OF i(2)]
  have d: "distinct (group_addrs (g # gs @ concat tb))" using Cons.prems(4) by simp
  have "mset (gs @ concat (put_group mk g tb)) = mset (g # gs @ concat tb)" using pg(1) by simp
  then have d': "distinct (group_addrs (gs @ concat (put_group mk g tb)))" using same_groups d by blast
  have pg': "tb[?i := g # tb ! ?i] = put_group mk g tb" by (simp add: put_group_def Let_def)
  have mk: "\<forall>h. unat (h AND mk) < length (put_group mk g tb)" using Cons.prems(3) unfolding pg(2) .
  obtain B' m' where r: "hindex_resize_loop mk (hx_d (m p)) (B[?i := p], ?m) = Some (B', m')"
    "chains m' B' (fold (put_group mk) gs (put_group mk g tb))" "\<forall>a. a \<notin> set (group_addrs gs) \<longrightarrow> m' a = ?m a"
    using Cons.IH [OF mv(1) [OF d] mv(2) [OF d, unfolded pg'] mk d'] by blast
  have "hindex_resize_loop mk p (B, m) = Some (B', m')"
    using r(1) p by (subst hindex_resize_loop.simps) (simp add: Let_def)
  moreover have "\<forall>a. a \<notin> set (group_addrs (g # gs)) \<longrightarrow> m' a = m a"
  proof (intro allI impI)
    fix a assume "a \<notin> set (group_addrs (g # gs))"
    then have "a \<notin> set (group_addrs gs)" "a \<notin> set (snd g)" by simp_all
    then show "m' a = m a" using r(3) mv(3) [OF d, of a] by simp
  qed
  ultimately show ?case using r(2) by auto
qed

lemma resize_all:
  assumes "chains m ps bs" "chains m B tb" "\<forall>h. unat (h AND mk) < length tb" "distinct (group_addrs (concat bs @ concat tb))"
  shows "\<exists>B' m'. hindex_resize_all mk ps (B, m) = Some (B', m') \<and> chains m' B' (fold (put_group mk) (concat bs) tb)"
  using assms
proof (induction ps arbitrary: bs m B tb)
  case (Cons p ps)
  obtain gs bs' where bs: "bs = gs # bs'" "heads m p gs 0" "chains m ps bs'" using Cons.prems(1) by (auto simp: list_all2_Cons1)
  let ?tb = "fold (put_group mk) gs tb"
  have d: "distinct (group_addrs gs @ group_addrs (concat bs') @ group_addrs (concat tb))" using Cons.prems(4) bs by simp
  then have "distinct (group_addrs (gs @ concat tb))" by (auto simp del: set_concat distinct_concat_iff)
  then obtain B' m' where r: "hindex_resize_loop mk p (B, m) = Some (B', m')" "chains m' B' ?tb"
    "\<forall>a. a \<notin> set (group_addrs gs) \<longrightarrow> m' a = m a"
    using resize_loop [OF bs(2) Cons.prems(2,3)] by blast
  have "set (group_addrs gs) \<inter> set (group_addrs (concat bs')) = {}" using d by (auto simp del: set_concat)
  then have ch: "chains m' ps bs'" using bs(3) r(3) by (intro chains_frame [OF bs(3)]) blast
  note fp = fold_put_group [OF Cons.prems(3), of gs]
  have "mset (concat bs' @ concat ?tb) = mset (concat bs @ concat tb)" using fp bs(1) by simp
  then have "distinct (group_addrs (concat bs' @ concat ?tb))" using same_groups Cons.prems(4) by blast
  then show ?case using Cons.IH [OF ch r(2)] fp Cons.prems(3) r(1) bs(1) by simp
qed simp

lemma replicate_empty: "chains m (replicate n 0) (replicate n [])" "concat (replicate n []) = []" "placed_by mk (replicate n [])"
proof -
  show "chains m (replicate n 0) (replicate n [])" "concat (replicate n []) = []" by (induction n) simp_all
  show "placed_by mk (replicate n [])" unfolding placed_by_def length_replicate by simp
qed

lemma hindex_resize:
  assumes "hx_rep hx m bs" "is_pow2 (ucast (mk + 1))" "mk \<noteq> 0xffffffff" "buckets_fit mk"
  shows "\<exists>hx' m' bs'. hindex_resize hx mk m = Some (hx', m') \<and> hx_rep hx' m' bs' \<and> hx_nodes bs' = hx_nodes bs"
proof -
  let ?B = "replicate (unat mk + 1) (0 :: addr)"
  let ?tb = "replicate (unat mk + 1) ([] :: hx_group list)"
  have bs: "length bs = unat (hx_mask hx) + 1" "chains m (hx_buckets hx) bs" "distinct (map fst (concat bs))"
    "distinct (group_addrs (concat bs))" "hx_n_unique hx = of_nat (length (concat bs))" using assms(1) unfolding hx_rep_def by blast+
  have "length (hx_buckets hx) = unat (hx_mask hx) + 1" using list_all2_lengthD [OF bs(2)] bs(1) by simp
  then have take: "take (unat (hx_mask hx) + 1) (hx_buckets hx) = hx_buckets hx" by simp
  have tb: "chains m ?B ?tb" "concat ?tb = []" "placed_by mk ?tb" by (rule replicate_empty)+
  have mk: "\<forall>h. unat (h AND mk) < length ?tb" using word_and_le1 [of _ mk] by (simp add: word_le_nat_alt less_Suc_eq_le)
  have "distinct (group_addrs (concat bs @ concat ?tb))" using bs(4) tb(2) by simp
  then obtain B' m' where r: "hindex_resize_all mk (hx_buckets hx) (?B, m) = Some (B', m')"
    "chains m' B' (fold (put_group mk) (concat bs) ?tb)" using resize_all [OF bs(2) tb(1) mk] by blast
  let ?bs = "fold (put_group mk) (concat bs) ?tb"
  let ?hx = "\<lparr>hx_buckets = B', hx_mask = mk, hx_n_unique = hx_n_unique hx\<rparr>"
  have fp: "length ?bs = unat mk + 1" "mset (concat ?bs) = mset (concat bs)" "placed_by mk ?bs"
    using fold_put_group [OF mk, of "concat bs"] tb(2,3) by simp_all
  then have sg: "distinct (map fst (concat ?bs))" "distinct (group_addrs (concat ?bs))" "length (concat ?bs) = length (concat bs)"
    using same_groups [OF fp(2)] bs(3,4) mset_eq_length [OF fp(2)] by blast+
  have "hx_rep ?hx m' ?bs" using assms(2) fp(1,3) r(2) sg bs(5) by (simp add: hx_rep_def placed_by_def)
  moreover have "hindex_resize hx mk m = Some (?hx, m')"
    using assms(2-4) r(1) take by (cases "mk = 0") (simp_all add: hindex_resize_def hindex_init_def hindex_swap_def Let_def)
  moreover have "hx_nodes ?bs = hx_nodes bs" using mset_eq_setD [OF fp(2)] by (simp add: hx_nodes_def del: set_concat)
  ultimately show ?thesis by blast
qed

lemma hindex_calc_mask:
  "is_pow2 (ucast (hindex_calc_mask c + 1))" "hindex_calc_mask c \<noteq> 0xffffffff" "buckets_fit (hindex_calc_mask c) \<longleftrightarrow> unat c < 2 ^ 30"
proof -
  have eq: "hindex_calc_mask c = calc_mask c" by (simp only: hindex_calc_mask_def calc_mask_def)
  show "is_pow2 (ucast (hindex_calc_mask c + 1))" unfolding eq by (rule is_pow2_calc_mask)
  show "buckets_fit (hindex_calc_mask c) \<longleftrightarrow> unat c < 2 ^ 30" unfolding eq by (rule calc_mask_fits)
  obtain k where k: "k \<le> 31" "unat (calc_mask c) = 2 ^ k - 1" by (rule calc_mask_unat [of c])
  have "(2 :: nat) ^ k \<le> 2 ^ 31" using k(1) by (rule power_increasing) simp
  then have "unat (calc_mask c) \<noteq> unat (0xffffffff :: u32)" using k(2) by simp
  then show "hindex_calc_mask c \<noteq> 0xffffffff" unfolding eq by metis
qed

lemma groups_le_nodes:
  assumes "hx_rep hx m bs"
  shows "length (concat bs) \<le> card (hx_nodes bs)"
proof -
  have sub: "set (map fst (concat bs)) \<subseteq> snd ` hx_nodes bs"
  proof
    fix h
    assume "h \<in> set (map fst (concat bs))"
    then obtain g where g: "g \<in> set (concat bs)" "h = fst g" unfolding set_map by blast
    then have "hd (snd g) \<in> set (snd g)" using rep_group [OF assms] unfolding group_ok_def by simp
    then have "(hd (snd g), h) \<in> hx_nodes bs" using g unfolding hx_nodes_def by blast
    then show "h \<in> snd ` hx_nodes bs" by (metis image_eqI snd_conv)
  qed
  have "hx_nodes bs \<subseteq> set (group_addrs (concat bs)) \<times> set (map fst (concat bs))"
    unfolding hx_nodes_addrs [symmetric] unfolding hx_nodes_def set_map by force
  then have fin: "finite (hx_nodes bs)" by (rule finite_subset) (simp only: finite_cartesian_product finite_set)
  have "distinct (map fst (concat bs))" using assms by (simp only: hx_rep_def)
  then have "length (concat bs) = card (set (map fst (concat bs)))" by (simp only: distinct_card length_map)
  also have "\<dots> \<le> card (snd ` hx_nodes bs)" using fin sub by (intro card_mono) simp_all
  also have "\<dots> \<le> card (hx_nodes bs)" using fin by (rule card_image_le)
  finally show ?thesis .
qed

lemma unique_bound:
  assumes "hx_rep hx m bs" "card (hx_nodes bs) < 2 ^ 30"
  shows "unat (hx_n_unique hx) < 2 ^ 30"
proof -
  have "hx_n_unique hx = of_nat (length (concat bs))" using assms(1) by (simp only: hx_rep_def)
  moreover have "length (concat bs) < 2 ^ 30" using groups_le_nodes [OF assms(1)] assms(2) by (rule le_less_trans)
  ultimately show ?thesis by (simp add: unat_of_nat)
qed

text \<open>With fewer than \<open>2 ^ 30\<close> nodes, and capacities below that number, the size of the buckets does not wrap.\<close>

lemma hindex_expand_shrink_reserve:
  assumes "hx_rep hx m bs" "resized = hindex_expand hx m \<or> resized = hindex_shrink hx m \<or> resized = hindex_reserve hx n m"
    "card (hx_nodes bs) < 2 ^ 30" "unat n < 2 ^ 30"
  shows "\<exists>hx' m' bs'. resized = Some (hx', m') \<and> hx_rep hx' m' bs' \<and> hx_nodes bs' = hx_nodes bs"
  using assms(2) hindex_resize [OF assms(1) hindex_calc_mask(1,2)] assms(1) hindex_calc_mask(3) unique_bound [OF assms(1,3)] assms(4)
  unfolding hindex_expand_def hindex_shrink_def hindex_reserve_def Let_def by (auto split: if_splits)

lemma hindex_insert:
  assumes "hx_rep hx m bs" "node \<noteq> 0" "node \<notin> fst ` hx_nodes bs" "card (hx_nodes bs) < 2 ^ 30 - 1"
  shows "\<exists>hx' m' bs'. hindex_insert hx node h m = Some (hx', m') \<and> hx_rep hx' m' bs' \<and> hx_nodes bs' = insert (node, h) (hx_nodes bs)"
proof -
  obtain hx1 m1 bs1 where 1: "hindex_insert_fast hx node h m = Some (hx1, m1)" "hx_rep hx1 m1 bs1" "hx_nodes bs1 = insert (node, h) (hx_nodes bs)"
    using insert_fast [OF assms(1-3)] by blast
  have "card (hx_nodes bs1) \<le> Suc (card (hx_nodes bs))" unfolding 1(3) by (rule card_insert_le_m1) simp_all
  then have "card (hx_nodes bs1) < 2 ^ 30" using assms(4) by simp
  then obtain hx2 m2 bs2 where 2: "hindex_expand hx1 m1 = Some (hx2, m2)" "hx_rep hx2 m2 bs2" "hx_nodes bs2 = hx_nodes bs1"
    using hindex_expand_shrink_reserve [OF 1(2) disjI1 [OF refl], of 0] by auto
  show ?thesis
  proof (cases "hx_n_unique hx1 div 2 > hx_mask hx1")
    case True
    then have "hindex_insert hx node h m = Some (hx2, m2)" using 1(1) 2(1) by (simp add: hindex_insert_def)
    then show ?thesis using 2 1(3) by metis
  next
    case False
    then have "hindex_insert hx node h m = Some (hx1, m1)" using 1(1) by (simp add: hindex_insert_def)
    then show ?thesis using 1 by metis
  qed
qed

end
