(* ===== verification/Ovs_Hindex_Refine.thy ===== *)
theory Ovs_Hindex_Refine
  imports Ovs_Hindex Machine
begin

text \<open>
  Removal from the hash index of \<^verbatim>\<open>lib/hindex.c\<close>, its iteration, and the contract of an index that its clients rely on.
\<close>

section \<open>Removal\<close>

definition link_after :: "nat \<Rightarrow> hx_group list \<Rightarrow> hindex_link" where
  "link_after i gs = (if gs = [] then Bucket i else D_of (hd (snd (last gs))))"

lemma link_loop:
  assumes "heads m (read_link hx m l) (gs1 @ g # gs2) 0" "\<forall>x \<in> set gs1. fst x \<noteq> fst g"
  shows "hindex_link_loop hx m (fst g) l = Some (if gs1 = [] then l else D_of (hd (snd (last gs1))))"
  using assms
proof (induction gs1 arbitrary: l)
  case Nil
  then have "read_link hx m l \<noteq> 0" "hx_hash (m (read_link hx m l)) = fst g" by (auto simp: group_ok_def)
  then show ?case by (subst hindex_link_loop.simps) (simp add: Let_def)
next
  case (Cons x gs1)
  let ?p = "read_link hx m l"
  have p: "?p \<noteq> 0" "hx_hash (m ?p) = fst x" "?p = hd (snd x)" "heads m (read_link hx m (D_of ?p)) (gs1 @ g # gs2) 0"
    using Cons.prems(1) by (auto simp: group_ok_def)
  have "hindex_link_loop hx m (fst g) l = hindex_link_loop hx m (fst g) (D_of ?p)"
    using p(1,2) Cons.prems(2) by (subst hindex_link_loop.simps) (simp add: Let_def)
  then show ?case using Cons.IH [OF p(4)] Cons.prems(2) p(3) by simp
qed

lemma write_link:
  assumes "heads m (hx_buckets hx ! i) gs q" "i < length (hx_buckets hx)" "distinct (group_addrs gs)"
    "write_link v (link_after i gs) (hx, m) = (hx', m')"
  shows "\<exists>p. hx' = hx\<lparr>hx_buckets := (hx_buckets hx)[i := p]\<rparr> \<and> heads m' p gs v \<and> (\<forall>a. a \<notin> set (group_addrs gs) \<longrightarrow> m' a = m a)"
proof (cases "gs = []")
  case True
  then show ?thesis using assms(4) by (intro exI [of _ v]) (auto simp: link_after_def)
next
  case False
  then have h: "hx' = hx" "m' = put_d (hd (snd (last gs))) v m" using assms(4) by (auto simp: link_after_def)
  have "group_ok m (last gs)" by (rule heads_groups [OF assms(1)]) (simp add: False)
  then have "hd (snd (last gs)) \<in> set (group_addrs gs)" using False by (auto simp: group_ok_def intro!: bexI [of _ "last gs"])
  then have "m' a = m a" if "a \<notin> set (group_addrs gs)" for a using that h(2) by (metis put_apply(2))
  moreover have "heads m' (hx_buckets hx ! i) gs v" unfolding h(2) by (rule heads_redirect [OF assms(1) False assms(3)])
  ultimately show ?thesis using h(1) by (intro exI [of _ "hx_buckets hx ! i"]) simp
qed

lemma group_remove_body:
  assumes "group_ok m (h, xs @ p # node # ys)" "distinct (xs @ p # node # ys)"
  defines "m1 \<equiv> put_s (hx_d (m node)) (hx_s (m node)) m"
  defines "m2 \<equiv> if hx_s (m1 node) \<noteq> 0 then put_d (hx_s (m1 node)) (hx_d (m1 node)) m1 else m1"
  shows "group_ok m2 (h, xs @ p # ys)" "hx_d (m2 (hd (xs @ [p]))) = hx_d (m (hd (xs @ [p])))"
    "\<And>x. x \<notin> set (xs @ p # node # ys) \<Longrightarrow> m2 x = m x" "hx_d (m node) = p" "hx_hash (m p) = hx_hash (m node)" "p \<noteq> 0"
proof -
  let ?a = "hd (xs @ [p])" and ?as = "tl (xs @ [p])"
  have split: "xs @ p # zs = ?a # ?as @ zs" "last (?a # ?as) = p" for zs by (cases xs; simp)+
  have b: "body_seg m h ?a ?as" "body_seg m h p (node # ys)" and ends: "hx_s (m (last (node # ys))) = 0" "?a \<noteq> 0" "hx_hash (m ?a) = h"
  proof -
    show "hx_s (m (last (node # ys))) = 0" using assms(1) by (simp add: group_ok_def)
    show "body_seg m h ?a ?as" "body_seg m h p (node # ys)" "?a \<noteq> 0" "hx_hash (m ?a) = h"
      using assms(1) unfolding split(1) [of "node # ys"] group_ok_def by (auto simp: body_seg_append split(2) simp del: last.simps)
  qed
  show d: "hx_d (m node) = p" using b(2) by simp
  show hp: "hx_hash (m p) = hx_hash (m node)" "p \<noteq> 0"
    using group_hash [OF assms(1)] by auto
  have s: "hx_s (m node) = (case ys of [] \<Rightarrow> 0 | y # _ \<Rightarrow> y)" using b(2) ends(1) by (auto split: list.splits)
  have ne: "node \<noteq> p" "node \<notin> set xs" "p \<notin> set ys" "node \<notin> set ys" "set xs \<inter> set ys = {}" "p \<notin> set xs" "distinct ys" using assms(2) by auto
  have m1: "m1 node = m node" "m1 x = (if x = p then (m p)\<lparr>hx_s := hx_s (m node)\<rparr> else m x)" for x using ne(1) d by (simp_all add: m1_def)
  show fr: "\<And>x. x \<notin> set (xs @ p # node # ys) \<Longrightarrow> m2 x = m x"
    using s m1 by (auto simp: m2_def split: list.splits)
  have px: "m2 x = (if x = p then (m p)\<lparr>hx_s := hx_s (m node)\<rparr> else m x)" if "x \<in> set (xs @ [p])" for x
    using that s m1 ne by (auto simp: m2_def split: list.splits)
  show "hx_d (m2 ?a) = hx_d (m ?a)" using px [of ?a] by (simp add: hd_append split: list.splits if_splits)
  have seg1: "body_seg m2 h ?a ?as"
  proof (rule body_seg_frame [OF b(1)])
    have "p \<notin> set (butlast (?a # ?as))" using split(2) assms(2) by (metis split(1) append_Nil2 butlast_snoc distinct.simps(2) ne(6))
    then show "\<forall>x \<in> set (butlast (?a # ?as)). hx_s (m2 x) = hx_s (m x)" using px split(1) [of "[]"]
      by (metis append_Nil2 in_set_butlastD)
    show "\<forall>x \<in> set ?as. hx_hash (m2 x) = hx_hash (m x) \<and> hx_d (m2 x) = hx_d (m x)"
      using px by (auto dest!: in_set_tlD)
  qed
  have "?a \<in> set (xs @ [p])" by (rule hd_in_set) simp
  then have a2: "hx_hash (m2 ?a) = h" using px [of ?a] ends(3) by (auto split: if_splits)
  have "group_ok m2 (h, ?a # ?as @ ys)"
  proof (cases ys)
    case Nil
    then show ?thesis using seg1 split(2) s px [of p] a2 ends(2) by (simp add: group_ok_def del: last.simps)
  next
    case (Cons y zs)
    have y: "hx_s (m2 p) = y" "y \<noteq> 0" "hx_hash (m2 y) = h" "hx_d (m2 y) = p" "hx_s (m2 y) = hx_s (m y)"
      using Cons b(2) s m1 ne d px [of p] by (auto simp: m2_def)
    have fz: "m2 x = m x" if "x \<in> set zs" for x using that Cons s m1 ne by (auto simp: m2_def)
    have "body_seg m2 h y zs" by (rule body_seg_frame [of m]) (use b(2) Cons fz y(5) in \<open>auto dest: in_set_butlastD\<close>)
    moreover have "hx_s (m2 (last ys)) = 0" using ends(1) Cons y(5) fz [of "last zs"] by (cases "zs = []") auto
    ultimately show ?thesis using seg1 split(2) y(1-4) a2 ends(2) Cons
      by (simp add: group_ok_def body_seg_append del: last.simps) simp
  qed
  then show "group_ok m2 (h, xs @ p # ys)" unfolding split(1) [of ys] .
qed

definition gnodes :: "hx_group list \<Rightarrow> (addr \<times> size_t) set" where
  "gnodes gs = {(a, fst g) | a g. g \<in> set gs \<and> a \<in> set (snd g)}"

lemma gnodes_simps [simp]:
  "gnodes [] = {}" "gnodes (g # gs) = (\<lambda>a. (a, fst g)) ` set (snd g) \<union> gnodes gs" "gnodes (gs @ gs') = gnodes gs \<union> gnodes gs'"
  unfolding gnodes_def by (simp, force, force)

lemma hx_nodes_gnodes: "hx_nodes bs = gnodes (concat bs)"
  by (simp add: hx_nodes_def gnodes_def)

lemma gnodes_addrs: "fst ` gnodes gs = set (group_addrs gs)"
  by (force simp: gnodes_def)

lemma heads_replace:
  assumes "heads m p (gs1 @ g # gs2) 0" "group_ok m' g'" "hd (snd g') = hd (snd g)" "hx_d (m' (hd (snd g))) = hx_d (m (hd (snd g)))"
    "\<forall>x \<in> set (group_addrs gs1) \<union> set (group_addrs gs2). m' x = m x"
  shows "heads m' p (gs1 @ g' # gs2) 0"
proof -
  have h: "heads m p gs1 (hd (snd g))" "heads m (hx_d (m (hd (snd g)))) gs2 0" using assms(1) by (auto simp: heads_append)
  have "heads m' p gs1 (hd (snd g))" using h(1) by (rule heads_frame) (use assms(5) in blast)
  moreover have "heads m' (hx_d (m (hd (snd g)))) gs2 0" using h(2) by (rule heads_frame) (use assms(5) in blast)
  ultimately show ?thesis using assms(2-4) by (auto simp: heads_append)
qed

text \<open>Where a node is.\<close>

definition located :: "hindex \<Rightarrow> hx_mem \<Rightarrow> hx_group list list \<Rightarrow> hx_group list \<Rightarrow> hx_group \<Rightarrow> hx_group list \<Rightarrow> hx_group list list \<Rightarrow> bool" where
  "located hx m bs1 gs1 g gs2 bs2 \<longleftrightarrow>
     hx_rep hx m (bs1 @ (gs1 @ g # gs2) # bs2) \<and> length bs1 = hx_bucket hx (fst g)
     \<and> heads m (hx_buckets hx ! length bs1) (gs1 @ g # gs2) 0"

lemma located_exists:
  assumes "hx_rep hx m bs" "(node, h) \<in> hx_nodes bs"
  obtains bs1 gs1 g gs2 bs2 where "bs = bs1 @ (gs1 @ g # gs2) # bs2" "located hx m bs1 gs1 g gs2 bs2" "fst g = h" "node \<in> set (snd g)"
proof -
  obtain g where g: "g \<in> set (concat bs)" "fst g = h" "node \<in> set (snd g)" using assms(2) unfolding hx_nodes_def by blast
  obtain bs1 gs bs2 where bs: "bs = bs1 @ gs # bs2" "length bs1 = hx_bucket hx h" "heads m (hx_buckets hx ! hx_bucket hx h) gs 0"
    using rep_split [OF assms(1)] by blast
  have "g \<in> set gs" using rep_bucket(4) [OF assms(1) g(1)] g(2) bs(1,2) by (simp add: nth_append)
  then obtain gs1 gs2 where "gs = gs1 @ g # gs2" by (meson split_list)
  then show thesis using that [of bs1 gs1 g gs2 bs2] bs assms(1) g by (simp add: located_def)
qed

lemma located_facts:
  assumes "located hx m bs1 gs1 g gs2 bs2"
  shows "group_ok m g" "distinct (group_addrs (concat bs1) @ group_addrs gs1 @ snd g @ group_addrs gs2 @ group_addrs (concat bs2))"
    "\<forall>x \<in> set (gs1 @ gs2). fst x \<noteq> fst g" "length bs1 < length (hx_buckets hx)"
    "hx_n_unique hx = of_nat (length (concat bs1 @ (gs1 @ g # gs2) @ concat bs2))"
proof -
  have r: "hx_rep hx m (bs1 @ (gs1 @ g # gs2) # bs2)" "length bs1 = hx_bucket hx (fst g)"
    and h: "heads m (hx_buckets hx ! length bs1) (gs1 @ g # gs2) 0" using assms by (auto simp: located_def)
  note p = rep_parts [OF r(1)]
  show "group_ok m g" using heads_groups [OF h] by simp
  show "distinct (group_addrs (concat bs1) @ group_addrs gs1 @ snd g @ group_addrs gs2 @ group_addrs (concat bs2))" using p(2) by simp
  show "\<forall>x \<in> set (gs1 @ gs2). fst x \<noteq> fst g" using p(1) by (auto simp: image_iff)
  show "length bs1 < length (hx_buckets hx)" unfolding r(2) by (rule rep_bucket(2) [OF r(1)])
  show "hx_n_unique hx = of_nat (length (concat bs1 @ (gs1 @ g # gs2) @ concat bs2))" by (rule p(3))
qed

text \<open>The group that holds the node changes, or goes.\<close>

lemma located_update:
  assumes "located hx m bs1 gs1 g gs2 bs2" "heads m' p (gs1 @ gs @ gs2) 0"
    "\<forall>x \<in> set (group_addrs (concat bs1)) \<union> set (group_addrs (concat bs2)). m' x = m x"
    "gs = [] \<or> (\<exists>ys. gs = [(fst g, ys)] \<and> distinct ys \<and> set ys \<subseteq> set (snd g))"
    "n = of_nat (length (concat bs1 @ (gs1 @ gs @ gs2) @ concat bs2))"
  shows "hx_rep (hx\<lparr>hx_buckets := (hx_buckets hx)[length bs1 := p], hx_n_unique := n\<rparr>) m' (bs1 @ (gs1 @ gs @ gs2) # bs2)"
proof -
  note lf = located_facts [OF assms(1)]
  have r: "hx_rep hx m (bs1 @ (gs1 @ g # gs2) # bs2)" "length bs1 = hx_bucket hx (fst g)" using assms(1) by (auto simp: located_def)
  note pt = rep_parts [OF r(1)]
  have "set (group_addrs gs) \<subseteq> set (snd g)" "distinct (group_addrs gs)" using assms(4) by auto
  then have "distinct (group_addrs (concat bs1) @ group_addrs gs1 @ group_addrs gs @ group_addrs gs2 @ group_addrs (concat bs2))"
    using lf(2) by (auto simp del: set_concat distinct_concat_iff)
  then have d: "distinct (group_addrs (concat bs1 @ (gs1 @ gs @ gs2) @ concat bs2))" by simp
  have "distinct (map fst (concat bs1) @ map fst gs1 @ fst g # map fst gs2 @ map fst (concat bs2))" using pt(1) by simp
  then have d': "distinct (map fst (concat bs1 @ (gs1 @ gs @ gs2) @ concat bs2))" using assms(4) by (auto simp del: set_concat distinct_concat_iff set_map)
  show ?thesis by (rule rep_update [OF r(1) assms(2) _ _ d' d assms(5)]) (use assms(3,4) pt(4) r(2) in auto)
qed

lemma remove_body:
  assumes "located hx m bs1 gs1 g gs2 bs2" "snd g = xs @ p # node # ys"
  shows "\<exists>hx' m'. hindex_remove hx node m = Some (hx', m') \<and> hx_rep hx' m' (bs1 @ (gs1 @ [(fst g, xs @ p # ys)] @ gs2) # bs2)"
proof -
  note lf = located_facts [OF assms(1)]
  have g: "g = (fst g, xs @ p # node # ys)" using assms(2) by (cases g) simp
  have d: "distinct (xs @ p # node # ys)" using lf(2) assms(2) by (auto simp del: set_concat distinct_concat_iff)
  define m1 where "m1 = put_s (hx_d (m node)) (hx_s (m node)) m"
  define m2 where "m2 = (if hx_s (m1 node) \<noteq> 0 then put_d (hx_s (m1 node)) (hx_d (m1 node)) m1 else m1)"
  have "group_ok m (fst g, xs @ p # node # ys)" using lf(1) g by simp
  note rb = group_remove_body [OF this d, folded m1_def, folded m2_def]
  have fr: "m2 x = m x" if "x \<notin> set (snd g)" for x using rb(3) that assms(2) by simp
  have dj: "set (snd g) \<inter> set (group_addrs gs1) = {}" "set (snd g) \<inter> set (group_addrs gs2) = {}"
    "set (snd g) \<inter> set (group_addrs (concat bs1)) = {}" "set (snd g) \<inter> set (group_addrs (concat bs2)) = {}"
    using lf(2) by (auto simp del: set_concat distinct_concat_iff)
  have hd: "hd (snd g) = hd (xs @ [p])" using assms(2) by (cases xs) simp_all
  have "heads m (hx_buckets hx ! length bs1) (gs1 @ g # gs2) 0" using assms(1) unfolding located_def by blast
  then have "heads m2 (hx_buckets hx ! length bs1) (gs1 @ (fst g, xs @ p # ys) # gs2) 0"
  proof (rule heads_replace)
    show "hd (snd (fst g, xs @ p # ys)) = hd (snd g)" using assms(2) by (cases xs) simp_all
    show "hx_d (m2 (hd (snd g))) = hx_d (m (hd (snd g)))" using rb(2) unfolding hd .
    show "\<forall>x \<in> set (group_addrs gs1) \<union> set (group_addrs gs2). m2 x = m x" using fr dj(1,2) by blast
  qed (rule rb(1))
  then have h: "heads m2 (hx_buckets hx ! length bs1) (gs1 @ [(fst g, xs @ p # ys)] @ gs2) 0" by simp
  have "hx_rep (hx\<lparr>hx_buckets := (hx_buckets hx)[length bs1 := hx_buckets hx ! length bs1], hx_n_unique := hx_n_unique hx\<rparr>)
      m2 (bs1 @ (gs1 @ [(fst g, xs @ p # ys)] @ gs2) # bs2)"
  proof (rule located_update [OF assms(1) h])
    show "\<forall>x \<in> set (group_addrs (concat bs1)) \<union> set (group_addrs (concat bs2)). m2 x = m x" using fr dj(3,4) by blast
    have "distinct (xs @ p # ys)" "set (xs @ p # ys) \<subseteq> set (snd g)" using d assms(2) by auto
    then show "[(fst g, xs @ p # ys)] = [] \<or> (\<exists>zs. [(fst g, xs @ p # ys)] = [(fst g, zs)] \<and> distinct zs \<and> set zs \<subseteq> set (snd g))" by blast
    show "hx_n_unique hx = of_nat (length (concat bs1 @ (gs1 @ [(fst g, xs @ p # ys)] @ gs2) @ concat bs2))" using lf(5) by simp
  qed
  moreover have "hindex_remove hx node m = Some (hx, m2)"
    using rb(4-6) by (simp add: hindex_remove_def hindex_node_is_head_def hindex_node_is_body_def Let_def m2_def m1_def del: put_apply)
  ultimately show ?thesis by auto
qed

lemma located_disjoint:
  assumes "located hx m bs1 gs1 g gs2 bs2"
  shows "set (snd g) \<inter> set (group_addrs gs1) = {}" "set (snd g) \<inter> set (group_addrs gs2) = {}"
    "set (group_addrs gs1) \<inter> set (group_addrs gs2) = {}" "distinct (snd g)" "distinct (group_addrs gs1)"
    "set (group_addrs gs1 @ snd g @ group_addrs gs2) \<inter> (set (group_addrs (concat bs1)) \<union> set (group_addrs (concat bs2))) = {}"
  using located_facts(2) [OF assms] by (auto simp del: set_concat distinct_concat_iff)

text \<open>The walk to the head, and the node after a write through the link that was found.\<close>

lemma head_link:
  assumes "located hx m bs1 gs1 g gs2 bs2" "hd (snd g) = node"
  shows "hindex_node_is_head m node" "hx_hash (m node) = fst g" "heads m (hx_d (m node)) gs2 0"
    "hindex_link_loop hx m (fst g) (Bucket (hx_bucket hx (fst g))) = Some (link_after (length bs1) gs1)"
    "heads m (hx_buckets hx ! length bs1) gs1 node"
proof -
  note lf = located_facts [OF assms(1)]
  have h: "heads m (hx_buckets hx ! length bs1) (gs1 @ g # gs2) 0" "length bs1 = hx_bucket hx (fst g)"
    using assms(1) unfolding located_def by blast+
  show hash: "hx_hash (m node) = fst g" using lf(1) assms(2) by (simp add: group_ok_def)
  show d: "heads m (hx_d (m node)) gs2 0" "heads m (hx_buckets hx ! length bs1) gs1 node" using h(1) assms(2) by (auto simp: heads_append)
  show "hindex_node_is_head m node"
  proof (cases gs2)
    case Nil
    then show ?thesis using d(1) by (simp add: hindex_node_is_head_def hindex_node_is_body_def)
  next
    case (Cons x xs)
    then have "hx_hash (m (hx_d (m node))) = fst x" using d(1) by (auto simp: group_ok_def)
    then show ?thesis using lf(3) Cons hash by (auto simp: hindex_node_is_head_def hindex_node_is_body_def)
  qed
  show "hindex_link_loop hx m (fst g) (Bucket (hx_bucket hx (fst g))) = Some (link_after (length bs1) gs1)"
    using link_loop [of m hx "Bucket (length bs1)" gs1 g gs2] h lf(3) by (auto simp: link_after_def)
qed

lemma remove_head_last:
  assumes "located hx m bs1 gs1 g gs2 bs2" "snd g = [node]"
  shows "\<exists>hx' m'. hindex_remove hx node m = Some (hx', m') \<and> hx_rep hx' m' (bs1 @ (gs1 @ [] @ gs2) # bs2)"
proof -
  note lf = located_facts [OF assms(1)] and dj = located_disjoint [OF assms(1)]
  have hd: "hd (snd g) = node" using assms(2) by simp
  note hl = head_link [OF assms(1) hd]
  have s: "hx_s (m node) = 0" using lf(1) assms(2) by (simp add: group_ok_def)
  obtain hx' m' where w: "write_link (hx_d (m node)) (link_after (length bs1) gs1) (hx, m) = (hx', m')" by fastforce
  obtain p where p: "hx' = hx\<lparr>hx_buckets := (hx_buckets hx)[length bs1 := p]\<rparr>" "heads m' p gs1 (hx_d (m node))"
    "\<forall>a. a \<notin> set (group_addrs gs1) \<longrightarrow> m' a = m a" using write_link [OF hl(5) lf(4) dj(5) w] by blast
  have "heads m' (hx_d (m node)) gs2 0" using hl(3) by (rule heads_frame) (use p(3) dj(3) in blast)
  then have h: "heads m' p (gs1 @ [] @ gs2) 0" using p(2) by (auto simp: heads_append)
  have "hx_rep (hx\<lparr>hx_buckets := (hx_buckets hx)[length bs1 := p], hx_n_unique := hx_n_unique hx - 1\<rparr>) m' (bs1 @ (gs1 @ [] @ gs2) # bs2)"
  proof (rule located_update [OF assms(1) h])
    show "\<forall>x \<in> set (group_addrs (concat bs1)) \<union> set (group_addrs (concat bs2)). m' x = m x"
      using p(3) dj(6) unfolding set_append by blast
    show "hx_n_unique hx - 1 = of_nat (length (concat bs1 @ (gs1 @ [] @ gs2) @ concat bs2))" using lf(5) by simp
  qed simp
  moreover have "hindex_remove hx node m = Some (hx\<lparr>hx_buckets := (hx_buckets hx)[length bs1 := p], hx_n_unique := hx_n_unique hx - 1\<rparr>, m')"
    using hl(1,2,4) s w p(1) by (simp add: hindex_remove_def)
  ultimately show ?thesis by auto
qed

lemma remove_head_more:
  assumes "located hx m bs1 gs1 g gs2 bs2" "snd g = node # b # zs"
  shows "\<exists>hx' m'. hindex_remove hx node m = Some (hx', m') \<and> hx_rep hx' m' (bs1 @ (gs1 @ [(fst g, b # zs)] @ gs2) # bs2)"
proof -
  note lf = located_facts [OF assms(1)] and dj = located_disjoint [OF assms(1)]
  have hd: "hd (snd g) = node" using assms(2) by simp
  note hl = head_link [OF assms(1) hd]
  have s: "hx_s (m node) = b" "b \<noteq> 0" "hx_hash (m b) = fst g" "body_seg m (fst g) b zs" "hx_s (m (last (b # zs))) = 0"
    using lf(1) assms(2) by (simp_all add: group_ok_def)
  obtain hx' m' where w: "write_link b (link_after (length bs1) gs1) (hx, m) = (hx', m')" by fastforce
  obtain p where p: "hx' = hx\<lparr>hx_buckets := (hx_buckets hx)[length bs1 := p]\<rparr>" "heads m' p gs1 b"
    "\<forall>a. a \<notin> set (group_addrs gs1) \<longrightarrow> m' a = m a" using write_link [OF hl(5) lf(4) dj(5) w] by blast
  have mg: "m' a = m a" if "a \<in> set (snd g)" for a using that p(3) dj(1) by blast
  let ?m = "put_d b (hx_d (m node)) m'"
  have other: "?m a = m' a" if "a \<notin> set (snd g)" for a using that assms(2) by auto
  have ds: "b \<notin> set zs" "node \<noteq> b" using dj(4) assms(2) by auto
  have "group_ok m (fst g, b # zs)" using s by (simp add: group_ok_def)
  then have ok: "group_ok ?m (fst g, b # zs)" by (rule group_frame) (use mg assms(2) ds in auto)
  have "heads ?m p gs1 b" using p(2) by (rule heads_frame) (use other dj(1) in blast)
  moreover have "heads ?m (hx_d (m node)) gs2 0" using hl(3) by (rule heads_frame) (use other p(3) dj(2,3) in \<open>metis disjoint_iff\<close>)
  ultimately have h: "heads ?m p (gs1 @ [(fst g, b # zs)] @ gs2) 0" using ok by (auto simp: heads_append)
  have "hx_rep (hx\<lparr>hx_buckets := (hx_buckets hx)[length bs1 := p], hx_n_unique := hx_n_unique hx\<rparr>) ?m (bs1 @ (gs1 @ [(fst g, b # zs)] @ gs2) # bs2)"
  proof (rule located_update [OF assms(1) h])
    show "\<forall>x \<in> set (group_addrs (concat bs1)) \<union> set (group_addrs (concat bs2)). ?m x = m x"
    proof
      fix x assume "x \<in> set (group_addrs (concat bs1)) \<union> set (group_addrs (concat bs2))"
      then have "x \<notin> set (group_addrs gs1)" "x \<notin> set (snd g)" using dj(6) unfolding set_append by blast+
      then show "?m x = m x" using other [of x] p(3) by simp
    qed
    have "distinct (b # zs)" "set (b # zs) \<subseteq> set (snd g)" using dj(4) assms(2) by auto
    then show "[(fst g, b # zs)] = [] \<or> (\<exists>ys. [(fst g, b # zs)] = [(fst g, ys)] \<and> distinct ys \<and> set ys \<subseteq> set (snd g))" by blast
    show "hx_n_unique hx = of_nat (length (concat bs1 @ (gs1 @ [(fst g, b # zs)] @ gs2) @ concat bs2))" using lf(5) by simp
  qed
  moreover have "m' node = m node" using mg assms(2) by simp
  then have "hindex_remove hx node m = Some (hx\<lparr>hx_buckets := (hx_buckets hx)[length bs1 := p]\<rparr>, ?m)"
    using hl(1,2,4) s(1,2) w p(1) by (simp add: hindex_remove_def del: put_apply)
  ultimately show ?thesis by auto
qed

lemma hindex_remove:
  assumes "hx_rep hx m bs" "(node, h) \<in> hx_nodes bs"
  shows "\<exists>hx' m' bs'. hindex_remove hx node m = Some (hx', m') \<and> hx_rep hx' m' bs' \<and> hx_nodes bs' = hx_nodes bs - {(node, h)}"
proof -
  obtain bs1 gs1 g gs2 bs2 where g: "bs = bs1 @ (gs1 @ g # gs2) # bs2" "located hx m bs1 gs1 g gs2 bs2" "fst g = h" "node \<in> set (snd g)"
    using located_exists [OF assms] by blast
  note dj = located_disjoint [OF g(2)]
  have "node \<notin> fst ` gnodes (concat bs1) \<union> fst ` gnodes gs1 \<union> fst ` gnodes gs2 \<union> fst ` gnodes (concat bs2)"
    unfolding gnodes_addrs using dj(1,2,6) g(4) unfolding set_append by blast
  then have out: "(node, h) \<notin> gnodes (concat bs1) \<union> gnodes gs1 \<union> gnodes gs2 \<union> gnodes (concat bs2)" by force
  obtain xs ys where sg: "snd g = xs @ node # ys" using g(4) by (meson split_list)
  have nodes: "hx_nodes (bs1 @ (gs1 @ gs @ gs2) # bs2) = hx_nodes bs - {(node, h)}" if "gnodes gs = (\<lambda>a. (a, h)) ` set (xs @ ys)" for gs
  proof -
    have "node \<notin> set (xs @ ys)" using dj(4) sg by auto
    then have "(\<lambda>a. (a, h)) ` set (xs @ ys) = (\<lambda>a. (a, h)) ` set (snd g) - {(node, h)}" unfolding sg by auto
    then show ?thesis using out that g(3) unfolding g(1) hx_nodes_gnodes by auto
  qed
  show ?thesis
  proof (cases "xs = []")
    case False
    then have x: "snd g = butlast xs @ last xs # node # ys" "butlast xs @ last xs # ys = xs @ ys" using sg by simp_all
    have "gnodes [(fst g, xs @ ys)] = (\<lambda>a. (a, h)) ` set (xs @ ys)" using g(3) by simp
    from nodes [OF this] remove_body [OF g(2) x(1), unfolded x(2)] show ?thesis by blast
  next
    case True
    note x = sg [unfolded True append_Nil]
    show ?thesis
    proof (cases ys)
      case Nil
      have "gnodes [] = (\<lambda>a. (a, h)) ` set (xs @ ys)" using True Nil by simp
      from nodes [OF this] remove_head_last [OF g(2) x [unfolded Nil]] show ?thesis by blast
    next
      case (Cons b zs)
      have "gnodes [(fst g, b # zs)] = (\<lambda>a. (a, h)) ` set (xs @ ys)" using g(3) True Cons by simp
      from nodes [OF this] remove_head_more [OF g(2) x [unfolded Cons]] show ?thesis by blast
    qed
  qed
qed

section \<open>Iteration\<close>

abbreviation first_of :: "addr list \<Rightarrow> addr" where
  "first_of as \<equiv> (case as of [] \<Rightarrow> 0 | a # _ \<Rightarrow> a)"

lemma heads_first: "heads m p gs 0 \<Longrightarrow> p = first_of (group_addrs gs)"
  by (cases gs; cases "snd (hd gs)") (auto simp: group_ok_def)

lemma distinct_split_eq: "distinct (xs @ a # ys) \<Longrightarrow> xs @ a # ys = xs' @ a # ys' \<Longrightarrow> ys = ys'"
proof -
  assume d: "distinct (xs @ a # ys)" and e: "xs @ a # ys = xs' @ a # ys'"
  have "a \<notin> set xs" "a \<notin> set ys" using d by auto
  then show ?thesis using e by (simp add: append_Cons_eq_iff)
qed

lemma first_bucket:
  "chains m ps bs \<Longrightarrow> (case dropWhile (\<lambda>b. b = 0) ps of [] \<Rightarrow> 0 | b # _ \<Rightarrow> b) = first_of (group_addrs (concat bs))"
proof (induction ps arbitrary: bs)
  case (Cons p ps)
  then obtain gs bs' where bs: "bs = gs # bs'" "heads m p gs 0" "chains m ps bs'" by (auto simp: list_all2_Cons1)
  show ?case
  proof (cases "p = 0")
    case True
    then show ?thesis using Cons.IH [OF bs(3)] heads_null [OF bs(2)] bs(1) by simp
  next
    case False
    then show ?thesis using heads_first [OF bs(2)] bs(1) by (cases "group_addrs gs") auto
  qed
qed simp

lemma next0_eq:
  assumes "hx_rep hx m bs"
  shows "hindex_next0 hx i = first_of (group_addrs (concat (drop i bs)))"
proof -
  have ch: "chains m (hx_buckets hx) bs" and l: "length bs = unat (hx_mask hx) + 1" using assms by (auto simp: hx_rep_def)
  have "take (unat (hx_mask hx) + 1) (hx_buckets hx) = hx_buckets hx" using list_all2_lengthD [OF ch] l by simp
  then show ?thesis unfolding hindex_next0_def using first_bucket [OF list_all2_dropI [OF ch, of i]] by simp
qed

lemma hx_bucket_Suc:
  assumes "hx_rep hx m bs"
  shows "unat ((hash AND hx_mask hx) + 1) = Suc (hx_bucket hx hash)"
proof -
  have "hx_mask hx + 1 \<noteq> 0" using assms by (auto simp: hx_rep_def is_pow2_def)
  then have "hash AND hx_mask hx \<noteq> - 1"
    using word_and_le1 [of hash "hx_mask hx"] by (metis add.right_inverse add.commute word_order.extremum_unique)
  then show ?thesis by (metis add.commute add_eq_0_iff unatSuc)
qed

lemma head_node_loop:
  "heads m p (gs1 @ g # gs2) 0 \<Longrightarrow> \<forall>x \<in> set gs1. fst x \<noteq> fst g \<Longrightarrow> hindex_head_node_loop m (fst g) p = Some (hd (snd g))"
proof (induction gs1 arbitrary: p)
  case Nil
  then have "p \<noteq> 0" "hx_hash (m p) = fst g" "p = hd (snd g)" by (auto simp: group_ok_def)
  then show ?case by (subst hindex_head_node_loop.simps) simp
next
  case (Cons x gs1)
  then have "p \<noteq> 0" "hx_hash (m p) = fst x" by (auto simp: group_ok_def)
  then show ?case using Cons by (subst hindex_head_node_loop.simps) auto
qed

lemma body_seg_next: "body_seg m h p (xs @ a # b # ys) \<Longrightarrow> hx_s (m a) = b"
  by (auto simp: body_seg_append)

lemma group_next:
  assumes "group_ok m g" "snd g = xs @ a # ys"
  shows "hx_s (m a) = first_of ys"
proof (cases ys)
  case Nil
  then show ?thesis using assms by (simp add: group_ok_def)
next
  case (Cons b zs)
  then show ?thesis using assms by (cases xs) (auto simp: group_ok_def body_seg_append)
qed

lemma groups_nonzero: "\<forall>g \<in> set gs. group_ok m g \<Longrightarrow> a \<in> set (group_addrs gs) \<Longrightarrow> a \<noteq> 0"
  by (auto dest!: bspec group_hash)

lemma next_eq:
  assumes "hx_rep hx m bs" "group_addrs (concat bs) = as @ a # as'"
  shows "hindex_next hx a m = Some (first_of as')"
proof -
  have "a \<in> fst ` hx_nodes bs" unfolding hx_nodes_addrs assms(2) by simp
  then obtain h where "(a, h) \<in> hx_nodes bs" by auto
  then obtain bs1 gs1 g gs2 bs2 where g: "bs = bs1 @ (gs1 @ g # gs2) # bs2" "located hx m bs1 gs1 g gs2 bs2" "a \<in> set (snd g)"
    using located_exists [OF assms(1)] by metis
  obtain xs ys where sg: "snd g = xs @ a # ys" using g(3) by (meson split_list)
  note lf = located_facts [OF g(2)]
  have "group_addrs (concat bs) = (group_addrs (concat bs1) @ group_addrs gs1 @ xs) @ a # ys @ group_addrs gs2 @ group_addrs (concat bs2)"
    using g(1) sg by simp
  moreover have "distinct (group_addrs (concat bs))" using assms(1) by (simp only: hx_rep_def)
  ultimately have as': "as' = ys @ group_addrs gs2 @ group_addrs (concat bs2)" using assms(2) distinct_split_eq by metis
  have s: "hx_s (m a) = first_of ys" by (rule group_next [OF lf(1) sg])
  have y: "first_of ys \<noteq> 0" if "ys \<noteq> []" using that group_hash [OF lf(1), of "hd ys"] sg by (cases ys) auto
  have hash: "hx_hash (m a) = fst g" using group_hash [OF lf(1) g(3)] by simp
  have hl: "length bs1 = hx_bucket hx (fst g)" "heads m (hx_buckets hx ! hx_bucket hx (fst g)) (gs1 @ g # gs2) 0" using g(2) unfolding located_def by metis+
  have head: "hindex_head_node hx (fst g) m = Some (hd (snd g))"
    unfolding hindex_head_node_def by (rule head_node_loop [OF hl(2)]) (use lf(3) in simp)
  have d: "hx_d (m (hd (snd g))) = first_of (group_addrs gs2)" by (rule heads_first, rule head_link(3) [OF g(2) refl])
  have n0: "hindex_next0 hx (Suc (hx_bucket hx (fst g))) = first_of (group_addrs (concat bs2))"
    using next0_eq [OF assms(1), of "Suc (hx_bucket hx (fst g))"] g(1) hl(1) by simp
  show ?thesis
  proof (cases "ys = []")
    case False
    then show ?thesis using s y as' by (cases ys) (auto simp: hindex_next_def)
  next
    case True
    have "first_of (group_addrs gs2) \<noteq> 0" if "group_addrs gs2 \<noteq> []"
      using that groups_nonzero [of gs2 m "hd (group_addrs gs2)"] heads_groups [OF hl(2)] by (cases "group_addrs gs2") auto
    then show ?thesis using True s as' hash head d n0 hx_bucket_Suc [OF assms(1)]
      by (cases "group_addrs gs2") (auto simp: hindex_next_def)
  qed
qed

lemma for_each_loop:
  "hx_rep hx m bs \<Longrightarrow> group_addrs (concat bs) = as @ as' \<Longrightarrow> hindex_for_each_loop hx m (first_of as') acc = Some (acc @ as')"
proof (induction as' arbitrary: as acc)
  case Nil
  then show ?case by (simp add: hindex_for_each_loop.simps)
next
  case (Cons a as')
  have "a \<in> set (group_addrs (concat bs))" unfolding Cons.prems(2) by simp
  then have "a \<noteq> 0" by (rule groups_nonzero [rotated]) (use rep_group [OF Cons.prems(1)] in blast)
  then show ?case using Cons.IH [of "as @ [a]" "acc @ [a]"] Cons.prems next_eq [OF Cons.prems]
    by (subst hindex_for_each_loop.simps) simp
qed

lemma for_each: "hx_rep hx m bs \<Longrightarrow> hindex_for_each hx m = Some (group_addrs (concat bs))"
  using for_each_loop [of hx m bs "[]" _ "[]"] next0_eq [of hx m bs 0] by (simp add: hindex_for_each_def hindex_first_def)

lemma same_loop:
  "group_ok m g \<Longrightarrow> snd g = xs @ ys \<Longrightarrow> hindex_same_loop m (first_of ys) acc = Some (acc @ ys)"
proof (induction ys arbitrary: xs acc)
  case Nil
  then show ?case by (simp add: hindex_same_loop.simps)
next
  case (Cons a ys)
  have "a \<noteq> 0" using group_hash [OF Cons.prems(1), of a] Cons.prems(2) by simp
  then show ?case using Cons.IH [of "xs @ [a]" "acc @ [a]"] Cons.prems group_next [OF Cons.prems]
    by (subst hindex_same_loop.simps) simp
qed

lemma for_each_with_hash:
  assumes "hx_rep hx m bs"
  shows "hindex_for_each_with_hash hx h m = Some (case find (\<lambda>g. fst g = h) (concat bs) of None \<Rightarrow> [] | Some g \<Rightarrow> snd g)"
proof (cases "find (\<lambda>g. fst g = h) (concat bs)")
  case None
  then show ?thesis by (simp add: hindex_for_each_with_hash_def rep_find [OF assms] hindex_same_loop.simps)
next
  case (Some g)
  then have "group_ok m g" using rep_group [OF assms] find_SomeD [OF Some] by blast
  then show ?thesis using Some same_loop [of m g "[]" "snd g" "[]"]
    by (cases "snd g") (auto simp: hindex_for_each_with_hash_def rep_find [OF assms] group_ok_def)
qed

section \<open>The contract\<close>

text \<open>An index together with its nodes in memory; the content is what the iteration visits.\<close>

type_synonym hx_state = "hindex \<times> hx_mem"

definition hx_wf :: "hx_state \<Rightarrow> bool" where
  "hx_wf s \<longleftrightarrow> (\<exists>bs. hx_rep (fst s) (snd s) bs)"

definition hx_content :: "hx_state \<Rightarrow> (addr \<times> size_t) set" where
  "hx_content s = (\<lambda>a. (a, hx_hash (snd s a))) ` set (the (hindex_for_each (fst s) (snd s)))"

lemma content_nodes:
  assumes "hx_rep hx m bs"
  shows "hx_content (hx, m) = hx_nodes bs"
proof -
  have "hx_hash (m a) = fst g" if "g \<in> set (concat bs)" "a \<in> set (snd g)" for a g
    using group_hash [OF rep_group [OF assms that(1)] that(2)] by simp
  then show ?thesis unfolding hx_content_def hx_nodes_def fst_conv snd_conv for_each [OF assms] option.sel by force
qed

lemma init_rep: "hx_rep hindex_init m [[]]"
  by (simp add: hx_rep_def hindex_init_def is_pow2_def)

text \<open>
  What a client relies on: the content after an insertion, while there are fewer nodes than \<open>limit\<close>, or a removal, and a
  search that tells whether a hash is there and whether one node only has it.
\<close>

locale hash_index =
  fixes invar :: "'m \<Rightarrow> bool"
    and content :: "'m \<Rightarrow> (addr \<times> 'h) set"
    and insert :: "addr \<Rightarrow> 'h \<Rightarrow> 'm \<Rightarrow> 'm option"
    and remove :: "addr \<Rightarrow> 'm \<Rightarrow> 'm option"
    and find :: "'h \<Rightarrow> 'm \<Rightarrow> addr option"
    and same :: "addr \<Rightarrow> 'm \<Rightarrow> addr"
    and limit :: nat
  assumes insert_law: "invar m \<Longrightarrow> a \<noteq> 0 \<Longrightarrow> a \<notin> fst ` content m \<Longrightarrow> card (content m) < limit \<Longrightarrow>
      \<exists>m'. insert a h m = Some m' \<and> invar m' \<and> content m' = Set.insert (a, h) (content m)"
    and remove_law: "invar m \<Longrightarrow> (a, h) \<in> content m \<Longrightarrow>
      \<exists>m'. remove a m = Some m' \<and> invar m' \<and> content m' = content m - {(a, h)}"
    and find_law: "invar m \<Longrightarrow> \<exists>a. find h m = Some a \<and> (if a = 0 then h \<notin> snd ` content m else (a, h) \<in> content m)"
    and same_law: "invar m \<Longrightarrow> find h m = Some a \<Longrightarrow> a \<noteq> 0 \<Longrightarrow> same a m = 0 \<longleftrightarrow> (\<forall>b. (b, h) \<in> content m \<longrightarrow> b = a)"
    and nonzero: "invar m \<Longrightarrow> (a, h) \<in> content m \<Longrightarrow> a \<noteq> 0"
    and one_hash: "invar m \<Longrightarrow> (a, h) \<in> content m \<Longrightarrow> (a, h') \<in> content m \<Longrightarrow> h = h'"
    and finite_content: "invar m \<Longrightarrow> finite (content m)"
begin

text \<open>A search that comes out empty excludes every node with the hash; one that finds a single node leaves only it.\<close>

lemma find_none: "invar m \<Longrightarrow> find h m = Some 0 \<Longrightarrow> (a, h) \<notin> content m"
  using find_law [of m h] by force

lemma find_single:
  assumes "invar m" "find h m = Some a" "a \<noteq> 0" "same a m = 0"
  shows "(b, h) \<in> content m \<longleftrightarrow> b = a"
proof -
  obtain a' where "find h m = Some a'" "if a' = 0 then h \<notin> snd ` content m else (a', h) \<in> content m" using find_law [OF assms(1)] by blast
  then have "(a, h) \<in> content m" using assms(2,3) by simp
  then show ?thesis using same_law [OF assms(1-3)] assms(4) by blast
qed

end

definition hx_insert :: "addr \<Rightarrow> size_t \<Rightarrow> hx_state \<Rightarrow> hx_state option" where
  "hx_insert a h s = hindex_insert (fst s) a h (snd s)"

definition hx_remove :: "addr \<Rightarrow> hx_state \<Rightarrow> hx_state option" where
  "hx_remove a s = hindex_remove (fst s) a (snd s)"

definition hx_find :: "size_t \<Rightarrow> hx_state \<Rightarrow> addr option" where
  "hx_find h s = hindex_node_with_hash (fst s) h (snd s)"

definition hx_same :: "addr \<Rightarrow> hx_state \<Rightarrow> addr" where
  "hx_same a s = hx_s (snd s a)"

lemma hx_wf_cases:
  assumes "hx_wf s"
  obtains bs where "hx_rep (fst s) (snd s) bs" "hx_content s = hx_nodes bs"
  using assms content_nodes [of "fst s" "snd s"] by (auto simp: hx_wf_def)

text \<open>The group of a hash holds the nodes with it.\<close>

lemma rep_hash_group:
  assumes "hx_rep hx m bs"
  shows "(a, h) \<in> hx_nodes bs \<longleftrightarrow> (\<exists>g. find (\<lambda>g. fst g = h) (concat bs) = Some g \<and> a \<in> set (snd g))"
proof -
  have "distinct (map fst (concat bs))" using assms by (simp only: hx_rep_def)
  note f = distinct_fst_find [OF this]
  show ?thesis
  proof
    assume "(a, h) \<in> hx_nodes bs"
    then obtain g where "g \<in> set (concat bs)" "fst g = h" "a \<in> set (snd g)" unfolding hx_nodes_def by blast
    then show "\<exists>g. find (\<lambda>g. fst g = h) (concat bs) = Some g \<and> a \<in> set (snd g)" using f by blast
  next
    assume "\<exists>g. find (\<lambda>g. fst g = h) (concat bs) = Some g \<and> a \<in> set (snd g)"
    then show "(a, h) \<in> hx_nodes bs" unfolding hx_nodes_def using find_SomeD by fastforce
  qed
qed

interpretation ovs_hindex: hash_index hx_wf hx_content hx_insert hx_remove hx_find hx_same "2 ^ 30 - 1"
proof (unfold_locales, goal_cases)
  case (1 s a h)
  obtain bs where r: "hx_rep (fst s) (snd s) bs" "hx_content s = hx_nodes bs" by (rule hx_wf_cases [OF 1(1)])
  obtain hx' m' bs' where i: "hindex_insert (fst s) a h (snd s) = Some (hx', m')" "hx_rep hx' m' bs'" "hx_nodes bs' = insert (a, h) (hx_nodes bs)"
    using hindex_insert [OF r(1) 1(2) 1(3,4) [unfolded r(2)]] by blast
  then show ?case using content_nodes [OF i(2)] r(2) by (intro exI [of _ "(hx', m')"]) (auto simp: hx_insert_def hx_wf_def)
next
  case (2 s a h)
  obtain bs where r: "hx_rep (fst s) (snd s) bs" "hx_content s = hx_nodes bs" by (rule hx_wf_cases [OF 2(1)])
  obtain hx' m' bs' where i: "hindex_remove (fst s) a (snd s) = Some (hx', m')" "hx_rep hx' m' bs'" "hx_nodes bs' = hx_nodes bs - {(a, h)}"
    using hindex_remove [OF r(1) 2(2) [unfolded r(2)]] by blast
  then show ?case using content_nodes [OF i(2)] r(2) by (intro exI [of _ "(hx', m')"]) (auto simp: hx_remove_def hx_wf_def)
next
  case (3 s h)
  then obtain bs where r: "hx_rep (fst s) (snd s) bs" "hx_content s = hx_nodes bs" by (rule hx_wf_cases)
  show ?case
  proof (cases "find (\<lambda>g. fst g = h) (concat bs)")
    case None
    then show ?thesis using rep_find [OF r(1), of h] rep_hash_group [OF r(1), of _ h] by (force simp: hx_find_def r(2))
  next
    case (Some g)
    then have "group_ok (snd s) g" using rep_group [OF r(1)] find_SomeD [OF Some] by blast
    then have "hd (snd g) \<noteq> 0" "hd (snd g) \<in> set (snd g)" by (auto simp: group_ok_def)
    then show ?thesis using Some rep_find [OF r(1), of h] rep_hash_group [OF r(1), of _ h] by (auto simp: hx_find_def r(2))
  qed
next
  case (4 s h a)
  then obtain bs where r: "hx_rep (fst s) (snd s) bs" "hx_content s = hx_nodes bs" by (auto elim: hx_wf_cases)
  from 4 obtain g where g: "find (\<lambda>g. fst g = h) (concat bs) = Some g" "a = hd (snd g)"
    using rep_find [OF r(1), of h] by (auto simp: hx_find_def split: option.splits)
  then have ok: "group_ok (snd s) g" using rep_group [OF r(1)] find_SomeD [OF g(1)] by blast
  obtain ys where ys: "snd g = a # ys" using ok g(2) by (cases "snd g") (auto simp: group_ok_def)
  have "hx_s (snd s a) = first_of ys" using group_next [OF ok, of "[]" a ys] ys by simp
  moreover have "first_of ys \<noteq> 0" if "ys \<noteq> []" using that group_hash [OF ok, of "hd ys"] ys by (cases ys) auto
  moreover have "distinct (snd g)"
    using r(1) find_SomeD [OF g(1)] distinct_concat_map_in [of id "map snd (concat bs)" "snd g"] unfolding hx_rep_def by fastforce
  ultimately have "hx_same a s = 0 \<longleftrightarrow> (\<forall>b \<in> set (snd g). b = a)" using ys by (cases ys) (auto simp: hx_same_def)
  then show ?case using rep_hash_group [OF r(1), of _ h] g(1) by (auto simp: r(2))
next
  case (5 s a h)
  then show ?case using rep_group groups_nonzero hx_nodes_addrs by (elim hx_wf_cases) (metis fst_conv image_eqI)
next
  case (6 s a h h')
  then show ?case unfolding hx_content_def by auto
next
  case (7 s)
  then show ?case by (simp add: hx_content_def)
qed

section \<open>Sequences of operations\<close>

lemma of_nat_u32_0:
  assumes "k < 2 ^ 32" "of_nat k = (0 :: u32)"
  shows "k = 0"
proof -
  have "unat (of_nat k :: u32) = k" using assms(1) by (simp add: unat_of_nat take_bit_nat_eq_self_iff)
  then show ?thesis using assms(2) by simp
qed

lemma hindex_clear:
  assumes "hx_rep hx m bs" "card (hx_nodes bs) < 2 ^ 32"
  shows "\<exists>bs'. hx_rep (hindex_clear hx) m bs' \<and> hx_nodes bs' = {}"
proof (cases "hx_n_unique hx > 0")
  case True
  let ?n = "unat (hx_mask hx) + 1"
  have "hx_rep (hindex_clear hx) m (replicate ?n [])"
    using assms(1) True replicate_empty [where n = ?n] by (simp add: hx_rep_def hindex_clear_def placed_by_def del: replicate.simps)
  then show ?thesis using replicate_empty(2) [of ?n] by (metis gnodes_simps(1) hx_nodes_gnodes)
next
  case False
  have "length (concat bs) < 2 ^ 32" using groups_le_nodes [OF assms(1)] assms(2) by (rule le_less_trans)
  moreover have "of_nat (length (concat bs)) = (0 :: u32)" using False assms(1) unfolding hx_rep_def by (metis word_neq_0_conv)
  ultimately have "length (concat bs) = 0" by (rule of_nat_u32_0)
  then have "hx_nodes bs = {}" unfolding hx_nodes_gnodes length_0_conv by (metis gnodes_simps(1))
  then show ?thesis using False assms(1) unfolding hindex_clear_def by auto
qed

datatype hx_op = Hx_Insert addr size_t | Hx_Remove addr | Hx_Expand | Hx_Shrink | Hx_Reserve size_t | Hx_Clear

fun hx_step :: "hx_op \<Rightarrow> hx_state \<Rightarrow> hx_state option" where
  "hx_step (Hx_Insert a h) s = hindex_insert (fst s) a h (snd s)"
| "hx_step (Hx_Remove a) s = hindex_remove (fst s) a (snd s)"
| "hx_step Hx_Expand s = hindex_expand (fst s) (snd s)"
| "hx_step Hx_Shrink s = hindex_shrink (fst s) (snd s)"
| "hx_step (Hx_Reserve n) s = hindex_reserve (fst s) n (snd s)"
| "hx_step Hx_Clear s = Some (hindex_clear (fst s), snd s)"

text \<open>
  What the caller must respect.  A node of 12 bytes leaves room for fewer than \<open>2 ^ 30\<close> nodes in the address space; a capacity
  must be below that number, as \<^verbatim>\<open>hindex_reserve\<close> does not check it.
\<close>

fun hx_ok :: "hx_state \<Rightarrow> hx_op \<Rightarrow> bool" where
  "hx_ok s (Hx_Insert a h) \<longleftrightarrow> a \<noteq> 0 \<and> a \<notin> fst ` hx_content s \<and> int (card (hx_content s)) < 2 ^ 30 - 1"
| "hx_ok s (Hx_Remove a) \<longleftrightarrow> a \<in> fst ` hx_content s"
| "hx_ok s (Hx_Reserve n) \<longleftrightarrow> n < 2 ^ 30"
| "hx_ok s op \<longleftrightarrow> True"

fun hx_spec :: "hx_op \<Rightarrow> (addr \<times> size_t) set \<Rightarrow> (addr \<times> size_t) set" where
  "hx_spec (Hx_Insert a h) S = insert (a, h) S"
| "hx_spec (Hx_Remove a) S = {p \<in> S. fst p \<noteq> a}"
| "hx_spec Hx_Clear S = {}"
| "hx_spec op S = S"

text \<open>From a capacity of \<open>2 ^ 30\<close> on, \<^verbatim>\<open>hindex_reserve\<close> writes beyond the array that it has allocated.\<close>

lemma hindex_reserve_overrun:
  assumes "2 ^ 30 \<le> n" "hx_mask hx < hindex_calc_mask n"
  shows "hindex_reserve hx n m = None"
proof -
  have "\<not> buckets_fit (hindex_calc_mask n)" using assms(1) by (simp add: hindex_calc_mask(3) word_le_nat_alt)
  moreover have "hindex_calc_mask n \<noteq> 0" using assms(2) by auto
  ultimately show ?thesis using assms(2) by (simp add: hindex_reserve_def hindex_resize_def)
qed

definition hx_inv :: "hx_state \<Rightarrow> bool" where
  "hx_inv s \<longleftrightarrow> hx_wf s \<and> card (hx_content s) < 2 ^ 30"

lemma hx_step_result:
  assumes "\<exists>hx' m' bs'. r = Some (hx', m') \<and> hx_rep hx' m' bs' \<and> hx_nodes bs' = S" "card S < 2 ^ 30"
  shows "\<exists>s'. r = Some s' \<and> hx_inv s' \<and> hx_content s' = S"
  using assms content_nodes by (auto simp: hx_wf_def hx_inv_def)

interpretation hx: refined_machine hx_inv hx_ok hx_step hx_content hx_spec
proof
  fix s e
  assume s: "hx_inv s" "hx_ok s e"
  then have wf: "hx_wf s" and c: "card (hx_content s) < 2 ^ 30" by (simp_all add: hx_inv_def)
  then obtain bs where r: "hx_rep (fst s) (snd s) bs" "hx_content s = hx_nodes bs" by (auto elim: hx_wf_cases)
  note resized = hx_step_result [OF hindex_expand_shrink_reserve [OF r(1) _ c [unfolded r(2)]] c [unfolded r(2)]]
  show "\<exists>s'. hx_step e s = Some s' \<and> hx_inv s' \<and> hx_content s' = hx_spec e (hx_content s)"
  proof (cases e)
    case (Hx_Insert a h)
    then have few: "card (hx_content s) < 2 ^ 30 - 1" using s(2) by simp
    obtain s' where "hx_insert a h s = Some s'" "hx_wf s'" "hx_content s' = insert (a, h) (hx_content s)"
      using ovs_hindex.insert_law [OF wf _ _ few, of a h] s(2) Hx_Insert by auto
    moreover have "card (insert (a, h) (hx_content s)) < 2 ^ 30" using card_insert_le_m1 [of "2 ^ 30 - 1" "hx_content s" "(a, h)"] few by simp
    ultimately show ?thesis using Hx_Insert by (simp add: hx_insert_def hx_inv_def)
  next
    case (Hx_Remove a)
    then obtain h where h: "(a, h) \<in> hx_content s" using s(2) by auto
    have eq: "hx_content s - {(a, h)} = {p \<in> hx_content s. fst p \<noteq> a}" using ovs_hindex.one_hash [OF wf] h by fastforce
    have "card (hx_content s - {(a, h)}) < 2 ^ 30" using card_Diff1_le [of "hx_content s" "(a, h)"] c by simp
    then show ?thesis using Hx_Remove ovs_hindex.remove_law [OF wf h] eq by (auto simp: hx_remove_def hx_inv_def)
  next
    case Hx_Clear
    then obtain bs' where "hx_rep (hindex_clear (fst s)) (snd s) bs'" "hx_nodes bs' = {}"
      using hindex_clear [OF r(1)] c r(2) by auto
    then show ?thesis using Hx_Clear by (intro hx_step_result) auto
  next
    case Hx_Expand
    then show ?thesis using resized [OF disjI1 [OF refl], of 0] r(2) by simp
  next
    case Hx_Shrink
    then show ?thesis using resized [OF disjI2 [OF disjI1 [OF refl]], of 0] r(2) by simp
  next
    case (Hx_Reserve n)
    then have "unat n < 2 ^ 30" using s(2) by (simp add: word_less_nat_alt)
    then show ?thesis using resized [OF disjI2 [OF disjI2 [OF refl]]] Hx_Reserve r(2) by simp
  qed
qed

lemma rep_these:
  assumes "hx_rep hx m bs"
  defines "these \<equiv> \<lambda>h. case find (\<lambda>g. fst g = h) (concat bs) of None \<Rightarrow> [] | Some g \<Rightarrow> snd g"
  shows "distinct (these h) \<and> set (these h) = {a. (a, h) \<in> hx_nodes bs}
    \<and> first_of (these h) = (case find (\<lambda>g. fst g = h) (concat bs) of None \<Rightarrow> 0 | Some g \<Rightarrow> hd (snd g))"
proof (cases "find (\<lambda>g. fst g = h) (concat bs)")
  case None
  then show ?thesis using rep_hash_group [OF assms(1), of _ h] by (simp add: these_def)
next
  case (Some g)
  have g: "g \<in> set (concat bs)" using find_SomeD [OF Some] by blast
  have "distinct (group_addrs (concat bs))" using assms(1) by (simp only: hx_rep_def)
  then have "distinct (snd g)" using distinct_concat_map_in [of id "map snd (concat bs)" "snd g"] g by fastforce
  moreover have "snd g \<noteq> []" using rep_group [OF assms(1) g] by (simp add: group_ok_def)
  ultimately show ?thesis using Some rep_hash_group [OF assms(1), of _ h] by (cases "snd g") (auto simp: these_def)
qed

text \<open>
  C39.  From an empty index, any sequence of insertions, removals, changes of the size and clearing is defined, as long as
  there are fewer than \<open>2 ^ 30\<close> nodes and no larger capacity is reserved, and the
  index holds what a set of nodes with their hashes would hold.  Then \<^verbatim>\<open>HINDEX_FOR_EACH\<close> visits every node once,
  \<^verbatim>\<open>HINDEX_FOR_EACH_WITH_HASH\<close> every node with the given hash once, and \<^verbatim>\<open>hindex_node_with_hash\<close> gives the first of these.
\<close>

theorem hindex_run_refines:
  assumes "oks hx_ok hx_step ops (hindex_init, m)"
  shows "\<exists>hx m' all these. run_steps hx_step ops (hindex_init, m) = Some (hx, m')
    \<and> hindex_for_each hx m' = Some all \<and> distinct all \<and> set all = fst ` fold hx_spec ops {}
    \<and> hindex_for_each_with_hash hx h m' = Some these \<and> distinct these \<and> set these = {a. (a, h) \<in> fold hx_spec ops {}}
    \<and> hindex_node_with_hash hx h m' = Some (case these of [] \<Rightarrow> 0 | a # _ \<Rightarrow> a)"
proof -
  have e: "hx_wf (hindex_init, m)" "hx_content (hindex_init, m) = {}"
    using init_rep [of m] content_nodes [OF init_rep] by (auto simp: hx_wf_def hx_nodes_def)
  then have i: "hx_inv (hindex_init, m)" by (simp add: hx_inv_def)
  obtain hx m' where s: "run_steps hx_step ops (hindex_init, m) = Some (hx, m')" "hx_wf (hx, m')" "hx_content (hx, m') = fold hx_spec ops {}"
    using hx.run_refines [OF i assms] e(2) by (auto simp: hx_inv_def)
  obtain bs where r: "hx_rep hx m' bs" "fold hx_spec ops {} = hx_nodes bs" using hx_wf_cases [OF s(2)] s(3) by auto
  let ?these = "case find (\<lambda>g. fst g = h) (concat bs) of None \<Rightarrow> [] | Some g \<Rightarrow> snd g"
  have d: "distinct (group_addrs (concat bs))" using r(1) by (simp only: hx_rep_def)
  have these: "distinct ?these" "set ?these = {a. (a, h) \<in> hx_nodes bs}"
    "(case ?these of [] \<Rightarrow> 0 | a # _ \<Rightarrow> a) = (case find (\<lambda>g. fst g = h) (concat bs) of None \<Rightarrow> 0 | Some g \<Rightarrow> hd (snd g))"
    using rep_these [OF r(1), of h] by blast+
  have all: "set (group_addrs (concat bs)) = fst ` hx_nodes bs" by (simp only: hx_nodes_addrs)
  show ?thesis
    by (rule exI [of _ hx], rule exI [of _ m'], rule exI [of _ "group_addrs (concat bs)"], rule exI [of _ ?these])
      (simp only: s(1) r(2) for_each [OF r(1)] for_each_with_hash [OF r(1)] rep_find [OF r(1)] these d all simp_thms)
qed

theorem hindex_run_refines_witness:
  "\<exists>hx m'. run_steps hx_step [Hx_Insert 1 6, Hx_Insert 2 20, Hx_Insert 3 6, Hx_Remove 1] (hindex_init, \<lambda>_. \<lparr>hx_hash = 0, hx_d = 0, hx_s = 0\<rparr>) = Some (hx, m')
    \<and> hindex_node_with_hash hx 6 m' = Some 3"
proof -
  let ?ops = "[Hx_Insert 1 6, Hx_Insert 2 20, Hx_Insert 3 6, Hx_Remove 1]"
  let ?m = "\<lambda>_. \<lparr>hx_hash = 0, hx_d = 0, hx_s = 0\<rparr>"
  have ok: "oks hx_ok hx_step ?ops (hindex_init, ?m)" by code_simp
  obtain hx m' xs these where r: "run_steps hx_step ?ops (hindex_init, ?m) = Some (hx, m')"
    "hindex_for_each hx m' = Some xs" "distinct xs" "set xs = fst ` fold hx_spec ?ops {}"
    "hindex_for_each_with_hash hx 6 m' = Some these" "distinct these" "set these = {a. (a, 6) \<in> fold hx_spec ?ops {}}"
    "hindex_node_with_hash hx 6 m' = Some (case these of [] \<Rightarrow> 0 | a # _ \<Rightarrow> a)"
    using hindex_run_refines [OF ok, of 6] by (elim exE conjE)
  have "set these = {3}" unfolding r(7) by auto
  then have "these = [3]" using r(6) by (cases these; cases "tl these") auto
  then have "hindex_node_with_hash hx 6 m' = Some 3" using r(8) by simp
  then show ?thesis using r(1) by blast
qed

end
