(* ===== verification/Ovs_Meta_Flow.thy ===== *)
theory Ovs_Meta_Flow
  imports Ovs_Miniflow
begin

text \<open>
  The fields of a flow, \<^verbatim>\<open>lib/meta-flow.h\<close> and \<^verbatim>\<open>lib/meta-flow.c\<close>: the table of fields and the conditions under
  which a flow has them.

  \<^verbatim>\<open>struct flow\<close> is laid out as on i686, in 44 words; its members are read by their offsets in bytes.
\<close>

section \<open>Data\<close>

datatype mf_maskable = MFM_NONE | MFM_FULLY

datatype mf_prereqs =
  MFP_NONE | MFP_ARP | MFP_VLAN_VID | MFP_IPV4 | MFP_IPV6 | MFP_IP_ANY | MFP_MPLS | MFP_TCP | MFP_UDP | MFP_SCTP
| MFP_ICMPV4 | MFP_ICMPV6 | MFP_ND | MFP_ND_SOLICIT | MFP_ND_ADVERT

text \<open>A field, without its names, its NXM and OXM headers, the way it is printed and the protocols it needs.\<close>

record mf_field =
  mf_id :: nat
  mf_n_bytes :: nat
  mf_n_bits :: nat
  mf_mask_kind :: mf_maskable
  mf_prereq :: mf_prereqs
  mf_writable :: bool
  mf_be32ofs :: int

text \<open>The enumeration \<^verbatim>\<open>mf_field_id\<close>, with eight registers.\<close>

abbreviation MFF_TUN_ID :: nat where "MFF_TUN_ID \<equiv> 0"
abbreviation MFF_TUN_SRC :: nat where "MFF_TUN_SRC \<equiv> 1"
abbreviation MFF_TUN_DST :: nat where "MFF_TUN_DST \<equiv> 2"
abbreviation MFF_TUN_FLAGS :: nat where "MFF_TUN_FLAGS \<equiv> 3"
abbreviation MFF_TUN_TTL :: nat where "MFF_TUN_TTL \<equiv> 4"
abbreviation MFF_TUN_TOS :: nat where "MFF_TUN_TOS \<equiv> 5"
abbreviation MFF_METADATA :: nat where "MFF_METADATA \<equiv> 6"
abbreviation MFF_IN_PORT :: nat where "MFF_IN_PORT \<equiv> 7"
abbreviation MFF_IN_PORT_OXM :: nat where "MFF_IN_PORT_OXM \<equiv> 8"
abbreviation MFF_SKB_PRIORITY :: nat where "MFF_SKB_PRIORITY \<equiv> 9"
abbreviation MFF_PKT_MARK :: nat where "MFF_PKT_MARK \<equiv> 10"
abbreviation MFF_REG0 :: nat where "MFF_REG0 \<equiv> 11"
abbreviation MFF_REG1 :: nat where "MFF_REG1 \<equiv> 12"
abbreviation MFF_REG2 :: nat where "MFF_REG2 \<equiv> 13"
abbreviation MFF_REG3 :: nat where "MFF_REG3 \<equiv> 14"
abbreviation MFF_REG4 :: nat where "MFF_REG4 \<equiv> 15"
abbreviation MFF_REG5 :: nat where "MFF_REG5 \<equiv> 16"
abbreviation MFF_REG6 :: nat where "MFF_REG6 \<equiv> 17"
abbreviation MFF_REG7 :: nat where "MFF_REG7 \<equiv> 18"
abbreviation MFF_ETH_SRC :: nat where "MFF_ETH_SRC \<equiv> 19"
abbreviation MFF_ETH_DST :: nat where "MFF_ETH_DST \<equiv> 20"
abbreviation MFF_ETH_TYPE :: nat where "MFF_ETH_TYPE \<equiv> 21"
abbreviation MFF_VLAN_TCI :: nat where "MFF_VLAN_TCI \<equiv> 22"
abbreviation MFF_DL_VLAN :: nat where "MFF_DL_VLAN \<equiv> 23"
abbreviation MFF_VLAN_VID :: nat where "MFF_VLAN_VID \<equiv> 24"
abbreviation MFF_DL_VLAN_PCP :: nat where "MFF_DL_VLAN_PCP \<equiv> 25"
abbreviation MFF_VLAN_PCP :: nat where "MFF_VLAN_PCP \<equiv> 26"
abbreviation MFF_MPLS_LABEL :: nat where "MFF_MPLS_LABEL \<equiv> 27"
abbreviation MFF_MPLS_TC :: nat where "MFF_MPLS_TC \<equiv> 28"
abbreviation MFF_MPLS_BOS :: nat where "MFF_MPLS_BOS \<equiv> 29"
abbreviation MFF_IPV4_SRC :: nat where "MFF_IPV4_SRC \<equiv> 30"
abbreviation MFF_IPV4_DST :: nat where "MFF_IPV4_DST \<equiv> 31"
abbreviation MFF_IPV6_SRC :: nat where "MFF_IPV6_SRC \<equiv> 32"
abbreviation MFF_IPV6_DST :: nat where "MFF_IPV6_DST \<equiv> 33"
abbreviation MFF_IPV6_LABEL :: nat where "MFF_IPV6_LABEL \<equiv> 34"
abbreviation MFF_IP_PROTO :: nat where "MFF_IP_PROTO \<equiv> 35"
abbreviation MFF_IP_DSCP :: nat where "MFF_IP_DSCP \<equiv> 36"
abbreviation MFF_IP_DSCP_SHIFTED :: nat where "MFF_IP_DSCP_SHIFTED \<equiv> 37"
abbreviation MFF_IP_ECN :: nat where "MFF_IP_ECN \<equiv> 38"
abbreviation MFF_IP_TTL :: nat where "MFF_IP_TTL \<equiv> 39"
abbreviation MFF_IP_FRAG :: nat where "MFF_IP_FRAG \<equiv> 40"
abbreviation MFF_ARP_OP :: nat where "MFF_ARP_OP \<equiv> 41"
abbreviation MFF_ARP_SPA :: nat where "MFF_ARP_SPA \<equiv> 42"
abbreviation MFF_ARP_TPA :: nat where "MFF_ARP_TPA \<equiv> 43"
abbreviation MFF_ARP_SHA :: nat where "MFF_ARP_SHA \<equiv> 44"
abbreviation MFF_ARP_THA :: nat where "MFF_ARP_THA \<equiv> 45"
abbreviation MFF_TCP_SRC :: nat where "MFF_TCP_SRC \<equiv> 46"
abbreviation MFF_TCP_DST :: nat where "MFF_TCP_DST \<equiv> 47"
abbreviation MFF_TCP_FLAGS :: nat where "MFF_TCP_FLAGS \<equiv> 48"
abbreviation MFF_UDP_SRC :: nat where "MFF_UDP_SRC \<equiv> 49"
abbreviation MFF_UDP_DST :: nat where "MFF_UDP_DST \<equiv> 50"
abbreviation MFF_SCTP_SRC :: nat where "MFF_SCTP_SRC \<equiv> 51"
abbreviation MFF_SCTP_DST :: nat where "MFF_SCTP_DST \<equiv> 52"
abbreviation MFF_ICMPV4_TYPE :: nat where "MFF_ICMPV4_TYPE \<equiv> 53"
abbreviation MFF_ICMPV4_CODE :: nat where "MFF_ICMPV4_CODE \<equiv> 54"
abbreviation MFF_ICMPV6_TYPE :: nat where "MFF_ICMPV6_TYPE \<equiv> 55"
abbreviation MFF_ICMPV6_CODE :: nat where "MFF_ICMPV6_CODE \<equiv> 56"
abbreviation MFF_ND_TARGET :: nat where "MFF_ND_TARGET \<equiv> 57"
abbreviation MFF_ND_SLL :: nat where "MFF_ND_SLL \<equiv> 58"
abbreviation MFF_ND_TLL :: nat where "MFF_ND_TLL \<equiv> 59"

definition mf_entry :: "nat \<Rightarrow> nat \<Rightarrow> nat \<Rightarrow> mf_maskable \<Rightarrow> mf_prereqs \<Rightarrow> bool \<Rightarrow> int \<Rightarrow> mf_field" where
  "mf_entry i n_bytes n_bits maskable prereqs writable ofs =
     \<lparr>mf_id = i, mf_n_bytes = n_bytes, mf_n_bits = n_bits, mf_mask_kind = maskable, mf_prereq = prereqs,
      mf_writable = writable, mf_be32ofs = ofs\<rparr>"

definition mf_fields :: "mf_field list" where
  "mf_fields =
    [mf_entry 0 8 64 MFM_FULLY MFP_NONE True 0,
     mf_entry 1 4 32 MFM_FULLY MFP_NONE True 2,
     mf_entry 2 4 32 MFM_FULLY MFP_NONE True 3,
     mf_entry 3 2 16 MFM_NONE MFP_NONE False (- 1),
     mf_entry 4 1 8 MFM_NONE MFP_NONE False (- 1),
     mf_entry 5 1 8 MFM_NONE MFP_NONE False (- 1),
     mf_entry 6 8 64 MFM_FULLY MFP_NONE True (- 1),
     mf_entry 7 2 16 MFM_NONE MFP_NONE True (- 1),
     mf_entry 8 4 32 MFM_NONE MFP_NONE True (- 1),
     mf_entry 9 4 32 MFM_NONE MFP_NONE False (- 1),
     mf_entry 10 4 32 MFM_FULLY MFP_NONE True (- 1),
     mf_entry 11 4 32 MFM_FULLY MFP_NONE True (- 1),
     mf_entry 12 4 32 MFM_FULLY MFP_NONE True (- 1),
     mf_entry 13 4 32 MFM_FULLY MFP_NONE True (- 1),
     mf_entry 14 4 32 MFM_FULLY MFP_NONE True (- 1),
     mf_entry 15 4 32 MFM_FULLY MFP_NONE True (- 1),
     mf_entry 16 4 32 MFM_FULLY MFP_NONE True (- 1),
     mf_entry 17 4 32 MFM_FULLY MFP_NONE True (- 1),
     mf_entry 18 4 32 MFM_FULLY MFP_NONE True (- 1),
     mf_entry 19 6 48 MFM_FULLY MFP_NONE True (- 1),
     mf_entry 20 6 48 MFM_FULLY MFP_NONE True (- 1),
     mf_entry 21 2 16 MFM_NONE MFP_NONE False (- 1),
     mf_entry 22 2 16 MFM_FULLY MFP_NONE True (- 1),
     mf_entry 23 2 12 MFM_NONE MFP_NONE True (- 1),
     mf_entry 24 2 12 MFM_FULLY MFP_NONE True (- 1),
     mf_entry 25 1 3 MFM_NONE MFP_NONE True (- 1),
     mf_entry 26 1 3 MFM_NONE MFP_VLAN_VID True (- 1),
     mf_entry 27 4 20 MFM_NONE MFP_MPLS True (- 1),
     mf_entry 28 1 3 MFM_NONE MFP_MPLS True (- 1),
     mf_entry 29 1 1 MFM_NONE MFP_MPLS False (- 1),
     mf_entry 30 4 32 MFM_FULLY MFP_IPV4 True 36,
     mf_entry 31 4 32 MFM_FULLY MFP_IPV4 True 37,
     mf_entry 32 16 128 MFM_FULLY MFP_IPV6 True 23,
     mf_entry 33 16 128 MFM_FULLY MFP_IPV6 True 27,
     mf_entry 34 4 20 MFM_FULLY MFP_IPV6 False (- 1),
     mf_entry 35 1 8 MFM_NONE MFP_IP_ANY False (- 1),
     mf_entry 36 1 8 MFM_NONE MFP_IP_ANY True (- 1),
     mf_entry 37 1 6 MFM_NONE MFP_IP_ANY True (- 1),
     mf_entry 38 1 2 MFM_NONE MFP_IP_ANY True (- 1),
     mf_entry 39 1 8 MFM_NONE MFP_IP_ANY True (- 1),
     mf_entry 40 1 2 MFM_FULLY MFP_IP_ANY False (- 1),
     mf_entry 41 2 16 MFM_NONE MFP_ARP True (- 1),
     mf_entry 42 4 32 MFM_FULLY MFP_ARP True (- 1),
     mf_entry 43 4 32 MFM_FULLY MFP_ARP True (- 1),
     mf_entry 44 6 48 MFM_FULLY MFP_ARP True (- 1),
     mf_entry 45 6 48 MFM_FULLY MFP_ARP True (- 1),
     mf_entry 46 2 16 MFM_FULLY MFP_TCP True (- 1),
     mf_entry 47 2 16 MFM_FULLY MFP_TCP True (- 1),
     mf_entry 48 2 12 MFM_FULLY MFP_TCP False (- 1),
     mf_entry 49 2 16 MFM_FULLY MFP_UDP True (- 1),
     mf_entry 50 2 16 MFM_FULLY MFP_UDP True (- 1),
     mf_entry 51 2 16 MFM_FULLY MFP_SCTP True (- 1),
     mf_entry 52 2 16 MFM_FULLY MFP_SCTP True (- 1),
     mf_entry 53 1 8 MFM_NONE MFP_ICMPV4 False (- 1),
     mf_entry 54 1 8 MFM_NONE MFP_ICMPV4 False (- 1),
     mf_entry 55 1 8 MFM_NONE MFP_ICMPV6 False (- 1),
     mf_entry 56 1 8 MFM_NONE MFP_ICMPV6 False (- 1),
     mf_entry 57 16 128 MFM_FULLY MFP_ND False (- 1),
     mf_entry 58 6 48 MFM_FULLY MFP_ND_SOLICIT False (- 1),
     mf_entry 59 6 48 MFM_FULLY MFP_ND_ADVERT False (- 1)]"

abbreviation MFF_N_IDS :: nat where "MFF_N_IDS \<equiv> 60"

definition mf_from_id :: "nat \<Rightarrow> mf_field option" where
  "mf_from_id i = (if i < MFF_N_IDS then Some (mf_fields ! i) else None)"

definition ntohl :: "u32 \<Rightarrow> u32" where
  "ntohl x = push_bit 24 (x AND 0xff) OR push_bit 8 (x AND 0xff00) OR (drop_bit 8 x AND 0xff00) OR drop_bit 24 x"

section \<open>Prerequisites\<close>

text \<open>Members of \<^verbatim>\<open>struct flow\<close> by their offsets in bytes, in host byte order.\<close>

definition flow_u8 :: "uflow \<Rightarrow> nat \<Rightarrow> u8" where
  "flow_u8 flow ofs = ucast (drop_bit (8 * (ofs mod 4)) (flow ! (ofs div 4)))"

definition flow_be16 :: "uflow \<Rightarrow> nat \<Rightarrow> u16" where
  "flow_be16 flow ofs = push_bit 8 (ucast (flow_u8 flow ofs)) OR ucast (flow_u8 flow (ofs + 1))"

abbreviation flow_dl_type :: "uflow \<Rightarrow> u16" where "flow_dl_type flow \<equiv> flow_be16 flow 84"
abbreviation flow_vlan_tci :: "uflow \<Rightarrow> u16" where "flow_vlan_tci flow \<equiv> flow_be16 flow 86"
abbreviation flow_nw_proto :: "uflow \<Rightarrow> u8" where "flow_nw_proto flow \<equiv> flow_u8 flow 155"
abbreviation flow_tp_src :: "uflow \<Rightarrow> u16" where "flow_tp_src flow \<equiv> flow_be16 flow 172"
abbreviation flow_tp_dst :: "uflow \<Rightarrow> u16" where "flow_tp_dst flow \<equiv> flow_be16 flow 174"

definition eth_type_mpls :: "u16 \<Rightarrow> bool" where
  "eth_type_mpls eth_type \<longleftrightarrow> eth_type = 0x8847 \<or> eth_type = 0x8848"

definition is_ip_any :: "uflow \<Rightarrow> bool" where
  "is_ip_any flow \<longleftrightarrow> flow_dl_type flow = 0x0800 \<or> flow_dl_type flow = 0x86dd"

definition is_icmpv4 :: "uflow \<Rightarrow> bool" where
  "is_icmpv4 flow \<longleftrightarrow> flow_dl_type flow = 0x0800 \<and> flow_nw_proto flow = 1"

definition is_icmpv6 :: "uflow \<Rightarrow> bool" where
  "is_icmpv6 flow \<longleftrightarrow> flow_dl_type flow = 0x86dd \<and> flow_nw_proto flow = 58"

fun prereqs_ok :: "mf_prereqs \<Rightarrow> uflow \<Rightarrow> bool" where
  "prereqs_ok MFP_NONE flow = True"
| "prereqs_ok MFP_ARP flow = (flow_dl_type flow = 0x0806 \<or> flow_dl_type flow = 0x8035)"
| "prereqs_ok MFP_IPV4 flow = (flow_dl_type flow = 0x0800)"
| "prereqs_ok MFP_IPV6 flow = (flow_dl_type flow = 0x86dd)"
| "prereqs_ok MFP_VLAN_VID flow = (flow_vlan_tci flow AND 0x1000 \<noteq> 0)"
| "prereqs_ok MFP_MPLS flow = eth_type_mpls (flow_dl_type flow)"
| "prereqs_ok MFP_IP_ANY flow = is_ip_any flow"
| "prereqs_ok MFP_TCP flow = (is_ip_any flow \<and> flow_nw_proto flow = 6)"
| "prereqs_ok MFP_UDP flow = (is_ip_any flow \<and> flow_nw_proto flow = 17)"
| "prereqs_ok MFP_SCTP flow = (is_ip_any flow \<and> flow_nw_proto flow = 132)"
| "prereqs_ok MFP_ICMPV4 flow = is_icmpv4 flow"
| "prereqs_ok MFP_ICMPV6 flow = is_icmpv6 flow"
| "prereqs_ok MFP_ND flow =
     (is_icmpv6 flow \<and> flow_tp_dst flow = 0 \<and> (flow_tp_src flow = 135 \<or> flow_tp_src flow = 136))"
| "prereqs_ok MFP_ND_SOLICIT flow = (is_icmpv6 flow \<and> flow_tp_dst flow = 0 \<and> flow_tp_src flow = 135)"
| "prereqs_ok MFP_ND_ADVERT flow = (is_icmpv6 flow \<and> flow_tp_dst flow = 0 \<and> flow_tp_src flow = 136)"

definition mf_are_prereqs_ok :: "mf_field \<Rightarrow> uflow \<Rightarrow> bool" where
  "mf_are_prereqs_ok mf flow = prereqs_ok (mf_prereq mf) flow"

end
