(* ===== verification/Ovs_Trie.thy ===== *)
theory Ovs_Trie
  imports Ovs_Meta_Flow Ovs_Tag Machine
begin

text \<open>
  The prefix tries of \<^verbatim>\<open>lib/classifier.c\<close>: the operations, and what a trie says about a prefix before and after
  them.

  A trie is the tree of its nodes.  A pointer to an array of \<^verbatim>\<open>ovs_be32\<close> is the function from an index to the
  raw word in memory there; \<^verbatim>\<open>ntohl\<close> reverses its bytes.  An \<^verbatim>\<open>unsigned int\<close> that counts bits is a natural
  number: none here exceeds 129.
\<close>

unbundle bit_operations_syntax

section \<open>Data\<close>

type_synonym be32s = "nat \<Rightarrow> u32"

datatype trie_node =
  No_Node
| Trie_Node (tn_prefix: u32) (tn_nbits: nat) (tn_n_rules: u32) (tn_edge0: trie_node) (tn_edge1: trie_node)

record cls_trie =
  tr_field :: "mf_field option"
  tr_root :: trie_node

section \<open>Bits of prefixes\<close>

definition raw_get_prefix :: "be32s \<Rightarrow> nat \<Rightarrow> nat \<Rightarrow> u32" where
  "raw_get_prefix pr ofs plen =
     (let k = ofs div 32; ofs = ofs mod 32;
          prefix = push_bit ofs (ntohl (pr k))
      in if plen > 32 - ofs then prefix OR drop_bit (32 - ofs) (ntohl (pr (k + 1))) else prefix)"

definition trie_get_prefix :: "be32s \<Rightarrow> nat \<Rightarrow> nat \<Rightarrow> u32" where
  "trie_get_prefix pr ofs plen =
     (if plen = 0 then 0
      else let plen = if plen > 32 then 32 else plen
           in raw_get_prefix pr ofs plen AND push_bit (32 - plen) (NOT 0))"

definition prefix_equal_bits :: "u32 \<Rightarrow> nat \<Rightarrow> be32s \<Rightarrow> nat \<Rightarrow> nat" where
  "prefix_equal_bits prefix nbits v ofs =
     (let diff = ucast (prefix XOR raw_get_prefix v ofs nbits) :: u64
      in nat (raw_clz64 (push_bit 32 diff OR push_bit (63 - nbits) 1)))"

definition trie_prefix_equal_bits :: "trie_node \<Rightarrow> be32s \<Rightarrow> nat \<Rightarrow> nat \<Rightarrow> nat" where
  "trie_prefix_equal_bits node prefix ofs plen =
     prefix_equal_bits (tn_prefix node) (min (tn_nbits node) (plen - ofs)) prefix ofs"

text \<open>The byte at offset \<^verbatim>\<open>ofs / 8\<close> of the array, in memory order.\<close>

definition be_get_bit_at :: "be32s \<Rightarrow> nat \<Rightarrow> nat" where
  "be_get_bit_at v ofs =
     (let byte = ucast (drop_bit (8 * (ofs div 8 mod 4)) (v (ofs div 8 div 4))) :: u8
      in unat (drop_bit (7 - ofs mod 8) byte AND 1))"

definition get_bit_at :: "u32 \<Rightarrow> nat \<Rightarrow> nat" where
  "get_bit_at prefix ofs = unat (drop_bit (31 - ofs) prefix AND 1)"

section \<open>Nodes\<close>

fun trie_edge :: "trie_node \<Rightarrow> nat \<Rightarrow> trie_node" where
  "trie_edge No_Node b = No_Node"
| "trie_edge (Trie_Node p n r e0 e1) b = (if b = 0 then e0 else e1)"

fun set_edge :: "nat \<Rightarrow> trie_node \<Rightarrow> trie_node \<Rightarrow> trie_node" where
  "set_edge b e No_Node = No_Node"
| "set_edge b e (Trie_Node p n r e0 e1) = (if b = 0 then Trie_Node p n r e e1 else Trie_Node p n r e0 e)"

fun trie_branch_create :: "be32s \<Rightarrow> nat \<Rightarrow> nat \<Rightarrow> u32 \<Rightarrow> trie_node" where
  "trie_branch_create prefix ofs plen n_rules =
     (if plen \<le> 32 then Trie_Node (trie_get_prefix prefix ofs plen) plen n_rules No_Node No_Node
      else let subnode = trie_branch_create prefix (ofs + 32) (plen - 32) n_rules;
               b = get_bit_at (tn_prefix subnode) 0
           in set_edge b subnode (Trie_Node (trie_get_prefix prefix ofs plen) 32 0 No_Node No_Node))"

declare trie_branch_create.simps [simp del]

definition trie_is_leaf :: "trie_node \<Rightarrow> bool" where
  "trie_is_leaf trie \<longleftrightarrow> trie_edge trie 0 = No_Node \<and> trie_edge trie 1 = No_Node"

definition mask_set_prefix_bits :: "uflow \<Rightarrow> nat \<Rightarrow> nat \<Rightarrow> uflow" where
  "mask_set_prefix_bits wc be32ofs nbits =
     (let wc = foldl (\<lambda>wc i. wc[be32ofs + i := - 1]) wc [0..<nbits div 32]
      in if nbits mod 32 \<noteq> 0
         then wc[be32ofs + nbits div 32 :=
                 wc ! (be32ofs + nbits div 32) OR ntohl (push_bit (32 - nbits mod 32) (NOT 0))]
         else wc)"

definition mask_prefix_bits_set :: "uflow \<Rightarrow> nat \<Rightarrow> nat \<Rightarrow> bool" where
  "mask_prefix_bits_set wc be32ofs nbits =
     (let zeroes = foldl (\<lambda>z i. z OR NOT (wc ! (be32ofs + i))) 0 [0..<nbits div 32];
          zeroes = if nbits mod 32 \<noteq> 0
                   then zeroes OR (NOT (wc ! (be32ofs + nbits div 32)) AND ntohl (push_bit (32 - nbits mod 32) (NOT 0)))
                   else zeroes
      in zeroes = 0)"

definition trie_next_node :: "trie_node \<Rightarrow> be32s \<Rightarrow> nat \<Rightarrow> trie_node" where
  "trie_next_node node v ofs = trie_edge node (be_get_bit_at v ofs)"

section \<open>Lookup\<close>

lemma next_node_smaller: "node \<noteq> No_Node \<Longrightarrow> size (trie_next_node node v ofs) < size node"
  by (cases node) (auto simp: trie_next_node_def)

text \<open>The loop of \<^verbatim>\<open>trie_lookup_value\<close>; the result is the match length and \<^verbatim>\<open>*checkbits\<close>.\<close>

function lookup_loop :: "be32s \<Rightarrow> trie_node \<Rightarrow> nat \<Rightarrow> nat \<Rightarrow> trie_node \<Rightarrow> nat \<times> nat" where
  "lookup_loop v node plen match_len pn =
     (if node = No_Node then (match_len, if pn = No_Node \<or> trie_is_leaf pn then plen else plen + 1)
      else let eqbits = prefix_equal_bits (tn_prefix node) (tn_nbits node) v plen;
               plen = plen + eqbits
           in if eqbits < tn_nbits node then (match_len, plen + 1)
              else lookup_loop v (trie_next_node node v plen) plen
                     (if tn_n_rules node > 0 then plen else match_len) node)"
  by pat_completeness auto

termination by (relation "measure (\<lambda>(v, node, _). size node)") (auto simp: next_node_smaller)

declare lookup_loop.simps [simp del]

definition trie_lookup_value :: "trie_node \<Rightarrow> be32s \<Rightarrow> nat \<times> nat" where
  "trie_lookup_value node v = lookup_loop v node 0 0 No_Node"


text \<open>The words of a flow from a field on.\<close>

definition flow_field :: "uflow \<Rightarrow> mf_field \<Rightarrow> be32s" where
  "flow_field flow mf i = flow ! (nat (mf_be32ofs mf) + i)"

definition trie_lookup :: "cls_trie \<Rightarrow> uflow \<Rightarrow> (nat \<times> nat) option" where
  "trie_lookup trie flow = do {
     mf \<leftarrow> tr_field trie;
     Some (if mf_are_prereqs_ok mf flow then trie_lookup_value (tr_root trie) (flow_field flow mf) else (4294967295, 0))
   }"

text \<open>The loop of \<^verbatim>\<open>minimask_get_prefix_len\<close> over the words from \<open>u32_ofs\<close> on.\<close>

fun prefix_len_loop :: "minimask \<Rightarrow> nat list \<Rightarrow> nat \<Rightarrow> nat \<Rightarrow> nat" where
  "prefix_len_loop minimask [] nbits mask_tz = nbits"
| "prefix_len_loop minimask (u32_ofs # is) nbits mask_tz =
     (let m = ntohl (minimask_get minimask u32_ofs)
      in if mask_tz \<noteq> 0 then if m \<noteq> 0 then 0 else prefix_len_loop minimask is nbits mask_tz
         else if NOT m AND (NOT m + 1) \<noteq> 0 then 0
         else let mask_tz = nat (ctz32 m) in prefix_len_loop minimask is (nbits + (32 - mask_tz)) mask_tz)"

definition minimask_get_prefix_len :: "minimask \<Rightarrow> mf_field \<Rightarrow> nat" where
  "minimask_get_prefix_len minimask mf =
     (let u32_ofs = nat (mf_be32ofs mf); u32_end = u32_ofs + mf_n_bytes mf div 4
      in prefix_len_loop minimask [u32_ofs..<u32_end] 0 0)"

text \<open>
  The pointer into the values of the flow.  The words of a field whose mask has a prefix of \<open>mlen\<close> bits are stored as far as the
  prefix reaches, and nothing beyond bit \<open>mlen\<close> is read.
\<close>

definition minimatch_get_prefix :: "minimatch \<Rightarrow> mf_field \<Rightarrow> be32s" where
  "minimatch_get_prefix mt mf i =
     mf_values (mt_flow mt) !
       (count_1bits (mf_map (mt_flow mt) AND (push_bit (nat (mf_be32ofs mf)) 1 - 1)) + i)"

section \<open>Insertion\<close>

text \<open>The walk of \<^verbatim>\<open>trie_insert\<close> from the edge that holds \<open>node\<close>; the result is what the edge holds afterwards.\<close>

function insert_walk :: "be32s \<Rightarrow> nat \<Rightarrow> trie_node \<Rightarrow> nat \<Rightarrow> trie_node" where
  "insert_walk prefix mlen node ofs =
     (if node = No_Node then trie_branch_create prefix ofs (mlen - ofs) 1
      else let eqbits = trie_prefix_equal_bits node prefix ofs mlen;
               ofs = ofs + eqbits
           in if eqbits < tn_nbits node then
                let old_branch = get_bit_at (tn_prefix node) eqbits;
                    edge = trie_branch_create prefix (ofs - eqbits) eqbits (if ofs = mlen then 1 else 0);
                    node = Trie_Node (push_bit eqbits (tn_prefix node)) (tn_nbits node - eqbits) (tn_n_rules node)
                             (tn_edge0 node) (tn_edge1 node);
                    edge = set_edge old_branch node edge
                in if ofs < mlen
                   then set_edge (if old_branch = 0 then 1 else 0) (trie_branch_create prefix ofs (mlen - ofs) 1) edge
                   else edge
              else if ofs = mlen
              then Trie_Node (tn_prefix node) (tn_nbits node) (tn_n_rules node + 1) (tn_edge0 node) (tn_edge1 node)
              else set_edge (be_get_bit_at prefix ofs) (insert_walk prefix mlen (trie_next_node node prefix ofs) ofs) node)"
  by pat_completeness auto

termination by (relation "measure (\<lambda>(_, _, node, _). size node)") (auto simp: next_node_smaller)

declare insert_walk.simps [simp del]

definition trie_insert :: "cls_trie \<Rightarrow> minimatch \<Rightarrow> nat \<Rightarrow> cls_trie option" where
  "trie_insert trie mt mlen = do {
     mf \<leftarrow> tr_field trie;
     Some (trie\<lparr>tr_root := insert_walk (minimatch_get_prefix mt mf) mlen (tr_root trie) 0\<rparr>)
   }"

section \<open>Removal\<close>

text \<open>One turn of the loop that prunes; the flag says that the node is gone and the loop goes on with its parent.\<close>

definition prune :: "trie_node \<Rightarrow> trie_node \<times> bool" where
  "prune node =
     (if tn_n_rules node = 0 \<and> \<not> (tn_edge0 node \<noteq> No_Node \<and> tn_edge1 node \<noteq> No_Node) then
        let nx = if tn_edge0 node \<noteq> No_Node then tn_edge0 node else tn_edge1 node
        in if nx \<noteq> No_Node then
             if tn_nbits node + tn_nbits nx > 32 then (node, False)
             else (Trie_Node (tn_prefix node OR drop_bit (tn_nbits node) (tn_prefix nx)) (tn_nbits nx + tn_nbits node)
                     (tn_n_rules nx) (tn_edge0 nx) (tn_edge1 nx), False)
           else (No_Node, True)
      else (node, False))"

text \<open>
  The walk of \<^verbatim>\<open>trie_remove\<close> from the edge \<^verbatim>\<open>edges[depth]\<close>, which holds \<open>node\<close>.  The result is what the edge holds
  afterwards and the flag of the pruning loop, \<open>Some None\<close> when there is nothing to remove, and \<open>None\<close> when the
  walk writes beyond the end of the array \<^verbatim>\<open>edges\<close>, which has \<^verbatim>\<open>sizeof(union mf_value) * 8\<close> elements.
\<close>

function remove_walk :: "be32s \<Rightarrow> nat \<Rightarrow> trie_node \<Rightarrow> nat \<Rightarrow> nat \<Rightarrow> (trie_node \<times> bool) option option" where
  "remove_walk prefix mlen node ofs depth =
     (if node = No_Node then Some None
      else let eqbits = trie_prefix_equal_bits node prefix ofs mlen
           in if eqbits < tn_nbits node then Some None
              else let ofs = ofs + eqbits
                   in if ofs = mlen then
                        if tn_n_rules node = 0 then Some None
                        else Some (Some (prune (Trie_Node (tn_prefix node) (tn_nbits node) (tn_n_rules node - 1)
                                                  (tn_edge0 node) (tn_edge1 node))))
                      else if depth + 1 \<ge> 128 then None
                      else do {
                        r \<leftarrow> remove_walk prefix mlen (trie_next_node node prefix ofs) ofs (depth + 1);
                        Some (do {
                          (e, again) \<leftarrow> r;
                          let node = set_edge (be_get_bit_at prefix ofs) e node;
                          Some (if again then prune node else (node, False))
                        })
                      })"
  by pat_completeness auto

termination by (relation "measure (\<lambda>(_, _, node, _). size node)") (auto simp: next_node_smaller)

declare remove_walk.simps [simp del]

definition trie_remove :: "cls_trie \<Rightarrow> minimatch \<Rightarrow> nat \<Rightarrow> cls_trie option" where
  "trie_remove trie mt mlen = do {
     mf \<leftarrow> tr_field trie;
     r \<leftarrow> remove_walk (minimatch_get_prefix mt mf) mlen (tr_root trie) 0 0;
     Some (case r of None \<Rightarrow> trie | Some (root, _) \<Rightarrow> trie\<lparr>tr_root := root\<rparr>)
   }"

section \<open>Bit strings\<close>

definition vbit :: "be32s \<Rightarrow> nat \<Rightarrow> bool" where
  "vbit v i \<longleftrightarrow> bit (ntohl (v (i div 32))) (31 - i mod 32)"

abbreviation pbit :: "u32 \<Rightarrow> nat \<Rightarrow> bool" where
  "pbit p i \<equiv> bit p (31 - i)"

lemma bit_ntohl:
  assumes "i < 32"
  shows "bit (ntohl x) i \<longleftrightarrow> bit x (8 * (3 - i div 8) + i mod 8)"
proof -
  have m: "(0xff :: u32) = mask 8" "(0xff00 :: u32) = push_bit 8 (mask 8)" by (simp_all add: mask_eq_exp_minus_1 push_bit_eq_mult)
  have ge: "\<not> bit x n" if "32 \<le> n" for n using that bit_imp_le_length [of x n] by auto
  consider "i < 8" | "8 \<le> i" "i < 16" | "16 \<le> i" "i < 24" | "24 \<le> i" by linarith
  then show ?thesis
  proof cases
    case 1
    then show ?thesis unfolding ntohl_def m by (auto simp: bit_simps ge ac_simps)
  next
    case 2
    then have d: "i div 8 = 1" by (simp add: div_nat_eqI)
    then have "i mod 8 = i - 8" by (simp add: modulo_nat_def)
    then show ?thesis using d 2 unfolding ntohl_def m by (auto simp: bit_simps ge ac_simps)
  next
    case 3
    then have d: "i div 8 = 2" by (simp add: div_nat_eqI)
    then have "i mod 8 = i - 16" by (simp add: modulo_nat_def)
    then show ?thesis using d 3 unfolding ntohl_def m by (auto simp: bit_simps ge ac_simps)
  next
    case 4
    then have d: "i div 8 = 3" using assms by (simp add: div_nat_eqI)
    then have "i mod 8 = i - 24" by (simp add: modulo_nat_def)
    then show ?thesis using d 4 assms unfolding ntohl_def m by (auto simp: bit_simps ge ac_simps)
  qed
qed

lemma byte_swap_idx: "8 * (3 - (31 - j) div 8) + (31 - j) mod 8 = 8 * (j div 8) + (7 - j mod 8)" if "j < 32" for j :: nat
proof -
  from that have "j \<in> set [0..<32]" by simp
  then show ?thesis by (simp add: upt_rec) (elim disjE; simp)
qed

lemma unat_low_bit: "unat (drop_bit k (x :: 'a::len word) AND 1) = of_bool (bit x k)"
proof -
  have "drop_bit k x AND 1 = of_bool (bit x k)"
    by (rule bit_word_eqI) (auto simp: bit_simps)
  then show ?thesis by simp
qed

lemma be_get_bit_at: "be_get_bit_at v ofs = of_bool (vbit v ofs)"
proof -
  have "ofs mod 32 = 8 * (ofs div 8 mod 4) + ofs mod 8" using mod_mult2_eq [of ofs 8 4] by simp
  moreover have lt: "31 - ofs mod 32 < 32" by linarith
  ultimately have "ofs div 8 div 4 = ofs div 32" "ofs div 8 mod 4 = (ofs mod 32) div 8" "ofs mod 8 = (ofs mod 32) mod 8"
    by (simp_all add: div_mult2_eq [symmetric])
  then have "vbit v ofs \<longleftrightarrow> bit (v (ofs div 8 div 4)) (8 * (ofs div 8 mod 4) + (7 - ofs mod 8))"
    using bit_ntohl [OF lt, of "v (ofs div 32)"] byte_swap_idx [of "ofs mod 32"] by (simp add: vbit_def)
  moreover have "7 - ofs mod 8 < 8" by linarith
  ultimately show ?thesis
    unfolding be_get_bit_at_def Let_def unat_low_bit by (simp add: bit_simps)
qed

lemma get_bit_at: "get_bit_at p i = of_bool (pbit p i)"
  by (simp only: get_bit_at_def unat_low_bit)

lemma bit_index:
  fixes ofs i :: nat
  shows "ofs mod 32 + i < 32 \<Longrightarrow> (ofs + i) div 32 = ofs div 32 \<and> (ofs + i) mod 32 = ofs mod 32 + i"
    and "32 \<le> ofs mod 32 + i \<Longrightarrow> i \<le> 32 \<Longrightarrow> (ofs + i) div 32 = ofs div 32 + 1 \<and> (ofs + i) mod 32 = ofs mod 32 + i - 32"
proof -
  define q r where "q = ofs div 32" and "r = ofs mod 32"
  have o: "ofs = 32 * q + r" "r < 32" by (simp_all add: q_def r_def)
  { assume "r + i < 32"
    then have "(32 * q + r + i) div 32 = q" by (simp add: div_nat_eqI)
    moreover from this have "(32 * q + r + i) mod 32 = r + i" by (simp add: modulo_nat_def)
    ultimately have "(ofs + i) div 32 = q \<and> (ofs + i) mod 32 = r + i" using o by simp }
  then show "ofs mod 32 + i < 32 \<Longrightarrow> (ofs + i) div 32 = ofs div 32 \<and> (ofs + i) mod 32 = ofs mod 32 + i"
    by (simp add: q_def r_def)
  { assume "32 \<le> r + i" "i \<le> 32"
    then have "(32 * q + r + i) div 32 = q + 1" using o by (simp add: div_nat_eqI)
    moreover from this have "(32 * q + r + i) mod 32 = r + i - 32" by (simp add: modulo_nat_def)
    ultimately have "(ofs + i) div 32 = q + 1 \<and> (ofs + i) mod 32 = r + i - 32" using o by simp }
  then show "32 \<le> ofs mod 32 + i \<Longrightarrow> i \<le> 32 \<Longrightarrow> (ofs + i) div 32 = ofs div 32 + 1 \<and> (ofs + i) mod 32 = ofs mod 32 + i - 32"
    by (simp add: q_def r_def)
qed

lemma bit_raw_get_prefix:
  assumes "i < plen" "plen \<le> 32"
  shows "pbit (raw_get_prefix v ofs plen) i \<longleftrightarrow> vbit v (ofs + i)"
proof (cases "ofs mod 32 + i < 32")
  case True
  then have "(ofs + i) div 32 = ofs div 32" "(ofs + i) mod 32 = ofs mod 32 + i"
    using bit_index [of ofs i] by simp_all
  moreover have "\<not> bit (ntohl (v (Suc (ofs div 32)))) (63 - (ofs mod 32 + i))" using True by (auto dest!: bit_imp_le_length)
  ultimately show ?thesis using assms True by (auto simp: raw_get_prefix_def Let_def bit_simps vbit_def add.commute)
next
  case False
  then have "(ofs + i) div 32 = ofs div 32 + 1" "(ofs + i) mod 32 = ofs mod 32 + i - 32"
    using bit_index [of ofs i] assms by simp_all
  then show ?thesis using assms False by (auto simp: raw_get_prefix_def Let_def bit_simps vbit_def add.commute)
qed

lemma bit_trie_get_prefix: "i < 32 \<Longrightarrow> pbit (trie_get_prefix v ofs plen) i \<longleftrightarrow> i < plen \<and> vbit v (ofs + i)"
  using bit_raw_get_prefix [of i "min plen 32" v ofs] by (auto simp: trie_get_prefix_def Let_def bit_simps min_def)

lemma prefix_equal_bits:
  assumes "nbits \<le> 32" "prefix_equal_bits p nbits v ofs = e"
  shows "e \<le> nbits" "i < e \<Longrightarrow> pbit p i \<longleftrightarrow> vbit v (ofs + i)"
    "e < nbits \<Longrightarrow> pbit p e \<longleftrightarrow> \<not> vbit v (ofs + e)"
proof -
  define P where "P i \<longleftrightarrow> i < nbits \<longrightarrow> pbit p i \<noteq> vbit v (ofs + i)" for i
  define l where "l = (LEAST i. P i)"
  have P: "P l" unfolding l_def by (rule LeastI [of _ nbits]) (simp add: P_def)
  have least: "\<not> P i" if "i < l" for i using that unfolding l_def by (rule not_less_Least)
  have le: "l \<le> nbits" unfolding l_def by (rule Least_le) (simp add: P_def)
  let ?x = "push_bit 32 (ucast (p XOR raw_get_prefix v ofs nbits)) OR push_bit (63 - nbits) 1 :: u64"
  have b: "bit ?x (63 - i) \<longleftrightarrow> i = nbits \<or> P i" if "i \<le> nbits" for i
  proof (cases "i = nbits")
    case False
    then show ?thesis using that assms(1) bit_raw_get_prefix [of i nbits v ofs] by (auto simp: bit_simps P_def)
  qed (use assms(1) in \<open>auto simp: bit_simps\<close>)
  have "highest ?x (63 - l)"
    unfolding highest_def
  proof (intro conjI allI impI)
    show "bit ?x (63 - l)" using b P le by blast
    fix j assume j: "63 - l < j"
    show "\<not> bit ?x j"
    proof (cases "j < 64")
      case True
      then have "63 - (63 - j) = j" "63 - j < l" using j le assms(1) by auto
      then show ?thesis using b [of "63 - j"] least [of "63 - j"] le by auto
    qed (auto dest: bit_imp_le_length)
  qed
  from raw_clz64_highest [OF this] have e: "e = l" using assms le unfolding prefix_equal_bits_def Let_def by simp
  show "e \<le> nbits" using le e by simp
  show "i < e \<Longrightarrow> pbit p i \<longleftrightarrow> vbit v (ofs + i)" using least e unfolding P_def by blast
  show "e < nbits \<Longrightarrow> pbit p e \<longleftrightarrow> \<not> vbit v (ofs + e)" using P e unfolding P_def by blast
qed


section \<open>A trie counts the rules of each prefix\<close>

text \<open>The bits of a value from an offset up to a length, and what a trie says about a bit string.\<close>

definition vbits :: "be32s \<Rightarrow> nat \<Rightarrow> nat \<Rightarrow> bool list" where
  "vbits v ofs len = map (vbit v) [ofs..<len]"

definition has_prefix :: "u32 \<Rightarrow> nat \<Rightarrow> bool list \<Rightarrow> bool" where
  "has_prefix p n ks \<longleftrightarrow> n \<le> length ks \<and> (\<forall>i<n. ks ! i = pbit p i)"

fun tcount :: "trie_node \<Rightarrow> bool list \<Rightarrow> u32" where
  "tcount No_Node ks = 0"
| "tcount (Trie_Node p n r e0 e1) ks =
     (if has_prefix p n ks
      then if length ks = n then r else if ks ! n then tcount e1 (drop n ks) else tcount e0 (drop n ks)
      else 0)"

definition edge_ok :: "bool \<Rightarrow> trie_node \<Rightarrow> bool" where
  "edge_ok b node \<longleftrightarrow> node = No_Node \<or> 0 < tn_nbits node \<and> pbit (tn_prefix node) 0 = b"

fun node_ok :: "trie_node \<Rightarrow> bool" where
  "node_ok No_Node = True"
| "node_ok (Trie_Node p n r e0 e1) \<longleftrightarrow>
     n \<le> 32 \<and> (\<forall>i<32. n \<le> i \<longrightarrow> \<not> pbit p i) \<and> edge_ok False e0 \<and> edge_ok True e1 \<and> node_ok e0 \<and> node_ok e1"

lemma length_vbits [simp]: "length (vbits v ofs len) = len - ofs"
  by (simp add: vbits_def)

lemma nth_vbits [simp]: "i < len - ofs \<Longrightarrow> vbits v ofs len ! i = vbit v (ofs + i)"
  by (simp add: vbits_def)

lemma drop_vbits [simp]: "drop n (vbits v ofs len) = vbits v (ofs + n) len"
  by (simp add: vbits_def drop_map)

lemma trie_edge_bit: "node \<noteq> No_Node \<Longrightarrow> trie_edge node (of_bool b) = (if b then tn_edge1 node else tn_edge0 node)"
  by (cases node) auto

lemma set_edge_bit:
  "set_edge (of_bool b) e (Trie_Node p n r e0 e1) = Trie_Node p n r (if b then e0 else e) (if b then e else e1)"
  by auto

lemma tcount_child:
  assumes "edge_ok b c" "ks \<noteq> []" "ks ! 0 \<noteq> b"
  shows "tcount c ks = 0"
  using assms by (cases c) (auto simp: edge_ok_def has_prefix_def)

lemma has_prefix_split:
  assumes "n \<le> 32" "e \<le> n"
  shows "has_prefix p n ks \<longleftrightarrow> has_prefix p e ks \<and> has_prefix (push_bit e p) (n - e) (drop e ks)"
proof -
  have "pbit (push_bit e p) i = pbit p (e + i)" if "i < n - e" for i
    using that assms by (auto simp: bit_simps add.commute)
  then have "has_prefix (push_bit e p) (n - e) (drop e ks) \<longleftrightarrow> n - e \<le> length ks - e \<and> (\<forall>i<n - e. drop e ks ! i = pbit p (e + i))"
    by (auto simp: has_prefix_def)
  also have "has_prefix p e ks \<and> \<dots> \<longleftrightarrow> has_prefix p n ks" (is "?l \<longleftrightarrow> ?r")
  proof
    assume l: ?l
    show ?r unfolding has_prefix_def
    proof (intro conjI allI impI)
      show "n \<le> length ks" using l assms by (auto simp: has_prefix_def)
      fix i assume "i < n"
      then show "ks ! i = pbit p i"
        using l assms by (cases "i < e") (auto simp: has_prefix_def dest: spec [of _ "i - e"])
    qed
  qed (use assms in \<open>auto simp: has_prefix_def\<close>)
  finally show ?thesis by blast
qed

lemma tcount_split:
  assumes "n \<le> 32" "e \<le> n"
  shows "tcount (Trie_Node p n r e0 e1) ks =
    (if has_prefix p e ks then tcount (Trie_Node (push_bit e p) (n - e) r e0 e1) (drop e ks) else 0)"
proof (cases "has_prefix p n ks")
  case True
  then have "has_prefix p e ks" "has_prefix (push_bit e p) (n - e) (drop e ks)" "n \<le> length ks"
    using has_prefix_split [OF assms] by (auto simp: has_prefix_def)
  moreover from this have "length ks - e = n - e \<longleftrightarrow> length ks = n" using assms by auto
  ultimately show ?thesis using True assms by simp
next
  case False
  then show ?thesis using has_prefix_split [OF assms, of p ks] by simp
qed


lemma has_prefix_get:
  "plen \<le> 32 \<Longrightarrow> has_prefix (trie_get_prefix v ofs plen) plen ks \<longleftrightarrow> plen \<le> length ks \<and> (\<forall>i<plen. ks ! i = vbit v (ofs + i))"
  by (auto simp: has_prefix_def bit_trie_get_prefix)

lemma bits_eq_iff: "ks = vbits v ofs (ofs + plen) \<longleftrightarrow> length ks = plen \<and> (\<forall>i<plen. ks ! i = vbit v (ofs + i))"
  by (auto intro: nth_equalityI)

lemma vbits_split:
  assumes "n \<le> len - ofs"
  shows "ks = vbits v ofs len \<longleftrightarrow>
    n \<le> length ks \<and> (\<forall>i<n. ks ! i = vbit v (ofs + i)) \<and> drop n ks = vbits v (ofs + n) len" (is "_ \<longleftrightarrow> ?r")
proof
  assume r: ?r
  then have "length ks - n = len - (ofs + n)" by (metis length_drop length_vbits)
  then have l: "length ks = len - ofs" using conjunct1 [OF r] assms by linarith
  show "ks = vbits v ofs len"
  proof (rule nth_equalityI)
    show "length ks = length (vbits v ofs len)" using l by simp
    fix i assume i: "i < length ks"
    show "ks ! i = vbits v ofs len ! i"
    proof (cases "i < n")
      case False
      then have "ks ! i = drop n ks ! (i - n)" using i by simp
      also have "\<dots> = vbits v (ofs + n) len ! (i - n)" using r by simp
      finally show ?thesis using False i l assms by simp
    qed (use r l i in simp)
  qed
qed (use assms in auto)

lemma branch_create:
  "tcount (trie_branch_create v ofs plen n) ks = (if ks = vbits v ofs (ofs + plen) then n else 0) \<and>
   node_ok (trie_branch_create v ofs plen n) \<and> trie_branch_create v ofs plen n \<noteq> No_Node \<and>
   (0 < plen \<longrightarrow> edge_ok (vbit v ofs) (trie_branch_create v ofs plen n))"
proof (induction v ofs plen n arbitrary: ks rule: trie_branch_create.induct)
  case (1 v ofs plen n)
  show ?case
  proof (cases "plen \<le> 32")
    case True
    then show ?thesis
      using bit_trie_get_prefix [of 0 v ofs plen]
      by (auto simp: trie_branch_create.simps [of v ofs plen n] edge_ok_def has_prefix_get bits_eq_iff bit_trie_get_prefix)
  next
    case False
    let ?s = "trie_branch_create v (ofs + 32) (plen - 32) n"
    note IH = 1 [OF False]
    let ?e = "edge_ok (vbit v (ofs + 32)) ?s"
    have e: ?e "pbit (tn_prefix ?s) 0 = vbit v (ofs + 32)" using IH False by (auto simp: edge_ok_def)
    have s: "trie_branch_create v ofs plen n = Trie_Node (trie_get_prefix v ofs plen) 32 0
        (if vbit v (ofs + 32) then No_Node else ?s) (if vbit v (ofs + 32) then ?s else No_Node)"
      using False e by (simp add: trie_branch_create.simps [of v ofs plen n] get_bit_at set_edge_bit del: set_edge.simps)
    have g: "trie_get_prefix v ofs plen = trie_get_prefix v ofs 32" using False by (simp add: trie_get_prefix_def)
    have d: "tcount ?s (drop 32 ks) = (if drop 32 ks = vbits v (ofs + 32) (ofs + plen) then n else 0)"
      using IH False by simp
    have "tcount (trie_branch_create v ofs plen n) ks = (if ks = vbits v ofs (ofs + plen) then n else 0)"
    proof (cases "32 < length ks")
      case True
      then have "drop 32 ks = vbits v (ofs + 32) (ofs + plen) \<Longrightarrow> ks ! 32 = vbit v (ofs + 32)"
        using False nth_drop [of 32 ks 0] by simp
      then show ?thesis using d True False vbits_split [of 32 "ofs + plen" ofs ks v] by (auto simp: s g has_prefix_get)
    qed (use False in \<open>auto simp: s has_prefix_def\<close>)
    moreover have "node_ok (trie_branch_create v ofs plen n)"
      using IH e by (auto simp: s edge_ok_def)
    moreover have "edge_ok (vbit v ofs) (trie_branch_create v ofs plen n)"
      using bit_trie_get_prefix [of 0 v ofs 32] by (simp add: s g edge_ok_def)
    ultimately show ?thesis by (simp add: s)
  qed
qed


lemma has_prefix_vbits:
  assumes "\<And>i. i < e \<Longrightarrow> pbit p i \<longleftrightarrow> vbit v (ofs + i)"
  shows "has_prefix p e ks \<longleftrightarrow> e \<le> length ks \<and> (\<forall>i<e. ks ! i = vbit v (ofs + i))"
  using assms by (auto simp: has_prefix_def)

lemma tcount_nil: "0 < tn_nbits c \<Longrightarrow> tcount c [] = 0"
  by (cases c) (auto simp: has_prefix_def)

lemma node_ok_push:
  assumes "node_ok (Trie_Node p n r e0 e1)" "e < n"
  shows "node_ok (Trie_Node (push_bit e p) (n - e) r e0 e1)" "edge_ok (pbit p e) (Trie_Node (push_bit e p) (n - e) r e0 e1)"
  using assms by (auto simp: edge_ok_def bit_simps)

text \<open>A node that differs from the new prefix, or is longer, is put below a new node.\<close>

lemma insert_fork:
  assumes "node_ok (Trie_Node p n r e0 e1)" "e < n" "e \<le> mlen - ofs" "ofs \<le> mlen"
    and eq: "\<And>i. i < e \<Longrightarrow> pbit p i \<longleftrightarrow> vbit v (ofs + i)"
    and ne: "ofs + e < mlen \<Longrightarrow> pbit p e \<longleftrightarrow> \<not> vbit v (ofs + e)"
  defines "nd \<equiv> Trie_Node (push_bit e p) (n - e) r e0 e1"
    and "br \<equiv> if ofs + e < mlen then trie_branch_create v (ofs + e) (mlen - (ofs + e)) 1 else No_Node"
  defines "t \<equiv> Trie_Node (trie_get_prefix v ofs e) e (if ofs + e = mlen then 1 else 0)
    (if pbit p e then br else nd) (if pbit p e then nd else br)"
  shows "tcount t ks = tcount (Trie_Node p n r e0 e1) ks + (if ks = vbits v ofs mlen then 1 else 0)" "node_ok t"
proof -
  have n: "n \<le> 32" using assms(1) by simp
  have nd: "node_ok nd" "edge_ok (pbit p e) nd" "0 < tn_nbits nd"
    using node_ok_push [OF assms(1,2)] assms(2) by (simp_all add: nd_def)
  have br: "node_ok br" "edge_ok (\<not> pbit p e) br"
    "tcount br ks' = (if ofs + e < mlen \<and> ks' = vbits v (ofs + e) mlen then 1 else 0)" for ks'
    using branch_create [of v "ofs + e" "mlen - (ofs + e)" 1] ne by (auto simp: br_def edge_ok_def)
  show "node_ok t" using nd br n assms(2) by (auto simp: t_def bit_trie_get_prefix)
  have hp: "has_prefix (trie_get_prefix v ofs e) e ks \<longleftrightarrow> has_prefix p e ks"
    using has_prefix_vbits [of e p v ofs, OF eq] n assms(2) by (simp add: has_prefix_get)
  note split = tcount_split [OF n less_imp_le [OF assms(2)], of p r e0 e1 ks, folded nd_def]
  have vs: "ks = vbits v ofs mlen \<longleftrightarrow> has_prefix p e ks \<and> drop e ks = vbits v (ofs + e) mlen"
    using vbits_split [OF assms(3), of ks v] has_prefix_vbits [of e p v ofs, OF eq] by auto
  show "tcount t ks = tcount (Trie_Node p n r e0 e1) ks + (if ks = vbits v ofs mlen then 1 else 0)"
  proof (cases "has_prefix p e ks \<and> length ks \<noteq> e")
    case True
    then have ne': "drop e ks \<noteq> []" and hd: "drop e ks ! 0 = ks ! e" by (auto simp: has_prefix_def)
    have v: "drop e ks = vbits v (ofs + e) mlen \<Longrightarrow> ofs + e < mlen \<and> ks ! e = vbit v (ofs + e)"
      using ne' hd by (cases "ofs + e < mlen") (auto simp: vbits_def)
    show ?thesis
    proof (cases "ks ! e = pbit p e")
      case same: True
      then show ?thesis using True v ne unfolding split vs by (auto simp: t_def hp)
    next
      case False
      then have "tcount nd (drop e ks) = 0" using tcount_child [OF nd(2) ne'] hd by simp
      then show ?thesis using True False v br(3) [of "drop e ks"] unfolding split vs by (auto simp: t_def hp)
    qed
  next
    case False
    have "[] = vbits v (ofs + e) mlen \<longleftrightarrow> ofs + e = mlen" using assms(3,4) by (auto simp: vbits_def)
    moreover have "drop e ks = []" if "length ks = e" using that by simp
    ultimately show ?thesis using False tcount_nil [OF nd(3)] unfolding split vs
      by (cases "has_prefix p e ks") (simp_all add: t_def hp)
  qed
qed


text \<open>A change of the count of one prefix in the child that the prefix leads to.\<close>

lemma tcount_descend:
  assumes eq: "\<And>i. i < n \<Longrightarrow> pbit p i \<longleftrightarrow> vbit v (ofs + i)" and "ofs + n < mlen"
    and c: "\<And>ks. tcount c ks = (if ks = vbits v (ofs + n) mlen then f (tcount (if vbit v (ofs + n) then e1 else e0) ks)
      else tcount (if vbit v (ofs + n) then e1 else e0) ks)"
  shows "tcount (set_edge (of_bool (vbit v (ofs + n))) c (Trie_Node p n r e0 e1)) ks =
    (if ks = vbits v ofs mlen then f (tcount (Trie_Node p n r e0 e1) ks) else tcount (Trie_Node p n r e0 e1) ks)"
proof (cases "has_prefix p n ks \<and> length ks \<noteq> n")
  case True
  have vs: "ks = vbits v ofs mlen \<longleftrightarrow> drop n ks = vbits v (ofs + n) mlen"
    using vbits_split [of n mlen ofs ks v] has_prefix_vbits [of n p v ofs, OF eq] True assms(2) by simp
  have "drop n ks ! 0 = ks ! n" using True by (auto simp: has_prefix_def)
  then have "drop n ks = vbits v (ofs + n) mlen \<Longrightarrow> ks ! n = vbit v (ofs + n)" using assms(2) by auto
  then show ?thesis using True c [of "drop n ks"] unfolding set_edge_bit vs by (auto split: if_splits)
next
  case False
  moreover have "ks \<noteq> vbits v ofs mlen"
    using False vbits_split [of n mlen ofs ks v] has_prefix_vbits [of n p v ofs, OF eq] assms(2) by (auto simp: vbits_def)
  ultimately show ?thesis unfolding set_edge_bit by auto
qed

lemma node_ok_set_edge:
  assumes "node_ok (Trie_Node p n r e0 e1)" "node_ok c" "edge_ok b c"
  shows "node_ok (set_edge (of_bool b) c (Trie_Node p n r e0 e1))"
  using assms by (cases b) simp_all

lemma edge_ok_set_edge: "edge_ok b (set_edge b' c node) \<longleftrightarrow> edge_ok b node"
  by (cases node) (auto simp: edge_ok_def)

lemma trie_next: "node \<noteq> No_Node \<Longrightarrow> trie_next_node node v ofs = (if vbit v ofs then tn_edge1 node else tn_edge0 node)"
  unfolding trie_next_node_def be_get_bit_at by (rule trie_edge_bit)

text \<open>What the walk knows at a node.\<close>

lemma walk_bits:
  assumes "node_ok (Trie_Node p n r e0 e1)" "trie_prefix_equal_bits (Trie_Node p n r e0 e1) v ofs mlen = e"
  shows "e \<le> n" "e \<le> mlen - ofs" "i < e \<Longrightarrow> pbit p i \<longleftrightarrow> vbit v (ofs + i)"
    "e < n \<Longrightarrow> ofs + e < mlen \<Longrightarrow> pbit p e \<longleftrightarrow> \<not> vbit v (ofs + e)"
proof -
  have n: "min n (mlen - ofs) \<le> 32" using assms(1) by (auto simp: min_def)
  note q = prefix_equal_bits [OF n assms(2) [unfolded trie_prefix_equal_bits_def trie_node.sel]]
  show "e \<le> n" "e \<le> mlen - ofs" using q(1) by auto
  show "i < e \<Longrightarrow> pbit p i \<longleftrightarrow> vbit v (ofs + i)" using q(2) .
  show "e < n \<Longrightarrow> ofs + e < mlen \<Longrightarrow> pbit p e \<longleftrightarrow> \<not> vbit v (ofs + e)" using q(3) by auto
qed

lemma insert_walk_node:
  assumes "trie_prefix_equal_bits (Trie_Node p n r e0 e1) v ofs mlen = e" "n \<le> 32"
  shows "insert_walk v mlen (Trie_Node p n r e0 e1) ofs =
    (if e < n then
       let nd = Trie_Node (push_bit e p) (n - e) r e0 e1;
           br = if ofs + e < mlen then trie_branch_create v (ofs + e) (mlen - (ofs + e)) 1 else No_Node
       in Trie_Node (trie_get_prefix v ofs e) e (if ofs + e = mlen then 1 else 0)
            (if pbit p e then br else nd) (if pbit p e then nd else br)
     else if ofs + e = mlen then Trie_Node p n (r + 1) e0 e1
     else set_edge (of_bool (vbit v (ofs + e)))
            (insert_walk v mlen (if vbit v (ofs + e) then e1 else e0) (ofs + e)) (Trie_Node p n r e0 e1))"
  using assms
  by (simp add: insert_walk.simps [of v mlen "Trie_Node p n r e0 e1"] trie_branch_create.simps [of v ofs e]
      get_bit_at be_get_bit_at trie_next Let_def)

lemma insert_walk:
  "node_ok node \<Longrightarrow> ofs < mlen \<Longrightarrow>
   (\<forall>ks. tcount (insert_walk v mlen node ofs) ks = tcount node ks + (if ks = vbits v ofs mlen then 1 else 0)) \<and>
   node_ok (insert_walk v mlen node ofs) \<and> insert_walk v mlen node ofs \<noteq> No_Node \<and>
   (edge_ok (vbit v ofs) node \<longrightarrow> edge_ok (vbit v ofs) (insert_walk v mlen node ofs))"
proof (induction node arbitrary: ofs)
  case No_Node
  then show ?case using branch_create [of v ofs "mlen - ofs" 1] by (simp add: insert_walk.simps [of v mlen No_Node])
next
  case (Trie_Node p n r e0 e1)
  let ?nd = "Trie_Node p n r e0 e1"
  define e where "e = trie_prefix_equal_bits ?nd v ofs mlen"
  note w = walk_bits [OF Trie_Node.prems(1) e_def [symmetric]]
  have n: "n \<le> 32" using Trie_Node.prems by simp
  have first: "0 < e" if "edge_ok (vbit v ofs) ?nd"
    using that w(4) Trie_Node.prems(2) by (cases "e = 0") (auto simp: edge_ok_def)
  note step = insert_walk_node [OF e_def [symmetric] n]
  consider "e < n" | "e = n" "ofs + n = mlen" | "e = n" "ofs + n < mlen" using w(1,2) Trie_Node.prems(2) by linarith
  then show ?case
  proof cases
    case 1
    note f = insert_fork [OF Trie_Node.prems(1) 1 w(2) less_imp_le [OF Trie_Node.prems(2)] w(3) w(4) [OF 1]]
    have "edge_ok (vbit v ofs) (insert_walk v mlen ?nd ofs)" if "edge_ok (vbit v ofs) ?nd"
      using first [OF that] 1 bit_trie_get_prefix [of 0 v ofs e] by (simp add: step Let_def edge_ok_def)
    then show ?thesis using f 1 by (simp add: step Let_def)
  next
    case 2
    then have "has_prefix p n ks \<and> length ks = n \<longleftrightarrow> ks = vbits v ofs mlen" for ks
      using has_prefix_vbits [of n p v ofs ks] w(3) bits_eq_iff [of ks v ofs n] by auto
    then show ?thesis using 2 Trie_Node.prems by (auto simp: step edge_ok_def)
  next
    case 3
    define c where "c = (if vbit v (ofs + n) then e1 else e0)"
    have IH: "tcount (insert_walk v mlen c (ofs + n)) ks = tcount c ks + (if ks = vbits v (ofs + n) mlen then 1 else 0)"
      "node_ok (insert_walk v mlen c (ofs + n))" "edge_ok (vbit v (ofs + n)) (insert_walk v mlen c (ofs + n))" for ks
      using Trie_Node.IH(1) [of "ofs + n"] Trie_Node.IH(2) [of "ofs + n"] Trie_Node.prems 3 by (auto simp: c_def)
    have s: "insert_walk v mlen ?nd ofs = set_edge (of_bool (vbit v (ofs + n))) (insert_walk v mlen c (ofs + n)) ?nd"
      using 3 by (simp add: step c_def)
    have eq: "\<And>i. i < n \<Longrightarrow> pbit p i \<longleftrightarrow> vbit v (ofs + i)" using w(3) 3 by simp
    have "tcount (insert_walk v mlen ?nd ofs) ks = (if ks = vbits v ofs mlen then tcount ?nd ks + 1 else tcount ?nd ks)" for ks
      unfolding s by (rule tcount_descend [OF eq 3(2)]) (simp_all add: IH(1) flip: c_def)
    then show ?thesis
      using node_ok_set_edge [OF Trie_Node.prems(1) IH(2,3)] unfolding s edge_ok_set_edge by (auto simp: set_edge_bit)
  qed
qed


lemma combine_prefix:
  assumes "\<And>i. i < 32 \<Longrightarrow> n \<le> i \<Longrightarrow> \<not> pbit p i" "\<And>i. i < 32 \<Longrightarrow> m \<le> i \<Longrightarrow> \<not> pbit q i" "n + m \<le> 32"
  defines "c \<equiv> p OR drop_bit n q"
  shows "push_bit n c = q" "i < n \<Longrightarrow> pbit c i \<longleftrightarrow> pbit p i" "i < 32 \<Longrightarrow> m + n \<le> i \<Longrightarrow> \<not> pbit c i"
proof -
  have ge: "\<not> bit q j" if "32 \<le> j" for j using that bit_imp_le_length [of q j] by auto
  show "push_bit n c = q"
  proof (rule bit_word_eqI)
    fix j assume "j < LENGTH(32)"
    then have j: "j < 32" by simp
    have "n \<le> j \<Longrightarrow> \<not> bit p (j - n)" using assms(1) [of "31 - (j - n)"] j by simp
    moreover have "j < n \<Longrightarrow> \<not> bit q j" using assms(2) [of "31 - j"] assms(3) j by simp
    ultimately show "bit (push_bit n c) j = bit q j" using j unfolding c_def by (cases "n \<le> j") (auto simp: bit_simps)
  qed
  show "i < n \<Longrightarrow> pbit c i \<longleftrightarrow> pbit p i" using assms(3) ge [of "n + (31 - i)"] by (auto simp: c_def bit_simps)
  assume i: "i < 32" "m + n \<le> i"
  then have "\<not> bit q (n + (31 - i))" using assms(2) [of "i - n"] by (simp add: add.commute)
  then show "\<not> pbit c i" using assms(1) [of i] i by (auto simp: c_def bit_simps)
qed

lemma tcount_only_child:
  assumes "edge_ok b c" "0 < tn_nbits c" "e0 = (if b then No_Node else c)" "e1 = (if b then c else No_Node)"
  shows "tcount (Trie_Node p n 0 e0 e1) ks = (if has_prefix p n ks then tcount c (drop n ks) else 0)"
proof (cases "has_prefix p n ks \<and> length ks \<noteq> n")
  case True
  then have "drop n ks \<noteq> []" "drop n ks ! 0 = ks ! n" by (auto simp: has_prefix_def)
  then show ?thesis using True tcount_child [OF assms(1), of "drop n ks"] assms(3,4) by auto
next
  case False
  then show ?thesis using tcount_nil [OF assms(2)] by auto
qed

lemma prune:
  assumes "node_ok (Trie_Node p n r e0 e1)" "prune (Trie_Node p n r e0 e1) = (t, again)"
  shows "tcount t = tcount (Trie_Node p n r e0 e1) \<and> node_ok t \<and> (again \<longrightarrow> t = No_Node) \<and>
    (\<forall>b. edge_ok b (Trie_Node p n r e0 e1) \<longrightarrow> edge_ok b t)"
proof (cases "r = 0 \<and> \<not> (e0 \<noteq> No_Node \<and> e1 \<noteq> No_Node)")
  case True
  define b where "b \<longleftrightarrow> e0 = No_Node"
  define c where "c = (if b then e1 else e0)"
  have e: "e0 = (if b then No_Node else c)" "e1 = (if b then c else No_Node)" "edge_ok b c" "node_ok c"
    using True assms(1) by (auto simp: b_def c_def)
  show ?thesis
  proof (cases c)
    case No_Node
    then have "t = No_Node" "tcount (Trie_Node p n r e0 e1) ks = 0" for ks
      using assms(2) True e by (auto simp: prune_def)
    then show ?thesis by (auto simp: edge_ok_def)
  next
    case (Trie_Node q m r' c0 c1)
    show ?thesis
    proof (cases "n + m \<le> 32")
      case le: True
      have t: "t = Trie_Node (p OR drop_bit n q) (m + n) r' c0 c1" "\<not> again"
        using assms(2) True e le Trie_Node by (auto simp: prune_def split: if_splits)
      have z: "\<And>i. i < 32 \<Longrightarrow> n \<le> i \<Longrightarrow> \<not> pbit p i" "\<And>i. i < 32 \<Longrightarrow> m \<le> i \<Longrightarrow> \<not> pbit q i"
        using assms(1) e(4) by (auto simp: Trie_Node)
      note cp = combine_prefix [OF z le]
      have "tcount t ks = tcount (Trie_Node p n r e0 e1) ks" for ks
      proof -
        have "tcount t ks = (if has_prefix (p OR drop_bit n q) n ks then tcount c (drop n ks) else 0)"
          using tcount_split [of "m + n" n "p OR drop_bit n q" r' c0 c1 ks] le cp(1) by (simp add: t Trie_Node add.commute)
        also have "has_prefix (p OR drop_bit n q) n ks \<longleftrightarrow> has_prefix p n ks" using cp(2) by (auto simp: has_prefix_def)
        finally show ?thesis
          using tcount_only_child [OF e(3) _ e(1,2), of p n ks] True e(3) by (simp add: Trie_Node edge_ok_def)
      qed
      moreover have "node_ok t" using e(4) cp(3) le by (auto simp: t Trie_Node)
      moreover have "edge_ok b' (Trie_Node p n r e0 e1) \<longrightarrow> edge_ok b' t" for b'
        using cp(2) [of 0] by (auto simp: t edge_ok_def)
      ultimately show ?thesis using t by auto
    next
      case False
      then have "t = Trie_Node p n r e0 e1" "\<not> again" using assms(2) True e Trie_Node by (auto simp: prune_def split: if_splits)
      then show ?thesis using assms(1) by simp
    qed
  qed
next
  case False
  then have "t = Trie_Node p n r e0 e1" "\<not> again" using assms(2) by (auto simp: prune_def split: if_splits)
  then show ?thesis using assms(1) by simp
qed


lemma remove_walk_node:
  assumes "trie_prefix_equal_bits (Trie_Node p n r e0 e1) v ofs mlen = n"
  shows "remove_walk v mlen (Trie_Node p n r e0 e1) ofs depth =
    (if ofs + n = mlen then if r = 0 then Some None else Some (Some (prune (Trie_Node p n (r - 1) e0 e1)))
     else if depth + 1 \<ge> 128 then None
     else do {
       x \<leftarrow> remove_walk v mlen (if vbit v (ofs + n) then e1 else e0) (ofs + n) (depth + 1);
       Some (do {
         (e, again) \<leftarrow> x;
         let node = set_edge (of_bool (vbit v (ofs + n))) e (Trie_Node p n r e0 e1);
         Some (if again then prune node else (node, False))
       })
     })"
  using assms by (simp add: remove_walk.simps [of v mlen "Trie_Node p n r e0 e1"] be_get_bit_at trie_next Let_def)

lemma tcount_here: "tcount (Trie_Node p n r e0 e1) ks \<noteq> 0 \<Longrightarrow> has_prefix p n ks"
  by (auto split: if_splits)

lemma remove_walk:
  assumes "node_ok node" "ofs \<le> mlen" "tcount node (vbits v ofs mlen) \<noteq> 0"
    "edge_ok (vbit v ofs) node \<and> depth + (mlen - ofs) \<le> 128 \<or> depth + 1 + (mlen - ofs) \<le> 128"
  shows "\<exists>t again. remove_walk v mlen node ofs depth = Some (Some (t, again)) \<and> node_ok t \<and>
    (\<forall>ks. tcount t ks = (if ks = vbits v ofs mlen then tcount node ks - 1 else tcount node ks)) \<and>
    (again \<longrightarrow> t = No_Node) \<and> (\<forall>b. edge_ok b node \<longrightarrow> edge_ok b t)"
  using assms
proof (induction node arbitrary: ofs depth)
  case (Trie_Node p n r e0 e1)
  let ?nd = "Trie_Node p n r e0 e1"
  define e where "e = trie_prefix_equal_bits ?nd v ofs mlen"
  note w = walk_bits [OF Trie_Node.prems(1) e_def [symmetric]]
  have hp: "has_prefix p n (vbits v ofs mlen)" using tcount_here [OF Trie_Node.prems(3)] .
  have "e = n"
  proof (rule ccontr)
    assume "e \<noteq> n"
    then have "e < n" "ofs + e < mlen" using w(1) hp by (auto simp: has_prefix_def)
    then show False using w(4) hp by (auto simp: has_prefix_def)
  qed
  then have eq: "\<And>i. i < n \<Longrightarrow> pbit p i \<longleftrightarrow> vbit v (ofs + i)" and n: "n \<le> mlen - ofs"
    and step: "trie_prefix_equal_bits ?nd v ofs mlen = n" using w(2,3) by (auto simp: e_def)
  show ?case
  proof (cases "ofs + n = mlen")
    case True
    obtain t again where pr: "prune (Trie_Node p n (r - 1) e0 e1) = (t, again)" by fastforce
    have here: "has_prefix p n ks \<and> length ks = n \<longleftrightarrow> ks = vbits v ofs mlen" for ks
      using True has_prefix_vbits [of n p v ofs ks, OF eq] bits_eq_iff [of ks v ofs n] by auto
    have "r \<noteq> 0" using Trie_Node.prems(3) hp True by auto
    then have "remove_walk v mlen ?nd ofs depth = Some (Some (t, again))" using remove_walk_node [OF step] True pr by simp
    moreover have "node_ok (Trie_Node p n (r - 1) e0 e1)" using Trie_Node.prems(1) by simp
    note prune [OF this pr]
    moreover have "tcount (Trie_Node p n (r - 1) e0 e1) ks = (if ks = vbits v ofs mlen then tcount ?nd ks - 1 else tcount ?nd ks)" for ks
      using here [of ks] by auto
    ultimately show ?thesis by (auto simp: edge_ok_def)
  next
    case False
    then have lt: "ofs + n < mlen" using n Trie_Node.prems(2) by linarith
    define c where "c = (if vbit v (ofs + n) then e1 else e0)"
    have c: "node_ok c" "edge_ok (vbit v (ofs + n)) c" using Trie_Node.prems(1) by (auto simp: c_def)
    have tc: "tcount c (vbits v (ofs + n) mlen) \<noteq> 0"
      using Trie_Node.prems(3) hp lt by (auto simp: c_def split: if_splits)
    have d: "depth + 1 + (mlen - (ofs + n)) \<le> 128" using Trie_Node.prems(4) lt by (auto simp: edge_ok_def)
    have ex: "\<exists>t again. remove_walk v mlen c (ofs + n) (depth + 1) = Some (Some (t, again)) \<and> node_ok t \<and>
      (\<forall>ks. tcount t ks = (if ks = vbits v (ofs + n) mlen then tcount c ks - 1 else tcount c ks)) \<and>
      (again \<longrightarrow> t = No_Node) \<and> (\<forall>b. edge_ok b c \<longrightarrow> edge_ok b t)"
      using Trie_Node.IH(1) [of "ofs + n" "depth + 1"] Trie_Node.IH(2) [of "ofs + n" "depth + 1"] c tc d lt
      by (cases "vbit v (ofs + n)") (simp_all only: c_def if_True if_False less_imp_le simp_thms)
    from ex c(2) obtain t again where IH: "remove_walk v mlen c (ofs + n) (depth + 1) = Some (Some (t, again))"
      "node_ok t" "\<And>ks. tcount t ks = (if ks = vbits v (ofs + n) mlen then tcount c ks - 1 else tcount c ks)"
      "edge_ok (vbit v (ofs + n)) t" by blast
    let ?s = "set_edge (of_bool (vbit v (ofs + n))) t ?nd"
    have cnt: "tcount ?s ks = (if ks = vbits v ofs mlen then tcount ?nd ks - 1 else tcount ?nd ks)" for ks
      by (rule tcount_descend [OF eq lt]) (simp_all add: IH(3) flip: c_def)
    have ok: "node_ok ?s" by (rule node_ok_set_edge [OF Trie_Node.prems(1) IH(2,4)])
    obtain e0' e1' where s: "?s = Trie_Node p n r e0' e1'" unfolding set_edge_bit by blast
    have rw: "remove_walk v mlen ?nd ofs depth = Some (Some (if again then prune ?s else (?s, False)))"
      using remove_walk_node [OF step, of depth] False lt d IH(1) by (simp add: c_def)
    have eo: "edge_ok b ?nd \<Longrightarrow> edge_ok b ?s" for b unfolding edge_ok_set_edge .
    show ?thesis
    proof (cases again)
      case True
      obtain u again' where pr: "prune ?s = (u, again')" by fastforce
      show ?thesis using rw True pr prune [OF ok [unfolded s] pr [unfolded s]] cnt eo unfolding s by auto
    next
      case False
      then show ?thesis using rw cnt ok eo by auto
    qed
  qed
qed simp


section \<open>Lookup\<close>

lemma lookup_loop_node:
  "lookup_loop v (Trie_Node p n r e0 e1) plen m pn =
    (let eqbits = prefix_equal_bits p n v plen
     in if eqbits < n then (m, plen + eqbits + 1)
        else lookup_loop v (if vbit v (plen + eqbits) then e1 else e0) (plen + eqbits) (if r > 0 then plen + eqbits else m)
               (Trie_Node p n r e0 e1))"
  by (simp add: lookup_loop.simps [of v "Trie_Node p n r e0 e1"] trie_next Let_def)

lemma lookup_loop_nil: "lookup_loop v No_Node plen m pn = (m, if pn = No_Node \<or> trie_is_leaf pn then plen else plen + 1)"
  by (simp add: lookup_loop.simps)

lemma full_match:
  assumes "n \<le> 32"
  shows "\<not> prefix_equal_bits p n v plen < n \<longleftrightarrow> (\<forall>i<n. pbit p i = vbit v (plen + i))"
proof -
  define e where "e = prefix_equal_bits p n v plen"
  note q = prefix_equal_bits [OF assms e_def [symmetric]]
  show ?thesis
    using q(1) q(3) q(2) by (cases "e < n") (auto simp flip: e_def)
qed

lemma tcount_vbits:
  assumes "n \<le> 32" "plen \<le> l"
  shows "tcount (Trie_Node p n r e0 e1) (vbits v plen l) =
    (if plen + n \<le> l \<and> (\<forall>i<n. pbit p i = vbit v (plen + i))
     then if l = plen + n then r else tcount (if vbit v (plen + n) then e1 else e0) (vbits v (plen + n) l) else 0)"
proof (cases "plen + n \<le> l")
  case True
  define F where "F \<longleftrightarrow> (\<forall>i<n. pbit p i = vbit v (plen + i))"
  have "has_prefix p n (vbits v plen l) \<longleftrightarrow> F" using True by (auto simp: has_prefix_def F_def)
  moreover have "l - plen = n \<longleftrightarrow> l = plen + n" using True by auto
  ultimately show ?thesis using True by (simp flip: F_def)
next
  case False
  then have "\<not> has_prefix p n (vbits v plen l)" using assms(2) by (auto simp: has_prefix_def)
  then show ?thesis using False by simp
qed

text \<open>The match length is that of the longest prefix of the value that has rules.\<close>

lemma lookup_loop_longest:
  assumes "node_ok node" "m \<le> plen" "lookup_loop v node plen m pn = (ml, cb)"
  shows "m \<le> ml \<and> (ml = m \<or> plen \<le> ml \<and> tcount node (vbits v plen ml) \<noteq> 0) \<and>
    (\<forall>l. plen \<le> l \<and> tcount node (vbits v plen l) \<noteq> 0 \<longrightarrow> l \<le> ml)"
  using assms
proof (induction node arbitrary: plen m pn)
  case (Trie_Node p n r e0 e1)
  have n: "n \<le> 32" using Trie_Node.prems(1) by simp
  show ?case
  proof (cases "prefix_equal_bits p n v plen < n")
    case True
    then have nf: "\<not> (\<forall>i<n. pbit p i = vbit v (plen + i))" using full_match [OF n] by blast
    have z: "tcount (Trie_Node p n r e0 e1) (vbits v plen l) = 0" if "plen \<le> l" for l
      unfolding tcount_vbits [OF n that] by (rule if_not_P) (use nf in blast)
    have "ml = m" using Trie_Node.prems(3) True by (simp add: lookup_loop_node)
    then show ?thesis using z by blast
  next
    case False
    then have f: "\<forall>i<n. pbit p i = vbit v (plen + i)" using full_match [OF n] by blast
    have e: "prefix_equal_bits p n v plen = n" using False prefix_equal_bits(1) [OF n refl, of p v plen] by simp
    define c where "c = (if vbit v (plen + n) then e1 else e0)"
    define m' where "m' = (if r > 0 then plen + n else m)"
    have l: "lookup_loop v c (plen + n) m' (Trie_Node p n r e0 e1) = (ml, cb)"
      using Trie_Node.prems(3) e by (simp add: lookup_loop_node c_def m'_def)
    have m': "m \<le> m'" "m' \<le> plen + n" using Trie_Node.prems(2) by (auto simp: m'_def)
    have IH: "m' \<le> ml \<and> (ml = m' \<or> plen + n \<le> ml \<and> tcount c (vbits v (plen + n) ml) \<noteq> 0) \<and>
      (\<forall>l. plen + n \<le> l \<and> tcount c (vbits v (plen + n) l) \<noteq> 0 \<longrightarrow> l \<le> ml)"
      using Trie_Node.IH(1) [of m' "plen + n"] Trie_Node.IH(2) [of m' "plen + n"] Trie_Node.prems(1) m'(2) l
      by (cases "vbit v (plen + n)") (auto simp: c_def)
    have tc: "tcount (Trie_Node p n r e0 e1) (vbits v plen l) =
      (if plen + n \<le> l then if l = plen + n then r else tcount c (vbits v (plen + n) l) else 0)" if "plen \<le> l" for l
      using tcount_vbits [OF n that, of p r e0 e1 v] f by (simp add: c_def)
    have nil: "tcount c (vbits v (plen + n) (plen + n)) = 0"
    proof -
      have "edge_ok (vbit v (plen + n)) c" using Trie_Node.prems(1) by (auto simp: c_def)
      then show ?thesis by (cases c) (auto simp: edge_ok_def has_prefix_def)
    qed
    have "l \<le> ml" if "plen \<le> l" "tcount (Trie_Node p n r e0 e1) (vbits v plen l) \<noteq> 0" for l
      using that tc [OF that(1)] IH by (auto simp: m'_def word_gt_0 split: if_splits)
    moreover have "ml = m \<or> plen \<le> ml \<and> tcount (Trie_Node p n r e0 e1) (vbits v plen ml) \<noteq> 0"
    proof (cases "ml = m'")
      case True
      then show ?thesis using tc [of ml] by (auto simp: m'_def word_gt_0)
    next
      case False
      then have "plen + n \<le> ml" "tcount c (vbits v (plen + n) ml) \<noteq> 0" using IH by auto
      then show ?thesis using tc [of ml] nil by (cases "ml = plen + n") auto
    qed
    ultimately show ?thesis using IH m'(1) by auto
  qed
qed (simp add: lookup_loop_nil)


text \<open>The bits of the value after the first \<^verbatim>\<open>checkbits\<close> have no influence on the result.\<close>

lemma prefix_equal_bits_agree:
  assumes "n \<le> 32" "prefix_equal_bits p n v ofs = e" "\<And>i. i \<le> e \<Longrightarrow> i < n \<Longrightarrow> vbit w (ofs + i) \<longleftrightarrow> vbit v (ofs + i)"
  shows "prefix_equal_bits p n w ofs = e"
proof -
  define d where "d = prefix_equal_bits p n w ofs"
  note q = prefix_equal_bits [OF assms(1,2)] and q' = prefix_equal_bits [OF assms(1) d_def [symmetric]]
  consider "d < e" | "e < d" | "d = e" by linarith
  then have "d = e"
  proof cases
    case 1
    then show ?thesis using q(1) q(2) [of d] q'(3) assms(3) [of d] by simp
  next
    case 2
    then show ?thesis using q(3) q'(1) q'(2) [of e] assms(3) [of e] by simp
  qed
  then show ?thesis by (simp add: d_def)
qed

lemma lookup_loop_check:
  assumes "node_ok node" "lookup_loop v node plen m pn = (ml, cb)"
  shows "plen \<le> cb \<and> ((if node = No_Node then pn \<noteq> No_Node \<and> \<not> trie_is_leaf pn else 0 < tn_nbits node) \<longrightarrow> plen < cb) \<and>
    (\<forall>w. (\<forall>i<cb. vbit w i = vbit v i) \<longrightarrow> lookup_loop w node plen m pn = (ml, cb))"
  using assms
proof (induction node arbitrary: plen m pn)
  case (Trie_Node p n r e0 e1)
  let ?nd = "Trie_Node p n r e0 e1"
  have n: "n \<le> 32" using Trie_Node.prems(1) by simp
  define e where "e = prefix_equal_bits p n v plen"
  note q = prefix_equal_bits [OF n e_def [symmetric]]
  show ?case
  proof (cases "e < n")
    case True
    then have r: "ml = m" "cb = plen + e + 1" using Trie_Node.prems(2) by (auto simp: lookup_loop_node Let_def simp flip: e_def)
    have "prefix_equal_bits p n w plen = e" if "\<forall>i<cb. vbit w i = vbit v i" for w
      using that by (intro prefix_equal_bits_agree [OF n e_def [symmetric]]) (simp add: r)
    then show ?thesis using r True by (auto simp: lookup_loop_node Let_def)
  next
    case False
    then have e: "e = n" using q(1) by simp
    define m' where "m' = (if r > 0 then plen + n else m)"
    define c where "c b = (if b then e1 else e0)" for b
    have l: "lookup_loop v (c (vbit v (plen + n))) (plen + n) m' ?nd = (ml, cb)"
      using Trie_Node.prems(2) e by (simp add: lookup_loop_node c_def m'_def Let_def flip: e_def)
    have ok: "node_ok (c b)" "edge_ok b (c b)" for b using Trie_Node.prems(1) by (auto simp: c_def)
    have IH: "plen + n \<le> cb \<and> ((if c b = No_Node then \<not> trie_is_leaf ?nd else 0 < tn_nbits (c b)) \<longrightarrow> plen + n < cb) \<and>
      (\<forall>w. (\<forall>i<cb. vbit w i = vbit v i) \<longrightarrow> lookup_loop w (c b) (plen + n) m' ?nd = (ml, cb))" if "b = vbit v (plen + n)" for b
      using Trie_Node.IH(1) [of "plen + n" m' ?nd] Trie_Node.IH(2) [of "plen + n" m' ?nd] l ok [of b] that
      by (cases b) (simp_all add: c_def)
    have "lookup_loop w ?nd plen m pn = (ml, cb)" if w: "\<forall>i<cb. vbit w i = vbit v i" for w
    proof -
      have "prefix_equal_bits p n w plen = n"
        using w IH by (intro prefix_equal_bits_agree [OF n e_def [symmetric, unfolded e]]) auto
      moreover have "c (vbit w (plen + n)) = c (vbit v (plen + n))"
      proof (cases "trie_is_leaf ?nd")
        case True
        then show ?thesis by (simp add: trie_is_leaf_def c_def)
      next
        case False
        then have "plen + n < cb" using IH [OF refl] ok(2) [of "vbit v (plen + n)"] by (auto simp: edge_ok_def split: if_splits)
        then show ?thesis using w by simp
      qed
      ultimately show ?thesis using IH [OF refl] w by (simp add: lookup_loop_node Let_def flip: c_def m'_def)
    qed
    then show ?thesis using IH [OF refl] by auto
  qed
qed (auto simp: lookup_loop_nil)

end
