(* ===== verification/Ovs_Trie_Refine.thy ===== *)
theory Ovs_Trie_Refine
  imports Ovs_Trie
begin

text \<open>
  Prefix tries of rules: what the lengths and the bits of prefixes mean for masks, matches and flows, and that a trie
  kept up to date by insertions and removals answers with the longest prefix.
\<close>

section \<open>Masks\<close>

lemma contiguous:
  assumes "NOT m AND (NOT m + 1) = (0 :: u32)"
  shows "ctz32 m = int (nat (ctz32 m))" "nat (ctz32 m) \<le> 32" "i < 32 \<Longrightarrow> bit m i \<longleftrightarrow> nat (ctz32 m) \<le> i"
proof -
  have "ctz32 m = int (nat (ctz32 m)) \<and> nat (ctz32 m) \<le> 32 \<and> (\<forall>i<32. bit m i \<longleftrightarrow> nat (ctz32 m) \<le> i)"
  proof (cases "m = 0")
    case True
    then show ?thesis by (simp add: ctz32_def)
  next
    case False
    then obtain l where l: "lowest m l" using lowest_exists by blast
    have c: "ctz32 m = int l" using rightmost_idx [OF l] by (simp add: rightmost_1bit_idx_def)
    have "NOT m + 1 = NOT (m - 1)" by (simp add: not_eq_complement)
    then have z: "NOT m AND NOT (unset_bit l m OR mask l) = 0" using assms by (simp only: lowest_split(2) [OF l])
    have "bit m i \<longleftrightarrow> l \<le> i" if i: "i < 32" for i
    proof (cases "l < i")
      case True
      have "\<not> bit (NOT m AND NOT (unset_bit l m OR mask l)) i" unfolding z by simp
      then show ?thesis using True i by (auto simp: bit_simps)
    next
      case False
      then show ?thesis using l by (cases "i = l") (auto simp: lowest_def)
    qed
    then show ?thesis using c lowest_split(5) [OF l] by simp
  qed
  then show "ctz32 m = int (nat (ctz32 m))" "nat (ctz32 m) \<le> 32" "i < 32 \<Longrightarrow> bit m i \<longleftrightarrow> nat (ctz32 m) \<le> i" by blast+
qed

text \<open>The words of a mask that belong to a field.\<close>

definition mask_field :: "minimask \<Rightarrow> mf_field \<Rightarrow> be32s" where
  "mask_field mk mf i = minimask_get mk (nat (mf_be32ofs mf) + i)"

abbreviation mf_words :: "mf_field \<Rightarrow> nat" where
  "mf_words mf \<equiv> mf_n_bytes mf div 4"

text \<open>After \<open>k\<close> words: either all their bits are set, or the first \<open>nbits\<close> are.\<close>

definition prefix_seen :: "be32s \<Rightarrow> nat \<Rightarrow> nat \<Rightarrow> nat \<Rightarrow> bool" where
  "prefix_seen v k nbits tz \<longleftrightarrow> nbits \<le> 32 * k \<and> (tz = 0 \<longrightarrow> nbits = 32 * k) \<and> (\<forall>i<32 * k. vbit v i \<longleftrightarrow> i < nbits)"

lemma vbit_word: "j < 32 \<Longrightarrow> vbit v (32 * k + j) \<longleftrightarrow> bit (ntohl (v k)) (31 - j)"
  using bit_index(1) [of "32 * k" j] by (simp add: vbit_def)

lemma prefix_seen_step:
  assumes "prefix_seen v k nbits tz" "tz \<noteq> 0 \<Longrightarrow> ntohl (v k) = 0 \<and> nbits' = nbits \<and> tz' = tz"
    "tz = 0 \<Longrightarrow> tz' \<le> 32 \<and> (\<forall>i<32. bit (ntohl (v k)) i \<longleftrightarrow> tz' \<le> i) \<and> nbits' = nbits + (32 - tz')"
  shows "prefix_seen v (Suc k) nbits' tz'"
proof -
  have "vbit v i \<longleftrightarrow> i < nbits'" if i: "i < 32 * Suc k" for i
  proof (cases "i < 32 * k")
    case True
    then show ?thesis using assms by (cases "tz = 0") (auto simp: prefix_seen_def)
  next
    case False
    define j where "j = i - 32 * k"
    have j: "i = 32 * k + j" "j < 32" using False i by (simp_all add: j_def)
    show ?thesis
    proof (cases "tz = 0")
      case True
      then have "bit (ntohl (v k)) (31 - j) \<longleftrightarrow> tz' \<le> 31 - j" "nbits' = 32 * k + (32 - tz')" "tz' \<le> 32"
        using assms by (auto simp: prefix_seen_def)
      then show ?thesis using j vbit_word [OF j(2), of v k] by auto
    next
      case False
      then show ?thesis using assms j vbit_word [OF j(2), of v k] by (auto simp: prefix_seen_def)
    qed
  qed
  then show ?thesis using assms by (cases "tz = 0") (auto simp: prefix_seen_def)
qed

lemma prefix_len_loop:
  "prefix_seen (mask_field mk mf) k nbits tz \<Longrightarrow> k \<le> w \<Longrightarrow>
   prefix_len_loop mk [nat (mf_be32ofs mf) + k..<nat (mf_be32ofs mf) + w] nbits tz = l \<Longrightarrow>
   l = 0 \<or> (\<exists>tz'. prefix_seen (mask_field mk mf) w l tz')"
proof (induction "w - k" arbitrary: k nbits tz)
  case 0
  then show ?case by auto
next
  case (Suc d)
  then have kw: "k < w" by simp
  let ?o = "nat (mf_be32ofs mf)" and ?m = "ntohl (mask_field mk mf k)"
  have u: "[?o + k..<?o + w] = (?o + k) # [?o + Suc k..<?o + w]" using kw by (simp add: upt_conv_Cons)
  have m: "ntohl (minimask_get mk (?o + k)) = ?m" by (simp add: mask_field_def)
  note IH = Suc.hyps(1) [of "Suc k"]
  show ?case
  proof (cases "tz = 0")
    case False
    show ?thesis
    proof (cases "?m = 0")
      case True
      have "prefix_seen (mask_field mk mf) (Suc k) nbits tz" by (rule prefix_seen_step [OF Suc.prems(1)]) (use False True in auto)
      then show ?thesis using IH Suc.hyps(2) Suc.prems(3) False True kw by (simp add: u m Let_def)
    next
      case z: False
      then show ?thesis using Suc.prems(3) False by (simp add: u m)
    qed
  next
    case True
    show ?thesis
    proof (cases "NOT ?m AND (NOT ?m + 1) = 0")
      case c: True
      have "prefix_seen (mask_field mk mf) (Suc k) (nbits + (32 - nat (ctz32 ?m))) (nat (ctz32 ?m))"
        by (rule prefix_seen_step [OF Suc.prems(1)]) (use True contiguous(2,3) [OF c] in auto)
      then show ?thesis using IH Suc.hyps(2) Suc.prems(3) True c kw by (simp add: u m Let_def)
    next
      case c: False
      then show ?thesis using Suc.prems(3) True by (simp add: u m)
    qed
  qed
qed

lemma prefix_len:
  assumes "minimask_get_prefix_len mk mf = l" "l \<noteq> 0"
  shows "l \<le> 32 * mf_words mf" "i < 32 * mf_words mf \<Longrightarrow> vbit (mask_field mk mf) i \<longleftrightarrow> i < l"
proof -
  have "prefix_seen (mask_field mk mf) 0 0 0" by (simp add: prefix_seen_def)
  from prefix_len_loop [OF this, of "mf_words mf" l] assms obtain tz where "prefix_seen (mask_field mk mf) (mf_words mf) l tz"
    by (auto simp: minimask_get_prefix_len_def Let_def)
  then show "l \<le> 32 * mf_words mf" "i < 32 * mf_words mf \<Longrightarrow> vbit (mask_field mk mf) i \<longleftrightarrow> i < l"
    by (auto simp: prefix_seen_def)
qed


definition mt_field :: "minimatch \<Rightarrow> mf_field \<Rightarrow> be32s" where
  "mt_field mt mf i = miniflow_get (mt_flow mt) (nat (mf_be32ofs mf) + i)"

definition field_ok :: "mf_field \<Rightarrow> bool" where
  "field_ok mf \<longleftrightarrow> 0 \<le> mf_be32ofs mf \<and> mf_n_bytes mf \<le> 16 \<and> nat (mf_be32ofs mf) + mf_words mf \<le> FLOW_U32S"

lemma ntohl_0 [simp]: "ntohl 0 = 0"
  by (simp add: ntohl_def)

lemma mask_word_nonzero:
  assumes "minimask_get_prefix_len mk mf = l" "32 * k < l"
  shows "mask_field mk mf k \<noteq> 0"
proof
  assume "mask_field mk mf k = 0"
  then have "\<not> vbit (mask_field mk mf) (32 * k)" using vbit_word [of 0 "mask_field mk mf" k] by simp
  moreover have "vbit (mask_field mk mf) (32 * k)" using prefix_len [OF assms(1)] assms(2) by simp
  ultimately show False by simp
qed

lemma get_prefix:
  assumes "minimatch_wf mt" "minimask_get_prefix_len (mt_mask mt) mf = l" "32 * k < l" "field_ok mf"
  shows "minimatch_get_prefix mt mf k = mt_field mt mf k"
proof -
  let ?m = "mf_map (mt_flow mt)" and ?o = "nat (mf_be32ofs mf)"
  have bits: "bit ?m (?o + j)" if "j \<le> k" for j
  proof -
    have "mask_field (mt_mask mt) mf j \<noteq> 0" by (rule mask_word_nonzero [OF assms(2)]) (use that assms(3) in simp)
    then show ?thesis using assms(1) mask_get_nonzero [of "mt_mask mt" "?o + j"]
      by (simp add: mask_field_def minimask_get_def minimatch_wf_def)
  qed
  have "map_idx ?m (?o + j) = map_idx ?m ?o + j" if "j \<le> k" for j
    using that
  proof (induction j)
    case (Suc j)
    then have "map_idx ?m (?o + Suc j) = Suc (map_idx ?m (?o + j))" using bits [of j] by (simp add: map_idx_def)
    then show ?case using Suc by simp
  qed simp
  moreover have "count_1bits (?m AND (push_bit ?o 1 - 1)) = map_idx ?m ?o"
    by (rule count_below) (use assms(4) in \<open>simp add: field_ok_def\<close>)
  ultimately show ?thesis
    using bits [of k] by (simp add: minimatch_get_prefix_def mt_field_def miniflow_get_idx)
qed

lemma vbits_prefix:
  assumes "minimatch_wf mt" "minimask_get_prefix_len (mt_mask mt) mf = l" "field_ok mf"
  shows "vbits (minimatch_get_prefix mt mf) 0 l = vbits (mt_field mt mf) 0 l"
proof (rule nth_equalityI)
  fix i assume "i < length (vbits (minimatch_get_prefix mt mf) 0 l)"
  then have i: "i < l" by simp
  then have "32 * (i div 32) < l" by simp
  from get_prefix [OF assms(1,2) this assms(3)] i
  show "vbits (minimatch_get_prefix mt mf) 0 l ! i = vbits (mt_field mt mf) 0 l ! i" by (simp add: vbit_def)
qed simp

lemma bit_ntohl_or: "bit (ntohl (x OR y)) i \<longleftrightarrow> bit (ntohl x) i \<or> bit (ntohl y) i"
proof (cases "i < 32")
  case False
  then show ?thesis by (auto dest: bit_imp_le_length)
qed (simp add: bit_ntohl bit_or_iff)

lemma vbit_and: "bit (ntohl (x AND y)) i \<longleftrightarrow> bit (ntohl x) i \<and> bit (ntohl y) i"
proof (cases "i < 32")
  case False
  then show ?thesis by (auto dest: bit_imp_le_length)
qed (simp add: bit_ntohl bit_and_iff)

text \<open>A flow that matches a rule has the rule's prefix.\<close>

lemma match_prefix:
  assumes "minimatch_wf mt" "minimask_get_prefix_len (mt_mask mt) mf = l" "field_ok mf" "minimatch_matches_flow mt f"
  shows "vbits (mt_field mt mf) 0 l = vbits (flow_field f mf) 0 l"
proof (rule nth_equalityI)
  fix i assume "i < length (vbits (mt_field mt mf) 0 l)"
  then have i: "i < l" by simp
  let ?j = "nat (mf_be32ofs mf) + i div 32"
  have l: "l \<le> 32 * mf_words mf" "vbit (mask_field (mt_mask mt) mf) i" using prefix_len [OF assms(2)] i by auto
  then have "i div 32 < mf_words mf" using i by auto
  then have "?j < FLOW_U32S" using assms(3) by (simp add: field_ok_def)
  then have "miniflow_get (mt_flow mt) ?j AND miniflow_get (mt_mask mt) ?j = f ! ?j AND miniflow_get (mt_mask mt) ?j"
    using assms(4) unfolding matches_flow [OF assms(1)] xor_and_zero by blast
  then have "bit (ntohl (miniflow_get (mt_flow mt) ?j)) (31 - i mod 32) \<longleftrightarrow> bit (ntohl (f ! ?j)) (31 - i mod 32)"
    using l(2) by (metis vbit_and vbit_def mask_field_def minimask_get_def)
  then show "vbits (mt_field mt mf) 0 l ! i = vbits (flow_field f mf) 0 l ! i"
    using i by (simp add: vbit_def mt_field_def flow_field_def)
qed simp

text \<open>The bits of a field in wildcards.\<close>

definition wc_field :: "uflow \<Rightarrow> nat \<Rightarrow> be32s" where
  "wc_field wc be32ofs i = wc ! (be32ofs + i)"

lemma ntohl_ntohl [simp]: "ntohl (ntohl x) = x"
proof (rule bit_word_eqI)
  fix i assume "i < LENGTH(32)"
  then have i: "i < 32" by simp
  then have "i div 8 \<le> 3" by linarith
  then have "8 * (3 - i div 8) + i mod 8 < 32" "(8 * (3 - i div 8) + i mod 8) div 8 = 3 - i div 8"
    "(8 * (3 - i div 8) + i mod 8) mod 8 = i mod 8" using mod_less_divisor [of 8 i] by linarith simp_all
  then show "bit (ntohl (ntohl x)) i = bit x i" using i \<open>i div 8 \<le> 3\<close> by (simp add: bit_ntohl)
qed

lemma sub_less_32 [simp]: "31 - r < (32 :: nat)"
  by linarith

lemma ntohl_ones: "ntohl (- 1) = - 1"
  by code_simp

lemma all_ones: "(\<forall>r<32. vbit v (32 * k + r)) \<longleftrightarrow> v k = - 1"
proof
  assume a: "\<forall>r<32. vbit v (32 * k + r)"
  have "ntohl (v k) = - 1"
  proof (rule bit_word_eqI)
    fix i assume "i < LENGTH(32)"
    then show "bit (ntohl (v k)) i = bit (- 1 :: u32) i" using a [rule_format, of "31 - i"] vbit_word [of "31 - i" v k] by simp
  qed
  then have "v k = ntohl (- 1)" by (metis ntohl_ntohl)
  then show "v k = - 1" by (simp only: ntohl_ones)
next
  assume "v k = - 1"
  then show "\<forall>r<32. vbit v (32 * k + r)" by (simp add: vbit_word ntohl_ones)
qed

lemma partial_word:
  assumes "k \<le> 32"
  shows "NOT w AND ntohl (push_bit (32 - k) (NOT 0)) = 0 \<longleftrightarrow> (\<forall>r<k. bit (ntohl w) (31 - r))"
proof -
  have h: "bit (push_bit (32 - k) (NOT 0 :: u32)) (31 - r) \<longleftrightarrow> r < k" if "r < 32" for r
    using that assms by (auto simp: bit_simps)
  have "NOT w AND ntohl (push_bit (32 - k) (NOT 0)) = 0 \<longleftrightarrow> ntohl (NOT w AND ntohl (push_bit (32 - k) (NOT 0))) = 0"
    by (metis ntohl_ntohl ntohl_0)
  also have "\<dots> \<longleftrightarrow> (\<forall>r<32. \<not> (\<not> bit (ntohl w) (31 - r) \<and> r < k))"
  proof -
    have "bit (ntohl (NOT w)) (31 - r) \<longleftrightarrow> \<not> bit (ntohl w) (31 - r)" if "r < 32" for r
    proof -
      have "r div 8 \<le> 3" using that by linarith
      then have "8 * (r div 8) + 7 - r mod 8 < 32" by linarith
      then show ?thesis using byte_swap_idx [OF that] by (auto simp: bit_ntohl bit_simps)
    qed
    then have b: "bit (ntohl (NOT w AND ntohl (push_bit (32 - k) (NOT 0)))) (31 - r) \<longleftrightarrow> \<not> bit (ntohl w) (31 - r) \<and> r < k" if "r < 32" for r
      using that h by (simp add: vbit_and)
    have "x = 0 \<longleftrightarrow> (\<forall>r<32. \<not> bit x (31 - r))" for x :: u32
    proof
      assume a: "\<forall>r<32. \<not> bit x (31 - r)"
      show "x = 0"
      proof (rule bit_word_eqI)
        fix n assume "n < LENGTH(32)"
        then show "bit x n = bit 0 n" using a [rule_format, of "31 - n"] by simp
      qed
    qed simp
    then show ?thesis using b by auto
  qed
  also have "\<dots> \<longleftrightarrow> (\<forall>r<k. bit (ntohl w) (31 - r))" using assms by (meson order_less_le_trans)
  finally show ?thesis .
qed

lemma foldl_or_zero: "foldl (\<lambda>z i. z OR g i) z is = (0 :: u32) \<longleftrightarrow> z = 0 \<and> (\<forall>i\<in>set is. g i = 0)"
  by (induction "is" arbitrary: z) (auto simp: or_eq_0_iff)

lemma split_bits:
  fixes nbits :: nat
  shows "(\<forall>i<nbits. P i) \<longleftrightarrow> (\<forall>k<nbits div 32. \<forall>r<32. P (32 * k + r)) \<and> (\<forall>r<nbits mod 32. P (32 * (nbits div 32) + r))"
proof safe
  fix i assume a: "\<forall>k<nbits div 32. \<forall>r<32. P (32 * k + r)" "\<forall>r<nbits mod 32. P (32 * (nbits div 32) + r)" "i < nbits"
  have i: "i = 32 * (i div 32) + i mod 32" by simp
  show "P i"
  proof (cases "i div 32 < nbits div 32")
    case True
    then show ?thesis using a(1) i by (metis mod_less_divisor zero_less_numeral)
  next
    case False
    then have "i div 32 = nbits div 32" using a(3) by (simp add: div_le_mono antisym)
    moreover from this have "i mod 32 < nbits mod 32" using a(3) by (metis div_mult_mod_eq nat_add_left_cancel_less)
    ultimately show ?thesis using a(2) i by metis
  qed
next
  fix k r :: nat assume a: "\<forall>i<nbits. P i" "k < nbits div 32" "r < 32"
  then have "32 * Suc k \<le> 32 * (nbits div 32)" by (intro mult_le_mono2) simp
  then have "32 * k + r < nbits" using a(3) times_div_less_eq_dividend [of 32 nbits] by simp
  then show "P (32 * k + r)" using a(1) by blast
next
  fix r :: nat assume a: "\<forall>i<nbits. P i" "r < nbits mod 32"
  then have "32 * (nbits div 32) + r < nbits" using mult_div_mod_eq [of 32 nbits] by linarith
  then show "P (32 * (nbits div 32) + r)" using a(1) by blast
qed

lemma mask_prefix_bits_set:
  "mask_prefix_bits_set wc ofs nbits \<longleftrightarrow> (\<forall>i<nbits. vbit (wc_field wc ofs) i)"
proof -
  have "NOT (x :: u32) = 0 \<longleftrightarrow> x = - 1" for x by (metis bit.double_compl bit.compl_zero)
  then have w: "NOT (wc ! (ofs + k)) = 0 \<longleftrightarrow> (\<forall>r<32. vbit (wc_field wc ofs) (32 * k + r))" for k
    using all_ones [of "wc_field wc ofs" k] by (simp add: wc_field_def)
  have "nbits mod 32 \<le> 32" by simp
  from partial_word [OF this, of "wc ! (ofs + nbits div 32)"]
  have p: "NOT (wc ! (ofs + nbits div 32)) AND ntohl (push_bit (32 - nbits mod 32) (NOT 0)) = 0
      \<longleftrightarrow> (\<forall>r<nbits mod 32. vbit (wc_field wc ofs) (32 * (nbits div 32) + r))"
    by (auto simp: vbit_word wc_field_def)
  show ?thesis
    unfolding mask_prefix_bits_set_def Let_def split_bits [of nbits]
    using w p by (auto simp: foldl_or_zero or_eq_0_iff)
qed

lemma foldl_ones:
  "n + ofs \<le> length wc \<Longrightarrow> length (foldl (\<lambda>wc i. wc[ofs + i := - 1]) wc [0..<n]) = length wc \<and>
   foldl (\<lambda>wc i. wc[ofs + i := - 1]) wc [0..<n] ! j = (if ofs \<le> j \<and> j < ofs + n then - 1 else wc ! j :: u32)"
  by (induction n) (auto simp: nth_list_update)

lemma mask_set_prefix_bits:
  assumes "ofs + (nbits + 31) div 32 \<le> length wc"
  shows "length (mask_set_prefix_bits wc ofs nbits) = length wc"
    "i < nbits \<Longrightarrow> vbit (wc_field (mask_set_prefix_bits wc ofs nbits) ofs) i"
    "bit (wc ! j) b \<Longrightarrow> bit (mask_set_prefix_bits wc ofs nbits ! j) b"
proof -
  define wc' where "wc' = foldl (\<lambda>wc i. wc[ofs + i := - 1]) wc [0..<nbits div 32]"
  define k where "k = ofs + nbits div 32"
  define h :: u32 where "h = push_bit (32 - nbits mod 32) (NOT 0)"
  have "nbits div 32 \<le> (nbits + 31) div 32" by (rule div_le_mono) simp
  then have wc': "length wc' = length wc" "wc' ! j = (if ofs \<le> j \<and> j < k then - 1 else wc ! j)" for j
    using foldl_ones [of "nbits div 32" ofs wc] assms by (simp_all add: wc'_def k_def)
  have d: "mask_set_prefix_bits wc ofs nbits = (if nbits mod 32 \<noteq> 0 then wc'[k := wc' ! k OR ntohl h] else wc')"
    by (simp add: mask_set_prefix_bits_def Let_def wc'_def k_def h_def add.assoc)
  then show "length (mask_set_prefix_bits wc ofs nbits) = length wc" using wc' by simp
  have k: "k < length wc" if "nbits mod 32 \<noteq> 0"
  proof -
    have "nbits + 31 = 32 * (nbits div 32) + (nbits mod 32 + 31)" by simp
    then have "(nbits + 31) div 32 = nbits div 32 + (nbits mod 32 + 31) div 32" by (metis div_mult_self4 zero_neq_numeral)
    moreover have "(nbits mod 32 + 31) div 32 = 1" using that mod_less_divisor [of 32 nbits] by (intro div_nat_eqI) simp_all
    ultimately show ?thesis using assms by (simp add: k_def)
  qed
  show "bit (wc ! j) b \<Longrightarrow> bit (mask_set_prefix_bits wc ofs nbits ! j) b"
    using bit_imp_le_length [of "wc ! j" b] k by (auto simp: d wc' nth_list_update bit_or_iff)
  have "(\<forall>i<nbits. vbit (wc_field (mask_set_prefix_bits wc ofs nbits) ofs) i)"
    unfolding split_bits [of nbits]
  proof (intro conjI allI impI)
    fix j r :: nat assume "j < nbits div 32" "r < 32"
    then have "wc_field (mask_set_prefix_bits wc ofs nbits) ofs j = - 1" by (simp add: wc_field_def d wc' nth_list_update) (simp add: k_def)
    then show "vbit (wc_field (mask_set_prefix_bits wc ofs nbits) ofs) (32 * j + r)" using all_ones \<open>r < 32\<close> by blast
  next
    fix r assume r: "r < nbits mod 32"
    then have r32: "r < 32" using mod_less_divisor [of 32 nbits] by linarith
    have "bit h (31 - r)" using r r32 by (auto simp: h_def bit_simps)
    then have "bit (ntohl (wc' ! k OR ntohl h)) (31 - r)" by (simp add: bit_ntohl_or)
    then show "vbit (wc_field (mask_set_prefix_bits wc ofs nbits) ofs) (32 * (nbits div 32) + r)"
      using r k wc' by (simp add: vbit_word r32 wc_field_def d flip: k_def)
  qed
  then show "i < nbits \<Longrightarrow> vbit (wc_field (mask_set_prefix_bits wc ofs nbits) ofs) i" by blast
qed


section \<open>Tries of rules\<close>

text \<open>
  What the classifier does to a trie: a rule whose mask has a prefix on the field is added and removed with the length
  of that prefix.
\<close>

datatype trie_event = Trie_Insert minimatch | Trie_Remove minimatch

abbreviation trie_plen :: "cls_trie \<Rightarrow> minimatch \<Rightarrow> nat" where
  "trie_plen trie mt \<equiv> (case tr_field trie of None \<Rightarrow> 0 | Some mf \<Rightarrow> minimask_get_prefix_len (mt_mask mt) mf)"

fun trie_step :: "trie_event \<Rightarrow> cls_trie \<Rightarrow> cls_trie option" where
  "trie_step (Trie_Insert mt) trie = trie_insert trie mt (trie_plen trie mt)"
| "trie_step (Trie_Remove mt) trie = trie_remove trie mt (trie_plen trie mt)"

definition trie_inv :: "mf_field \<Rightarrow> cls_trie \<Rightarrow> bool" where
  "trie_inv mf trie \<longleftrightarrow> tr_field trie = Some mf \<and> field_ok mf \<and> node_ok (tr_root trie)"

definition trie_counts :: "cls_trie \<Rightarrow> bool list \<Rightarrow> u32" where
  "trie_counts trie = tcount (tr_root trie)"

text \<open>The bits of the prefix that a rule has on a field.\<close>

definition rule_prefix :: "mf_field \<Rightarrow> minimatch \<Rightarrow> bool list" where
  "rule_prefix mf mt = vbits (mt_field mt mf) 0 (minimask_get_prefix_len (mt_mask mt) mf)"

fun trie_spec :: "mf_field \<Rightarrow> trie_event \<Rightarrow> (bool list \<Rightarrow> u32) \<Rightarrow> (bool list \<Rightarrow> u32)" where
  "trie_spec mf (Trie_Insert mt) c = c(rule_prefix mf mt := c (rule_prefix mf mt) + 1)"
| "trie_spec mf (Trie_Remove mt) c = c(rule_prefix mf mt := c (rule_prefix mf mt) - 1)"

text \<open>The array \<^verbatim>\<open>edges\<close> is large enough for prefixes of 127 bits, and for 128 when the root has a bit of its own.\<close>

definition edges_fit :: "cls_trie \<Rightarrow> nat \<Rightarrow> bool" where
  "edges_fit trie plen \<longleftrightarrow> plen \<le> 127 \<or> plen \<le> 128 \<and> 0 < tn_nbits (tr_root trie)"

fun trie_event_ok :: "cls_trie \<Rightarrow> trie_event \<Rightarrow> bool" where
  "trie_event_ok trie (Trie_Insert mt) \<longleftrightarrow> minimatch_wf mt \<and> trie_plen trie mt \<noteq> 0"
| "trie_event_ok trie (Trie_Remove mt) \<longleftrightarrow> minimatch_wf mt \<and> trie_plen trie mt \<noteq> 0 \<and> edges_fit trie (trie_plen trie mt) \<and>
     (case tr_field trie of None \<Rightarrow> False | Some mf \<Rightarrow> trie_counts trie (rule_prefix mf mt) \<noteq> 0)"

lemma trie_insert_counts:
  assumes "trie_inv mf trie" "minimatch_wf mt" "minimask_get_prefix_len (mt_mask mt) mf = l" "l \<noteq> 0"
  shows "\<exists>trie'. trie_insert trie mt l = Some trie' \<and> trie_inv mf trie' \<and> tr_root trie' \<noteq> No_Node \<and>
    trie_counts trie' = (trie_counts trie)(rule_prefix mf mt := trie_counts trie (rule_prefix mf mt) + 1)"
proof -
  let ?v = "minimatch_get_prefix mt mf"
  have p: "vbits ?v 0 l = rule_prefix mf mt"
    using vbits_prefix [OF assms(2,3)] assms(1,3) by (simp add: rule_prefix_def trie_inv_def)
  have "node_ok (tr_root trie)" "0 < l" using assms(1,4) by (auto simp: trie_inv_def)
  from insert_walk [OF this, of ?v] show ?thesis
    using assms(1) by (auto simp: trie_insert_def trie_inv_def trie_counts_def p fun_eq_iff)
qed

lemma trie_remove_counts:
  assumes "trie_inv mf trie" "minimatch_wf mt" "minimask_get_prefix_len (mt_mask mt) mf = l" "l \<noteq> 0"
    "trie_counts trie (rule_prefix mf mt) \<noteq> 0" "edges_fit trie l"
  shows "\<exists>trie'. trie_remove trie mt l = Some trie' \<and> trie_inv mf trie' \<and>
    trie_counts trie' = (trie_counts trie)(rule_prefix mf mt := trie_counts trie (rule_prefix mf mt) - 1)"
proof -
  let ?v = "minimatch_get_prefix mt mf"
  have p: "vbits ?v 0 l = rule_prefix mf mt"
    using vbits_prefix [OF assms(2,3)] assms(1,3) by (simp add: rule_prefix_def trie_inv_def)
  have tc: "tcount (tr_root trie) (vbits ?v 0 l) \<noteq> 0" using assms(5) by (simp add: p trie_counts_def)
  obtain q n r e0 e1 where nd: "tr_root trie = Trie_Node q n r e0 e1" using tc by (cases "tr_root trie") auto
  have "has_prefix q n (vbits ?v 0 l)" using tcount_here tc nd by simp
  then have "edge_ok (vbit ?v 0) (tr_root trie) \<and> 0 + (l - 0) \<le> 128 \<or> 0 + 1 + (l - 0) \<le> 128"
    using assms(6) by (auto simp: edges_fit_def edge_ok_def nd has_prefix_def dest: spec [of _ 0])
  moreover have "node_ok (tr_root trie)" "(0 :: nat) \<le> l" using assms(1) by (auto simp: trie_inv_def)
  ultimately obtain t again where r: "remove_walk ?v l (tr_root trie) 0 0 = Some (Some (t, again))" "node_ok t"
    "\<And>ks. tcount t ks = (if ks = vbits ?v 0 l then tcount (tr_root trie) ks - 1 else tcount (tr_root trie) ks)"
    using remove_walk [of "tr_root trie" 0 l ?v 0] tc by blast
  then show ?thesis using assms(1) by (auto simp: trie_remove_def trie_inv_def trie_counts_def p fun_eq_iff)
qed

interpretation trm: refined_machine "trie_inv mf" trie_event_ok trie_step trie_counts "trie_spec mf"
proof
  fix trie e assume i: "trie_inv mf trie" and o: "trie_event_ok trie e"
  have f: "tr_field trie = Some mf" using i by (simp add: trie_inv_def)
  show "\<exists>s'. trie_step e trie = Some s' \<and> trie_inv mf s' \<and> trie_counts s' = trie_spec mf e (trie_counts trie)"
  proof (cases e)
    case (Trie_Insert mt)
    then show ?thesis using trie_insert_counts [OF i, of mt] o f by auto
  next
    case (Trie_Remove mt)
    then show ?thesis using trie_remove_counts [OF i, of mt] o f by auto
  qed
qed

lemma trie_lookup_spec:
  assumes "trie_inv mf trie" "trie_lookup trie flow = Some (ml, cb)" "mf_are_prereqs_ok mf flow"
  shows "ml = 0 \<or> trie_counts trie (vbits (flow_field flow mf) 0 ml) \<noteq> 0"
    "trie_counts trie (vbits (flow_field flow mf) 0 l) \<noteq> 0 \<Longrightarrow> l \<le> ml"
    "mf_are_prereqs_ok mf flow' \<Longrightarrow> (\<And>i. i < cb \<Longrightarrow> vbit (flow_field flow' mf) i = vbit (flow_field flow mf) i) \<Longrightarrow>
     trie_lookup trie flow' = Some (ml, cb)"
proof -
  have n: "node_ok (tr_root trie)" "tr_field trie = Some mf" using assms(1) by (auto simp: trie_inv_def)
  have l: "lookup_loop (flow_field flow mf) (tr_root trie) 0 0 No_Node = (ml, cb)"
    using assms(2,3) n by (simp add: trie_lookup_def trie_lookup_value_def)
  note lp = lookup_loop_longest [OF n(1) le_refl l] and lc = lookup_loop_check [OF n(1) l]
  show "ml = 0 \<or> trie_counts trie (vbits (flow_field flow mf) 0 ml) \<noteq> 0"
    "trie_counts trie (vbits (flow_field flow mf) 0 l) \<noteq> 0 \<Longrightarrow> l \<le> ml"
    using lp by (auto simp: trie_counts_def)
  show "mf_are_prereqs_ok mf flow' \<Longrightarrow> (\<And>i. i < cb \<Longrightarrow> vbit (flow_field flow' mf) i = vbit (flow_field flow mf) i) \<Longrightarrow>
     trie_lookup trie flow' = Some (ml, cb)"
    using lc n(2) by (simp add: trie_lookup_def trie_lookup_value_def)
qed


text \<open>
  The array \<^verbatim>\<open>edges\<close> of \<^verbatim>\<open>trie_remove\<close> has 128 elements, one for each bit of the longest field.  When the root
  has no bit of its own, a prefix of 128 bits can lie below 128 nodes of one bit each, and then the walk needs one
  element more.
\<close>

definition ones :: be32s where "ones i = - 1"

definition zeros :: be32s where "zeros i = 0"

fun ones_chain :: "nat \<Rightarrow> trie_node" where
  "ones_chain 0 = No_Node"
| "ones_chain (Suc k) = Trie_Node 0x80000000 1 1 No_Node (ones_chain k)"

lemma vbit_ones: "vbit ones i"
  by (simp add: vbit_def ones_def ntohl_ones)

lemma one_bit: "prefix_equal_bits 0x80000000 1 ones ofs = 1"
proof -
  have "\<not> prefix_equal_bits 0x80000000 1 ones ofs < 1"
    by (rule iffD2 [OF full_match]) (simp_all add: vbit_ones)
  moreover have "prefix_equal_bits 0x80000000 1 ones ofs \<le> 1" by (rule prefix_equal_bits(1) [OF _ refl]) simp
  ultimately show ?thesis by linarith
qed

lemma chain_equal_bits: "ofs < mlen \<Longrightarrow> trie_prefix_equal_bits (Trie_Node 0x80000000 1 r e0 e1) ones ofs mlen = 1"
  using one_bit [of ofs] by (auto simp: trie_prefix_equal_bits_def min_def)

lemma insert_ones_chain: "insert_walk ones (ofs + Suc k) (ones_chain k) ofs = ones_chain (Suc k)"
proof (induction k arbitrary: ofs)
  case 0
  have "trie_get_prefix ones ofs 1 = 0x80000000"
  proof (rule bit_word_eqI)
    fix i assume "i < LENGTH(32)"
    then show "bit (trie_get_prefix ones ofs 1) i = bit (0x80000000 :: u32) i"
      using bit_trie_get_prefix [of "31 - i" ones ofs 1] bit_exp_iff [where 'a = "32 word", of 31 i] by (auto simp: vbit_ones)
  qed
  then show ?case by (simp add: insert_walk.simps [of _ _ No_Node] trie_branch_create.simps [of _ _ 1, simplified])
next
  case (Suc k)
  then show ?case using Suc.IH [of "Suc ofs"] insert_walk_node [OF chain_equal_bits, of ofs "ofs + Suc (Suc k)"]
    by (simp add: vbit_ones)
qed

lemma remove_ones_chain: "2 \<le> k \<Longrightarrow> k \<le> 128 \<Longrightarrow> remove_walk ones 128 (ones_chain k) (128 - k) (129 - k) = None"
proof (induction k)
  case (Suc k)
  show ?case
  proof (cases "k = 1")
    case True
    then show ?thesis using remove_walk_node [OF chain_equal_bits, of 126 128 1 No_Node "ones_chain 1" 127]
      by (simp add: vbit_ones numeral_2_eq_2)
  next
    case False
    moreover have "128 - Suc k + 1 = 128 - k" "129 - Suc k + 1 = 129 - k" using Suc.prems by simp_all
    ultimately show ?thesis using Suc remove_walk_node [OF chain_equal_bits, of "128 - Suc k" 128 1 No_Node "ones_chain k" "129 - Suc k"]
      by (simp add: vbit_ones)
  qed
qed simp

lemma tcount_ones_chain: "tcount (ones_chain (Suc k)) (vbits ones ofs (ofs + Suc k)) = 1"
proof (induction k arbitrary: ofs)
  case (Suc k)
  show ?case using Suc [of "Suc ofs"] by (simp add: has_prefix_def vbit_ones)
qed (simp add: has_prefix_def vbit_ones)

definition deep_trie :: "nat \<Rightarrow> trie_node" where
  "deep_trie k = Trie_Node 0 0 0 (trie_branch_create zeros 0 1 1) (ones_chain k)"

lemma zero_bits: "trie_prefix_equal_bits (Trie_Node 0 0 r e0 e1) v ofs mlen = 0"
  using prefix_equal_bits(1) [OF _ refl, of 0 0 v ofs] by (simp add: trie_prefix_equal_bits_def)

lemma deep_trie_grows: "0 < k \<Longrightarrow> insert_walk ones (Suc k) (deep_trie k) 0 = deep_trie (Suc k)"
  using insert_walk_node [OF zero_bits, of ones "Suc k" 0 "trie_branch_create zeros 0 1 1" "ones_chain k" 0] insert_ones_chain [of 0 k]
  by (simp add: deep_trie_def vbit_ones)

lemma deep_trie_start: "insert_walk zeros 1 (insert_walk ones 1 No_Node 0) 0 = deep_trie 1"
proof -
  have o: "insert_walk ones 1 No_Node 0 = Trie_Node 0x80000000 1 1 No_Node No_Node" using insert_ones_chain [of 0 0] by simp
  have "trie_prefix_equal_bits (Trie_Node 0x80000000 1 1 No_Node No_Node) zeros 0 1 = 0" by code_simp
  from insert_walk_node [OF this] show ?thesis
    unfolding o by (simp add: deep_trie_def trie_get_prefix_def Let_def)
qed

lemma trie_remove_overrun:
  "let root = foldl (\<lambda>t (v, mlen). insert_walk v mlen t 0) No_Node ((ones, 1) # (zeros, 1) # map (Pair ones) [2..<129])
   in tcount root (vbits ones 0 128) = 1 \<and> remove_walk ones 128 root 0 0 = None"
proof -
  have "foldl (\<lambda>t (v, mlen). insert_walk v mlen t 0) (deep_trie 1) (map (Pair ones) [2..<Suc n]) = deep_trie n" if "1 \<le> n" for n
    using that
  proof (induction n rule: dec_induct)
    case (step n)
    then show ?case using deep_trie_grows [of n] by simp
  qed simp
  from this [of 128] have r: "foldl (\<lambda>t (v, mlen). insert_walk v mlen t 0) No_Node ((ones, 1) # (zeros, 1) # map (Pair ones) [2..<129]) = deep_trie 128"
    by (simp add: deep_trie_start [unfolded One_nat_def])
  have "tcount (deep_trie 128) (vbits ones 0 128) = 1"
    using tcount_ones_chain [of 127 0] by (simp add: deep_trie_def has_prefix_def vbit_ones)
  moreover have "remove_walk ones 128 (deep_trie 128) 0 0 = None"
    using remove_walk_node [OF zero_bits, of ones 128 0 "trie_branch_create zeros 0 1 1" "ones_chain 128" 0 0] remove_ones_chain [of 128]
    by (simp add: deep_trie_def vbit_ones)
  ultimately show ?thesis unfolding r Let_def by simp
qed

section \<open>Properties\<close>

text \<open>Counting bits in a way that evaluates quickly.\<close>

fun nat_bits :: "nat \<Rightarrow> nat" where
  "nat_bits n = (if n = 0 then 0 else n mod 2 + nat_bits (n div 2))"
declare nat_bits.simps [simp del]

lemma finite_bits: "finite {i. bit (n :: nat) i}"
proof (rule finite_subset [of _ "{..n}"])
  have "i \<le> n" if "bit n i" for i
  proof (rule ccontr)
    assume "\<not> i \<le> n"
    then have "n < 2 ^ i" using less_exp [of i] by linarith
    then show False using that by (simp add: bit_iff_odd)
  qed
  then show "{i. bit n i} \<subseteq> {..n}" by auto
qed simp

lemma popcount_nat: "nat_bits n = card {i. bit n i}"
proof (induction n rule: nat_bits.induct)
  case (1 n)
  show ?case
  proof (cases "n = 0")
    case False
    have "{i. bit n i} = (if odd n then {0} else {}) \<union> Suc ` {i. bit (n div 2) i}"
    proof (rule set_eqI)
      fix i show "i \<in> {i. bit n i} \<longleftrightarrow> i \<in> (if odd n then {0} else {}) \<union> Suc ` {i. bit (n div 2) i}"
        by (cases i) (auto simp: bit_0 bit_Suc)
    qed
    moreover have "finite {i. bit (n div 2) i}" by (rule finite_bits)
    ultimately show ?thesis using 1 False 
      by (simp add: nat_bits.simps [of n] card_image card_insert_if image_iff)  (auto simp: odd_iff_mod_2_eq_one)
  qed (simp add: nat_bits.simps)
qed

lemma count_1bits_nat [code]: "count_1bits x = nat_bits (unat x)"
proof -
  have "bit (unat x) i \<longleftrightarrow> bit x i" for i by (auto simp: bit_unsigned_iff dest: bit_imp_le_length)
  then have "Collect (bit (unat x)) = Collect (bit x)" by blast
  then show ?thesis unfolding count_1bits popcount_card popcount_nat by simp
qed

text \<open>
  C40. A prefix trie answers longest-prefix questions, and says which bits of the answer matter.  After any sequence of
  insertions and removals of rules, every removed rule being there and its prefix not too long for the array
  \<^verbatim>\<open>edges\<close>, the trie holds for each prefix the number of its rules, modulo 2^32.  For a flow that satisfies the
  prerequisites of the field, \<^verbatim>\<open>trie_lookup\<close> returns the length of the longest prefix of the flow that has rules, 0 if there
  is none; and every flow with the same first \<^verbatim>\<open>checkbits\<close> bits in the field gets the same answer.
\<close>

theorem trie_run_lookup:
  assumes "field_ok mf" "oks trie_event_ok trie_step es \<lparr>tr_field = Some mf, tr_root = No_Node\<rparr>" "mf_are_prereqs_ok mf flow"
  shows "\<exists>trie ml cb. run_steps trie_step es \<lparr>tr_field = Some mf, tr_root = No_Node\<rparr> = Some trie
    \<and> trie_counts trie = fold (trie_spec mf) es (\<lambda>_. 0)
    \<and> trie_lookup trie flow = Some (ml, cb)
    \<and> (ml = 0 \<or> trie_counts trie (vbits (flow_field flow mf) 0 ml) \<noteq> 0)
    \<and> (\<forall>l > ml. trie_counts trie (vbits (flow_field flow mf) 0 l) = 0)
    \<and> (\<forall>flow'. mf_are_prereqs_ok mf flow' \<and> vbits (flow_field flow' mf) 0 cb = vbits (flow_field flow mf) 0 cb
         \<longrightarrow> trie_lookup trie flow' = Some (ml, cb))"
proof -
  let ?e = "\<lparr>tr_field = Some mf, tr_root = No_Node\<rparr>"
  have "trie_inv mf ?e" "trie_counts ?e = (\<lambda>_. 0)" using assms(1) by (auto simp: trie_inv_def trie_counts_def)
  with trm.run_refines [OF _ assms(2), of mf] obtain trie where
    r: "run_steps trie_step es ?e = Some trie" "trie_inv mf trie" "trie_counts trie = fold (trie_spec mf) es (\<lambda>_. 0)" by auto
  obtain ml cb where l: "trie_lookup trie flow = Some (ml, cb)"
    using r(2) by (cases "trie_lookup trie flow") (auto simp: trie_lookup_def trie_inv_def)
  note s = trie_lookup_spec [OF r(2) l assms(3)]
  have "trie_lookup trie flow' = Some (ml, cb)"
    if "mf_are_prereqs_ok mf flow'" "vbits (flow_field flow' mf) 0 cb = vbits (flow_field flow mf) 0 cb" for flow'
    using that by (intro s(3)) (auto simp: vbits_def)
  then show ?thesis using r l s(1,2) by (metis linorder_not_less)
qed

definition example_field :: mf_field where
  "example_field = mf_fields ! MFF_IPV4_DST"

lemma example_field: "example_field = mf_entry 31 4 32 MFM_FULLY MFP_IPV4 True 37"
  by (simp add: example_field_def mf_fields_def)

definition example_match :: "u32 \<Rightarrow> u32 \<Rightarrow> minimatch" where
  "example_match addr m = minimatch_init \<lparr>ma_flow = (replicate FLOW_U32S 0)[37 := addr], ma_wc = (replicate FLOW_U32S 0)[37 := m]\<rparr>"

definition example_events :: "trie_event list" where
  "example_events = [Trie_Insert (example_match 0x0a 0xff), Trie_Insert (example_match 0x010a 0xffff),
     Trie_Insert (example_match 0x090a 0xffff), Trie_Remove (example_match 0x090a 0xffff)]"

abbreviation example_flow :: uflow where
  "example_flow \<equiv> (replicate FLOW_U32S 0)[21 := 8, 37 := 0x0203010a]"

theorem trie_run_lookup_witness:
  "\<exists>trie. run_steps trie_step example_events \<lparr>tr_field = Some example_field, tr_root = No_Node\<rparr> = Some trie
     \<and> trie_lookup trie example_flow = Some (16, 16) \<and> trie_counts trie (vbits (flow_field example_flow example_field) 0 16) = 1"
proof -
  define t where "t r = \<lparr>tr_field = Some example_field, tr_root = r\<rparr>" for r
  let ?t1 = "Trie_Node 0x0a000000 8 1 No_Node No_Node" and ?t2 = "Trie_Node 0x0a000000 8 1 (Trie_Node 0x01000000 8 1 No_Node No_Node) No_Node"
  let ?t3 = "Trie_Node 0x0a000000 8 1 (Trie_Node 0 4 0 (Trie_Node 0x10000000 4 1 No_Node No_Node) (Trie_Node 0x90000000 4 1 No_Node No_Node)) No_Node"
  have wf: "minimatch_wf (example_match a m)" for a m unfolding example_match_def by (rule minimatch_init_wf) simp
  have m: "example_match 0x0a 0xff = \<lparr>mt_flow = \<lparr>mf_map = 0x2000000000, mf_values = [0x0a]\<rparr>, mt_mask = \<lparr>mf_map = 0x2000000000, mf_values = [0xff]\<rparr>\<rparr>"
    "example_match 0x010a 0xffff = \<lparr>mt_flow = \<lparr>mf_map = 0x2000000000, mf_values = [0x010a]\<rparr>, mt_mask = \<lparr>mf_map = 0x2000000000, mf_values = [0xffff]\<rparr>\<rparr>"
    "example_match 0x090a 0xffff = \<lparr>mt_flow = \<lparr>mf_map = 0x2000000000, mf_values = [0x090a]\<rparr>, mt_mask = \<lparr>mf_map = 0x2000000000, mf_values = [0xffff]\<rparr>\<rparr>"
    by code_simp+
  have c0: "count_1bits (0x2000000000 AND (push_bit 37 1 - 1)) = 0" by code_simp
  have p: "minimatch_get_prefix \<lparr>mt_flow = \<lparr>mf_map = 0x2000000000, mf_values = [x]\<rparr>, mt_mask = mk\<rparr> example_field = (!) [x]" for x mk
    by (rule ext) (use c0 in \<open>simp add: minimatch_get_prefix_def example_field mf_entry_def\<close>)
  have l: "minimask_get_prefix_len \<lparr>mf_map = 0x2000000000, mf_values = [0xff]\<rparr> example_field = 8"
    "minimask_get_prefix_len \<lparr>mf_map = 0x2000000000, mf_values = [0xffff]\<rparr> example_field = 16" by code_simp+
  have s: "trie_step (Trie_Insert (example_match 0x0a 0xff)) (t No_Node) = Some (t ?t1)"
    "trie_step (Trie_Insert (example_match 0x010a 0xffff)) (t ?t1) = Some (t ?t2)"
    "trie_step (Trie_Insert (example_match 0x090a 0xffff)) (t ?t2) = Some (t ?t3)"
    "trie_step (Trie_Remove (example_match 0x090a 0xffff)) (t ?t3) = Some (t ?t2)"
    unfolding t_def m by (simp_all add: trie_insert_def trie_remove_def p l) code_simp+
  have fo: "field_ok example_field" by (simp add: field_ok_def example_field mf_entry_def)
  have lm: "minimask_get_prefix_len (mt_mask (example_match 0x0a 0xff)) example_field = 8"
    "minimask_get_prefix_len (mt_mask (example_match 0x010a 0xffff)) example_field = 16"
    "minimask_get_prefix_len (mt_mask (example_match 0x090a 0xffff)) example_field = 16" by (simp_all add: m l)
  have "rule_prefix example_field (example_match 0x090a 0xffff) = vbits ((!) [0x090a]) 0 16"
    using vbits_prefix [OF wf lm(3) fo] by (simp add: rule_prefix_def lm) (simp add: m p)
  moreover have "trie_counts (t ?t3) (vbits ((!) [0x090a]) 0 16) = 1" unfolding t_def by code_simp
  ultimately have c: "trie_counts (t ?t3) (rule_prefix example_field (example_match 0x090a 0xffff)) = 1" by simp
  have f: "tr_field (t r) = Some example_field" for r by (simp add: t_def)
  have "oks trie_event_ok trie_step example_events (t No_Node)"
    unfolding example_events_def by (simp add: s lm c wf f edges_fit_def del: trie_step.simps)
  moreover have "mf_are_prereqs_ok example_field example_flow" by code_simp
  ultimately obtain trie ml cb where r: "run_steps trie_step example_events (t No_Node) = Some trie"
    "trie_lookup trie example_flow = Some (ml, cb)" using trie_run_lookup [OF fo, of example_events example_flow] unfolding t_def by blast
  have "trie = t ?t2" using r(1) s by (simp add: example_events_def del: trie_step.simps)
  moreover have "trie_lookup (t ?t2) example_flow = Some (16, 16)" unfolding t_def by code_simp
  moreover have "trie_counts (t ?t2) (vbits (flow_field example_flow example_field) 0 16) = 1" unfolding t_def by code_simp
  ultimately show ?thesis using r(1) unfolding t_def by auto
qed

end
