(* ===== verification/Spec2Isabelle.thy ===== *)
theory Spec2Isabelle
  imports Sfa_Xlate Ovs_List Ovs_Byteq Ovs_Heap Ovs_Reconnect Ovs_Hmap_Iter Ovs_Simap Ovs_Smap Ovs_Sset Ovs_Shash Ovs_Csum
    Ovs_Token_Bucket Ovs_Bitwise Ovs_Mac_Refine Ovs_Miniflow Ovs_Tag Ovs_Hindex_Refine Ovs_Trie_Refine
begin

text \<open>
  A verification library for the SDPA switch, the version of Open vSwitch under
  \<^verbatim>\<open>src/sdpa-software/sdpa-ovs\<close> that keeps a state machine per flow in the data plane.  Paths below are
  relative to that directory.

  \<^bold>\<open>The program.\<close>  A controller sends SDPA messages (\<^verbatim>\<open>ofproto/sfa.c\<close>) that create, for an application,
  a state table, a transition table and an action table.  When an OpenFlow rule sends a packet to the
  state machine (\<^verbatim>\<open>OFPACT_GOTO_FP\<close> in \<^verbatim>\<open>ofproto/ofproto-dpif-xlate.c\<close>), \<^verbatim>\<open>xlate_fp\<close> computes a
  key from the packet, finds the state of the key, takes the first transition whose event holds, stores the new state
  and executes the action of the new state.  Tables are hash maps and lists of the Open vSwitch
  library, whose other data structures and protocol machines the switch uses for its connections and its packets.

  \<^bold>\<open>Theories.\<close>  Each has the operations in the order of the code, then its invariants and lemmas.
  \<^item> \<open>Sdpa_Prelude\<close>: machine integers, byte buffers, generic lemmas.  \<open>C_Int\<close>: signed
    arithmetic with undefined overflow, \<^verbatim>\<open>lib/sat-math.h\<close>.  \<open>Machine\<close>: runs of event-driven components;
    its locales state that every allowed event has a result that keeps the invariant, and that it refines a
    step of an abstract machine.
  \<^item> \<open>Ovs_List\<close>: \<^verbatim>\<open>lib/list.c\<close> on a memory of \<^verbatim>\<open>prev\<close> and \<^verbatim>\<open>next\<close> members.
  \<^item> \<open>Ovs_Hash\<close>: \<^verbatim>\<open>lib/hash.c\<close>.  \<open>Ovs_Hmap\<close> and \<open>Ovs_Hmap_Iter\<close>: \<^verbatim>\<open>lib/hmap.c\<close> on a
    list of chains, with resizing, the loops and the position-based iteration.
  \<^item> \<open>Sfa\<close>: the tables and the three message handlers of \<^verbatim>\<open>ofproto/sfa.c\<close>, reading messages byte by
    byte.  \<open>Sfa_Wire\<close>: the messages as the controller writes them
    (\<^verbatim>\<open>../sdpa-floodlight/src/main/java/org/sfa/protocol\<close>) and the effect of the handlers on them.  \<open>Sfa_Xlate\<close>: \<^verbatim>\<open>parse_match\<close>, the events, the actions and \<^verbatim>\<open>xlate_fp\<close>.
  \<^item> \<open>Ovs_Keyed\<close> and \<open>Ovs_Dict\<close>: hash maps that hold one node per key, and the contract of a dictionary,
    a locale that \<open>Ovs_Simap\<close>, \<open>Ovs_Smap\<close>, \<open>Ovs_Sset\<close> and \<open>Ovs_Shash\<close> (\<^verbatim>\<open>lib/simap.c\<close>, \<^verbatim>\<open>lib/smap.c\<close>,
    \<^verbatim>\<open>lib/sset.c\<close>, \<^verbatim>\<open>lib/shash.c\<close>) interpret.
  \<^item> \<open>Ovs_Byteq\<close>, \<open>Ovs_Heap\<close>: \<^verbatim>\<open>lib/byteq.c\<close> and \<^verbatim>\<open>lib/heap.c\<close> with the contracts of a bounded queue and of
    a priority queue.
  \<^item> \<open>Ovs_Reconnect\<close>, \<open>Ovs_Token_Bucket\<close>: the state machine of \<^verbatim>\<open>lib/reconnect.c\<close> and the rate limiter of
    \<^verbatim>\<open>lib/token-bucket.c\<close>, with the time as an argument.
  \<^item> \<open>Ovs_Csum\<close>, \<open>Ovs_Bitwise\<close>: \<^verbatim>\<open>lib/csum.c\<close> and the bit ranges of \<^verbatim>\<open>lib/util.c\<close>.
    \<open>Ovs_Bits\<close>, \<open>Ovs_Bitmap\<close>: single bits and counts of bits in \<^verbatim>\<open>lib/util.h\<close>, \<^verbatim>\<open>lib/bitmap.c\<close> and \<^verbatim>\<open>lib/vlan-bitmap.c\<close>.
  \<^item> \<open>Ovs_Mac_Learning\<close>, \<open>Ovs_Mac_Refine\<close>: \<^verbatim>\<open>lib/mac-learning.c\<close> on a hash map and a list in memory; the table as a
    sequence of entries in the order of their last use.
  \<^item> The structures of the flow classifier.  \<open>Ovs_Miniflow\<close>: wildcards, miniflows, minimasks and minimatches of \<^verbatim>\<open>lib/flow.c\<close> and
    \<^verbatim>\<open>lib/match.c\<close>, with their hashes in stages.  \<open>Ovs_Tag\<close>: \<^verbatim>\<open>lib/tag.c\<close>.  \<open>Ovs_Hindex\<close>, \<open>Ovs_Hindex_Refine\<close>: the hash index of
    \<^verbatim>\<open>lib/hindex.c\<close> on nodes in memory, its iteration and its contract.  \<open>Ovs_Meta_Flow\<close>: the table of fields of
    \<^verbatim>\<open>lib/meta-flow.c\<close>.  \<open>Ovs_Trie\<close>, \<open>Ovs_Trie_Refine\<close>: the prefix tries of \<^verbatim>\<open>lib/classifier.c\<close>, and what they say about
    the rules that were inserted.

  \<^bold>\<open>What is shown.\<close>  The properties C1, C2, ... stand in this theory and at the end of the theories of the components; each
  is introduced by a text with its number.  C1 to C9 are about the state machine: any interleaving of packets moves the
  state of each key as the packets of that key do; messages create and change exactly the tables they describe and keep them well formed
  whatever they contain; and three consequences of the code that its comments do not mention (the byte order of changes to
  the action table, the destination port, keys with one hash).  The others are about the library: hash
  map and list, dictionaries, heap, queue, checksums, bit ranges, bitmaps, and the time-driven machines, for which they include that
  a client that waits as long as it is told makes progress; the MAC learning table, which refines a sequence of entries with
  ages; and the structures of the classifier: compressed matches agree with the matches they stand for, their hashes in stages
  with the whole hash, the hash index refines a set of nodes, and a prefix trie gives the longest prefix of a value that a rule has, and
  enough bits of the value to decide it.

  \<^bold>\<open>Conventions.\<close>  An operation that can have no defined result in C is a function to an option; \<open>None\<close> is an access outside an
  object, a failed assertion, a signed overflow or a loop that does not end.  (Exceptions are two: a value that \<^verbatim>\<open>xlate_fp\<close> does not
  set is an inner \<open>None\<close>, and shifts of signed integers are those of gcc.)  Theorems state \<open>Some\<close>: they include that
  none of this happens.  Sizes are words of 32 bits where they are computed with and
  natural numbers where the address space bounds them; the bounds are hypotheses (\<open>2 ^ 32\<close> nodes, \<open>2 ^ 30\<close> buckets, \<open>2 ^ 31\<close> entries of a message,
  65537 bytes under a checksum, times up to \<open>2 ^ 62\<close> milliseconds), never fuel.  Loops are structural recursion, \<open>function\<close> with
  a termination proof, or \<open>partial_function\<close> with a theorem that they end.  Memory that \<^verbatim>\<open>xmalloc\<close> returns, random numbers, the clock and system calls are arguments.

  \<^bold>\<open>Not modelled.\<close>  Log output; the release of memory; locks and threads (the modelled code runs in one thread or under one lock);
  the hash of floating-point numbers; the conversions between maps and JSON; the names, headers and formats of match fields.  Of flow
  classification the structures above are modelled, not the subtables, the staged lookup and the priorities.  Left out as
  they are independent of the components above are the OpenFlow encoders, the kernel datapath, devices, the configuration database, the daemons
  and tools, and the controller apart from the messages it writes.
\<close>

section \<open>The state tables\<close>

lemma sfa_msg_init_exists:
  assumes "length hdr = 8" "sfa_wf s" "islistinit s \<longrightarrow> aid \<notin> appid ` set (appslist s)"
    "length sts < 2 ^ 31" "\<forall>(status, d) \<in> set sts. length d < 2 ^ 32" "length stts < 2 ^ 32"
    "length ats < 2 ^ 31" "\<forall>(ac, status, d) \<in> set ats. d \<noteq> [] \<and> length d < 2 ^ 32"
  shows "\<exists>app s'. sfa_msg_init 4 (hdr @ enc_init aid mmp sts stts bitmap ats) s = Some (SFA_MSG_PROCESS_OK, s')
    \<and> appslist s' = (if islistinit s then appslist s else []) @ [app] \<and> islistinit s'
    \<and> appid app = aid \<and> match_bitmap (pst app) = mmp
    \<and> content (st_entrys (pst app)) = mset (map st_entry_of sts)
    \<and> pstt app = stts \<and> at_bitmap (pat app) = bitmap
    \<and> content (at_entrys (pat app)) = mset (map at_entry_of ats)"
  using sfa_msg_init_enc [OF assms] by metis



text \<open>
  C5.  After any sequence of messages, of whatever content, that the switch survives,
  every application has its own id and well-formed tables: each entry sits in the bucket of
  the hash of its string, the counters and the addresses are right.
\<close>

theorem sfa_tables_invariant:
  assumes "sfa_reachable al s"
  shows "sfa_wf s"
  using assms by (rule sfa_reachable_wf)

lemma sfa_reachable_example:
  "\<exists>s. sfa_reachable 4 s \<and> length (appslist s) = 1"
proof -
  obtain app s' where s': "sfa_msg_init 4 ([4, 90, 0, 0, 0, 0, 0, 7] @ enc_init 1 32768 [(1, [65, 66])] [] 32768 [])
      \<lparr>islistinit = False, appslist = [], brk = 0\<rparr> = Some (SFA_MSG_PROCESS_OK, s')" "appslist s' = [app]"
    using sfa_msg_init_exists [of "[4, 90, 0, 0, 0, 0, 0, 7]" "\<lparr>islistinit = False, appslist = [], brk = 0\<rparr>" 1
      "[(1, [65, 66])]" "[]" "[]" 32768 32768] by (auto simp: sfa_wf_def)
  then have "sfa_handle_pkt 4 ([4, 90, 0, 0, 0, 0, 0, 7] @ enc_init 1 32768 [(1, [65, 66])] [] 32768 [])
      \<lparr>islistinit = False, appslist = [], brk = 0\<rparr> = Some (0, s')"
    by (simp add: sfa_handle_pkt_def)
  then have "sfa_reachable 4 s'" by (rule sfa_reachable.handle [OF sfa_reachable.start])
  then show ?thesis using s'(2) by auto
qed

theorem sfa_tables_invariant_witness: "\<exists>s. length (appslist s) = 1 \<and> sfa_reachable 4 s \<and> sfa_wf s"
  using sfa_reachable_example sfa_tables_invariant by blast

text \<open>
  C4.  A state-table change message refines the map from keys to states: the entries
  act one after the other as insertion of a new key, assignment to an existing key
  and deletion, and no other application changes.
\<close>

theorem sfa_st_mod_refines:
  assumes "length hdr = 8" "hdr ! 1 = 91" "sfa_wf s" "islistinit s" "find_app aid s = Some app"
    "one_per_key (st_entrys (pst app))" "length ops < 2 ^ 31" "\<forall>p \<in> set ops. length (st_op_str p) < 2 ^ 32"
  shows "\<exists>s' st'. sfa_handle_pkt al (hdr @ enc_st_mod aid ops) s = Some (0, s')
    \<and> find_app aid s' = Some (app\<lparr>pst := (pst app)\<lparr>st_entrys := st'\<rparr>\<rparr>)
    \<and> state_of st' = fold st_op_abs ops (state_of (st_entrys (pst app))) \<and> one_per_key st'
    \<and> (\<forall>i. i \<noteq> aid \<longrightarrow> find_app i s' = find_app i s)"
proof (rule sfa_msg_st_mod_enc [OF assms(1,3-8)])
  fix s' st'
  assume s': "sfa_msg_st_mod (hdr @ enc_st_mod aid ops) s = Some (SFA_MSG_PROCESS_OK, s')"
    "find_app aid s' = Some (app\<lparr>pst := (pst app)\<lparr>st_entrys := st'\<rparr>\<rparr>)"
    "state_of st' = fold st_op_abs ops (state_of (st_entrys (pst app)))" "one_per_key st'"
    "\<And>i. i \<noteq> aid \<Longrightarrow> find_app i s' = find_app i s"
  have "(hdr @ enc_st_mod aid ops) ! 1 = 91" using assms(1,2) by (simp add: nth_append)
  then show ?thesis using s' assms(1) by (intro exI [of _ s'] exI [of _ st']) (simp add: sfa_handle_pkt_def)
qed

definition empty_app :: CONTROLLAPP where
  "empty_app = \<lparr>appid = 1, pst = \<lparr>match_bitmap = 32768, st_entrys = hmap_init\<rparr>, pstt = [],
     pat = \<lparr>at_bitmap = 32768, at_entrys = hmap_init\<rparr>\<rparr>"

definition one_app :: APPS where
  "one_app = \<lparr>islistinit = True, appslist = [empty_app], brk = 0\<rparr>"

lemma hmap_first_node_init: "hmap_first_node hmap_init k = None"
  by (simp add: hmap_first_node_def hmap_first_with_hash_def hmap_init_def)

lemma one_app_facts [simp]:
  "sfa_wf one_app" "islistinit one_app" "find_app 1 one_app = Some empty_app"
  "one_per_key (st_entrys (pst empty_app))" "state_of (st_entrys (pst empty_app)) = (\<lambda>_. None)"
  by (auto simp: one_app_def empty_app_def sfa_wf_def app_wf_def table_wf_def find_app_def one_per_key_def
      hash_unique_def state_of_def hmap_first_node_init)

theorem sfa_st_mod_refines_witness:
  "\<exists>s' st'. sfa_handle_pkt 4 ([4, 91, 0, 0, 0, 0, 0, 7] @ enc_st_mod 1 [St_add 3 [65], St_update 5 [65]]) one_app = Some (0, s')
    \<and> find_app 1 s' = Some (empty_app\<lparr>pst := (pst empty_app)\<lparr>st_entrys := st'\<rparr>\<rparr>)
    \<and> state_of st' = [str_hash [65] \<mapsto> 5]"
  using sfa_st_mod_refines [of "[4, 91, 0, 0, 0, 0, 0, 7]" one_app 1 empty_app "[St_add 3 [65], St_update 5 [65]]" 4]
  by auto

lemma rd_host32_be: "rd_host32 (be32 t @ rest) 0 = Some (le_word (be32 t))"
  by (simp add: rd_host32_def rd_bytes_def)

text \<open>
  C6.  The type of an action-table change is compared in host byte order, so a change that
  the controller sends as an update or a deletion in network byte order is refused: the handler
  reports an error and the tables stay as they are.
\<close>

theorem sfa_at_mod_byte_order:
  assumes "length hdr = 8" "islistinit s" "find_app aid s = Some app" "n \<noteq> 0" "t = 1 \<or> t = 2"
  shows "sfa_msg_at_mod (hdr @ be32 aid @ be32 n @ be32 t @ rest) s = Some (SFA_MSG_PROCESS_ERROR, s)"
proof -
  define msg where "msg = hdr @ be32 aid @ be32 n @ be32 t @ rest"
  have m8: "8 \<le> length msg" "drop 8 msg = be32 aid @ be32 n @ be32 t @ rest" using assms(1) by (auto simp: msg_def)
  have m16: "16 \<le> length msg" "drop 16 msg = be32 t @ rest"
    using drop_block [OF m8(1), of "be32 aid @ be32 n"] m8(2) by auto
  have "rd_be32 msg 8 = Some aid" "rd_be32 msg 12 = Some n"
    using rd_drop(4) [OF m8(1)] rd_drop(1) [OF m8(1), of 4] m8(2) by (simp_all add: wire)
  moreover have "at_mod_entry msg 16 h a = Some (Inl ())" for h a
  proof -
    have "rd_host32 msg 16 = Some (le_word (be32 t))"
      using rd_drop(5) [OF m16(1)] m16(2) by (simp add: rd_host32_be)
    moreover have "le_word (be32 1) = (16777216 :: u32)" "le_word (be32 2) = (33554432 :: u32)" by code_simp+
    ultimately show ?thesis using assms(5) by (auto simp: at_mod_entry_def)
  qed
  moreover obtain k where "unat n = Suc k" using assms(4) by (cases "unat n") (auto simp: word_unat_eq_iff)
  moreover have "(put_app aid (pat_update (at_entrys_update (\<lambda>_. at_entrys (pat app)))) s)\<lparr>brk := brk s\<rparr> = s"
    using put_app_id [OF assms(3), of "pat_update (at_entrys_update (\<lambda>_. at_entrys (pat app)))"] by simp
  ultimately show ?thesis
    unfolding msg_def [symmetric] using assms(2,3) by (simp add: sfa_msg_at_mod_def)
qed

theorem sfa_at_mod_byte_order_witness:
  "sfa_msg_at_mod ([4, 92, 0, 0, 0, 0, 0, 7] @ be32 1 @ be32 1 @ be32 2 @ replicate 20 0) one_app
     = Some (SFA_MSG_PROCESS_ERROR, one_app)"
  by (rule sfa_at_mod_byte_order) simp_all

section \<open>The state machine on packets\<close>

text \<open>
  C2.  \<^verbatim>\<open>xlate_fp\<close> on a packet whose key is in the state table: the entry moves to the state of
  the first matching transition, an event without a transition leaves it alone, the packet
  gets the action of the first action entry for its key and the new state, a packet
  is stopped exactly by a drop action, and nothing else changes.
\<close>

theorem xlate_fp_step:
  assumes "fp_ready (ucast bitmap) app s"
    and "k = str_hash (key_str (xin_flow xin) (match_bitmap (pst app)))"
    and "state_of (st_entrys (pst app)) k = Some cur"
    and "n = fsm_next (pstt app) xin cur"
    and "e = at_choice (at_entrys (pat app)) (str_hash (key_str (xin_flow xin) (at_bitmap (pat app)))) n"
  shows "\<exists>s' st'. xlate_fp xin bitmap s = Some (fst (at_effect e xin), snd (at_effect e xin), s')
    \<and> find_app (ucast bitmap) s' = Some (app\<lparr>pst := (pst app)\<lparr>st_entrys := st'\<rparr>\<rparr>)
    \<and> state_of st' = (state_of (st_entrys (pst app)))(k \<mapsto> if n = 0 then cur else n)
    \<and> (\<forall>i. i \<noteq> ucast bitmap \<longrightarrow> find_app i s' = find_app i s)"
proof -
  obtain nd where nd: "hmap_first_node (st_entrys (pst app)) k = Some nd" "st_last_status (hn_data nd) = cur"
    using assms(3) by (auto simp: state_of_def)
  obtain ret xin' s' st' where run: "xlate_fp xin bitmap s = Some (ret, xin', s')"
    "fp_ready (ucast bitmap) (app\<lparr>pst := (pst app)\<lparr>st_entrys := st'\<rparr>\<rparr>) s'"
    "state_of st' = fsm_packet (match_bitmap (pst app)) (pstt app) xin (state_of (st_entrys (pst app)))"
    "\<forall>i. i \<noteq> ucast bitmap \<longrightarrow> find_app i s' = find_app i s"
    using xlate_fp_refines [OF assms(1), of xin] by blast
  have "islistinit s" "find_app (ucast bitmap) s = Some app" "key_ok (match_bitmap (pst app))" "key_ok (at_bitmap (pat app))"
    using assms(1) by (auto simp: fp_ready_def)
  from xlate_fp_found [OF this nd(1) [unfolded assms(2)]] have "(ret, xin') = at_effect e xin"
    using run(1) nd(2) assms(4,5) by (simp add: Let_def split: prod.splits)
  then have "fst (at_effect e xin) = ret" "snd (at_effect e xin) = xin'" by (metis fst_conv, metis snd_conv)
  moreover have "state_of st' = (state_of (st_entrys (pst app)))(k \<mapsto> if n = 0 then cur else n)"
    using run(3) assms(2-4) by (simp add: fsm_packet_def fsm_step_def)
  moreover have "find_app (ucast bitmap) s' = Some (app\<lparr>pst := (pst app)\<lparr>st_entrys := st'\<rparr>\<rparr>)"
    using run(2) by (simp add: fp_ready_def)
  ultimately show ?thesis using run(1,4) by blast
qed

text \<open>An application that drops a source that is in state 1 and moves it to state 2.\<close>

definition ex_flow :: flow where
  "ex_flow = \<lparr>fl_metadata = 0, fl_in_port = 1, fl_dl_type = 8, fl_vlan_tci = 0, fl_mpls_lse = 0, fl_ipv6_label = 0,
     fl_nw_src = 16777226, fl_nw_dst = 33554442, fl_nw_frag = 0, fl_nw_tos = 0, fl_nw_ttl = 64, fl_nw_proto = 6,
     fl_tcp_flags = 512, fl_tp_src = 20480, fl_tp_dst = 20480\<rparr>"

definition ex_xin :: xlate_in where
  "ex_xin = \<lparr>xin_flow = ex_flow, xin_tcp_flags = 2\<rparr>"

definition ex_key :: "u8 list" where
  "ex_key = key_str ex_flow 32768"

definition ex_st :: "ST_MATCH_ENTRY hmap" where
  "ex_st = \<lparr>hm_buckets = [[\<lparr>hn_addr = 0, hn_hash = str_hash ex_key,
     hn_data = \<lparr>st_data = ex_key @ [0, 0], st_last_status = 1\<rparr>\<rparr>]], hm_mask = 0, hm_n = 1\<rparr>"

definition ex_at :: "AT_MATCH_ENTRY hmap" where
  "ex_at = \<lparr>hm_buckets = [[\<lparr>hn_addr = 1, hn_hash = str_hash ex_key,
     hn_data = \<lparr>at_data = ex_key @ [0], at_last_status = 2, act = \<lparr>actype = 2, acparam = 0\<rparr>\<rparr>\<rparr>]], hm_mask = 0, hm_n = 1\<rparr>"

definition ex_app :: CONTROLLAPP where
  "ex_app = \<lparr>appid = 1, pst = \<lparr>match_bitmap = 32768, st_entrys = ex_st\<rparr>,
     pstt = [\<lparr>param_left_type = 9, param_left = 0, oprator = 1, param_right_type = 15, param_right = 2,
        stt_last_status = 1, stt_cur_status = 2\<rparr>],
     pat = \<lparr>at_bitmap = 32768, at_entrys = ex_at\<rparr>\<rparr>"

definition ex_apps :: APPS where
  "ex_apps = \<lparr>islistinit = True, appslist = [ex_app], brk = 2\<rparr>"

lemma ex_key_bits: "key_bits 32768 = [15]"
  by code_simp

lemma ex_table_wf: "table_wf st_data 2 ex_st" "table_wf at_data 2 ex_at"
  using hash_string_str_hash [of ex_key "[0]"] hash_string_str_hash [of ex_key "[]"]
  by (simp_all add: table_wf_def hmap_wf_def hmap_placed_def hmap_nodes_def ex_st_def ex_at_def is_pow2_def)

lemma ex_first: "hmap_first_node ex_st (str_hash ex_key) = Some (hd (hd (hm_buckets ex_st)))"
  by (simp add: hmap_first_node_def hmap_first_with_hash_def ex_st_def)

lemma ex_ready: "fp_ready 1 ex_app ex_apps"
  using ex_table_wf
  by (simp add: fp_ready_def ex_app_def ex_apps_def sfa_wf_def app_wf_def find_app_def key_ok_def ex_key_bits
      key_fields_def one_per_key_def hash_unique_def) (simp add: ex_st_def hmap_nodes_def)

lemma ex_state: "state_of (st_entrys (pst ex_app)) (str_hash (key_str (xin_flow ex_xin) (match_bitmap (pst ex_app)))) = Some 1"
  using ex_first by (simp add: ex_app_def state_of_def ex_xin_def ex_key_def [symmetric]) (simp add: ex_st_def)

lemma ex_next: "fsm_next (pstt ex_app) ex_xin 1 = 2"
  by (simp add: fsm_next_def ex_app_def stt_event_def get_event_def get_event_param_def ex_xin_def)

lemma ex_choice: "at_choice (at_entrys (pat ex_app)) (str_hash (key_str (xin_flow ex_xin) (at_bitmap (pat ex_app)))) 2
    = Some \<lparr>at_data = ex_key @ [0], at_last_status = 2, act = \<lparr>actype = 2, acparam = 0\<rparr>\<rparr>"
  by (simp add: at_choice_def ex_app_def ex_xin_def ex_key_def [symmetric] nodes_with_hash_def ex_at_def)

theorem xlate_fp_step_witness:
  "\<exists>s' st'. xlate_fp ex_xin 1 ex_apps = Some (Some 1, ex_xin, s')
    \<and> find_app 1 s' = Some (ex_app\<lparr>pst := (pst ex_app)\<lparr>st_entrys := st'\<rparr>\<rparr>) \<and> state_of st' (str_hash ex_key) = Some 2"
proof -
  have "fp_ready (ucast (1 :: u8)) ex_app ex_apps" using ex_ready by simp
  from xlate_fp_step [OF this refl ex_state refl refl] show ?thesis
    unfolding ex_next ex_choice by (auto simp: at_effect_def ex_key_def ex_app_def ex_xin_def)
qed

text \<open>
  C1.  Over any sequence of packets for one application, whatever their keys and however they
  are interleaved, \<^verbatim>\<open>xlate_fp\<close> always completes, and the state of each key is what its own
  packets, in their order, make of it.
\<close>

theorem xlate_fp_sequence:
  assumes "fp_ready (ucast bitmap) app s"
  shows "\<exists>s' st'. run_fp bitmap xins s = Some s'
    \<and> find_app (ucast bitmap) s' = Some (app\<lparr>pst := (pst app)\<lparr>st_entrys := st'\<rparr>\<rparr>)
    \<and> (\<forall>k. state_of st' k = map_option
        (fold (fsm_step (pstt app)) (filter (\<lambda>xin. str_hash (key_str (xin_flow xin) (match_bitmap (pst app))) = k) xins))
        (state_of (st_entrys (pst app)) k))"
proof -
  obtain s' st' where "run_fp bitmap xins s = Some s'"
    "fp_ready (ucast bitmap) (app\<lparr>pst := (pst app)\<lparr>st_entrys := st'\<rparr>\<rparr>) s'"
    "state_of st' = fold (fsm_packet (match_bitmap (pst app)) (pstt app)) xins (state_of (st_entrys (pst app)))"
    using run_fp_refines [OF assms, of xins] by blast
  then show ?thesis by (intro exI [of _ s'] exI [of _ st']) (simp add: fp_ready_def fsm_packets_key)
qed

theorem xlate_fp_sequence_witness:
  "\<exists>s' st'. run_fp 1 [ex_xin, ex_xin] ex_apps = Some s'
    \<and> find_app 1 s' = Some (ex_app\<lparr>pst := (pst ex_app)\<lparr>st_entrys := st'\<rparr>\<rparr>)"
proof -
  have "fp_ready (ucast (1 :: u8)) ex_app ex_apps" using ex_ready by simp
  from xlate_fp_sequence [OF this, of "[ex_xin, ex_xin]"] show ?thesis by auto
qed

text \<open>
  C7.  The key of a packet is the concatenation of the selected fields in the order of their
  numbers; building it never overflows the buffer of 1024 bytes.
\<close>

theorem parse_match_key:
  assumes "key_ok bitmap"
  shows "parse_match f bitmap = Some (Some (concat (map (field_str f) (filter (bit bitmap) [0..<26]))))
    \<and> length (concat (map (field_str f) (filter (bit bitmap) [0..<26]))) < 1024"
proof -
  have "length (key_bits bitmap) \<le> 26"
    using length_filter_le [of "bit bitmap" "[0..<26]"] by (simp add: key_bits_def)
  then have "length (key_str f bitmap) < 1024" using key_str_length [OF assms, of f] by simp
  then show ?thesis using parse_match_some [OF assms, of f] by (simp add: key_str_def key_bits_def)
qed

theorem parse_match_key_witness:
  "parse_match ex_flow 32768 = Some (Some [49, 48, 46, 48, 46, 48, 46, 49])"
proof -
  have "key_ok 32768" by (simp add: key_ok_def ex_key_bits key_fields_def)
  from parse_match_key [OF this, of ex_flow] show ?thesis
    unfolding key_bits_def [symmetric] ex_key_bits
    by (simp add: field_str_def match_field_def ex_flow_def inet_ntoa_def dec.simps)
qed

text \<open>
  C8.  The loop of \<^verbatim>\<open>parse_match\<close> ends before field 26: the destination port of a packet is never
  part of a key, whatever the bitmap.
\<close>

theorem parse_match_ignores_tp_dst:
  "parse_match (f\<lparr>fl_tp_dst := p\<rparr>) bitmap = parse_match f bitmap"
proof -
  have "\<forall>i \<in> set is. i < 26 \<Longrightarrow> parse_match_loop (f\<lparr>fl_tp_dst := p\<rparr>) bitmap is m = parse_match_loop f bitmap is m" for "is" m
  proof (induction "is" arbitrary: m)
    case (Cons i "is")
    then have "match_field (f\<lparr>fl_tp_dst := p\<rparr>) i = match_field f i" by (simp add: match_field_def)
    with Cons show ?case by (simp split: option.splits bind_splits)
  qed simp
  then show ?thesis by (simp add: parse_match_def)
qed

lemma colliding_keys:
  assumes "fl_nw_src f = 4132438026" "fl_nw_src g = 2306408714"
  shows "key_str f 32768 \<noteq> key_str g 32768" "str_hash (key_str f 32768) = str_hash (key_str g 32768)"
    "parse_match f 32768 = Some (Some (key_str f 32768))" "parse_match g 32768 = Some (Some (key_str g 32768))"
proof -
  have ok: "key_ok 32768" by (simp add: key_ok_def ex_key_bits key_fields_def)
  then show "parse_match f 32768 = Some (Some (key_str f 32768))" "parse_match g 32768 = Some (Some (key_str g 32768))"
    by (rule parse_match_some)+
  have key: "key_str h 32768 = inet_ntoa (fl_nw_src h)" for h
    by (simp add: key_str_def ex_key_bits field_str_def match_field_def)
  have addrs: "inet_ntoa 4132438026 = [49, 48, 46, 48, 46, 56, 48, 46, 50, 52, 54]" "inet_ntoa 2306408714 = [49, 48, 46, 49, 46, 49, 50, 49, 46, 49, 51, 55]"
    by (simp_all add: inet_ntoa_def dec.simps)
  show "key_str f 32768 \<noteq> key_str g 32768" by (simp add: key assms addrs)
  have "str_hash [49, 48, 46, 48, 46, 56, 48, 46, 50, 52, 54] = str_hash [49, 48, 46, 49, 46, 49, 50, 49, 46, 49, 51, 55]" by code_simp
  then show "str_hash (key_str f 32768) = str_hash (key_str g 32768)" by (simp add: key assms addrs)
qed

text \<open>
  C9.  The tables compare hashes and never the strings.  In an application that keeps a state per source address, let \<open>nd\<close> be
  the entry of the source 10.0.80.246, stored with its string \<open>x\<close>.  A packet from 10.1.121.137, whose key \<open>y\<close> is another
  string, finds this entry, and \<^verbatim>\<open>xlate_fp\<close> moves its state: the two sources share it.
\<close>

theorem xlate_fp_hash_collision:
  assumes "fp_ready (ucast bitmap) app s" "match_bitmap (pst app) = 32768"
    and "fl_nw_src f = 4132438026" "fl_nw_src (xin_flow xin) = 2306408714"
    and "parse_match f 32768 = Some (Some x)" "parse_match (xin_flow xin) 32768 = Some (Some y)"
    and "nd \<in> set (hmap_nodes (st_entrys (pst app)))" "st_data (hn_data nd) = x @ [0, 0]"
  shows "x \<noteq> y \<and> (\<exists>ret xin' s' st'. xlate_fp xin bitmap s = Some (ret, xin', s')
    \<and> find_app (ucast bitmap) s' = Some (app\<lparr>pst := (pst app)\<lparr>st_entrys := st'\<rparr>\<rparr>)
    \<and> nd\<lparr>hn_data := (hn_data nd)\<lparr>st_last_status := fsm_step (pstt app) xin (st_last_status (hn_data nd))\<rparr>\<rparr> \<in> set (hmap_nodes st'))"
proof -
  note keys = colliding_keys [OF assms(3,4)]
  have xy: "x = key_str f 32768" "y = key_str (xin_flow xin) 32768" using keys(3,4) assms(5,6) by simp_all
  have "app \<in> set (appslist s)" "sfa_wf s" using assms(1) find_app_mem by (auto simp: fp_ready_def)
  then have "hash_string (st_data (hn_data nd)) 0 = Some (hn_hash nd)" using assms(7) by (auto simp: sfa_wf_def app_wf_def table_wf_def)
  then have "hn_hash nd = str_hash (key_str (xin_flow xin) (match_bitmap (pst app)))"
    using assms(2,8) keys(2) xy(1) hash_string_str_hash [of x "[0]"] by simp
  from xlate_fp_entry [OF assms(1,7) this] show ?thesis using keys(1) xy by blast
qed

text \<open>The application of the examples above, with the entry of the first source.\<close>

definition shared_flow :: "u32 \<Rightarrow> flow" where
  "shared_flow a = ex_flow\<lparr>fl_nw_src := a\<rparr>"

definition shared_node :: "ST_MATCH_ENTRY hmap_node" where
  "shared_node = \<lparr>hn_addr = 0, hn_hash = str_hash (key_str (shared_flow 4132438026) 32768),
     hn_data = \<lparr>st_data = key_str (shared_flow 4132438026) 32768 @ [0, 0], st_last_status = 1\<rparr>\<rparr>"

definition shared_app :: CONTROLLAPP where
  "shared_app = ex_app\<lparr>pst := \<lparr>match_bitmap = 32768, st_entrys = \<lparr>hm_buckets = [[shared_node]], hm_mask = 0, hm_n = 1\<rparr>\<rparr>\<rparr>"

lemma shared_ready: "fp_ready 1 shared_app (ex_apps\<lparr>appslist := [shared_app]\<rparr>)"
proof -
  have "table_wf st_data 2 (st_entrys (pst shared_app))"
    using hash_string_str_hash [of "key_str (shared_flow 4132438026) 32768" "[0]"]
    by (simp add: table_wf_def hmap_wf_def hmap_placed_def hmap_nodes_def shared_app_def shared_node_def is_pow2_def)
  then show ?thesis using ex_ready ex_table_wf(2)
    by (auto simp: fp_ready_def shared_app_def ex_app_def ex_apps_def sfa_wf_def app_wf_def find_app_def one_per_key_def
        hash_unique_def hmap_nodes_def)
qed

theorem xlate_fp_hash_collision_witness:
  "\<exists>ret xin' s' st'. xlate_fp (ex_xin\<lparr>xin_flow := shared_flow 2306408714\<rparr>) 1 (ex_apps\<lparr>appslist := [shared_app]\<rparr>) = Some (ret, xin', s')
    \<and> find_app 1 s' = Some (shared_app\<lparr>pst := (pst shared_app)\<lparr>st_entrys := st'\<rparr>\<rparr>)
    \<and> shared_node\<lparr>hn_data := \<lparr>st_data = key_str (shared_flow 4132438026) 32768 @ [0, 0], st_last_status = 2\<rparr>\<rparr> \<in> set (hmap_nodes st')"
proof -
  let ?xin = "ex_xin\<lparr>xin_flow := shared_flow 2306408714\<rparr>"
  have src: "fl_nw_src (shared_flow 4132438026) = 4132438026" "fl_nw_src (xin_flow ?xin) = 2306408714" by (simp_all add: shared_flow_def)
  have ready: "fp_ready (ucast (1 :: u8)) shared_app (ex_apps\<lparr>appslist := [shared_app]\<rparr>)" using shared_ready by simp
  have bm: "match_bitmap (pst shared_app) = 32768" by (simp add: shared_app_def)
  have nd: "shared_node \<in> set (hmap_nodes (st_entrys (pst shared_app)))" "st_data (hn_data shared_node) = key_str (shared_flow 4132438026) 32768 @ [0, 0]"
    by (simp_all add: shared_app_def shared_node_def hmap_nodes_def)
  have "fsm_step (pstt shared_app) ?xin 1 = 2"
    by (simp add: fsm_step_def fsm_next_def shared_app_def ex_app_def stt_event_def get_event_def get_event_param_def ex_xin_def)
  then show ?thesis
    using xlate_fp_hash_collision [OF ready bm src colliding_keys(3,4) [OF src] nd] by (simp add: shared_node_def)
qed

section \<open>The hash map\<close>

text \<open>
  C10.  Insertion never fails its assertion: it adds the node, keeps the map well formed and at
  least one bucket for every two nodes, and a search for the hash then finds, among the
  nodes stored under it, the first that satisfies the client's condition.
\<close>

theorem hmap_insert_lookup:
  assumes "hmap_wf h" "hn_addr nd \<notin> hn_addr ` set (hmap_nodes h)" "P (nd\<lparr>hn_hash := hash\<rparr>)"
  shows "\<exists>h'. hmap_insert_at h nd hash = Some h' \<and> hmap_wf h'
    \<and> mset (hmap_nodes h') = add_mset (nd\<lparr>hn_hash := hash\<rparr>) (mset (hmap_nodes h))
    \<and> hm_n h' div 2 \<le> hm_mask h'
    \<and> (\<exists>x. hmap_for_each_with_hash P hash h' = Some x \<and> P x \<and> hn_hash x = hash \<and> x \<in> set (hmap_nodes h'))"
proof (rule hmap_insert [OF assms(1,2), of hash])
  fix h'
  assume h': "hmap_insert_at h nd hash = Some h'" "hmap_wf h'"
    "mset (hmap_nodes h') = add_mset (nd\<lparr>hn_hash := hash\<rparr>) (mset (hmap_nodes h))" "hm_n h' div 2 \<le> hm_mask h'"
  have eq: "nodes_with_hash h' hash = filter (\<lambda>x. hn_hash x = hash) (hmap_nodes h')"
    using h'(2) by (intro nodes_with_hash_eq) (simp add: hmap_wf_def)
  have "nd\<lparr>hn_hash := hash\<rparr> \<in> set (hmap_nodes h')" using h'(3) by (metis set_mset_mset union_single_eq_member)
  then have "find P (nodes_with_hash h' hash) \<noteq> None"
    using assms(3) unfolding eq find_None_iff by (auto intro!: exI [of _ "nd\<lparr>hn_hash := hash\<rparr>"])
  then obtain x where x: "find P (nodes_with_hash h' hash) = Some x" by auto
  then have "P x" "x \<in> set (nodes_with_hash h' hash)" by (auto simp: find_Some_iff)
  then show ?thesis using h' x unfolding eq by (auto simp: hmap_for_each_with_hash_eq eq)
qed

theorem hmap_insert_lookup_witness:
  "\<exists>h'. hmap_insert_at hmap_init \<lparr>hn_addr = 3, hn_hash = 0, hn_data = True\<rparr> 77 = Some h'
    \<and> mset (hmap_nodes h') = {#\<lparr>hn_addr = 3, hn_hash = 77, hn_data = True\<rparr>#}
    \<and> (\<exists>x. hmap_for_each_with_hash hn_data 77 h' = Some x \<and> hn_data x)"
  using hmap_insert_lookup [of hmap_init "\<lparr>hn_addr = 3, hn_hash = 0, hn_data = True\<rparr>" hn_data 77] by auto

text \<open>
  C11.  \<^verbatim>\<open>HMAP_FOR_EACH\<close> ends, and visits every node of the map exactly once.
\<close>

theorem hmap_for_each_complete:
  assumes "hmap_wf h"
  shows "\<exists>xs. hmap_for_each h = Some xs \<and> mset xs = mset (hmap_nodes h) \<and> distinct (map hn_addr xs)"
  using hmap_for_each_eq [OF assms] assms by (simp add: hmap_wf_def)

theorem hmap_for_each_complete_witness: "\<exists>xs. hmap_for_each ex_st = Some xs \<and> length xs = 1"
  using hmap_for_each_complete [of ex_st] ex_table_wf(1)
  by (auto simp: table_wf_def ex_st_def hmap_nodes_def dest!: mset_eq_length)

text \<open>
  The mask \<^verbatim>\<open>calc_mask\<close> chooses is a power of two minus one, with at least one bucket for every
  two nodes of the capacity, and less than four times as many, or four.
\<close>

lemma calc_mask_power_of_two:
  "\<exists>k \<le> 31. unat (calc_mask c) = 2 ^ k - 1 \<and> is_pow2 (ucast (calc_mask c + 1))
    \<and> unat c div 2 \<le> unat (calc_mask c) \<and> unat (calc_mask c) \<le> max 3 (2 * (unat c div 2))"
  using calc_mask_unat [of c] is_pow2_calc_mask [of c] by metis

text \<open>
  Changing the size of the table in either direction keeps the map well formed with
  exactly the same nodes, and never fails the assertion of \<^verbatim>\<open>resize\<close>; a capacity to reserve must be below \<open>2 ^ 30\<close>.
\<close>

lemma hmap_resize_preserves:
  assumes "hmap_wf h" "resized = hmap_expand_at h \<or> resized = hmap_shrink_at h \<or> resized = hmap_reserve_at h c"
    "unat c < 2 ^ 30"
  shows "\<exists>h'. resized = Some h' \<and> hmap_wf h' \<and> mset (hmap_nodes h') = mset (hmap_nodes h)"
  using assms(2) hmap_expand [OF assms(1)] hmap_shrink [OF assms(1)] hmap_reserve [OF assms(1,3)] by metis

text \<open>
  C12.  Removing a node that a search found takes exactly that node out of the map.
\<close>

theorem hmap_remove_found:
  assumes "hmap_wf h" "hmap_for_each_with_hash P hash h = Some nd"
  shows "\<exists>h'. hmap_remove h nd = Some h' \<and> hmap_wf h'
    \<and> mset (hmap_nodes h) = add_mset nd (mset (hmap_nodes h')) \<and> \<not> hmap_contains h' nd"
proof -
  have "hmap_placed h" using assms(1) by (simp add: hmap_wf_def)
  then have "nd \<in> set (hmap_nodes h)"
    using assms(2) unfolding hmap_for_each_with_hash_eq nodes_with_hash_eq [OF \<open>hmap_placed h\<close>]
    by (auto simp: find_Some_iff dest!: nth_mem)
  then obtain h' where h': "hmap_remove h nd = Some h'" "hmap_wf h'" "mset (hmap_nodes h) = add_mset nd (mset (hmap_nodes h'))"
    using hmap_remove [OF assms(1)] by metis
  have "distinct (map hn_addr (nd # hmap_nodes h'))"
    using assms(1) same_nodes_distinct [of "hmap_nodes h" "nd # hmap_nodes h'" hn_addr] h'(3) by (simp add: hmap_wf_def)
  then have "hn_addr nd \<notin> hn_addr ` set (hmap_nodes h')" by simp
  then have "\<not> hmap_contains h' nd" unfolding hmap_contains_iff [OF h'(2)] by (metis image_eqI)
  with h' show ?thesis by blast
qed

theorem hmap_remove_found_witness:
  "\<exists>h'. hmap_remove ex_st (hd (hd (hm_buckets ex_st))) = Some h' \<and> hmap_nodes h' = []"
proof -
  have wf: "hmap_wf ex_st" using ex_table_wf(1) by (simp add: table_wf_def)
  have "hmap_for_each_with_hash (\<lambda>_. True) (str_hash ex_key) ex_st = Some (hd (hd (hm_buckets ex_st)))"
    using ex_first by (simp add: hmap_first_node_search)
  from hmap_remove_found [OF wf this] show ?thesis by (auto simp: ex_st_def hmap_nodes_def)
qed

section \<open>The doubly linked list\<close>

text \<open>
  Pushing elements to the back of an initialised list and scanning it with
  \<^verbatim>\<open>LIST_FOR_EACH\<close> finds the first match in the order of the pushes; the loop always ends.
\<close>

lemma list_pushed_scan:
  assumes "distinct (l # es)"
  shows "list_for_each P l (fold (list_push_back l) es (list_init l m)) = Some (find P es)
    \<and> list_size l (fold (list_push_back l) es (list_init l m)) = Some (of_nat (length es))"
  using ovs_list.scan_pushed [OF assms] ovs_list.push_all [OF is_list_init, of es l m] assms
  by (auto simp: is_list_size)

text \<open>
  \<^verbatim>\<open>list_splice\<close> moves a segment of one list in front of an element of another list
  and leaves both lists well linked.
\<close>

lemma list_splice_moves:
  assumes "is_list m l (xs @ mid @ ys)" "is_list m k (us @ vs)"
    "set (l # xs @ mid @ ys) \<inter> set (k # us @ vs) = {}" "mid \<noteq> []"
  shows "is_list (list_splice (hd (vs @ [k])) (hd mid) (hd (ys @ [l])) m) l (xs @ ys)
    \<and> is_list (list_splice (hd (vs @ [k])) (hd mid) (hd (ys @ [l])) m) k (us @ mid @ vs)"
  using is_list_splice [OF assms] by blast

section \<open>The hash functions\<close>

text \<open>
  C13.  Keys of the same length that differ inside one aligned block of four bytes, or in the last incomplete one,
  never collide.
\<close>

theorem hash_bytes_block_injective:
  assumes "length as mod 4 = 0" "length xs = length ys" "length xs = 4 \<or> length xs < 4 \<and> bs = []"
  shows "hash_bytes (as @ xs @ bs) basis = hash_bytes (as @ ys @ bs) basis \<longleftrightarrow> xs = ys"
  by (rule hash_bytes_block_inj [OF assms])

theorem hash_bytes_block_injective_witness:
  "hash_bytes ([1, 2, 3, 4] @ [5, 6, 7, 8] @ [9]) 0 \<noteq> hash_bytes ([1, 2, 3, 4] @ [5, 6, 7, 9] @ [9]) 0"
  using hash_bytes_block_injective [of "[1, 2, 3, 4]" "[5, 6, 7, 8]" "[5, 6, 7, 9]" "[9]" 0] by simp

end
